(* ===== verification/Prelude.thy ===== *)
theory Prelude
  imports Main "HOL-Library.Word"
begin

text \<open>
  Shared vocabulary of the development: the C integer types of
  \<^verbatim>\<open>kernel/src/include/types.h\<close> as machine words, the address constants of
  \<^verbatim>\<open>kernel/src/include/arch.h\<close>, byte and word views of memory, and the
  generic facts on words, bits, folds and lists that the component theories use. Two named
  collections carry the component proofs: \<open>kframe\<close> (what an operation leaves alone)
  and \<open>kinv\<close> (which operation keeps which invariant).
\<close>

unbundle bit_operations_syntax

named_theorems kframe "state an operation leaves unchanged"
named_theorems kinv "invariants an operation keeps"

section \<open>C integer types\<close>

type_synonym u8 = "8 word"
type_synonym u16 = "16 word"
type_synonym u32 = "32 word"

text \<open>A byte memory (by address), and a memory of aligned 32-bit cells.\<close>

type_synonym bmem = "u32 \<Rightarrow> u8"
type_synonym wmem = "u32 \<Rightarrow> u32"

text \<open>
  \<^verbatim>\<open>KERNEL_VIRTUAL_BASE\<close> and \<^verbatim>\<open>KERNEL_PAGE_NUMBER\<close>, the
  first page directory slot of the kernel half.
\<close>

definition KERNEL_VIRTUAL_BASE :: u32 where
  "KERNEL_VIRTUAL_BASE = 0xC0000000"

definition KERNEL_PAGE_NUMBER :: nat where
  "KERNEL_PAGE_NUMBER = unat (drop_bit 22 KERNEL_VIRTUAL_BASE)"

lemma KERNEL_PAGE_NUMBER_eq: "KERNEL_PAGE_NUMBER = 768"
  by (simp add: KERNEL_PAGE_NUMBER_def KERNEL_VIRTUAL_BASE_def drop_bit_eq_div)

section \<open>Bits of words\<close>

text \<open>
  The C mask \<^verbatim>\<open>1 << n\<close> is \<^term>\<open>push_bit n 1\<close>, which the simplifier
  writes \<^term>\<open>2 ^ n\<close>: the rules below are stated for that form.
\<close>

lemma and_exp_eq_0 [simp]:
  fixes w :: "'a::len word"
  shows "w AND 2 ^ n = 0 \<longleftrightarrow> \<not> bit w n"
proof -
  have *: "bit (w AND 2 ^ n) m \<longleftrightarrow> bit w n \<and> m = n" for m
    by (auto simp: bit_simps dest: bit_imp_le_length)
  show ?thesis
  proof
    assume "w AND 2 ^ n = 0"
    with * [of n] show "\<not> bit w n" by simp
  next
    assume "\<not> bit w n"
    then show "w AND 2 ^ n = 0" by (intro bit_word_eqI) (simp add: *)
  qed
qed

lemma bit_and_not_exp [simp]:
  fixes w :: "'a::len word"
  shows "bit (w AND NOT (2 ^ n)) m \<longleftrightarrow> m \<noteq> n \<and> bit w m"
  by (auto simp: bit_simps dest: bit_imp_le_length)

lemma bit_or_exp [simp]:
  fixes w :: "'a::len word"
  shows "bit (w OR 2 ^ n) m \<longleftrightarrow> (m = n \<and> n < LENGTH('a)) \<or> bit w m"
  by (auto simp: bit_simps)

lemma word_eq_0_iff_bits:
  fixes w :: "'a::len word"
  shows "w = 0 \<longleftrightarrow> (\<forall>n < LENGTH('a). \<not> bit w n)"
  by (auto simp: bit_eq_iff bit_simps dest: bit_imp_le_length)

text \<open>Low-bit masks are \<^const>\<open>take_bit\<close>.\<close>

lemma and_0xFF: "(w :: 'a::len word) AND 0xFF = take_bit 8 w"
  by (simp add: take_bit_eq_mask mask_eq_exp_minus_1)

lemma and_0x0F: "(w :: 'a::len word) AND 0x0F = take_bit 4 w"
  by (simp add: take_bit_eq_mask mask_eq_exp_minus_1)

lemma take_bit_word_small: "w < 2 ^ n \<Longrightarrow> take_bit n w = (w :: 'a::len word)"
  by (simp add: take_bit_eq_mask less_mask_eq)

section \<open>Words and numbers\<close>

lemma unat_ucast_mod: "unat (ucast (x :: 'a::len word) :: 'b::len word) = unat x mod 2 ^ LENGTH('b)"
  by (simp add: unsigned_ucast_eq take_bit_eq_mod)

lemma unat_of_nat_small:
  "n < 2 ^ LENGTH('a) \<Longrightarrow> unat (of_nat n :: 'a::len word) = n"
  by (simp add: unat_of_nat take_bit_nat_eq_self)

lemma unat_add_small:
  fixes x :: "'a::len word"
  assumes "unat x + n < 2 ^ LENGTH('a)"
  shows "unat (x + of_nat n) = unat x + n"
  using assms by (simp add: unat_word_ariths unat_of_nat_small)

lemma of_nat_unatI: "unat (x :: 'a::len word) = n \<Longrightarrow> x = of_nat n"
  by auto

lemma unat_of_nat_diff:
  assumes "a < 2 ^ 32" and "b < 2 ^ 32"
  shows "unat (of_nat a - of_nat b :: u32) = (if b \<le> a then a - b else a + 2 ^ 32 - b)"
  using assms by (simp add: unat_sub_if_size unat_of_nat_small word_le_nat_alt word_size)

text \<open>A signed reading of a word.\<close>

lemma sint_signed:
  fixes x :: "'a::len word"
  shows "sint x = (if uint x < 2 ^ (LENGTH('a) - 1) then uint x else uint x - 2 ^ LENGTH('a))"
proof -
  define n where "n = LENGTH('a) - 1"
  have n: "LENGTH('a) = Suc n" by (simp add: n_def)
  have x: "0 \<le> uint x" "uint x < 2 * 2 ^ n" using unsigned_less [of x, where 'a = int] by (simp_all add: n)
  have "odd (uint x div 2 ^ n) \<longleftrightarrow> \<not> uint x < 2 ^ n"
  proof (cases "uint x < 2 ^ n")
    case False
    then have "uint x div 2 ^ n = 1" using x by (intro int_div_pos_eq [of _ _ _ "uint x - 2 ^ n"]) auto
    then show ?thesis using False by simp
  qed (use x in \<open>simp add: div_pos_pos_trivial\<close>)
  moreover have "take_bit (Suc n) (uint x) = uint x" using x by (simp add: take_bit_int_eq_self)
  ultimately show ?thesis
    unfolding sint_uint using signed_take_bit_eq_take_bit_minus [of n "uint x"] by (simp add: n bit_iff_odd)
qed

lemma offset_inj:
  fixes a :: "'a::len word"
  assumes "a + of_nat i = a + of_nat j" "i < 2 ^ LENGTH('a)" "j < 2 ^ LENGTH('a)"
  shows "i = j"
proof -
  have "unat (of_nat i :: 'a word) = unat (of_nat j :: 'a word)" using assms(1) by simp
  then show ?thesis using assms(2,3) by (simp add: unat_of_nat_small)
qed

section \<open>Counted loops\<close>

text \<open>
  A C loop \<^verbatim>\<open>for (i = a; i < b; i++) body(i)\<close> over a state is a fold
  over \<^term>\<open>[a..<b]\<close>. The rule below is the loop-invariant rule for it.
\<close>

lemma fold_upt_inv:
  assumes "P a s" and "\<And>i s. a \<le> i \<Longrightarrow> i < b \<Longrightarrow> P i s \<Longrightarrow> P (Suc i) (f i s)" and "a \<le> b"
  shows "P b (fold f [a..<b] s)"
  using assms(3,2)
proof (induction b rule: dec_induct)
  case base
  then show ?case using assms(1) by simp
next
  case (step n)
  then have "P n (fold f [a..<n] s)" by simp
  with step show ?case by simp
qed

lemma fold_keeps:
  assumes "\<And>i s. i \<in> set xs \<Longrightarrow> g (f i s) = g s"
  shows "g (fold f xs s) = g s"
  using assms by (induction xs arbitrary: s) auto

lemma fold_preserves:
  assumes "P s" and "\<And>i s. i \<in> set xs \<Longrightarrow> P s \<Longrightarrow> P (f i s)"
  shows "P (fold f xs s)"
  using assms by (induction xs arbitrary: s) auto

end
