(* ===== verification/KString.thy ===== *)
theory KString
  imports Prelude
begin

text \<open>
  Byte memory and the kernel's string library, \<^verbatim>\<open>kernel/src/kilb/string.c\<close>.

  Pointers are 32-bit words into a byte memory; a C \<^verbatim>\<open>int\<close> count is an
  \<^typ>\<open>int\<close>, so a negative count runs no iteration. The loops that stop at a NUL
  byte may run forever on memory without one: they are \<open>partial_function (option)\<close>,
  and their theorems say that they return. \<^verbatim>\<open>char\<close> is signed on this target.
\<close>

section \<open>Little-endian loads and stores\<close>

definition ld16 :: "bmem \<Rightarrow> u32 \<Rightarrow> u16" where
  "ld16 m a = ucast (m a) OR push_bit 8 (ucast (m (a + 1)))"

definition st16 :: "u32 \<Rightarrow> u16 \<Rightarrow> bmem \<Rightarrow> bmem" where
  "st16 a v m = m(a := ucast v, a + 1 := ucast (drop_bit 8 v))"

definition ld32 :: "bmem \<Rightarrow> u32 \<Rightarrow> u32" where
  "ld32 m a = ucast (m a) OR push_bit 8 (ucast (m (a + 1))) OR
     push_bit 16 (ucast (m (a + 2))) OR push_bit 24 (ucast (m (a + 3)))"

definition st32 :: "u32 \<Rightarrow> u32 \<Rightarrow> bmem \<Rightarrow> bmem" where
  "st32 a v m = m(a := ucast v, a + 1 := ucast (drop_bit 8 v),
     a + 2 := ucast (drop_bit 16 v), a + 3 := ucast (drop_bit 24 v))"

lemma bit_ld32:
  "bit (ld32 m a) n \<longleftrightarrow>
     (n < 8 \<and> bit (m a) n \<or> 8 \<le> n \<and> n < 16 \<and> bit (m (a + 1)) (n - 8) \<or>
      16 \<le> n \<and> n < 24 \<and> bit (m (a + 2)) (n - 16) \<or> 24 \<le> n \<and> n < 32 \<and> bit (m (a + 3)) (n - 24))"
  unfolding ld32_def by (auto simp: bit_simps dest: bit_imp_le_length)

lemma ld32_st32 [simp]: "ld32 (st32 a v m) a = v"
proof (rule bit_word_eqI)
  fix n assume n: "n < LENGTH(32)"
  have "24 + (n - 24) = n" if "24 \<le> n" using that by simp
  moreover have "16 + (n - 16) = n" if "16 \<le> n" using that by simp
  moreover have "8 + (n - 8) = n" if "8 \<le> n" using that by simp
  ultimately show "bit (ld32 (st32 a v m) a) n = bit v n"
    using n unfolding bit_ld32 st32_def
    by (cases "n < 8"; cases "n < 16"; cases "n < 24") (simp_all add: bit_simps, linarith+)
qed

lemma ld16_st16 [simp]: "ld16 (st16 a v m) a = v"
  by (rule bit_word_eqI) (auto simp: ld16_def st16_def bit_simps)

text \<open>Aligned cells: two different multiples of 4 do not overlap.\<close>

definition aligned4 :: "u32 \<Rightarrow> bool" where
  "aligned4 a \<longleftrightarrow> unat a mod 4 = 0"

lemma aligned4_unat:
  assumes "aligned4 a" "i < 4"
  shows "unat (a + of_nat i) = unat a + i"
proof (rule unat_add_small)
  have "unat a < 2 ^ 32" using unsigned_less [of a] by simp
  then show "unat a + i < 2 ^ LENGTH(32)" using assms unfolding aligned4_def by simp presburger
qed

lemma aligned4_ne:
  assumes "aligned4 a" "aligned4 b" "a \<noteq> b" "i < 4" "j < (4::nat)"
  shows "a + of_nat i \<noteq> b + of_nat j"
proof
  assume "a + of_nat i = b + of_nat j"
  then have "unat a + i = unat b + j" using aligned4_unat assms by metis
  then have "unat a = unat b" using assms unfolding aligned4_def by presburger
  then show False using assms(3) by (simp add: word_unat_eq_iff)
qed

lemma ld32_st32_other:
  assumes "aligned4 a" "aligned4 b" "a \<noteq> b"
  shows "ld32 (st32 a v m) b = ld32 m b"
proof -
  have "st32 a v m (b + of_nat j) = m (b + of_nat j)" if "j < 4" for j :: nat
    using that aligned4_ne [OF assms, of 0 j] aligned4_ne [OF assms, of 1 j]
      aligned4_ne [OF assms, of 2 j] aligned4_ne [OF assms, of 3 j]
    by (auto simp: st32_def)
  from this [of 0] this [of 1] this [of 2] this [of 3] show ?thesis
    by (simp add: ld32_def)
qed

section \<open>The string library\<close>

definition memcpy_step :: "u32 \<Rightarrow> u32 \<Rightarrow> nat \<Rightarrow> bmem \<Rightarrow> bmem" where
  "memcpy_step dest src i m = m(dest + of_nat i := m (src + of_nat i))"

definition memcpy :: "u32 \<Rightarrow> u32 \<Rightarrow> int \<Rightarrow> bmem \<Rightarrow> bmem" where
  "memcpy dest src count m = fold (memcpy_step dest src) [0..<nat count] m"

definition memset :: "u32 \<Rightarrow> u8 \<Rightarrow> int \<Rightarrow> bmem \<Rightarrow> bmem" where
  "memset dest val count m = fold (\<lambda>i m. m(dest + of_nat i := val)) [0..<nat count] m"

definition memsetw :: "u32 \<Rightarrow> u16 \<Rightarrow> int \<Rightarrow> bmem \<Rightarrow> bmem" where
  "memsetw dest val count m = fold (\<lambda>i. st16 (dest + 2 * of_nat i) val) [0..<nat count] m"

partial_function (option) strlen_loop :: "bmem \<Rightarrow> u32 \<Rightarrow> nat \<Rightarrow> int option" where
  "strlen_loop m str cnt =
     (if m (str + of_nat cnt) \<noteq> 0 then strlen_loop m str (Suc cnt) else Some (int cnt))"

definition strlen :: "bmem \<Rightarrow> u32 \<Rightarrow> int option" where
  "strlen m str = strlen_loop m str 0"

partial_function (option) strcmp_loop :: "bmem \<Rightarrow> u32 \<Rightarrow> u32 \<Rightarrow> nat \<Rightarrow> int option" where
  "strcmp_loop m str1 str2 i =
     (let c1 = m (str1 + of_nat i); c2 = m (str2 + of_nat i)
      in if c1 \<noteq> 0 \<and> c2 \<noteq> 0 then
           (if c1 \<noteq> c2 then Some (if sint c1 < sint c2 then - (int i + 1) else int i + 1)
            else strcmp_loop m str1 str2 (Suc i))
         else if c1 \<noteq> 0 then Some (- (int i + 1))
         else if c2 \<noteq> 0 then Some (int i + 1)
         else Some 0)"

definition strcmp :: "bmem \<Rightarrow> u32 \<Rightarrow> u32 \<Rightarrow> int option" where
  "strcmp m str1 str2 = strcmp_loop m str1 str2 0"

partial_function (option) strcpy_loop :: "u32 \<Rightarrow> u32 \<Rightarrow> nat \<Rightarrow> bmem \<Rightarrow> bmem option" where
  "strcpy_loop destination source i m =
     (if m (source + of_nat i) \<noteq> 0
      then strcpy_loop destination source (Suc i) (m(destination + of_nat i := m (source + of_nat i)))
      else Some (m(destination + of_nat i := 0)))"

definition strcpy :: "u32 \<Rightarrow> u32 \<Rightarrow> bmem \<Rightarrow> bmem option" where
  "strcpy destination source m = strcpy_loop destination source 0 m"

function memcmp_loop :: "bmem \<Rightarrow> u32 \<Rightarrow> u32 \<Rightarrow> nat \<Rightarrow> nat \<Rightarrow> int" where
  "memcmp_loop m s1 s2 i n =
     (if i < n then
        (if m (s1 + of_nat i) \<noteq> m (s2 + of_nat i)
         then uint (m (s1 + of_nat i)) - uint (m (s2 + of_nat i))
         else memcmp_loop m s1 s2 (Suc i) n)
      else 0)"
  by pat_completeness auto
termination
  by (relation "measure (\<lambda>(m, s1, s2, i, n). n - i)") auto

definition memcmp :: "bmem \<Rightarrow> u32 \<Rightarrow> u32 \<Rightarrow> int \<Rightarrow> int" where
  "memcmp m s1 s2 n = memcmp_loop m s1 s2 0 (nat n)"

declare memcmp_loop.simps [simp del]

section \<open>Address ranges\<close>

text \<open>
  The bytes \<open>a, a + 1, ..., a + n - 1\<close>, with the wrap-around of 32-bit addresses.
\<close>

definition span :: "u32 \<Rightarrow> nat \<Rightarrow> u32 set" where
  "span a n = (\<lambda>i. a + of_nat i) ` {..<n}"

lemma span_mem: "x \<in> span a n \<longleftrightarrow> (\<exists>i<n. x = a + of_nat i)"
  by (auto simp: span_def)

lemma memset_effect:
  "memset d v n m x = (if x \<in> span d (nat n) then v else m x)"
proof -
  have "\<forall>x. fold (\<lambda>i m. m(d + of_nat i := v)) [0..<k] m x = (if x \<in> span d k then v else m x)" for k
  proof (induction k)
    case (Suc k)
    then show ?case by (auto simp: span_mem less_Suc_eq)
  qed (simp add: span_def)
  then show ?thesis by (simp add: memset_def)
qed

lemma memset_zero_ld32:
  assumes "\<forall>j<4. a + of_nat j \<in> span d (nat n)"
  shows "ld32 (memset d 0 n m) a = 0"
  using assms [rule_format, of 0] assms [rule_format, of 1] assms [rule_format, of 2]
    assms [rule_format, of 3]
  by (simp add: ld32_def memset_effect)

lemma memset_frame_ld32:
  assumes "\<forall>j<4. a + of_nat j \<notin> span d (nat n)"
  shows "ld32 (memset d v n m) a = ld32 m a"
  using assms [rule_format, of 0] assms [rule_format, of 1] assms [rule_format, of 2]
    assms [rule_format, of 3]
  by (simp add: ld32_def memset_effect)

text \<open>
  A forward byte copy is right as soon as no store hits a source byte that is still to be read.
\<close>

definition forward_safe :: "u32 \<Rightarrow> u32 \<Rightarrow> nat \<Rightarrow> bool" where
  "forward_safe dest src n \<longleftrightarrow> (\<forall>j<n. \<forall>i<j. dest + of_nat i \<noteq> src + of_nat j)"

lemma memcpy_step_apply:
  "memcpy_step dest src i m x = (if x = dest + of_nat i then m (src + of_nat i) else m x)"
  by (simp add: memcpy_step_def)

lemma copy_loop_effect:
  assumes "forward_safe dest src n" "n \<le> 2 ^ 32" "k \<le> n"
  shows "(\<forall>i<k. fold (memcpy_step dest src) [0..<k] m (dest + of_nat i) = m (src + of_nat i)) \<and>
    (\<forall>x. x \<notin> span dest k \<longrightarrow> fold (memcpy_step dest src) [0..<k] m x = m x)"
  using assms(3)
proof (induction k)
  case (Suc k)
  define m' where "m' = fold (memcpy_step dest src) [0..<k] m"
  have ih: "\<forall>i<k. m' (dest + of_nat i) = m (src + of_nat i)" "\<forall>x. x \<notin> span dest k \<longrightarrow> m' x = m x"
    using Suc by (simp_all add: m'_def)
  have "src + of_nat k \<notin> span dest k"
    using assms(1) Suc.prems unfolding forward_safe_def span_mem
    by (metis Suc_le_eq)
  then have k: "m' (src + of_nat k) = m (src + of_nat k)" using ih by simp
  have ne: "dest + of_nat i \<noteq> dest + of_nat k" if "i < k" for i
    using offset_inj [of dest i k] that Suc.prems assms(2) by auto
  have last: "fold (memcpy_step dest src) [0..<Suc k] m = memcpy_step dest src k m'"
    by (simp add: m'_def)
  show ?case
    unfolding last using ih k ne by (auto simp: less_Suc_eq span_mem memcpy_step_apply)
qed (simp add: span_def)

lemma memcpy_effect:
  assumes "forward_safe dest src (nat n)" "n \<le> 2 ^ 32"
  shows "i < nat n \<Longrightarrow> memcpy dest src n m (dest + of_nat i) = m (src + of_nat i)"
    and "x \<notin> span dest (nat n) \<Longrightarrow> memcpy dest src n m x = m x"
  using copy_loop_effect [OF assms(1) _ order_refl, of m] assms(2) unfolding memcpy_def by auto

lemma forward_safe_disjoint:
  assumes "span dest n \<inter> span src n = {}"
  shows "forward_safe dest src n"
proof -
  have "dest + of_nat i \<in> span dest n" "src + of_nat i \<in> span src n" if "i < n" for i
    using that by (auto simp: span_mem)
  then show ?thesis using assms unfolding forward_safe_def by (metis disjoint_iff less_trans)
qed

section \<open>C strings\<close>

fun cstr_at :: "bmem \<Rightarrow> u32 \<Rightarrow> u8 list \<Rightarrow> bool" where
  "cstr_at m a [] \<longleftrightarrow> m a = 0"
| "cstr_at m a (x # xs) \<longleftrightarrow> m a = x \<and> x \<noteq> 0 \<and> cstr_at m (a + 1) xs"

lemma cstr_at_nth:
  "cstr_at m a xs \<longleftrightarrow>
     (\<forall>i<length xs. m (a + of_nat i) = xs ! i \<and> xs ! i \<noteq> 0) \<and> m (a + of_nat (length xs)) = 0"
proof (induction xs arbitrary: a)
  case (Cons x xs)
  have "(\<forall>i<length (x # xs). m (a + of_nat i) = (x # xs) ! i \<and> (x # xs) ! i \<noteq> 0) \<longleftrightarrow>
      m a = x \<and> x \<noteq> 0 \<and> (\<forall>i<length xs. m (a + 1 + of_nat i) = xs ! i \<and> xs ! i \<noteq> 0)"
    by (auto simp: less_Suc_eq_0_disj add.assoc)
  then show ?case by (simp add: Cons.IH add.assoc)
qed simp

lemma strlen_loop_ok:
  "cstr_at m (a + of_nat i) xs \<Longrightarrow> strlen_loop m a i = Some (int (i + length xs))"
proof (induction xs arbitrary: i)
  case Nil
  then show ?case by (subst strlen_loop.simps) simp
next
  case (Cons x xs)
  then show ?case using Cons.IH [of "Suc i"] by (subst strlen_loop.simps) (simp add: ac_simps)
qed

lemma strlen_ok: "cstr_at m a xs \<Longrightarrow> strlen m a = Some (int (length xs))"
  using strlen_loop_ok [of m a 0 xs] by (simp add: strlen_def)

text \<open>The comparison as a function of the two strings; \<open>i\<close> counts the equal bytes.\<close>

fun strcmp_list :: "nat \<Rightarrow> u8 list \<Rightarrow> u8 list \<Rightarrow> int" where
  "strcmp_list i (x # xs) (y # ys) =
     (if x \<noteq> y then (if sint x < sint y then - (int i + 1) else int i + 1)
      else strcmp_list (Suc i) xs ys)"
| "strcmp_list i (x # xs) [] = - (int i + 1)"
| "strcmp_list i [] (y # ys) = int i + 1"
| "strcmp_list i [] [] = 0"

lemma strcmp_loop_ok:
  assumes "cstr_at m (a + of_nat i) xs" "cstr_at m (b + of_nat i) ys"
  shows "strcmp_loop m a b i = Some (strcmp_list i xs ys)"
  using assms
proof (induction i xs ys rule: strcmp_list.induct)
  case (1 i x xs y ys)
  then show ?case by (subst strcmp_loop.simps) (auto simp: Let_def ac_simps)
qed (subst strcmp_loop.simps, simp add: Let_def)+

lemma strcmp_ok:
  "cstr_at m a xs \<Longrightarrow> cstr_at m b ys \<Longrightarrow> strcmp m a b = Some (strcmp_list 0 xs ys)"
  using strcmp_loop_ok [of m a 0 xs b ys] by (simp add: strcmp_def)

lemma strcmp_list_0: "strcmp_list i xs ys = 0 \<longleftrightarrow> xs = ys"
  by (induction i xs ys rule: strcmp_list.induct) auto

lemma strcmp_list_diff:
  "x \<noteq> y \<Longrightarrow> strcmp_list i (p @ x # xs) (p @ y # ys) < 0 \<longleftrightarrow> sint x < sint y"
  by (induction p arbitrary: i) auto

lemma strcmp_list_longer: "strcmp_list i (ys @ z # zs) ys < 0"
  by (induction ys arbitrary: i) auto

lemma strcmp_list_shorter: "strcmp_list i ys (ys @ z # zs) > 0"
  by (induction ys arbitrary: i) auto

lemma strcpy_loop_ok:
  assumes "\<forall>i j. i \<le> length (ps @ xs) \<and> j \<le> length (ps @ xs) \<longrightarrow> d + of_nat i \<noteq> s + of_nat j"
    and "length (ps @ xs) < 2 ^ 32" and "cstr_at m (s + of_nat (length ps)) xs"
  shows "\<exists>m'. strcpy_loop d s (length ps) m = Some m' \<and>
    (\<forall>i<length xs. m' (d + of_nat (length ps + i)) = xs ! i) \<and>
    m' (d + of_nat (length ps + length xs)) = 0 \<and>
    (\<forall>x. (\<forall>i. length ps \<le> i \<and> i \<le> length ps + length xs \<longrightarrow> x \<noteq> d + of_nat i) \<longrightarrow> m' x = m x)"
  using assms
proof (induction xs arbitrary: ps m)
  case Nil
  then show ?case by (subst strcpy_loop.simps) auto
next
  case (Cons x xs)
  let ?n = "length ps" and ?m = "m(d + of_nat (length ps) := x)"
  have "cstr_at ?m (s + of_nat (length (ps @ [x]))) xs"
    unfolding cstr_at_nth
  proof (intro conjI allI impI)
    have s: "?m (s + of_nat (Suc ?n) + of_nat i) = m (s + of_nat (Suc ?n) + of_nat i)"
      if "i \<le> length xs" for i
      using Cons.prems(1) [rule_format, of ?n "Suc ?n + i"] that by (simp add: ac_simps)
    have c: "cstr_at m (s + of_nat (Suc ?n)) xs" using Cons.prems(3) by (simp add: ac_simps)
    fix i assume "i < length xs"
    then show "?m (s + of_nat (length (ps @ [x])) + of_nat i) = xs ! i" "xs ! i \<noteq> 0"
      using s [of i] c [unfolded cstr_at_nth] by auto
  next
    show "?m (s + of_nat (length (ps @ [x])) + of_nat (length xs)) = 0"
      using Cons.prems(1) [rule_format, of ?n "Suc ?n + length xs"] Cons.prems(3)
      by (simp add: cstr_at_nth ac_simps)
  qed
  from Cons.IH [OF _ _ this] Cons.prems obtain m' where
    m': "strcpy_loop d s (Suc ?n) ?m = Some m'"
      "\<forall>i<length xs. m' (d + of_nat (Suc ?n + i)) = xs ! i"
      "m' (d + of_nat (Suc ?n + length xs)) = 0"
      "\<forall>x. (\<forall>i. Suc ?n \<le> i \<and> i \<le> Suc ?n + length xs \<longrightarrow> x \<noteq> d + of_nat i) \<longrightarrow> m' x = ?m x"
    by (auto simp del: fun_upd_apply)
  have "d + of_nat ?n \<noteq> d + of_nat i" if "Suc ?n \<le> i \<and> i \<le> Suc ?n + length xs" for i
    using offset_inj [of d ?n i] that Cons.prems(2) by auto
  then have "m' (d + of_nat ?n) = x" using m'(4) by simp
  then have "m' (d + of_nat (?n + i)) = (x # xs) ! i" if "i < length (x # xs)" for i
    using m'(2) that by (cases i) auto
  moreover have "m' y = m y"
    if "\<forall>i. ?n \<le> i \<and> i \<le> ?n + length (x # xs) \<longrightarrow> y \<noteq> d + of_nat i" for y
    using m'(4) [rule_format, of y] that by (auto simp del: of_nat_Suc)
  ultimately show ?case
    using m'(1,3) Cons.prems(3) by (subst strcpy_loop.simps) auto
qed

lemma memcmp_loop_0:
  "memcmp_loop m s1 s2 i n = 0 \<longleftrightarrow> (\<forall>k. i \<le> k \<and> k < n \<longrightarrow> m (s1 + of_nat k) = m (s2 + of_nat k))"
proof (induction m s1 s2 i n rule: memcmp_loop.induct)
  case (1 m s1 s2 i n)
  have "(\<forall>k. i \<le> k \<and> k < n \<longrightarrow> P k) \<longleftrightarrow> (i < n \<longrightarrow> P i) \<and> (\<forall>k. Suc i \<le> k \<and> k < n \<longrightarrow> P k)" for P
    by (metis Suc_leD Suc_leI le_neq_implies_less le_refl)
  from this [of "\<lambda>k. m (s1 + of_nat k) = m (s2 + of_nat k)"] 1 show ?case
    by (subst memcmp_loop.simps) (auto simp: word_uint_eq_iff)
qed

section \<open>Properties\<close>

text \<open>Memory with \<^verbatim>\<open>"ab"\<close> at 16, \<^verbatim>\<open>"a"\<close> at 32, and NUL bytes elsewhere.\<close>

definition demo_mem :: bmem where
  "demo_mem = (\<lambda>_. 0)(16 := 97, 17 := 98, 32 := 97)"

lemma demo_mem_strings: "cstr_at demo_mem 16 [97, 98]" "cstr_at demo_mem 32 [97]"
  by (simp_all add: demo_mem_def)

text \<open>
  The kernel's \<^verbatim>\<open>strcmp\<close> returns on every pair of NUL-terminated strings, returns 0
  exactly for equal strings, and at a first difference its sign follows the order of signed
  characters. When one string is a proper prefix of the other the sign is the opposite of
  C's: the longer string compares less.
\<close>

theorem strcmp_correct:
  assumes "cstr_at m a xs" and "cstr_at m b ys"
  shows "\<exists>r. strcmp m a b = Some r \<and> (r = 0 \<longleftrightarrow> xs = ys) \<and>
    (\<forall>p x y us vs. xs = p @ x # us \<and> ys = p @ y # vs \<and> x \<noteq> y \<longrightarrow> (r < 0 \<longleftrightarrow> sint x < sint y)) \<and>
    (\<forall>z zs. xs = ys @ z # zs \<longrightarrow> r < 0) \<and> (\<forall>z zs. ys = xs @ z # zs \<longrightarrow> r > 0)"
  using strcmp_ok [OF assms]
  by (auto simp: strcmp_list_0 strcmp_list_diff strcmp_list_longer strcmp_list_shorter)

theorem strcmp_correct_witness:
  "cstr_at demo_mem 16 [97, 98] \<and> cstr_at demo_mem 32 [97] \<and> (\<exists>r. strcmp demo_mem 16 32 = Some r \<and> r < 0)"
  using strcmp_correct [OF demo_mem_strings] demo_mem_strings by auto

text \<open>
  \<^verbatim>\<open>strcpy\<close> between disjoint buffers returns, leaves the same string at the
  destination and at the source, touches only the destination bytes up to and including the
  NUL, and \<^verbatim>\<open>strlen\<close> of the copy is the length of the string.
\<close>

theorem strcpy_correct:
  assumes "cstr_at m s xs" and "length xs < 2 ^ 32"
    and "span d (Suc (length xs)) \<inter> span s (Suc (length xs)) = {}"
  shows "\<exists>m'. strcpy d s m = Some m' \<and> cstr_at m' d xs \<and> cstr_at m' s xs \<and>
    strlen m' d = Some (int (length xs)) \<and> (\<forall>x. x \<notin> span d (Suc (length xs)) \<longrightarrow> m' x = m x)"
proof -
  have dis: "d + of_nat i \<noteq> s + of_nat j" if "i \<le> length xs" "j \<le> length xs" for i j
    using assms(3) that by (metis disjoint_iff le_imp_less_Suc span_mem)
  obtain m' where m': "strcpy d s m = Some m'" "\<forall>i<length xs. m' (d + of_nat i) = xs ! i"
    "m' (d + of_nat (length xs)) = 0"
    and frame: "\<forall>x. (\<forall>i. i \<le> length xs \<longrightarrow> x \<noteq> d + of_nat i) \<longrightarrow> m' x = m x"
    using strcpy_loop_ok [of "[]" xs d s m] assms(1,2) dis by (auto simp: strcpy_def)
  have fr: "m' x = m x" if "x \<notin> span d (Suc (length xs))" for x
    using frame that by (auto simp: span_mem less_Suc_eq_le)
  have d: "cstr_at m' d xs" using m' assms(1) by (simp add: cstr_at_nth)
  have "m' (s + of_nat j) = m (s + of_nat j)" if "j \<le> length xs" for j
    using frame dis that by metis
  then have "cstr_at m' s xs" using assms(1) by (simp add: cstr_at_nth)
  then show ?thesis using m'(1) fr d strlen_ok [OF d] by auto
qed

theorem strcpy_correct_witness:
  "\<exists>m'. strcpy 64 16 demo_mem = Some m' \<and> cstr_at m' 64 [97, 98]"
proof -
  have "span 64 (Suc (length [97, 98 :: u8])) \<inter> span 16 (Suc (length [97, 98 :: u8])) = {}"
    by (auto simp: span_mem less_Suc_eq)
  then show ?thesis using strcpy_correct [OF demo_mem_strings(1), of 64] by auto
qed

end
