(* ===== verification/LibcString.thy ===== *)
theory LibcString
  imports KString
begin

text \<open>
  The strings and character classes of the user C library, \<^verbatim>\<open>libc/src/string.c\<close> and
  \<^verbatim>\<open>libc/src/ctype.c\<close>, over the byte memory of \<^verbatim>\<open>KString\<close>. Names the
  kernel's library uses too carry the suffix \<open>_u\<close>. A pointer result is a 32-bit word with 0 for
  the null pointer; loops that stop at a NUL byte are \<open>partial_function (option)\<close>, and the
  lemmas say that they return.
\<close>

section \<open>Blocks of bytes\<close>

definition memcpy_u :: "u32 \<Rightarrow> u32 \<Rightarrow> int \<Rightarrow> bmem \<Rightarrow> bmem" where
  "memcpy_u dest src count m = fold (memcpy_step dest src) [0..<nat count] m"

definition memmove :: "u32 \<Rightarrow> u32 \<Rightarrow> int \<Rightarrow> bmem \<Rightarrow> bmem" where
  "memmove dest src count m =
     (if dest < src then fold (memcpy_step dest src) [0..<nat count] m
      else fold (memcpy_step dest src) (rev [0..<nat count]) m)"

definition memset_u :: "u32 \<Rightarrow> u32 \<Rightarrow> int \<Rightarrow> bmem \<Rightarrow> bmem" where
  "memset_u dest val count m = fold (\<lambda>i m. m(dest + of_nat i := ucast val)) [0..<nat count] m"

function memcmp_u_loop :: "bmem \<Rightarrow> u32 \<Rightarrow> u32 \<Rightarrow> nat \<Rightarrow> nat \<Rightarrow> int" where
  "memcmp_u_loop m a b i n =
     (if i < n then
        (if m (a + of_nat i) \<noteq> m (b + of_nat i) then uint (m (a + of_nat i)) - uint (m (b + of_nat i))
         else memcmp_u_loop m a b (Suc i) n)
      else 0)"
  by pat_completeness auto
termination
  by (relation "measure (\<lambda>(m, a, b, i, n). n - i)") auto

declare memcmp_u_loop.simps [simp del]

definition memcmp_u :: "bmem \<Rightarrow> u32 \<Rightarrow> u32 \<Rightarrow> int \<Rightarrow> int" where
  "memcmp_u m s1 s2 n = memcmp_u_loop m s1 s2 0 (nat n)"

section \<open>Copying strings\<close>

partial_function (option) strlen_u_loop :: "bmem \<Rightarrow> u32 \<Rightarrow> nat \<Rightarrow> int option" where
  "strlen_u_loop m str cnt =
     (if m (str + of_nat cnt) \<noteq> 0 then strlen_u_loop m str (Suc cnt) else Some (int cnt))"

definition strlen_u :: "bmem \<Rightarrow> u32 \<Rightarrow> int option" where
  "strlen_u m str = strlen_u_loop m str 0"

partial_function (option) strcpy_u_loop :: "u32 \<Rightarrow> u32 \<Rightarrow> nat \<Rightarrow> bmem \<Rightarrow> bmem option" where
  "strcpy_u_loop dest src i m =
     (if m (src + of_nat i) \<noteq> 0
      then strcpy_u_loop dest src (Suc i) (m(dest + of_nat i := m (src + of_nat i)))
      else Some (m(dest + of_nat i := 0)))"

definition strcpy_u :: "u32 \<Rightarrow> u32 \<Rightarrow> bmem \<Rightarrow> bmem option" where
  "strcpy_u dest src m = strcpy_u_loop dest src 0 m"

text \<open>The first loop of \<^verbatim>\<open>strncpy\<close> returns the index it stopped at.\<close>

function strncpy_copy :: "u32 \<Rightarrow> u32 \<Rightarrow> nat \<Rightarrow> nat \<Rightarrow> bmem \<Rightarrow> nat \<times> bmem" where
  "strncpy_copy dest src n i m =
     (if i < n \<and> m (src + of_nat i) \<noteq> 0
      then strncpy_copy dest src n (Suc i) (m(dest + of_nat i := m (src + of_nat i)))
      else (i, m))"
  by pat_completeness auto
termination
  by (relation "measure (\<lambda>(d, s, n, i, m). n - i)") auto

declare strncpy_copy.simps [simp del]

definition strncpy :: "u32 \<Rightarrow> u32 \<Rightarrow> int \<Rightarrow> bmem \<Rightarrow> bmem" where
  "strncpy dest src n m =
     (let (i, m) = strncpy_copy dest src (nat n) 0 m
      in fold (\<lambda>i m. m(dest + of_nat i := 0)) [i..<nat n] m)"

partial_function (option) strcat_loop :: "u32 \<Rightarrow> u32 \<Rightarrow> nat \<Rightarrow> nat \<Rightarrow> bmem \<Rightarrow> bmem option" where
  "strcat_loop dest src i j m =
     (if m (src + of_nat j) \<noteq> 0
      then strcat_loop dest src (Suc i) (Suc j) (m(dest + of_nat i := m (src + of_nat j)))
      else Some (m(dest + of_nat i := 0)))"

definition strcat :: "u32 \<Rightarrow> u32 \<Rightarrow> bmem \<Rightarrow> bmem option" where
  "strcat dest src m = Option.bind (strlen_u m dest) (\<lambda>i. strcat_loop dest src (nat i) 0 m)"

function strncat_loop :: "u32 \<Rightarrow> u32 \<Rightarrow> nat \<Rightarrow> nat \<Rightarrow> nat \<Rightarrow> bmem \<Rightarrow> bmem" where
  "strncat_loop dest src n i j m =
     (if j < n \<and> m (src + of_nat j) \<noteq> 0
      then strncat_loop dest src n (Suc i) (Suc j) (m(dest + of_nat i := m (src + of_nat j)))
      else m(dest + of_nat i := 0))"
  by pat_completeness auto
termination
  by (relation "measure (\<lambda>(d, s, n, i, j, m). n - j)") auto

declare strncat_loop.simps [simp del]

definition strncat :: "u32 \<Rightarrow> u32 \<Rightarrow> int \<Rightarrow> bmem \<Rightarrow> bmem option" where
  "strncat dest src n m = map_option (\<lambda>i. strncat_loop dest src (nat n) (nat i) 0 m) (strlen_u m dest)"

section \<open>Comparing strings\<close>

partial_function (option) strcmp_u :: "bmem \<Rightarrow> u32 \<Rightarrow> u32 \<Rightarrow> int option" where
  "strcmp_u m s1 s2 =
     (if m s1 \<noteq> 0 \<and> m s1 = m s2 then strcmp_u m (s1 + 1) (s2 + 1)
      else Some (uint (m s1) - uint (m s2)))"

function strncmp_loop :: "bmem \<Rightarrow> u32 \<Rightarrow> u32 \<Rightarrow> nat \<Rightarrow> nat \<Rightarrow> int" where
  "strncmp_loop m s1 s2 i n =
     (if i < n then
        (if m (s1 + of_nat i) \<noteq> m (s2 + of_nat i) then uint (m (s1 + of_nat i)) - uint (m (s2 + of_nat i))
         else if m (s1 + of_nat i) = 0 then 0
         else strncmp_loop m s1 s2 (Suc i) n)
      else 0)"
  by pat_completeness auto
termination
  by (relation "measure (\<lambda>(m, a, b, i, n). n - i)") auto

declare strncmp_loop.simps [simp del]

definition strncmp :: "bmem \<Rightarrow> u32 \<Rightarrow> u32 \<Rightarrow> int \<Rightarrow> int" where
  "strncmp m s1 s2 n = strncmp_loop m s1 s2 0 (nat n)"

text \<open>\<^verbatim>\<open>if (a >= 'a' && a <= 'z') a -= 32\<close>: bytes from 0x80 on are negative chars and stay.\<close>

definition fold_case :: "u8 \<Rightarrow> u8" where
  "fold_case a = (if sint a \<ge> 97 \<and> sint a \<le> 122 then a - 32 else a)"

partial_function (option) strcasecmp :: "bmem \<Rightarrow> u32 \<Rightarrow> u32 \<Rightarrow> int option" where
  "strcasecmp m s1 s2 =
     (if m s1 \<noteq> 0 \<and> m s2 \<noteq> 0 then
        (if fold_case (m s1) \<noteq> fold_case (m s2) then Some (uint (fold_case (m s1)) - uint (fold_case (m s2)))
         else strcasecmp m (s1 + 1) (s2 + 1))
      else Some (uint (m s1) - uint (m s2)))"

function strncasecmp_loop :: "bmem \<Rightarrow> u32 \<Rightarrow> u32 \<Rightarrow> nat \<Rightarrow> nat \<Rightarrow> int" where
  "strncasecmp_loop m s1 s2 i n =
     (if i < n then
        (let a = fold_case (m (s1 + of_nat i)); b = fold_case (m (s2 + of_nat i))
         in if a \<noteq> b then uint a - uint b
            else if a = 0 then 0
            else strncasecmp_loop m s1 s2 (Suc i) n)
      else 0)"
  by pat_completeness auto
termination
  by (relation "measure (\<lambda>(m, a, b, i, n). n - i)") auto

declare strncasecmp_loop.simps [simp del]

definition strncasecmp :: "bmem \<Rightarrow> u32 \<Rightarrow> u32 \<Rightarrow> int \<Rightarrow> int" where
  "strncasecmp m s1 s2 n = strncasecmp_loop m s1 s2 0 (nat n)"

section \<open>Searching strings\<close>

partial_function (option) strchr :: "bmem \<Rightarrow> u32 \<Rightarrow> u32 \<Rightarrow> u32 option" where
  "strchr m s c =
     (if m s \<noteq> 0 then (if m s = ucast c then Some s else strchr m (s + 1) c)
      else Some (if c = 0 then s else 0))"

partial_function (option) strrchr_loop :: "bmem \<Rightarrow> u32 \<Rightarrow> u32 \<Rightarrow> u32 \<Rightarrow> u32 option" where
  "strrchr_loop m s c lst =
     (if m s \<noteq> 0 then strrchr_loop m (s + 1) c (if m s = ucast c then s else lst)
      else Some (if c = 0 then s else lst))"

definition strrchr :: "bmem \<Rightarrow> u32 \<Rightarrow> u32 \<Rightarrow> u32 option" where
  "strrchr m s c = strrchr_loop m s c 0"

partial_function (option) strstr_loop :: "bmem \<Rightarrow> u32 \<Rightarrow> u32 \<Rightarrow> int \<Rightarrow> u32 option" where
  "strstr_loop m haystack needle nlen =
     (if m haystack \<noteq> 0 then
        (if strncmp m haystack needle nlen = 0 then Some haystack
         else strstr_loop m (haystack + 1) needle nlen)
      else Some 0)"

definition strstr :: "bmem \<Rightarrow> u32 \<Rightarrow> u32 \<Rightarrow> u32 option" where
  "strstr m haystack needle =
     (if m needle = 0 then Some haystack
      else Option.bind (strlen_u m needle) (strstr_loop m haystack needle))"

text \<open>
  \<^verbatim>\<open>strtok\<close>: the inner loop moves \<open>d\<close> to the delimiter that matches, or to the end of
  the delimiters. The pointer kept between calls, \<^verbatim>\<open>strtok_next\<close>, is an argument and a
  result.
\<close>

partial_function (option) delim_scan :: "bmem \<Rightarrow> u8 \<Rightarrow> u32 \<Rightarrow> u32 option" where
  "delim_scan m c d = (if m d \<noteq> 0 \<and> c \<noteq> m d then delim_scan m c (d + 1) else Some d)"

partial_function (option) strtok_loop :: "u32 \<Rightarrow> u32 \<Rightarrow> u32 \<Rightarrow> bmem \<Rightarrow> (u32 \<times> u32 \<times> bmem) option" where
  "strtok_loop delim start strtok_next m =
     (if m strtok_next \<noteq> 0 then
        Option.bind (delim_scan m (m strtok_next) delim) (\<lambda>d.
          if m d \<noteq> 0 then
            (let m' = m(strtok_next := 0); nx = strtok_next + 1
             in if start \<noteq> nx - 1 then Some (start, nx, m')
                else strtok_loop delim nx (if m' d = 0 then nx + 1 else nx) m')
          else strtok_loop delim start (strtok_next + 1) m)
      else Some (if start \<noteq> 0 \<and> m start \<noteq> 0 then start else 0, 0, m))"

definition strtok :: "u32 \<Rightarrow> u32 \<Rightarrow> u32 \<Rightarrow> bmem \<Rightarrow> (u32 \<times> u32 \<times> bmem) option" where
  "strtok str delim strtok_next m =
     (let nx = (if str \<noteq> 0 then str else strtok_next)
      in if nx = 0 then Some (0, 0, m) else strtok_loop delim nx nx m)"

section \<open>Character classes\<close>

definition isdigit :: "int \<Rightarrow> bool" where
  "isdigit c \<longleftrightarrow> c \<ge> 48 \<and> c \<le> 57"

definition isalpha :: "int \<Rightarrow> bool" where
  "isalpha c \<longleftrightarrow> c \<ge> 97 \<and> c \<le> 122 \<or> c \<ge> 65 \<and> c \<le> 90"

definition isalnum :: "int \<Rightarrow> bool" where
  "isalnum c \<longleftrightarrow> isalpha c \<or> isdigit c"

definition isspace :: "int \<Rightarrow> bool" where
  "isspace c \<longleftrightarrow> c = 32 \<or> c = 9 \<or> c = 10 \<or> c = 13 \<or> c = 12 \<or> c = 11"

definition isupper :: "int \<Rightarrow> bool" where
  "isupper c \<longleftrightarrow> c \<ge> 65 \<and> c \<le> 90"

definition islower :: "int \<Rightarrow> bool" where
  "islower c \<longleftrightarrow> c \<ge> 97 \<and> c \<le> 122"

definition isprint :: "int \<Rightarrow> bool" where
  "isprint c \<longleftrightarrow> c \<ge> 0x20 \<and> c \<le> 0x7E"

definition iscntrl :: "int \<Rightarrow> bool" where
  "iscntrl c \<longleftrightarrow> c \<ge> 0 \<and> c \<le> 0x1F \<or> c = 0x7F"

definition isxdigit :: "int \<Rightarrow> bool" where
  "isxdigit c \<longleftrightarrow> isdigit c \<or> c \<ge> 97 \<and> c \<le> 102 \<or> c \<ge> 65 \<and> c \<le> 70"

definition toupper :: "int \<Rightarrow> int" where
  "toupper c = (if c \<ge> 97 \<and> c \<le> 122 then c - 32 else c)"

definition tolower :: "int \<Rightarrow> int" where
  "tolower c = (if c \<ge> 65 \<and> c \<le> 90 then c + 32 else c)"

section \<open>Overlapping copies\<close>

definition backward_safe :: "u32 \<Rightarrow> u32 \<Rightarrow> nat \<Rightarrow> bool" where
  "backward_safe dest src n \<longleftrightarrow> (\<forall>j<n. \<forall>i<j. dest + of_nat j \<noteq> src + of_nat i)"

lemma backward_loop_effect:
  assumes "backward_safe dest src n" "n \<le> 2 ^ 32"
  shows "(\<forall>i<n. fold (memcpy_step dest src) (rev [0..<n]) m (dest + of_nat i) = m (src + of_nat i)) \<and>
    (\<forall>x. x \<notin> span dest n \<longrightarrow> fold (memcpy_step dest src) (rev [0..<n]) m x = m x)"
  using assms
proof (induction n arbitrary: m)
  case (Suc k)
  define m' where "m' = memcpy_step dest src k m"
  define r where "r = fold (memcpy_step dest src) (rev [0..<k]) m'"
  have "backward_safe dest src k" using Suc.prems(1) unfolding backward_safe_def by simp
  then have ih: "\<forall>i<k. r (dest + of_nat i) = m' (src + of_nat i)" "\<forall>x. x \<notin> span dest k \<longrightarrow> r x = m' x"
    using Suc.IH [of m'] Suc.prems(2) by (simp_all add: r_def)
  have m': "m' (src + of_nat i) = m (src + of_nat i)" if "i < k" for i
    using Suc.prems(1) that unfolding backward_safe_def m'_def memcpy_step_apply by fastforce
  have "dest + of_nat k \<notin> span dest k"
    using offset_inj [of dest k] Suc.prems(2) by (fastforce simp: span_mem)
  then have k: "r (dest + of_nat k) = m (src + of_nat k)" using ih(2) by (simp add: m'_def memcpy_step_apply)
  have "r x = m x" if "x \<notin> span dest (Suc k)" for x
  proof -
    have "x \<notin> span dest k" "x \<noteq> dest + of_nat k" using that by (auto simp: span_mem)
    then show ?thesis using ih(2) by (simp add: m'_def memcpy_step_apply)
  qed
  moreover have "fold (memcpy_step dest src) (rev [0..<Suc k]) m = r" by (simp add: r_def m'_def)
  ultimately show ?case using ih(1) m' k by (auto simp: less_Suc_eq)
qed (simp add: span_def)

text \<open>The byte at \<open>i\<close> of a block that does not run past the end of the address space.\<close>

lemma block_unat:
  assumes "unat (a :: u32) + n \<le> 2 ^ 32" "i < n"
  shows "unat (a + of_nat i) = unat a + i"
  using assms by (intro unat_add_small) simp

lemma memmove_forward:
  assumes "dest < src" "unat dest + n \<le> 2 ^ 32" "unat src + n \<le> 2 ^ 32"
  shows "forward_safe dest src n"
  unfolding forward_safe_def
proof (intro allI impI notI)
  fix i j assume ij: "j < n" "i < j" and eq: "dest + of_nat i = src + of_nat j"
  have "unat dest + i = unat src + j"
    using block_unat [OF assms(2), of i] block_unat [OF assms(3), of j] ij eq by simp
  then show False using ij assms(1) by (simp add: word_less_nat_alt)
qed

lemma memmove_backward:
  assumes "\<not> dest < src" "unat dest + n \<le> 2 ^ 32" "unat src + n \<le> 2 ^ 32"
  shows "backward_safe dest src n"
  unfolding backward_safe_def
proof (intro allI impI notI)
  fix i j assume ij: "j < n" "i < j" and eq: "dest + of_nat j = src + of_nat i"
  have "unat dest + j = unat src + i"
    using block_unat [OF assms(2), of j] block_unat [OF assms(3), of i] ij eq by simp
  then show False using ij assms(1) by (simp add: word_less_nat_alt)
qed

lemma memmove_effect:
  assumes "unat dest + nat count \<le> 2 ^ 32" "unat src + nat count \<le> 2 ^ 32"
  shows "i < nat count \<Longrightarrow> memmove dest src count m (dest + of_nat i) = m (src + of_nat i)"
    and "x \<notin> span dest (nat count) \<Longrightarrow> memmove dest src count m x = m x"
proof -
  have n: "nat count \<le> 2 ^ 32" using assms by simp
  have *: "(\<forall>i<nat count. memmove dest src count m (dest + of_nat i) = m (src + of_nat i)) \<and>
      (\<forall>x. x \<notin> span dest (nat count) \<longrightarrow> memmove dest src count m x = m x)"
  proof (cases "dest < src")
    case True
    then show ?thesis
      using copy_loop_effect [OF memmove_forward [OF True assms] n order_refl] by (simp add: memmove_def)
  next
    case False
    then show ?thesis
      using backward_loop_effect [OF memmove_backward [OF False assms] n] by (simp add: memmove_def)
  qed
  then show "i < nat count \<Longrightarrow> memmove dest src count m (dest + of_nat i) = m (src + of_nat i)"
    "x \<notin> span dest (nat count) \<Longrightarrow> memmove dest src count m x = m x" by auto
qed

section \<open>Comparison as a function of the strings\<close>

text \<open>The difference at the first place where two strings, each followed by its NUL, differ.\<close>

fun first_diff :: "u8 list \<Rightarrow> u8 list \<Rightarrow> int" where
  "first_diff (x # xs) (y # ys) = (if x = y then first_diff xs ys else uint x - uint y)"
| "first_diff (x # xs) [] = uint x"
| "first_diff [] (y # ys) = - uint y"
| "first_diff [] [] = 0"

lemma first_diff_0: "0 \<notin> set xs \<Longrightarrow> 0 \<notin> set ys \<Longrightarrow> first_diff xs ys = 0 \<longleftrightarrow> xs = ys"
  by (induction xs ys rule: first_diff.induct) (auto simp: uint_0_iff simp flip: word_uint_eq_iff)

lemma first_diff_lexord:
  "0 \<notin> set xs \<Longrightarrow> 0 \<notin> set ys \<Longrightarrow>
    first_diff xs ys < 0 \<longleftrightarrow> (xs, ys) \<in> lexord {(x, y). x < y}"
proof (induction xs ys rule: first_diff.induct)
  case (1 x xs y ys)
  then show ?case by (cases "x = y") (simp_all add: word_less_def)
next
  case (3 y ys)
  then have "uint y > 0" by (simp add: order_less_le uint_0_iff)
  then show ?case by simp
qed simp_all

lemma cstr_nonzero: "cstr_at m a xs \<Longrightarrow> 0 \<notin> set xs"
  by (induction xs arbitrary: a) auto

lemma strcmp_u_ok:
  "cstr_at m a xs \<Longrightarrow> cstr_at m b ys \<Longrightarrow> strcmp_u m a b = Some (first_diff xs ys)"
proof (induction xs ys arbitrary: a b rule: first_diff.induct)
  case (1 x xs y ys)
  then show ?case by (subst strcmp_u.simps) auto
qed (subst strcmp_u.simps, simp)+

lemma strncmp_loop_ok:
  "cstr_at m (a + of_nat i) xs \<Longrightarrow> cstr_at m (b + of_nat i) ys \<Longrightarrow>
    strncmp_loop m a b i n = first_diff (take (n - i) xs) (take (n - i) ys)"
proof (induction xs ys arbitrary: i rule: first_diff.induct)
  case (1 x xs y ys)
  have "strncmp_loop m a b (Suc i) n = first_diff (take (n - Suc i) xs) (take (n - Suc i) ys)"
    if "x = y" using "1.IH" [OF that, of "Suc i"] "1.prems" by (simp add: ac_simps)
  moreover have "n - i = Suc (n - Suc i)" if "i < n" using that by simp
  ultimately show ?case using "1.prems" by (subst strncmp_loop.simps) auto
qed (subst strncmp_loop.simps, simp add: take_Cons')+

lemma strncmp_ok:
  "cstr_at m a xs \<Longrightarrow> cstr_at m b ys \<Longrightarrow>
    strncmp m a b n = first_diff (take (nat n) xs) (take (nat n) ys)"
  using strncmp_loop_ok [of m a 0 xs b ys "nat n"] by (simp add: strncmp_def)

lemma fold_case_0 [simp]: "fold_case x = 0 \<longleftrightarrow> x = 0"
proof -
  have "x - 32 \<noteq> 0" if "sint x \<ge> 97"
  proof
    assume "x - 32 = 0"
    then have "x = 32" by simp
    then show False using that by simp
  qed
  then show ?thesis by (auto simp: fold_case_def)
qed

lemma fold_case_zero [simp]: "fold_case 0 = 0" "0 = fold_case x \<longleftrightarrow> x = 0"
  using fold_case_0 [of x] by auto

lemma uint_byte_pos: "x \<noteq> (0 :: u8) \<Longrightarrow> uint x > 0"
  by (simp add: order_less_le uint_0_iff eq_commute [of 0])

lemma strcasecmp_ok:
  "cstr_at m a xs \<Longrightarrow> cstr_at m b ys \<Longrightarrow>
    \<exists>r. strcasecmp m a b = Some r \<and> sgn r = sgn (first_diff (map fold_case xs) (map fold_case ys))"
proof (induction xs arbitrary: a b ys)
  case Nil
  then show ?case by (cases ys; subst strcasecmp.simps) (auto simp: uint_byte_pos)
next
  case (Cons x xs)
  show ?case
  proof (cases ys)
    case Nil
    then show ?thesis using Cons.prems by (subst strcasecmp.simps) (auto simp: uint_byte_pos)
  next
    case ys: (Cons y ys')
    then have "\<exists>r. strcasecmp m (a + 1) (b + 1) = Some r \<and>
        sgn r = sgn (first_diff (map fold_case xs) (map fold_case ys'))"
      using Cons by simp
    then show ?thesis using Cons.prems ys by (subst strcasecmp.simps) auto
  qed
qed

lemma strncasecmp_loop_ok:
  "cstr_at m (a + of_nat i) xs \<Longrightarrow> cstr_at m (b + of_nat i) ys \<Longrightarrow>
    strncasecmp_loop m a b i n = first_diff (map fold_case (take (n - i) xs)) (map fold_case (take (n - i) ys))"
proof (induction xs arbitrary: i ys)
  case Nil
  then show ?case by (cases ys; subst strncasecmp_loop.simps) (auto simp: Let_def take_Cons')
next
  case (Cons x xs)
  show ?case
  proof (cases ys)
    case Nil
    then show ?thesis using Cons.prems by (subst strncasecmp_loop.simps) (auto simp: Let_def take_Cons')
  next
    case ys: (Cons y ys')
    then have "strncasecmp_loop m a b (Suc i) n =
        first_diff (map fold_case (take (n - Suc i) xs)) (map fold_case (take (n - Suc i) ys'))"
      using Cons.IH [of "Suc i" ys'] Cons.prems by (simp add: ac_simps)
    moreover have "n - i = Suc (n - Suc i)" if "i < n" using that by simp
    ultimately show ?thesis
      using Cons.prems ys by (subst strncasecmp_loop.simps) (auto simp: Let_def)
  qed
qed

lemma strncasecmp_ok:
  "cstr_at m a xs \<Longrightarrow> cstr_at m b ys \<Longrightarrow>
    strncasecmp m a b n = first_diff (map fold_case (take (nat n) xs)) (map fold_case (take (nat n) ys))"
  using strncasecmp_loop_ok [of m a 0 xs b ys "nat n"] by (simp add: strncasecmp_def)

section \<open>Writing bytes\<close>

text \<open>The bytes \<open>xs\<close> stored from \<open>a\<close> on.\<close>

fun write_bytes :: "u32 \<Rightarrow> u8 list \<Rightarrow> bmem \<Rightarrow> bmem" where
  "write_bytes a [] m = m"
| "write_bytes a (x # xs) m = write_bytes (a + 1) xs (m(a := x))"

lemma write_bytes_append:
  "write_bytes a (xs @ ys) m = write_bytes (a + of_nat (length xs)) ys (write_bytes a xs m)"
  by (induction xs arbitrary: a m) (simp_all add: ac_simps)

lemma write_bytes_other: "x \<notin> span a (length xs) \<Longrightarrow> write_bytes a xs m x = m x"
proof (induction xs rule: rev_induct)
  case (snoc y xs)
  have "x \<notin> span a (length xs)" "x \<noteq> a + of_nat (length xs)" using snoc.prems by (auto simp: span_mem)
  then show ?case using snoc.IH by (simp add: write_bytes_append)
qed simp

lemma write_bytes_nth:
  "length xs \<le> 2 ^ 32 \<Longrightarrow> i < length xs \<Longrightarrow> write_bytes a xs m (a + of_nat i) = xs ! i"
proof (induction xs rule: rev_induct)
  case (snoc y xs)
  have "of_nat (length xs) \<noteq> (of_nat i :: u32)" if "i < length xs"
    using offset_inj [of "0 :: u32" "length xs" i] snoc.prems that by auto
  then show ?case using snoc by (auto simp: write_bytes_append nth_append less_Suc_eq)
qed simp

lemma write_bytes_cstr:
  assumes "length xs < 2 ^ 32" "0 \<notin> set xs"
  shows "cstr_at (write_bytes a (xs @ [0]) m) a xs"
  unfolding cstr_at_nth
proof (intro conjI allI impI)
  fix i assume i: "i < length xs"
  then show "write_bytes a (xs @ [0]) m (a + of_nat i) = xs ! i"
    using write_bytes_nth [of "xs @ [0]" i] assms(1) by (simp add: nth_append)
  show "xs ! i \<noteq> 0" using assms(2) i by (metis nth_mem)
next
  show "write_bytes a (xs @ [0]) m (a + of_nat (length xs)) = 0"
    using write_bytes_nth [of "xs @ [0]" "length xs"] assms(1) by simp
qed

lemma cstr_at_write:
  assumes "x \<notin> span a (Suc (length xs))"
  shows "cstr_at (m(x := v)) a xs \<longleftrightarrow> cstr_at m a xs"
proof -
  have "a + of_nat i \<noteq> x" if "i \<le> length xs" for i
    using assms that by (auto simp: span_mem less_Suc_eq_le)
  then show ?thesis by (simp add: cstr_at_nth)
qed

lemma span_Suc: "span a (Suc n) = insert a (span (a + 1) n)"
proof -
  have "x \<in> span a (Suc n) \<longleftrightarrow> x = a \<or> x \<in> span (a + 1) n" for x
    unfolding span_mem by (auto simp: less_Suc_eq_0_disj add.assoc)
  then show ?thesis by auto
qed

lemma span_0 [simp]: "span a 0 = {}"
  by (simp add: span_def)


lemma strcat_loop_ok:
  assumes "cstr_at m (s + of_nat j) ys"
    and "span (d + of_nat i) (Suc (length ys)) \<inter> span (s + of_nat j) (Suc (length ys)) = {}"
  shows "strcat_loop d s i j m = Some (write_bytes (d + of_nat i) (ys @ [0]) m)"
  using assms
proof (induction ys arbitrary: i j m)
  case (Cons y ys)
  let ?m = "m(d + of_nat i := y)"
  have dis: "d + of_nat i \<notin> span (s + of_nat (Suc j)) (Suc (length ys))"
    "span (d + of_nat (Suc i)) (Suc (length ys)) \<inter> span (s + of_nat (Suc j)) (Suc (length ys)) = {}"
    using Cons.prems(2) by (auto simp: span_Suc [of _ "Suc (length ys)"] ac_simps)
  then have "cstr_at ?m (s + of_nat (Suc j)) ys" using Cons.prems(1) by (simp add: cstr_at_write ac_simps)
  from Cons.IH [OF this dis(2)] show ?case
    using Cons.prems(1) by (subst strcat_loop.simps) (simp add: ac_simps del: fun_upd_apply)
qed (subst strcat_loop.simps, simp)

lemma strncat_loop_ok:
  assumes "cstr_at m (s + of_nat j) ys"
    and "span (d + of_nat i) (Suc (length ys)) \<inter> span (s + of_nat j) (Suc (length ys)) = {}"
  shows "strncat_loop d s n i j m = write_bytes (d + of_nat i) (take (n - j) ys @ [0]) m"
  using assms
proof (induction ys arbitrary: i j m)
  case (Cons y ys)
  let ?m = "m(d + of_nat i := y)"
  have dis: "d + of_nat i \<notin> span (s + of_nat (Suc j)) (Suc (length ys))"
    "span (d + of_nat (Suc i)) (Suc (length ys)) \<inter> span (s + of_nat (Suc j)) (Suc (length ys)) = {}"
    using Cons.prems(2) by (auto simp: span_Suc [of _ "Suc (length ys)"] ac_simps)
  then have "cstr_at ?m (s + of_nat (Suc j)) ys" using Cons.prems(1) by (simp add: cstr_at_write ac_simps)
  note ih = Cons.IH [OF this dis(2)]
  have "n - j = Suc (n - Suc j)" if "j < n" using that by simp
  then show ?case
    using Cons.prems(1) ih by (subst strncat_loop.simps) (auto simp: ac_simps simp del: fun_upd_apply)
qed (subst strncat_loop.simps, simp)

lemma strncpy_copy_ok:
  assumes "cstr_at m (s + of_nat i) ys"
    and "span (d + of_nat i) (Suc (length ys)) \<inter> span (s + of_nat i) (Suc (length ys)) = {}"
  shows "strncpy_copy d s n i m =
    (i + length (take (n - i) ys), write_bytes (d + of_nat i) (take (n - i) ys) m)"
  using assms
proof (induction ys arbitrary: i m)
  case (Cons y ys)
  let ?m = "m(d + of_nat i := y)"
  have dis: "d + of_nat i \<notin> span (s + of_nat (Suc i)) (Suc (length ys))"
    "span (d + of_nat (Suc i)) (Suc (length ys)) \<inter> span (s + of_nat (Suc i)) (Suc (length ys)) = {}"
    using Cons.prems(2) by (auto simp: span_Suc [of _ "Suc (length ys)"] ac_simps)
  then have "cstr_at ?m (s + of_nat (Suc i)) ys" using Cons.prems(1) by (simp add: cstr_at_write ac_simps)
  note ih = Cons.IH [OF this dis(2)]
  have "n - i = Suc (n - Suc i)" if "i < n" using that by simp
  then show ?case
    using Cons.prems(1) ih by (subst strncpy_copy.simps) (auto simp: ac_simps simp del: fun_upd_apply)
qed (subst strncpy_copy.simps, simp)

lemma byte_fill: "fold (\<lambda>i m. m(d + of_nat i := v)) [i..<i + k] m = write_bytes (d + of_nat i) (replicate k v) m"
proof (induction k arbitrary: i m)
  case (Suc k)
  have "[i..<i + Suc k] = i # [Suc i..<Suc i + k]" by (simp add: upt_rec [of i])
  then show ?case using Suc [of "Suc i"] by (simp add: ac_simps del: fun_upd_apply upt_Suc)
qed simp

lemma strncpy_ok:
  assumes "cstr_at m s ys" "span d (Suc (length ys)) \<inter> span s (Suc (length ys)) = {}"
  shows "strncpy d s n m =
    write_bytes d (take (nat n) ys @ replicate (nat n - length ys) 0) m"
proof -
  let ?k = "length (take (nat n) ys)"
  have "[?k..<nat n] = [?k..<?k + (nat n - length ys)]" by (simp add: min_def)
  moreover have "strncpy_copy d s (nat n) 0 m = (?k, write_bytes d (take (nat n) ys) m)"
    using strncpy_copy_ok [of m s 0 ys d "nat n"] assms by simp
  ultimately show ?thesis
    by (simp only: strncpy_def prod.case Let_def write_bytes_append byte_fill)
qed

lemma strlen_u_loop_ok:
  "cstr_at m (a + of_nat i) xs \<Longrightarrow> strlen_u_loop m a i = Some (int (i + length xs))"
proof (induction xs arbitrary: i)
  case (Cons x xs)
  then show ?case using Cons.IH [of "Suc i"] by (subst strlen_u_loop.simps) (simp add: ac_simps)
qed (subst strlen_u_loop.simps, simp)

lemma strlen_u_ok: "cstr_at m a xs \<Longrightarrow> strlen_u m a = Some (int (length xs))"
  using strlen_u_loop_ok [of m a 0 xs] by (simp add: strlen_u_def)

lemma cstr_append_iff:
  "cstr_at m a (xs @ ys) \<longleftrightarrow>
     (\<forall>i<length xs. m (a + of_nat i) = xs ! i \<and> xs ! i \<noteq> 0) \<and> cstr_at m (a + of_nat (length xs)) ys"
proof (induction xs arbitrary: a)
  case (Cons x xs)
  then show ?case by (auto simp: less_Suc_eq_0_disj ac_simps)
qed simp

lemma cstr_at_append_write:
  assumes "cstr_at m d xs" "0 \<notin> set ys" "length xs + length ys < 2 ^ 32"
  shows "cstr_at (write_bytes (d + of_nat (length xs)) (ys @ [0]) m) d (xs @ ys)"
proof -
  have "write_bytes (d + of_nat (length xs)) (ys @ [0]) m (d + of_nat i) = xs ! i" if "i < length xs" for i
  proof -
    have "d + of_nat i \<notin> span (d + of_nat (length xs)) (length (ys @ [0]))"
    proof
      assume "d + of_nat i \<in> span (d + of_nat (length xs)) (length (ys @ [0]))"
      then obtain k where "k \<le> length ys" "d + of_nat i = d + of_nat (length xs + k)"
        by (auto simp: span_mem less_Suc_eq_le ac_simps)
      then show False using offset_inj [of d i "length xs + k"] that assms(3) by simp
    qed
    then show ?thesis using write_bytes_other assms(1) that by (simp add: cstr_at_nth)
  qed
  moreover have "cstr_at (write_bytes (d + of_nat (length xs)) (ys @ [0]) m) (d + of_nat (length xs)) ys"
    using write_bytes_cstr assms(2,3) by simp
  ultimately show ?thesis
    using assms(1) unfolding cstr_append_iff cstr_at_nth [of m] by blast
qed

section \<open>Searches find the first and the last place\<close>

text \<open>The address of the first byte of \<open>xs\<close> at \<open>a\<close> that satisfies \<open>P\<close>, or null.\<close>

definition first_byte :: "u32 \<Rightarrow> (nat \<Rightarrow> bool) \<Rightarrow> nat \<Rightarrow> u32" where
  "first_byte a P n = (case filter P [0..<n] of [] \<Rightarrow> 0 | i # _ \<Rightarrow> a + of_nat i)"

definition last_at :: "u32 \<Rightarrow> (nat \<Rightarrow> bool) \<Rightarrow> nat \<Rightarrow> u32" where
  "last_at a P n = (case filter P (rev [0..<n]) of [] \<Rightarrow> 0 | i # _ \<Rightarrow> a + of_nat i)"

lemma first_byte_Suc: "first_byte a P (Suc n) = (if P 0 then a else first_byte (a + 1) (\<lambda>i. P (Suc i)) n)"
proof -
  have "[0..<Suc n] = 0 # map Suc [0..<n]" by (simp add: map_Suc_upt upt_conv_Cons del: upt_Suc)
  then show ?thesis
    by (auto simp: first_byte_def filter_map comp_def ac_simps split: list.split simp del: upt_Suc)
qed

lemma first_byte_0 [simp]: "first_byte a P 0 = 0"
  by (simp add: first_byte_def)

lemma strchr_ok:
  assumes "cstr_at m a xs" "c \<noteq> 0"
  shows "strchr m a c = Some (first_byte a (\<lambda>i. xs ! i = ucast c) (length xs))"
  using assms(1)
proof (induction xs arbitrary: a)
  case (Cons x xs)
  then show ?case by (subst strchr.simps) (auto simp: first_byte_Suc)
qed (subst strchr.simps, simp add: assms(2))

lemma strchr_end: "cstr_at m a xs \<Longrightarrow> strchr m a 0 = Some (a + of_nat (length xs))"
proof (induction xs arbitrary: a)
  case (Cons x xs)
  then show ?case by (subst strchr.simps) (auto simp: ac_simps)
qed (subst strchr.simps, simp)

lemma last_at_Suc: "last_at a P (Suc n) = (if P n then a + of_nat n else last_at a P n)"
  by (simp add: last_at_def)

lemma strrchr_loop_ok:
  assumes "\<forall>i<length ys. m (a + of_nat i) = ys ! i \<and> ys ! i \<noteq> 0" "c \<noteq> 0"
    "cstr_at m (a + of_nat (length ys)) xs"
  shows "strrchr_loop m (a + of_nat (length ys)) c (last_at a (\<lambda>i. ys ! i = ucast c) (length ys)) =
    Some (last_at a (\<lambda>i. (ys @ xs) ! i = ucast c) (length (ys @ xs)))"
  using assms
proof (induction xs arbitrary: ys)
  case (Cons x xs)
  let ?P = "\<lambda>ys i. ys ! i = (ucast c :: u8)"
  have eq: "last_at a (?P (ys @ [x])) k = last_at a (?P ys) k" if "k \<le> length ys" for k
    using that by (induction k) (simp_all add: last_at_Suc nth_append last_at_def)
  have st: "last_at a (?P (ys @ [x])) (length (ys @ [x])) =
      (if x = ucast c then a + of_nat (length ys) else last_at a (?P ys) (length ys))"
    by (simp add: last_at_Suc eq)
  have ad: "a + of_nat (length (ys @ [x])) = a + of_nat (length ys) + 1" by (simp add: ac_simps)
  have x: "m (a + of_nat (length ys)) = x" "x \<noteq> 0" using Cons.prems(3) by auto
  have "strrchr_loop m (a + of_nat (length (ys @ [x]))) c (last_at a (?P (ys @ [x])) (length (ys @ [x]))) =
      Some (last_at a (?P ((ys @ [x]) @ xs)) (length ((ys @ [x]) @ xs)))"
    using Cons.prems x by (intro Cons.IH) (auto simp: nth_append less_Suc_eq ac_simps)
  then show ?case
    unfolding st unfolding ad by (subst strrchr_loop.simps) (simp only: x, simp)
qed (subst strrchr_loop.simps, simp)

lemma strrchr_ok:
  assumes "cstr_at m a xs" "c \<noteq> 0"
  shows "strrchr m a c = Some (last_at a (\<lambda>i. xs ! i = ucast c) (length xs))"
  using strrchr_loop_ok [of "[]" m a c xs] assms by (simp add: strrchr_def last_at_def)

lemma first_diff_take:
  assumes "0 \<notin> set xs" "0 \<notin> set ys"
  shows "first_diff (take (length ys) xs) ys = 0 \<longleftrightarrow> take (length ys) xs = ys"
  using assms by (intro first_diff_0) (auto dest: in_set_takeD)

lemma strstr_loop_ok:
  assumes "cstr_at m a xs" "cstr_at m b ys"
  shows "strstr_loop m a b (int (length ys)) =
    Some (first_byte a (\<lambda>i. take (length ys) (drop i xs) = ys) (length xs))"
  using assms(1)
proof (induction xs arbitrary: a)
  case (Cons x xs)
  have "strncmp m a b (int (length ys)) = 0 \<longleftrightarrow> take (length ys) (x # xs) = ys"
    using strncmp_ok [OF Cons.prems assms(2)] first_diff_take cstr_nonzero [OF Cons.prems]
      cstr_nonzero [OF assms(2)] by simp
  then show ?case using Cons by (subst strstr_loop.simps) (auto simp: first_byte_Suc)
qed (subst strstr_loop.simps, simp)

lemma strstr_ok:
  assumes "cstr_at m a xs" "cstr_at m b ys" "ys \<noteq> []"
  shows "strstr m a b = Some (first_byte a (\<lambda>i. take (length ys) (drop i xs) = ys) (length xs))"
proof -
  have "m b \<noteq> 0" using assms(2,3) by (cases ys) auto
  then show ?thesis using strlen_u_ok [OF assms(2)] strstr_loop_ok [OF assms(1,2)] by (simp add: strstr_def)
qed

section \<open>Tokens\<close>

text \<open>The maximal runs of bytes that are no delimiters, in order.\<close>

fun runs :: "('a \<Rightarrow> bool) \<Rightarrow> 'a list \<Rightarrow> 'a list list" where
  "runs P [] = [[]]"
| "runs P (c # xs) = (if P c then [] # runs P xs else (c # hd (runs P xs)) # tl (runs P xs))"

definition tokens :: "('a \<Rightarrow> bool) \<Rightarrow> 'a list \<Rightarrow> 'a list list" where
  "tokens P xs = filter (\<lambda>w. w \<noteq> []) (runs P xs)"

lemma runs_word: "\<forall>c\<in>set w. \<not> P c \<Longrightarrow> runs P w = [w]"
  by (induction w) auto

lemma runs_append: "\<forall>c\<in>set w. \<not> P c \<Longrightarrow> P d \<Longrightarrow> runs P (w @ d # xs) = w # runs P xs"
  by (induction w) auto

lemma tokens_word: "\<forall>c\<in>set w. \<not> P c \<Longrightarrow> tokens P w = (if w = [] then [] else [w])"
  by (simp add: tokens_def runs_word)

lemma tokens_append:
  "\<forall>c\<in>set w. \<not> P c \<Longrightarrow> P d \<Longrightarrow> tokens P (w @ d # xs) = (if w = [] then tokens P xs else w # tokens P xs)"
  by (simp add: tokens_def runs_append)

text \<open>The loop of a client that takes all tokens of a string, and the pointers it gets.\<close>

partial_function (option) strtok_all :: "u32 \<Rightarrow> u32 \<Rightarrow> u32 \<Rightarrow> bmem \<Rightarrow> (u32 list \<times> bmem) option" where
  "strtok_all delim str strtok_next m =
     Option.bind (strtok str delim strtok_next m) (\<lambda>(p, nx, m).
       if p = 0 then Some ([], m)
       else Option.bind (strtok_all delim 0 nx m) (\<lambda>(ps, m). Some (p # ps, m)))"

lemma delim_scan_ok:
  "cstr_at m d ds \<Longrightarrow> \<exists>d'. delim_scan m c d = Some d' \<and> (m d' \<noteq> 0 \<longleftrightarrow> c \<in> set ds) \<and>
     d' \<in> span d (Suc (length ds))"
proof (induction ds arbitrary: d)
  case Nil
  then show ?case by (subst delim_scan.simps) (simp add: span_Suc)
next
  case (Cons x ds)
  show ?case
  proof (cases "c = x")
    case True
    then show ?thesis using Cons.prems by (subst delim_scan.simps) (simp add: span_Suc)
  next
    case False
    then show ?thesis using Cons.IH [of "d + 1"] Cons.prems
      by (subst delim_scan.simps) (auto simp: span_Suc [of d])
  qed
qed

lemma span_mono: "k \<le> n \<Longrightarrow> span a k \<subseteq> span a n"
  unfolding span_def by auto

lemma span_memI: "i < n \<Longrightarrow> a + of_nat i \<in> span a n"
  by (auto simp: span_def)

lemma span_unat:
  assumes "unat a + n \<le> 2 ^ 32"
  shows "x \<in> span a n \<longleftrightarrow> unat a \<le> unat x \<and> unat x < unat a + n"
proof
  assume "x \<in> span a n"
  then show "unat a \<le> unat x \<and> unat x < unat a + n"
    using block_unat [OF assms] by (auto simp: span_mem)
next
  assume x: "unat a \<le> unat x \<and> unat x < unat a + n"
  then have "unat (a + of_nat (unat x - unat a)) = unat x" using block_unat [OF assms] by simp
  then have "x = a + of_nat (unat x - unat a)" by (simp add: word_unat_eq_iff)
  then show "x \<in> span a n" using x unfolding span_mem by (metis less_diff_conv2 add.commute)
qed

lemma cstr_at_cong:
  assumes "\<And>x. x \<in> span a (Suc (length xs)) \<Longrightarrow> m' x = m x"
  shows "cstr_at m' a xs \<longleftrightarrow> cstr_at m a xs"
  using assms span_memI [of _ "Suc (length xs)" a] by (simp add: cstr_at_nth)

definition tokens_left :: "(u8 \<Rightarrow> bool) \<Rightarrow> bmem \<Rightarrow> u32 \<Rightarrow> u32 \<Rightarrow> nat \<Rightarrow> nat \<Rightarrow> u8 list list \<Rightarrow> bool" where
  "tokens_left P m p nx lo hi toks \<longleftrightarrow>
     (case toks of [] \<Rightarrow> p = 0
      | t # ts \<Rightarrow> p \<noteq> 0 \<and> cstr_at m p t \<and> lo \<le> unat p \<and>
         (if nx = 0 then ts = []
          else unat p + length t < unat nx \<and>
            (\<exists>ys. cstr_at m nx ys \<and> tokens P ys = ts \<and> unat nx + length ys = hi)))"

lemma strtok_loop_ok:
  assumes "cstr_at m st (w @ xs)" "\<forall>c\<in>set w. c \<notin> set ds" "cstr_at m delim ds"
    "unat st + length (w @ xs) < 2 ^ 32" "st \<noteq> 0"
    "span st (Suc (length (w @ xs))) \<inter> span delim (Suc (length ds)) = {}"
  shows "\<exists>p nx m'. strtok_loop delim st (st + of_nat (length w)) m = Some (p, nx, m') \<and>
    (\<forall>x. x \<notin> span st (length (w @ xs)) \<longrightarrow> m' x = m x) \<and>
    tokens_left (\<lambda>c. c \<in> set ds) m' p nx (unat st) (unat st + length (w @ xs)) (tokens (\<lambda>c. c \<in> set ds) (w @ xs))"
  using assms
proof (induction xs arbitrary: st w m)
  case Nil
  have "m (st + of_nat (length w)) = 0" using Nil.prems(1) by (simp add: cstr_at_nth)
  moreover have "m st \<noteq> 0 \<longleftrightarrow> w \<noteq> []" using Nil.prems(1) by (cases w) auto
  ultimately show ?case
    using Nil.prems by (subst strtok_loop.simps) (auto simp: tokens_word tokens_left_def)
next
  case (Cons x xs)
  let ?P = "\<lambda>c. c \<in> set ds" and ?nx = "st + of_nat (length w)"
  have x: "m ?nx = x" "x \<noteq> 0" and xs: "cstr_at m (?nx + 1) xs"
    using Cons.prems(1) by (auto simp: cstr_append_iff)
  obtain d' where d': "delim_scan m x delim = Some d'" "m d' \<noteq> 0 \<longleftrightarrow> ?P x" "d' \<in> span delim (Suc (length ds))"
    using delim_scan_ok [OF Cons.prems(3)] by blast
  show ?case
  proof (cases "?P x")
    case False
    have "strtok_loop delim st ?nx m = strtok_loop delim st (st + of_nat (length (w @ [x]))) m"
      using x d' False by (subst strtok_loop.simps) (simp add: ac_simps)
    then show ?thesis
      using Cons.IH [of m st "w @ [x]"] Cons.prems False by simp
  next
    case True
    let ?m = "m(?nx := 0)"
    have nx: "unat ?nx = unat st + length w" "unat (?nx + 1) = unat st + length w + 1"
      using block_unat [of st "length (w @ x # xs) + 1" "length w"]
        block_unat [of st "length (w @ x # xs) + 1" "length w + 1"] Cons.prems(4) by (simp_all add: ac_simps)
    have xs': "cstr_at ?m (?nx + 1) xs"
    proof -
      have "?nx \<notin> span (?nx + 1) (Suc (length xs))"
      proof
        assume "?nx \<in> span (?nx + 1) (Suc (length xs))"
        then obtain i where "i \<le> length xs" "st + of_nat (length w) = st + of_nat (length w + Suc i)"
          by (auto simp: span_mem less_Suc_eq_le ac_simps)
        then show False using offset_inj [of st "length w" "length w + Suc i"] Cons.prems(4) by simp
      qed
      then show ?thesis using xs by (simp add: cstr_at_write)
    qed
    have out: "?nx \<notin> span delim (Suc (length ds))"
      using Cons.prems(6) span_memI [of "length w" "Suc (length (w @ x # xs))" st] by auto
    then have ds': "cstr_at ?m delim ds" "?m d' = m d'" using Cons.prems(3) d'(3) by (auto simp: cstr_at_write)
    show ?thesis
    proof (cases "w = []")
      case w: True
      have st1: "unat (st + 1) = unat st + 1" using nx(2) w by simp
      then have "st + 1 \<noteq> 0" by (metis Suc_eq_plus1 nat.distinct(1) unsigned_0)
      have sub: "span (st + 1) (Suc (length xs)) \<subseteq> span st (Suc (length (w @ x # xs)))"
        "span (st + 1) (length xs) \<subseteq> span st (length (w @ x # xs))" "st \<in> span st (length (w @ x # xs))"
        using w by (auto simp: span_Suc)
      have "\<exists>p nx m'. strtok_loop delim (st + 1) (st + 1 + of_nat (length ([] :: u8 list))) ?m = Some (p, nx, m') \<and>
          (\<forall>y. y \<notin> span (st + 1) (length ([] @ xs)) \<longrightarrow> m' y = ?m y) \<and>
          tokens_left ?P m' p nx (unat (st + 1)) (unat (st + 1) + length ([] @ xs)) (tokens ?P ([] @ xs))"
        using xs' w ds' Cons.prems sub(1) st1 \<open>st + 1 \<noteq> 0\<close>
        by (intro Cons.IH) (auto simp del: fun_upd_apply)
      moreover have "strtok_loop delim st ?nx m = strtok_loop delim (st + 1) (st + 1) ?m"
        using x d' True w ds' by (subst strtok_loop.simps) (simp add: Let_def)
      moreover have "tokens ?P (w @ x # xs) = tokens ?P xs" using w tokens_append [of "[]" ?P x xs] True by simp
      ultimately show ?thesis using sub st1 w by (fastforce simp: tokens_left_def split: list.split)
    next
      case False
      have ne: "st + of_nat i \<noteq> ?nx" if "i < length w" for i
        using offset_inj [of st i "length w"] that Cons.prems(4) by auto
      then have "cstr_at ?m st w" using Cons.prems(1) unfolding cstr_append_iff cstr_at_nth [of _ _ w] by simp
      moreover have "st \<noteq> ?nx" using ne [of 0] False by simp
      then have "strtok_loop delim st ?nx m = Some (st, ?nx + 1, ?m)"
        using x d' True by (subst strtok_loop.simps) (simp add: Let_def)
      moreover have "?nx + 1 \<noteq> 0" using nx(2) by (metis Suc_eq_plus1 nat.distinct(1) unsigned_0)
      moreover have "?nx \<in> span st (length (w @ x # xs))" using span_memI by simp
      moreover have "tokens ?P (w @ x # xs) = w # tokens ?P xs"
        using False tokens_append [of w ?P x xs] Cons.prems(2) True by simp
      ultimately show ?thesis
        using xs' nx Cons.prems(5) by (auto simp: tokens_left_def simp del: fun_upd_apply) (auto)
    qed
  qed
qed

lemma strtok_all_ok:
  assumes "cstr_at m a xs" "cstr_at m delim ds" "unat a + length xs < 2 ^ 32" "a \<noteq> 0"
    "span a (Suc (length xs)) \<inter> span delim (Suc (length ds)) = {}" "a = (if str \<noteq> 0 then str else nx)"
  shows "\<exists>ps m'. strtok_all delim str nx m = Some (ps, m') \<and>
    list_all2 (cstr_at m') ps (tokens (\<lambda>c. c \<in> set ds) xs) \<and>
    (\<forall>x. x \<notin> span a (length xs) \<longrightarrow> m' x = m x)"
  using assms
proof (induction "length xs" arbitrary: a xs str nx m rule: less_induct)
  case less
  let ?P = "\<lambda>c. c \<in> set ds"
  obtain p n m1 where r: "strtok_loop delim a a m = Some (p, n, m1)"
    "\<forall>x. x \<notin> span a (length xs) \<longrightarrow> m1 x = m x"
    "tokens_left ?P m1 p n (unat a) (unat a + length xs) (tokens ?P xs)"
    using strtok_loop_ok [of m a "[]" xs ds delim] less.prems by auto
  have call: "strtok str delim nx m = Some (p, n, m1)"
    using r(1) less.prems(4,6) by (simp add: strtok_def Let_def)
  show ?case
  proof (cases "tokens ?P xs")
    case Nil
    then show ?thesis using r call by (subst strtok_all.simps) (simp add: tokens_left_def)
  next
    case (Cons t ts)
    then have p: "p \<noteq> 0" "cstr_at m1 p t" "unat a \<le> unat p" using r(3) by (auto simp: tokens_left_def)
    show ?thesis
    proof (cases "n = 0")
      case True
      have "strtok_all delim 0 n m1 = Some ([], m1)"
        using True by (subst strtok_all.simps) (simp add: strtok_def)
      then show ?thesis using p r Cons True call by (subst strtok_all.simps) (simp add: tokens_left_def)
    next
      case False
      then obtain ys where ys: "unat p + length t < unat n" "cstr_at m1 n ys" "tokens ?P ys = ts"
        "unat n + length ys = unat a + length xs"
        using r(3) Cons by (auto simp: tokens_left_def)
      then have len: "length ys < length xs" using p(3) by simp
      have "cstr_at m1 delim ds"
      proof -
        have "x \<notin> span a (length xs)" if "x \<in> span delim (Suc (length ds))" for x
          using that less.prems(5) span_mono [of "length xs" "Suc (length xs)" a] by auto
        then show ?thesis using cstr_at_cong [of delim ds m1 m] r(2) less.prems(2) by blast
      qed
      moreover have sub: "span n (Suc (length ys)) \<subseteq> span a (Suc (length xs))" "span n (length ys) \<subseteq> span a (length xs)"
        using less.prems(3) ys(4) len by (auto simp: span_unat)
      ultimately have "\<exists>ps m'. strtok_all delim 0 n m1 = Some (ps, m') \<and>
          list_all2 (cstr_at m') ps (tokens ?P ys) \<and> (\<forall>x. x \<notin> span n (length ys) \<longrightarrow> m' x = m1 x)"
        using ys(2,4) less.prems(3,5) False by (intro less.hyps [OF len]) (auto simp only: if_False simp_thms)
      then obtain ps m' where m': "strtok_all delim 0 n m1 = Some (ps, m')"
          "list_all2 (cstr_at m') ps ts" "\<forall>x. x \<notin> span n (length ys) \<longrightarrow> m' x = m1 x"
        using ys(3) by blast
      have "x \<notin> span n (length ys)" if "x \<in> span p (Suc (length t))" for x
        using that ys(1,4) less.prems(3) by (simp add: span_unat)
      then have "cstr_at m' p t" using cstr_at_cong [of p t m' m1] m'(3) p(2) by blast
      moreover have "m' x = m x" if "x \<notin> span a (length xs)" for x
        using that sub(2) m'(3) r(2) by (metis subsetD)
      ultimately show ?thesis
        using m' call p(1) Cons by (subst strtok_all.simps) simp
    qed
  qed
qed

section \<open>What the library promises\<close>

text \<open>
  C9001. \<^verbatim>\<open>memmove\<close> copies right even when the two blocks overlap: as long as neither
  block runs past the end of the address space, every destination byte gets the byte the source
  block held before the call, and no other byte changes.
\<close>

theorem memmove_correct:
  assumes "unat dest + nat count \<le> 2 ^ 32" "unat src + nat count \<le> 2 ^ 32"
  shows "(\<forall>i<nat count. memmove dest src count m (dest + of_nat i) = m (src + of_nat i)) \<and>
    (\<forall>x. x \<notin> span dest (nat count) \<longrightarrow> memmove dest src count m x = m x)"
  using memmove_effect [OF assms] by blast

theorem memmove_correct_witness:
  "memmove 17 16 2 demo_mem 17 = 97 \<and> memmove 17 16 2 demo_mem 18 = 98 \<and>
   memmove 16 17 2 demo_mem 16 = 98 \<and> memmove 16 17 2 demo_mem 18 = demo_mem 18"
proof -
  have a: "\<forall>i<nat 2. memmove 17 16 2 demo_mem (17 + of_nat i) = demo_mem (16 + of_nat i)"
    using memmove_correct [of 17 2 16 demo_mem] by simp
  have b: "\<forall>i<nat 2. memmove 16 17 2 demo_mem (16 + of_nat i) = demo_mem (17 + of_nat i)"
    and c: "18 \<notin> span 16 (nat 2) \<longrightarrow> memmove 16 17 2 demo_mem 18 = demo_mem 18"
    using memmove_correct [of 16 2 17 demo_mem] by auto
  have "(18 :: u32) \<notin> span 16 (nat 2)" by (simp add: span_unat)
  then show ?thesis
    using a [rule_format, of 0] a [rule_format, of 1] b [rule_format, of 0] c by (simp add: demo_mem_def)
qed

text \<open>
  C9002. The comparisons order strings: \<^verbatim>\<open>strcmp\<close> returns, and its result is zero, negative
  or positive as the first string equals, precedes or follows the second in the lexicographic
  order of unsigned bytes; \<^verbatim>\<open>strncmp\<close> does so for the first \<open>n\<close> bytes, and
  \<^verbatim>\<open>strcasecmp\<close> and \<^verbatim>\<open>strncasecmp\<close> after folding the letters to upper case.
\<close>

definition ordered_as :: "int \<Rightarrow> u8 list \<Rightarrow> u8 list \<Rightarrow> bool" where
  "ordered_as r xs ys \<longleftrightarrow> (r = 0 \<longleftrightarrow> xs = ys) \<and> (r < 0 \<longleftrightarrow> (xs, ys) \<in> lexord {(x, y). x < y})"

lemma first_diff_ordered: "0 \<notin> set xs \<Longrightarrow> 0 \<notin> set ys \<Longrightarrow> ordered_as (first_diff xs ys) xs ys"
  by (simp add: ordered_as_def first_diff_0 first_diff_lexord)

lemma ordered_as_sgn: "ordered_as r xs ys \<Longrightarrow> sgn r' = sgn r \<Longrightarrow> ordered_as r' xs ys"
  unfolding ordered_as_def by (metis sgn_0_0 sgn_less)

theorem string_comparisons_order:
  assumes "cstr_at m a xs" "cstr_at m b ys"
  shows "(\<exists>r. strcmp_u m a b = Some r \<and> ordered_as r xs ys) \<and>
    ordered_as (strncmp m a b n) (take (nat n) xs) (take (nat n) ys) \<and>
    (\<exists>r. strcasecmp m a b = Some r \<and> ordered_as r (map fold_case xs) (map fold_case ys)) \<and>
    ordered_as (strncasecmp m a b n) (map fold_case (take (nat n) xs)) (map fold_case (take (nat n) ys))"
proof -
  have nz: "0 \<notin> set xs" "0 \<notin> set ys" using cstr_nonzero assms by auto
  then have fc: "0 \<notin> set (map fold_case xs)" "0 \<notin> set (map fold_case ys)" by auto
  have tk: "0 \<notin> set (take k xs)" "0 \<notin> set (take k ys)" for k using nz by (auto dest: in_set_takeD)
  then have ft: "0 \<notin> set (map fold_case (take k xs))" "0 \<notin> set (map fold_case (take k ys))" for k by auto
  show ?thesis
    using strcmp_u_ok [OF assms] strncmp_ok [OF assms] strcasecmp_ok [OF assms] strncasecmp_ok [OF assms]
      first_diff_ordered [OF nz] first_diff_ordered [OF fc] first_diff_ordered [OF tk]
      first_diff_ordered [OF ft] ordered_as_sgn by (metis (no_types))
qed

theorem string_comparisons_order_witness:
  "(\<exists>r. strcmp_u demo_mem 32 16 = Some r \<and> r < 0) \<and> strncmp demo_mem 16 32 1 = 0"
proof -
  have "([97], [97, 98 :: u8]) \<in> lexord {(x, y). x < y}" by simp
  then show ?thesis
    using string_comparisons_order [OF demo_mem_strings(2,1), of 1]
      string_comparisons_order [OF demo_mem_strings, of 1] by (auto simp: ordered_as_def)
qed

text \<open>
  C9003. \<^verbatim>\<open>strtok\<close> yields the tokens of a string: the loop that passes the string once
  and then the null pointer, until it gets a null pointer back, ends, and the pointers it got are,
  in order, to NUL-terminated strings that are exactly the maximal runs of bytes that are no
  delimiters, none of them empty; only bytes of the string itself have changed.
\<close>

theorem strtok_yields_tokens:
  assumes "cstr_at m str xs" "cstr_at m delim ds" "unat str + length xs < 2 ^ 32" "str \<noteq> 0"
    and "span str (Suc (length xs)) \<inter> span delim (Suc (length ds)) = {}"
  shows "\<exists>ps m'. strtok_all delim str nx m = Some (ps, m') \<and>
    list_all2 (cstr_at m') ps (tokens (\<lambda>c. c \<in> set ds) xs) \<and>
    (\<forall>x. x \<notin> span str (length xs) \<longrightarrow> m' x = m x)"
  using strtok_all_ok [OF assms, of str nx] assms(4) by simp

text \<open>The string ``,ab,,c'' at 64 with the delimiter ``,'' at 32.\<close>

definition demo_tok :: bmem where
  "demo_tok = write_bytes 64 [44, 97, 98, 44, 44, 99, 0] (write_bytes 32 [44, 0] (\<lambda>_. 0))"

theorem strtok_yields_tokens_witness:
  "\<exists>ps m'. strtok_all 32 64 0 demo_tok = Some (ps, m') \<and> list_all2 (cstr_at m') ps [[97, 98], [99]]"
proof -
  have "tokens (\<lambda>c. c \<in> set [44]) [44, 97, 98, 44, 44, 99 :: u8] = [[97, 98], [99]]"
    by (simp add: tokens_def)
  moreover have "\<exists>ps m'. strtok_all 32 64 0 demo_tok = Some (ps, m') \<and>
      list_all2 (cstr_at m') ps (tokens (\<lambda>c. c \<in> set [44]) [44, 97, 98, 44, 44, 99]) \<and>
      (\<forall>x. x \<notin> span 64 (length [44, 97, 98, 44, 44, 99 :: u8]) \<longrightarrow> m' x = demo_tok x)"
    by (rule strtok_yields_tokens) (simp_all add: demo_tok_def span_unat disjoint_iff)
  ultimately show ?thesis by metis
qed

end
