(* ===== verification/Format.thy ===== *)
theory Format
  imports LibcString
begin

text \<open>
  What the two \<^verbatim>\<open>vsnprintf\<close>, the kernel's in \<^verbatim>\<open>kernel/src/kilb/print.c\<close> and the
  C library's in \<^verbatim>\<open>libc/src/stdio.c\<close>, share: numerals of a number in a base, and output
  to a buffer cut off at a limit. These are specifications; the code is in \<^verbatim>\<open>KPrint\<close> and
  \<^verbatim>\<open>LibcStdio\<close>.
\<close>

section \<open>Numerals\<close>

text \<open>The digits of \<open>n\<close> in base \<open>b\<close>, most significant first; no digit for 0.\<close>

fun nat_digits :: "nat \<Rightarrow> nat \<Rightarrow> nat list" where
  "nat_digits b n = (if n = 0 \<or> b < 2 then [] else nat_digits b (n div b) @ [n mod b])"

declare nat_digits.simps [simp del]

lemma nat_digits_0 [simp]: "nat_digits b 0 = []"
  by (simp add: nat_digits.simps)

lemma nat_digits_step: "n \<noteq> 0 \<Longrightarrow> 2 \<le> b \<Longrightarrow> nat_digits b n = nat_digits b (n div b) @ [n mod b]"
  by (subst nat_digits.simps) simp

lemma nat_digits_less: "d \<in> set (nat_digits b n) \<Longrightarrow> d < b"
proof (induction b n rule: nat_digits.induct)
  case (1 b n)
  then show ?case by (cases "n = 0 \<or> b < 2") (auto simp: nat_digits.simps [of b n])
qed

text \<open>The value of a list of digits, and that it is the number printed.\<close>

definition digits_value :: "nat \<Rightarrow> nat list \<Rightarrow> nat" where
  "digits_value b ds = foldl (\<lambda>v d. v * b + d) 0 ds"

lemma nat_digits_value: "2 \<le> b \<Longrightarrow> digits_value b (nat_digits b n) = n"
proof (induction b n rule: nat_digits.induct)
  case (1 b n)
  then show ?case by (cases "n = 0") (auto simp: nat_digits_step digits_value_def)
qed

lemma nat_digits_length: "2 \<le> b \<Longrightarrow> n < b ^ k \<Longrightarrow> length (nat_digits b n) \<le> k"
proof (induction k arbitrary: n)
  case (Suc k)
  show ?case
  proof (cases "n = 0")
    case False
    have "n div b < b ^ k" using Suc.prems by (simp add: less_mult_imp_div_less mult.commute)
    then show ?thesis using Suc False by (simp add: nat_digits_step)
  qed simp
qed simp

lemma nat_digits_Nil: "2 \<le> b \<Longrightarrow> nat_digits b n = [] \<longleftrightarrow> n = 0"
  by (cases "n = 0") (auto simp: nat_digits_step)

text \<open>Digits as characters, upper-case letters from ten on.\<close>

definition digit_char :: "nat \<Rightarrow> u8" where
  "digit_char d = (if d \<le> 9 then 48 + of_nat d else 55 + of_nat d)"

definition numeral_bytes :: "nat \<Rightarrow> nat \<Rightarrow> u8 list" where
  "numeral_bytes b n = map digit_char (nat_digits b n)"

definition zero_padded :: "nat \<Rightarrow> u8 list \<Rightarrow> u8 list" where
  "zero_padded w ds = replicate (w - length ds) 48 @ ds"

lemma numeral_bytes_step:
  "n \<noteq> 0 \<Longrightarrow> 2 \<le> b \<Longrightarrow> numeral_bytes b n = numeral_bytes b (n div b) @ [digit_char (n mod b)]"
  by (simp add: numeral_bytes_def nat_digits_step)

lemma numeral_bytes_0 [simp]: "numeral_bytes b 0 = []"
  by (simp add: numeral_bytes_def)

lemma length_numeral_bytes [simp]: "length (numeral_bytes b n) = length (nat_digits b n)"
  by (simp add: numeral_bytes_def)

lemma digit_char_eq:
  assumes "d < 16"
  shows "digit_char d = (if (of_nat d :: u8) \<le> 9 then 48 + of_nat d else 55 + of_nat d)"
proof -
  have "(of_nat d :: u8) \<le> 9 \<longleftrightarrow> d \<le> 9" using assms by (simp add: word_le_nat_alt unat_of_nat_small)
  then show ?thesis by (simp add: digit_char_def)
qed

lemma digit_char_value:
  assumes "d < 10"
  shows "digit_char d = 48 + of_nat d" "unat (digit_char d) = 48 + d"
proof -
  show *: "digit_char d = 48 + of_nat d" using assms by (simp add: digit_char_def)
  have "unat (48 + of_nat d :: u8) = unat (48 :: u8) + d" using assms by (intro unat_add_small) simp
  then show "unat (digit_char d) = 48 + d" unfolding * by simp
qed

section \<open>Signed numbers\<close>

lemma sint_cases: "sint (x :: u32) = (if uint x < 2147483648 then uint x else uint x - 4294967296)"
  by (simp add: sint_signed)

lemma int_unat_bounds: "int (unat (x :: u32)) = uint x" "unat x < 4294967296"
  using unsigned_less [of x, where 'a = nat] by simp_all

lemma sint_neg_unat: "sint (v :: u32) < 0 \<Longrightarrow> unat (- v) = nat (- sint v)"
proof -
  assume "sint v < 0"
  then have v: "sint v = uint v - 4294967296" "uint v \<noteq> 0" by (auto simp: sint_cases split: if_splits)
  then have "unat (- v) = 4294967296 - unat v"
    using unat_of_nat_diff [of 0 "unat v"] int_unat_bounds [of v] by simp
  then show ?thesis using v int_unat_bounds [of v] by linarith
qed

lemma sint_nonneg_unat: "\<not> sint (v :: u32) < 0 \<Longrightarrow> nat (sint v) = unat v"
proof -
  assume "\<not> sint v < 0"
  then have "sint v = uint v" using int_unat_bounds [of v] sint_cases [of v] by presburger
  then show ?thesis using int_unat_bounds(1) [of v] by linarith
qed

lemma sint_small_nat: "unat (w :: u32) < 2 ^ 31 \<Longrightarrow> nat (sint w) = unat w"
proof -
  assume "unat w < 2 ^ 31"
  then have "unat w < 2147483648" by simp
  then have "uint w < 2147483648" using int_unat_bounds(1) [of w] by linarith
  then show ?thesis by (simp add: sint_cases)
qed

lemma sint_neg:
  assumes "sint (v :: u32) < 0" "sint v \<noteq> - (2 ^ 31)"
  shows "sint (- v) = - sint v"
proof -
  have "uint (- v) = - sint v"
    using sint_neg_unat [OF assms(1)] int_unat_bounds(1) [of "- v"] assms(1) by linarith
  moreover have "- sint v < 2147483648" using sint_greater_eq [of v] assms(2) by simp
  ultimately show ?thesis by (simp add: sint_cases [of "- v"])
qed

section \<open>Bounded output\<close>

text \<open>
  A buffer at \<open>buf\<close>, the next position to write and a limit it never passes: bytes that do not fit
  are dropped.
\<close>

definition put_char :: "u32 \<Rightarrow> u32 \<Rightarrow> u8 \<Rightarrow> u32 \<times> bmem \<Rightarrow> u32 \<times> bmem" where
  "put_char buf limit c = (\<lambda>(pos, m). if pos < limit then (pos + 1, m(buf + pos := c)) else (pos, m))"

definition emit :: "u32 \<Rightarrow> u32 \<Rightarrow> u8 list \<Rightarrow> u32 \<times> bmem \<Rightarrow> u32 \<times> bmem" where
  "emit buf limit xs s = fold (put_char buf limit) xs s"

lemma emit_Nil [simp]: "emit buf limit [] s = s"
  by (simp add: emit_def)

lemma emit_Cons: "emit buf limit (x # xs) s = emit buf limit xs (put_char buf limit x s)"
  by (simp add: emit_def)

lemma emit_append: "emit buf limit (xs @ ys) s = emit buf limit ys (emit buf limit xs s)"
  by (simp add: emit_def)

lemma emit_full: "\<not> pos < limit \<Longrightarrow> emit buf limit xs (pos, m) = (pos, m)"
  by (induction xs) (simp_all add: emit_Cons put_char_def)

lemma emit_eq:
  assumes "pos \<le> limit"
  shows "emit buf limit xs (pos, m) =
    (let k = min (length xs) (unat limit - unat pos)
     in (pos + of_nat k, write_bytes (buf + pos) (take k xs) m))"
  using assms
proof (induction xs arbitrary: pos m)
  case (Cons x xs)
  show ?case
  proof (cases "pos < limit")
    case True
    then have "unat pos < unat limit" by (simp add: word_less_nat_alt)
    moreover have p: "unat (pos + 1) = unat pos + 1"
      using \<open>unat pos < unat limit\<close> unsigned_less [of limit, where 'a = nat] unat_add_small [of pos 1] by simp
    ultimately have "pos + 1 \<le> limit" "unat limit - unat pos = Suc (unat limit - unat (pos + 1))"
      by (simp_all add: word_le_nat_alt)
    then show ?thesis using Cons.IH [of "pos + 1"] True
      by (simp add: emit_Cons put_char_def Let_def ac_simps del: fun_upd_apply)
  next
    case False
    then have "pos = limit" using Cons.prems by simp
    then show ?thesis using False by (simp add: emit_full Let_def)
  qed
qed (simp add: Let_def)

lemma emit_start:
  "emit buf limit xs (0, m) =
    (of_nat (min (length xs) (unat limit)), write_bytes buf (take (unat limit) xs) m)"
proof -
  have "take (min (length xs) (unat limit)) xs = take (unat limit) xs" by (simp add: min_def)
  then show ?thesis using emit_eq [of 0 limit buf xs m] by (simp add: Let_def)
qed

lemma emit_frame:
  assumes "emit buf limit xs (pos, m) = (pos', m')" "pos \<le> limit" "unat buf + unat limit \<le> 2 ^ 32"
  shows "pos' \<le> limit" and "x \<notin> span buf (unat limit) \<Longrightarrow> m' x = m x"
proof -
  let ?k = "min (length xs) (unat limit - unat pos)"
  have pos': "pos' = pos + of_nat ?k" and m': "m' = write_bytes (buf + pos) (take ?k xs) m"
    using emit_eq [OF assms(2), of buf xs m] assms(1) by (simp_all add: Let_def)
  have l: "unat pos + ?k \<le> unat limit" using assms(2) unfolding word_le_nat_alt by linarith
  then have u: "unat pos' = unat pos + ?k"
    unfolding pos' using unsigned_less [of limit, where 'a = nat] by (intro unat_add_small) simp
  then show "pos' \<le> limit" using l by (simp add: word_le_nat_alt)
  assume x: "x \<notin> span buf (unat limit)"
  have "x \<notin> span (buf + pos) ?k"
  proof
    assume "x \<in> span (buf + pos) ?k"
    then obtain i where "i < ?k" "x = buf + of_nat (unat pos + i)" by (auto simp: span_mem ac_simps)
    moreover have "unat pos + i < unat limit" using \<open>i < ?k\<close> l by linarith
    ultimately show False using x span_memI [of "unat pos + i" "unat limit" buf] by simp
  qed
  then show "m' x = m x" unfolding m' by (intro write_bytes_other) simp
qed

section \<open>Formats in memory\<close>

text \<open>The digits of a width, read from \<open>w\<close> on, and what follows them.\<close>

fun width_digits :: "u32 \<Rightarrow> u8 list \<Rightarrow> u32 \<times> u8 list" where
  "width_digits w [] = (w, [])"
| "width_digits w (c # fs) =
     (if c \<ge> 48 \<and> c \<le> 57 then width_digits (w * 10 + ucast c - 48) fs else (w, c # fs))"

lemma width_digits_shorter: "width_digits w fs = (v, gs) \<Longrightarrow> length gs \<le> length fs"
  by (induction w fs rule: width_digits.induct) (auto split: if_splits intro: le_SucI)

text \<open>A string outside the first \<open>n\<close> bytes at \<open>buf\<close>.\<close>

definition str_outside :: "u32 \<Rightarrow> nat \<Rightarrow> bmem \<Rightarrow> u32 \<Rightarrow> u8 list \<Rightarrow> bool" where
  "str_outside buf n m a xs \<longleftrightarrow> cstr_at m a xs \<and> span a (Suc (length xs)) \<inter> span buf n = {}"

lemma str_outside_Cons:
  "str_outside buf n m a (x # xs) \<Longrightarrow> m a = x \<and> x \<noteq> 0 \<and> a \<notin> span buf n \<and> str_outside buf n m (a + 1) xs"
  unfolding str_outside_def by (auto simp: span_Suc [of a])

lemma str_outside_Nil: "str_outside buf n m a [] \<Longrightarrow> m a = 0"
  by (simp add: str_outside_def)

lemma str_outside_cong:
  assumes "\<And>x. x \<notin> span buf n \<Longrightarrow> m' x = m x"
  shows "str_outside buf n m' a xs \<longleftrightarrow> str_outside buf n m a xs"
  using cstr_at_cong [of a xs m' m] assms unfolding str_outside_def by blast

lemma str_outside_mono: "str_outside buf n m a xs \<Longrightarrow> k \<le> n \<Longrightarrow> str_outside buf k m a xs"
  using span_mono [of k n buf] unfolding str_outside_def by blast

end
