(* ===== verification/LibcStdio.thy ===== *)
theory LibcStdio
  imports Format
begin

text \<open>
  Formatted output of the user C library, \<^verbatim>\<open>libc/src/stdio.c\<close>, and \<^verbatim>\<open>atoi\<close> of
  \<^verbatim>\<open>libc/src/stdlib.c\<close>. A \<^verbatim>\<open>va_list\<close> is the list of the 32-bit arguments not yet
  taken; taking one that the caller did not pass is undefined in C and \<^const>\<open>None\<close> here, as is a
  store past the twelve bytes of \<^verbatim>\<open>tmp\<close>. Signed numbers are kept as 32-bit words.
\<close>

section \<open>Numbers\<close>

text \<open>The digits of \<^verbatim>\<open>tmp\<close>, least significant first, as far as they have been stored.\<close>

partial_function (option) digits_loop :: "u32 \<Rightarrow> u32 \<Rightarrow> u8 list \<Rightarrow> u8 list option" where
  "digits_loop base val tmp =
     (if val = 0 then Some tmp
      else if base = 0 \<or> length tmp \<ge> 12 then None
      else (let d = ucast (val mod base) :: u8
            in digits_loop base (val div base) (tmp @ [if d \<le> 9 then 48 + d else 65 + d - 10])))"

fun put_while :: "u32 \<Rightarrow> u32 \<Rightarrow> u8 list \<Rightarrow> u32 \<times> bmem \<Rightarrow> u32 \<times> bmem" where
  "put_while buf limit [] (pos, m) = (pos, m)"
| "put_while buf limit (x # xs) (pos, m) =
     (if pos < limit then put_while buf limit xs (pos + 1, m(buf + pos := x)) else (pos, m))"

definition print_uint_u :: "u32 \<Rightarrow> u32 \<Rightarrow> u32 \<Rightarrow> u32 \<Rightarrow> u32 \<Rightarrow> u32 \<times> bmem \<Rightarrow> (u32 \<times> bmem) option" where
  "print_uint_u buf limit val base min_width s =
     Option.bind (if val = 0 then Some [48] else digits_loop base val []) (\<lambda>tmp.
       let zeros = sint (min_width - of_nat (length tmp))
       in Some (put_while buf limit (rev tmp) (put_while buf limit (replicate (nat zeros) 48) s)))"

definition print_int_val :: "u32 \<Rightarrow> u32 \<Rightarrow> u32 \<Rightarrow> u32 \<Rightarrow> u32 \<Rightarrow> u32 \<times> bmem \<Rightarrow> (u32 \<times> bmem) option" where
  "print_int_val buf limit val base min_width = (\<lambda>(pos, m).
     if sint val < 0 \<and> pos < limit
     then print_uint_u buf limit (- val) base min_width (pos + 1, m(buf + pos := 45))
     else print_uint_u buf limit val base min_width (pos, m))"

section \<open>Format strings\<close>

text \<open>The digits of a width, from \<open>p\<close> on.\<close>

partial_function (option) width_loop :: "bmem \<Rightarrow> u32 \<Rightarrow> u32 \<Rightarrow> (u32 \<times> u32) option" where
  "width_loop m min_width p =
     (if m p \<ge> 48 \<and> m p \<le> 57 then width_loop m (min_width * 10 + ucast (m p) - 48) (p + 1)
      else Some (min_width, p))"

partial_function (option) put_str :: "u32 \<Rightarrow> u32 \<Rightarrow> u32 \<Rightarrow> u32 \<Rightarrow> bmem \<Rightarrow> (u32 \<times> bmem) option" where
  "put_str buf limit s pos m =
     (if m s \<noteq> 0 \<and> pos < limit then put_str buf limit (s + 1) (pos + 1) (m(buf + pos := m s))
      else Some (pos, m))"

definition NULL_TEXT :: "u8 list" where
  "NULL_TEXT = [40, 110, 117, 108, 108, 41]"

definition va_arg :: "u32 list \<Rightarrow> (u32 \<times> u32 list) option" where
  "va_arg args = (case args of [] \<Rightarrow> None | a # as \<Rightarrow> Some (a, as))"

text \<open>One directive: the \<^verbatim>\<open>switch\<close> on the character \<open>c\<close> after the width.\<close>

definition format_one ::
    "u32 \<Rightarrow> u32 \<Rightarrow> u8 \<Rightarrow> u32 \<Rightarrow> u32 list \<Rightarrow> u32 \<times> bmem \<Rightarrow> (u32 list \<times> u32 \<times> bmem) option" where
  "format_one buf limit c min_width args s =
     (if c = 37 then Some (args, put_char buf limit 37 s)
      else if c = 100 \<or> c = 105 then
        Option.bind (va_arg args) (\<lambda>(v, args).
          map_option (Pair args) (print_int_val buf limit v 10 min_width s))
      else if c = 117 then
        Option.bind (va_arg args) (\<lambda>(v, args).
          map_option (Pair args) (print_uint_u buf limit v 10 min_width s))
      else if c = 120 then
        Option.bind (va_arg args) (\<lambda>(v, args).
          map_option (Pair args) (print_uint_u buf limit v 16 min_width s))
      else if c = 111 then
        Option.bind (va_arg args) (\<lambda>(v, args).
          map_option (Pair args) (print_uint_u buf limit v 8 min_width s))
      else if c = 115 then
        Option.bind (va_arg args) (\<lambda>(v, args).
          if v = 0 then Some (args, put_while buf limit NULL_TEXT s)
          else map_option (Pair args) (put_str buf limit v (fst s) (snd s)))
      else if c = 99 then
        Option.bind (va_arg args) (\<lambda>(v, args). Some (args, put_char buf limit (ucast v) s))
      else if c = 112 then
        Option.bind (va_arg args) (\<lambda>(v, args).
          map_option (Pair args)
            (print_uint_u buf limit v 16 8 (put_char buf limit 120 (put_char buf limit 48 s))))
      else Some (args, put_char buf limit c s))"

partial_function (option) format_loop ::
    "u32 \<Rightarrow> u32 \<Rightarrow> u32 \<Rightarrow> u32 list \<Rightarrow> u32 \<times> bmem \<Rightarrow> (u32 \<times> bmem) option" where
  "format_loop buf limit p args s =
     (let c = snd s p
      in if c = 0 then Some s
         else if c \<noteq> 37 then format_loop buf limit (p + 1) args (put_char buf limit c s)
         else Option.bind
           (width_loop (snd s) 0 (if snd s (p + 1) = 48 then p + 2 else p + 1)) (\<lambda>(w, q).
           if snd s q = 0 then Some s
           else Option.bind (format_one buf limit (snd s q) w args s) (\<lambda>(args, s).
             format_loop buf limit (q + 1) args s)))"

definition vsnprintf_u :: "u32 \<Rightarrow> u32 \<Rightarrow> u32 \<Rightarrow> u32 list \<Rightarrow> bmem \<Rightarrow> (u32 \<times> bmem) option" where
  "vsnprintf_u buf bufsize format args m =
     (if bufsize = 0 then Some (0, m)
      else map_option (\<lambda>(pos, m). (pos, m(buf + (if pos < bufsize then pos else bufsize - 1) := 0)))
        (format_loop buf (bufsize - 1) format args (0, m)))"

text \<open>\<^verbatim>\<open>sprintf\<close> and \<^verbatim>\<open>snprintf\<close> return the length of the string they have made.\<close>

definition sprintf :: "u32 \<Rightarrow> u32 \<Rightarrow> u32 list \<Rightarrow> bmem \<Rightarrow> (int \<times> bmem) option" where
  "sprintf str format args m =
     Option.bind (vsnprintf_u str 0x7FFFFFFF format args m) (\<lambda>(_, m).
       map_option (\<lambda>len. (len, m)) (strlen_u m str))"

definition snprintf :: "u32 \<Rightarrow> u32 \<Rightarrow> u32 \<Rightarrow> u32 list \<Rightarrow> bmem \<Rightarrow> (int \<times> bmem) option" where
  "snprintf str n format args m =
     Option.bind (vsnprintf_u str n format args m) (\<lambda>(_, m).
       map_option (\<lambda>len. (len, m)) (strlen_u m str))"

section \<open>Numbers from strings\<close>

partial_function (option) skip_blanks :: "bmem \<Rightarrow> u32 \<Rightarrow> u32 option" where
  "skip_blanks m s = (if m s = 32 \<or> m s = 9 then skip_blanks m (s + 1) else Some s)"

partial_function (option) atoi_digits :: "bmem \<Rightarrow> u32 \<Rightarrow> u32 \<Rightarrow> u32 option" where
  "atoi_digits m result s =
     (if m s \<ge> 48 \<and> m s \<le> 57 then atoi_digits m (result * 10 + (ucast (m s) - 48)) (s + 1)
      else Some result)"

definition atoi :: "bmem \<Rightarrow> u32 \<Rightarrow> u32 option" where
  "atoi m s =
     Option.bind (skip_blanks m s) (\<lambda>s.
       let neg = (m s = 45);
           s = (if m s = 45 then s + 1 else if m s = 43 then s + 1 else s)
       in map_option (\<lambda>result. result * (if neg then - 1 else 1)) (atoi_digits m 0 s))"

definition atol :: "bmem \<Rightarrow> u32 \<Rightarrow> u32 option" where
  "atol m s = atoi m s"

definition abs_u :: "u32 \<Rightarrow> u32" where
  "abs_u n = (if sint n < 0 then - n else n)"

definition labs :: "u32 \<Rightarrow> u32" where
  "labs n = (if sint n < 0 then - n else n)"

section \<open>The formatting as a function of the format and the arguments\<close>

text \<open>
  A number in a base, padded to a width; \<^verbatim>\<open>strs\<close> gives the strings that \<^verbatim>\<open>%s\<close>
  arguments may point to. A width that does not fit in a signed integer is undefined in C.
\<close>

definition number_bytes :: "nat \<Rightarrow> nat \<Rightarrow> nat \<Rightarrow> u8 list" where
  "number_bytes b w n = zero_padded w (if n = 0 then [48] else numeral_bytes b n)"

definition conversion :: "(u32 \<Rightarrow> u8 list option) \<Rightarrow> u8 \<Rightarrow> nat \<Rightarrow> u32 \<Rightarrow> u8 list option" where
  "conversion strs c w v =
     (if c = 100 \<or> c = 105 then
        Some (if sint v < 0 then 45 # number_bytes 10 w (nat (- sint v)) else number_bytes 10 w (nat (sint v)))
      else if c = 117 then Some (number_bytes 10 w (unat v))
      else if c = 120 then Some (number_bytes 16 w (unat v))
      else if c = 111 then Some (number_bytes 8 w (unat v))
      else if c = 115 then (if v = 0 then Some NULL_TEXT else strs v)
      else if c = 99 then Some [ucast v]
      else Some ([48, 120] @ number_bytes 16 8 (unat v)))"

definition takes_arg :: "u8 \<Rightarrow> bool" where
  "takes_arg c \<longleftrightarrow> c \<in> {100, 105, 117, 120, 111, 115, 99, 112}"

definition directive :: "(u32 \<Rightarrow> u8 list option) \<Rightarrow> u8 \<Rightarrow> u32 \<Rightarrow> u32 list \<Rightarrow> (u8 list \<times> u32 list) option" where
  "directive strs c w args =
     (if unat w \<ge> 2 ^ 31 then None
      else if takes_arg c then
        (case args of [] \<Rightarrow> None | v # args \<Rightarrow> map_option (\<lambda>ys. (ys, args)) (conversion strs c (unat w) v))
      else Some ([c], args))"

function fmt_bytes :: "(u32 \<Rightarrow> u8 list option) \<Rightarrow> u8 list \<Rightarrow> u32 list \<Rightarrow> u8 list option" where
  "fmt_bytes strs [] args = Some []"
| "fmt_bytes strs (c # fs) args =
     (if c \<noteq> 37 then map_option (Cons c) (fmt_bytes strs fs args)
      else (case width_digits 0 (if fs \<noteq> [] \<and> hd fs = 48 then tl fs else fs) of
              (w, []) \<Rightarrow> Some []
            | (w, d # gs) \<Rightarrow>
                Option.bind (directive strs d w args) (\<lambda>(ys, args).
                  map_option (append ys) (fmt_bytes strs gs args))))"
  by pat_completeness auto
termination
  by (relation "measure (\<lambda>(strs, fs, args). length fs)")
    (auto dest!: width_digits_shorter [OF sym] split: if_splits)

section \<open>The code computes that function\<close>

lemma put_while_emit: "put_while buf limit xs s = emit buf limit xs s"
proof (induction buf limit xs s rule: put_while.induct)
  case (2 buf limit x xs pos m)
  then show ?case by (simp add: emit_full emit_Cons put_char_def)
qed simp

lemma digits_loop_ok:
  assumes "2 \<le> unat base" "unat base \<le> 16" "length tmp + length (nat_digits (unat base) (unat val)) \<le> 12"
  shows "digits_loop base val tmp = Some (tmp @ rev (numeral_bytes (unat base) (unat val)))"
  using assms(3)
proof (induction "unat val" arbitrary: val tmp rule: less_induct)
  case less
  show ?case
  proof (cases "val = 0")
    case False
    let ?d = "unat val mod unat base"
    have v: "unat val \<noteq> 0" using False by (simp add: unat_eq_0)
    have b: "base \<noteq> 0" using assms(1) by auto
    have lt: "unat (val div base) < unat val" using v assms(1) by (simp add: unat_div)
    have st: "nat_digits (unat base) (unat val) = nat_digits (unat base) (unat (val div base)) @ [?d]"
      using v assms(1) by (simp add: nat_digits_step unat_div)
    have d: "?d < 16" using mod_less_divisor [of "unat base" "unat val"] assms by linarith
    have "ucast (val mod base) = (of_nat ?d :: u8)"
      by (simp flip: unat_mod)
    then have dc: "(let d = ucast (val mod base) :: u8 in if d \<le> 9 then 48 + d else 65 + d - 10) = digit_char ?d"
      using digit_char_eq [OF d] by (simp add: Let_def)
    have "digits_loop base (val div base) (tmp @ [digit_char ?d]) =
        Some ((tmp @ [digit_char ?d]) @ rev (numeral_bytes (unat base) (unat (val div base))))"
      using less.hyps [OF lt, of "tmp @ [digit_char ?d]"] less.prems st by simp
    then show ?thesis
      using less.prems False b dc st
      by (subst digits_loop.simps) (simp add: Let_def numeral_bytes_def)
  qed (subst digits_loop.simps, simp)
qed

lemma zeros_count:
  assumes "unat (w :: u32) < 2 ^ 31" "l \<le> 12"
  shows "nat (sint (w - of_nat l)) = unat w - l"
proof -
  have "unat (w - of_nat l) = (if l \<le> unat w then unat w - l else unat w + 4294967296 - l)"
    using assms unat_of_nat_diff [of "unat w" l] by simp
  then have "uint (w - of_nat l) = (if l \<le> unat w then int (unat w - l) else int (unat w + 4294967296 - l))"
    using int_unat_bounds(1) [of "w - of_nat l"] by presburger
  moreover have "nat s = n - l"
    if "u = (if l \<le> n then int (n - l) else int (n + 4294967296 - l))"
      "s = (if u < 2147483648 then u else u - 4294967296)" "n < 2147483648" for n u s
    using that assms(2) by (auto split: if_splits)
  ultimately show ?thesis using sint_cases assms(1) by simp
qed

lemma print_uint_ok:
  assumes "8 \<le> unat base" "unat base \<le> 16" "unat w < 2 ^ 31"
  shows "print_uint_u buf limit val base w s = Some (emit buf limit (number_bytes (unat base) (unat w) (unat val)) s)"
proof -
  have "unat val < unat base ^ 11"
  proof -
    have "unat val < 8 ^ 11" using unsigned_less [of val, where 'a = nat] by simp
    also have "\<dots> \<le> unat base ^ 11" using assms(1) by (intro power_mono) auto
    finally show ?thesis .
  qed
  then have l: "length (nat_digits (unat base) (unat val)) \<le> 11" using nat_digits_length assms(1) by simp
  then have d: "digits_loop base val [] = Some (rev (numeral_bytes (unat base) (unat val)))"
    using digits_loop_ok [of base "[]" val] assms by simp
  show ?thesis
  proof (cases "val = 0")
    case True
    then show ?thesis
      using zeros_count [OF assms(3), of 1]
      by (simp add: print_uint_u_def number_bytes_def zero_padded_def put_while_emit emit_append)
  next
    case False
    then have "unat val \<noteq> 0" by (simp add: unat_eq_0)
    then show ?thesis
      using zeros_count [OF assms(3), of "length (nat_digits (unat base) (unat val))"] l d False
      by (simp add: print_uint_u_def number_bytes_def zero_padded_def put_while_emit emit_append)
  qed
qed

lemma print_int_ok:
  assumes "unat w < 2 ^ 31"
  shows "print_int_val buf limit v 10 w s =
    Some (emit buf limit (if sint v < 0 then 45 # number_bytes 10 (unat w) (nat (- sint v))
                          else number_bytes 10 (unat w) (nat (sint v))) s)"
proof -
  obtain pos m where s: "s = (pos, m)" by fastforce
  show ?thesis
    using print_uint_ok [of 10 w buf limit] assms sint_neg_unat [of v] sint_nonneg_unat [of v]
    by (auto simp: print_int_val_def s emit_Cons put_char_def emit_full)
qed

lemma put_str_ok:
  assumes "str_outside buf (unat limit) m s xs"
  shows "put_str buf limit s pos m = Some (emit buf limit xs (pos, m))"
  using assms
proof (induction xs arbitrary: s pos m)
  case Nil
  then show ?case by (subst put_str.simps) (simp add: str_outside_def)
next
  case (Cons x xs)
  note x = str_outside_Cons [OF Cons.prems]
  show ?case
  proof (cases "pos < limit")
    case True
    then have "buf + pos \<in> span buf (unat limit)"
      using span_memI [of "unat pos" "unat limit" buf] by (simp add: word_less_nat_alt)
    then have "(m(buf + pos := x)) y = m y" if "y \<notin> span buf (unat limit)" for y using that by auto
    then have "str_outside buf (unat limit) (m(buf + pos := x)) (s + 1) xs"
      using x str_outside_cong [of buf "unat limit" "m(buf + pos := x)" m] by blast
    from Cons.IH [OF this, of "pos + 1"] show ?thesis
      using x True by (subst put_str.simps) (simp add: emit_Cons put_char_def del: fun_upd_apply)
  next
    case False
    then show ?thesis by (subst put_str.simps) (simp add: emit_full)
  qed
qed

lemma width_loop_ok:
  assumes "str_outside buf n m p fs"
  shows "\<exists>q. width_loop m w p = Some (fst (width_digits w fs), q) \<and>
    str_outside buf n m q (snd (width_digits w fs))"
  using assms
proof (induction fs arbitrary: p w)
  case Nil
  then show ?case by (subst width_loop.simps) (simp add: str_outside_def)
next
  case (Cons c fs)
  note c = str_outside_Cons [OF Cons.prems]
  show ?case
  proof (cases "48 \<le> c \<and> c \<le> 57")
    case True
    then show ?thesis using Cons.IH [of "p + 1" "w * 10 + ucast c - 48"] c
      by (subst width_loop.simps) simp
  next
    case False
    then show ?thesis using Cons.prems c by (subst width_loop.simps) auto
  qed
qed

lemma format_one_ok:
  assumes "directive strs c w args = Some (ys, args')"
    and "\<forall>a xs. strs a = Some xs \<longrightarrow> str_outside buf (unat limit) m a xs"
  shows "format_one buf limit c w args (pos, m) = Some (args', emit buf limit ys (pos, m))"
proof -
  have w: "unat w < 2 ^ 31" using assms(1) by (auto simp: directive_def split: if_splits)
  show ?thesis
  proof (cases "takes_arg c")
    case False
    then have "ys = [c]" "args' = args" using assms(1) by (auto simp: directive_def split: if_splits)
    then show ?thesis using False by (auto simp: format_one_def takes_arg_def emit_Cons)
  next
    case True
    then obtain v where args: "args = v # args'" and ys: "conversion strs c (unat w) v = Some ys"
      using assms(1) w by (auto simp: directive_def split: list.splits)
    have p: "print_uint_u buf limit v b w' s = Some (emit buf limit (number_bytes (unat b) (unat w') (unat v)) s)"
      if "b \<in> {8, 10, 16}" "w' = w \<or> w' = 8" for b w' s
      using that w by (intro print_uint_ok) auto
    have "put_str buf limit v pos m = Some (emit buf limit ys (pos, m))" if "c = 115" "v \<noteq> 0"
      using put_str_ok assms(2) ys that by (auto simp: conversion_def)
    moreover obtain pos' m' where "put_char buf limit 120 (put_char buf limit 48 (pos, m)) = (pos', m')"
      by fastforce
    ultimately show ?thesis
      using True ys w p print_int_ok [OF w]
      by (auto simp: takes_arg_def format_one_def args va_arg_def conversion_def put_while_emit emit_Cons)
        (metis surj_pair)
  qed
qed


lemma format_loop_ok:
  assumes "fmt_bytes strs fs args = Some out" "str_outside buf (unat limit) m p fs"
    "\<forall>a xs. strs a = Some xs \<longrightarrow> str_outside buf (unat limit) m a xs"
    "pos \<le> limit" "unat buf + unat limit \<le> 2 ^ 32"
  shows "format_loop buf limit p args (pos, m) = Some (emit buf limit out (pos, m))"
  using assms
proof (induction strs fs args arbitrary: p pos m out rule: fmt_bytes.induct)
  case (1 strs args)
  then show ?case by (subst format_loop.simps) (simp add: str_outside_def)
next
  case (2 strs c fs args)
  note c = str_outside_Cons [OF "2.prems"(2)]
  have after: "pos' \<le> limit \<and> (\<forall>a xs. str_outside buf (unat limit) m' a xs \<longleftrightarrow> str_outside buf (unat limit) m a xs)"
    if "emit buf limit ys (pos, m) = (pos', m')" for ys pos' m'
    using emit_frame [OF that "2.prems"(4,5)] str_outside_cong [of buf "unat limit" m' m] by blast
  show ?case
  proof (cases "c = 37")
    case False
    then obtain out' where out': "fmt_bytes strs fs args = Some out'" "out = c # out'" using "2.prems"(1) by auto
    obtain pos' m' where e: "emit buf limit [c] (pos, m) = (pos', m')" by fastforce
    then have pc: "put_char buf limit c (pos, m) = (pos', m')" by (simp add: emit_Cons)
    have "format_loop buf limit (p + 1) args (pos', m') = Some (emit buf limit out' (pos', m'))"
      using "2.IH"(1) [OF False out'(1), of m' "p + 1" pos'] after [OF e] c "2.prems"(3,5) by simp
    then show ?thesis using c False out'(2) pc by (subst format_loop.simps) (simp add: Let_def emit_Cons)
  next
    case True
    define gs where "gs = (if fs \<noteq> [] \<and> hd fs = 48 then tl fs else fs)"
    define g where "g = (if m (p + 1) = 48 then p + 2 else p + 1)"
    have "str_outside buf (unat limit) m g gs"
    proof (cases fs)
      case (Cons x xs)
      then show ?thesis using c str_outside_Cons [of buf "unat limit" m "p + 1" x xs]
        by (auto simp: g_def gs_def ac_simps)
    qed (use c str_outside_Nil [of buf "unat limit" m "p + 1"] in \<open>auto simp: g_def gs_def\<close>)
    then obtain q where q: "width_loop m 0 g = Some (fst (width_digits 0 gs), q)"
      "str_outside buf (unat limit) m q (snd (width_digits 0 gs))"
      using width_loop_ok by blast
    have step: "format_loop buf limit p args (pos, m) =
        (if m q = 0 then Some (pos, m)
         else Option.bind (format_one buf limit (m q) (fst (width_digits 0 gs)) args (pos, m)) (\<lambda>(args, s).
           format_loop buf limit (q + 1) args s))"
      using c True q(1) unfolding g_def by (subst format_loop.simps) (simp add: Let_def)
    show ?thesis
    proof (cases "width_digits 0 gs")
      case (Pair w ds)
      note fb = "2.prems"(1) [simplified True fmt_bytes.simps(2), folded gs_def, simplified Pair]
      show ?thesis
      proof (cases ds)
        case Nil
        then show ?thesis using step q(2) fb Pair by (simp add: str_outside_def)
      next
        case (Cons d hs)
        then obtain ys args' out' where d: "directive strs d w args = Some (ys, args')"
          "fmt_bytes strs hs args' = Some out'" "out = ys @ out'"
          using fb by (auto simp: bind_eq_Some_conv)
        have q': "m q = d" "d \<noteq> 0" "str_outside buf (unat limit) m (q + 1) hs"
          using q(2) Pair Cons str_outside_Cons by fastforce+
        obtain pos' m' where e: "emit buf limit ys (pos, m) = (pos', m')" by fastforce
        have "format_loop buf limit (q + 1) args' (pos', m') = Some (emit buf limit out' (pos', m'))"
          using after [OF e] q'(3) "2.prems"(3,5) d(2) True Pair Cons d(1)
          by (intro "2.IH"(2)) (auto simp: gs_def)
        then show ?thesis
          using step q' Pair format_one_ok [OF d(1) "2.prems"(3), of pos] e d(3) by (simp add: emit_append)
      qed
    qed
  qed
qed

lemma vsnprintf_ok:
  assumes "fmt_bytes strs fs args = Some out" "str_outside buf (unat bufsize) m format fs"
    "\<forall>a xs. strs a = Some xs \<longrightarrow> str_outside buf (unat bufsize) m a xs"
    "bufsize \<noteq> 0" "unat buf + unat bufsize \<le> 2 ^ 32"
  shows "vsnprintf_u buf bufsize format args m =
    Some (of_nat (min (length out) (unat bufsize - 1)), write_bytes buf (take (unat bufsize - 1) out @ [0]) m)"
proof -
  let ?pos = "of_nat (min (length out) (unat bufsize - 1)) :: u32"
  have l: "unat (bufsize - 1) = unat bufsize - 1" using assms(4) by (simp add: unat_minus_one)
  have "format_loop buf (bufsize - 1) format args (0, m) = Some (emit buf (bufsize - 1) out (0, m))"
  proof (rule format_loop_ok)
    show "\<forall>a xs. strs a = Some xs \<longrightarrow> str_outside buf (unat (bufsize - 1)) m a xs"
      using assms(3) str_outside_mono [of buf "unat bufsize" m] l by (metis diff_le_self)
  qed (use assms str_outside_mono [of buf "unat bufsize" m] l in auto)
  moreover have "?pos < bufsize"
  proof -
    have "0 < unat bufsize" using assms(4) by (simp add: unat_gt_0)
    then have "min (length out) (unat bufsize - 1) < unat bufsize" by linarith
    moreover from this have "min (length out) (unat bufsize - 1) < 2 ^ 32"
      using unsigned_less [of bufsize, where 'a = nat] by simp
    ultimately show ?thesis by (simp add: word_less_nat_alt unat_of_nat_small)
  qed
  moreover have "length (take (unat bufsize - 1) out) = min (length out) (unat bufsize - 1)" by simp
  ultimately show ?thesis
    using assms(4) by (simp add: vsnprintf_u_def emit_start l write_bytes_append min.commute)
qed

section \<open>Printed numbers read back\<close>

lemma digit_range: "d < 10 \<Longrightarrow> 48 \<le> digit_char d \<and> digit_char d \<le> 57 \<and> digit_char d \<noteq> 0 \<and>
    (ucast (digit_char d) :: u32) - 48 = of_nat d"
proof -
  assume d: "d < 10"
  have "(ucast (digit_char d) :: u32) = of_nat (unat (digit_char d))" by simp
  then show ?thesis using digit_char_value [OF d] d
    by (auto simp: word_le_nat_alt simp del: of_nat_unat)
qed

lemma atoi_digits_ok:
  assumes "\<forall>d\<in>set ds. d < 10" "cstr_at m s (map digit_char ds)"
  shows "atoi_digits m r s = Some (foldl (\<lambda>r d. r * 10 + of_nat d) r ds)"
  using assms
proof (induction ds arbitrary: s r)
  case (Cons d ds)
  have "d < 10" using Cons.prems(1) by simp
  from digit_range [OF this] show ?case
    using Cons by (subst atoi_digits.simps) simp
qed (subst atoi_digits.simps, simp)

lemma foldl_of_nat: "foldl (\<lambda>r d. r * 10 + of_nat d) (of_nat v) ds = (of_nat (foldl (\<lambda>v d. v * 10 + d) v ds) :: u32)"
proof (induction ds arbitrary: v)
  case (Cons d ds)
  then show ?case using Cons [of "v * 10 + d"] by simp
qed simp

text \<open>The decimal digits of a number, with one digit for 0.\<close>

definition decimal :: "nat \<Rightarrow> nat list" where
  "decimal n = (if n = 0 then [0] else nat_digits 10 n)"

lemma decimal_bytes: "number_bytes 10 0 n = map digit_char (decimal n)"
  by (simp add: number_bytes_def zero_padded_def decimal_def numeral_bytes_def digit_char_def)

lemma decimal_digits: "\<forall>d\<in>set (decimal n). d < 10"
  using nat_digits_less by (auto simp: decimal_def)

lemma atoi_decimal:
  assumes "cstr_at m s (map digit_char (decimal n))"
  shows "atoi_digits m 0 s = Some (of_nat n)"
proof -
  have "foldl (\<lambda>v d. v * 10 + d) 0 (decimal n) = n"
    using nat_digits_value [of 10 n] by (simp add: decimal_def digits_value_def)
  then show ?thesis
    using atoi_digits_ok [OF decimal_digits assms] foldl_of_nat [of 0 "decimal n"] by simp
qed

lemma decimal_head:
  assumes "cstr_at m s (map digit_char (decimal n))"
  shows "48 \<le> m s \<and> m s \<le> 57"
proof -
  have "decimal n \<noteq> []" using nat_digits_Nil [of 10 n] by (simp add: decimal_def)
  then obtain d ds where "decimal n = d # ds" by (cases "decimal n") auto
  then show ?thesis using assms decimal_digits [of n] digit_range [of d] by simp
qed

lemma atoi_ok:
  assumes "cstr_at m s (if sint v < 0 then 45 # map digit_char (decimal (nat (- sint v)))
                        else map digit_char (decimal (nat (sint v))))"
  shows "atoi m s = Some v"
proof (cases "sint v < 0")
  case True
  then have "m s = 45" and c: "cstr_at m (s + 1) (map digit_char (decimal (unat (- v))))"
    using assms sint_neg_unat [OF True] by auto
  then have "skip_blanks m s = Some s" by (subst skip_blanks.simps) simp
  then show ?thesis using atoi_decimal [OF c] \<open>m s = 45\<close> by (simp add: atoi_def)
next
  case False
  then have "nat (sint v) = unat v" using sint_nonneg_unat by simp
  then have c: "cstr_at m s (map digit_char (decimal (unat v)))" using assms False by simp
  then have "48 \<le> m s \<and> m s \<le> 57" using decimal_head by blast
  then have ms: "m s \<noteq> 32" "m s \<noteq> 9" "m s \<noteq> 45" "m s \<noteq> 43" by auto
  then have "skip_blanks m s = Some s" by (subst skip_blanks.simps) simp
  then show ?thesis using atoi_decimal [OF c] ms by (simp add: atoi_def)
qed

lemma decimal_length: "n < 10 ^ 10 \<Longrightarrow> length (decimal n) \<le> 10"
  using nat_digits_length [of 10 n 10] by (simp add: decimal_def)

lemma digit_bytes_nonzero: "0 \<notin> set (map digit_char (decimal n))"
  using decimal_digits [of n] digit_range by fastforce

section \<open>What formatted output promises\<close>

text \<open>
  C9004. \<^verbatim>\<open>vsnprintf\<close> of the C library returns, for every format and enough arguments, and
  leaves in the buffer exactly the first \<open>bufsize - 1\<close> bytes of the complete formatting followed by
  a NUL; no other byte of memory changes, so it never writes past the buffer, and it returns the
  number of bytes written. The formatting (\<^const>\<open>fmt_bytes\<close>) handles \<^verbatim>\<open>%%\<close>,
  \<^verbatim>\<open>%d\<close>, \<^verbatim>\<open>%i\<close>, \<^verbatim>\<open>%u\<close>, \<^verbatim>\<open>%x\<close>, \<^verbatim>\<open>%o\<close>,
  \<^verbatim>\<open>%s\<close>, \<^verbatim>\<open>%c\<close> and \<^verbatim>\<open>%p\<close> with a width; the format and the strings lie
  outside the buffer.
\<close>

theorem vsnprintf_formats:
  assumes "fmt_bytes strs fs args = Some out" "str_outside buf (unat bufsize) m format fs"
    and "\<forall>a xs. strs a = Some xs \<longrightarrow> str_outside buf (unat bufsize) m a xs"
    and "bufsize \<noteq> 0" "unat buf + unat bufsize \<le> 2 ^ 32"
  shows "vsnprintf_u buf bufsize format args m =
    Some (of_nat (min (length out) (unat bufsize - 1)), write_bytes buf (take (unat bufsize - 1) out @ [0]) m)"
  using assms by (rule vsnprintf_ok)

text \<open>The format ``%d:%s'' at 16 and the string ``ok'' at 32, printed to a buffer of 5 bytes at 64.\<close>

definition demo_fmt :: bmem where
  "demo_fmt = write_bytes 16 [37, 100, 58, 37, 115, 0] (write_bytes 32 [111, 107, 0] (\<lambda>_. 0))"

theorem vsnprintf_formats_witness:
  "vsnprintf_u 64 5 16 [-42, 32] demo_fmt = Some (4, write_bytes 64 [45, 52, 50, 58, 0] demo_fmt)"
proof -
  let ?strs = "\<lambda>a. if a = 32 then Some [111, 107 :: u8] else None"
  have d: "nat_digits 10 42 = [4, 2]" by (simp add: nat_digits.simps)
  have "fmt_bytes ?strs [37, 100, 58, 37, 115] [-42, 32] = Some [45, 52, 50, 58, 111, 107]"
    by (simp add: directive_def takes_arg_def conversion_def number_bytes_def numeral_bytes_def d
      zero_padded_def digit_char_def)
  moreover have "str_outside 64 (unat (5 :: u32)) demo_fmt 16 [37, 100, 58, 37, 115]"
    "str_outside 64 (unat (5 :: u32)) demo_fmt 32 [111, 107]"
    by (simp_all add: str_outside_def demo_fmt_def span_unat disjoint_iff)
  ultimately show ?thesis
    using vsnprintf_formats [of ?strs "[37, 100, 58, 37, 115]" "[-42, 32]" "[45, 52, 50, 58, 111, 107]" 64 5 demo_fmt 16]
    by simp
qed

text \<open>
  C9005. A printed number reads back: \<^verbatim>\<open>snprintf(buf, n, "%d", v)\<close> with a buffer of at least
  twelve bytes leaves a string from which \<^verbatim>\<open>atoi\<close> returns \<open>v\<close>, for every 32-bit
  \<open>v\<close>, the most negative one included.
\<close>

theorem print_atoi_roundtrip:
  assumes "str_outside buf (unat bufsize) m format [37, 100]"
    and "12 \<le> unat bufsize" "unat buf + unat bufsize \<le> 2 ^ 32"
  shows "\<exists>n m'. snprintf buf bufsize format [v] m = Some (n, m') \<and> atoi m' buf = Some v"
proof -
  let ?out = "if sint v < 0 then 45 # map digit_char (decimal (nat (- sint v)))
              else map digit_char (decimal (nat (sint v)))"
  have "fmt_bytes (\<lambda>_. None) [37, 100] [v] = Some ?out"
    by (simp add: directive_def takes_arg_def conversion_def decimal_bytes)
  moreover have "nat (- sint v) < 10 ^ 10" "nat (sint v) < 10 ^ 10"
    using sint_greater_eq [of v] sint_less [of v] by simp_all
  then have len: "length ?out \<le> 11" using decimal_length [of "nat (sint v)"] decimal_length [of "nat (- sint v)"] by simp
  moreover have "bufsize \<noteq> 0" using assms(2) by auto
  ultimately have p: "vsnprintf_u buf bufsize format [v] m =
      Some (of_nat (min (length ?out) (unat bufsize - 1)), write_bytes buf (?out @ [0]) m)"
    using vsnprintf_ok [of "\<lambda>_. None" "[37, 100]" "[v]" ?out buf bufsize m format] assms by simp
  have "0 \<notin> set ?out" using digit_bytes_nonzero by auto
  then have c: "cstr_at (write_bytes buf (?out @ [0]) m) buf ?out" using len by (intro write_bytes_cstr) auto
  from atoi_ok [OF c] strlen_u_ok [OF c] p show ?thesis by (simp add: snprintf_def)
qed

theorem print_atoi_roundtrip_witness:
  "\<exists>n m'. snprintf 64 16 16 [0x80000000] (write_bytes 16 [37, 100, 0] (\<lambda>_. 0)) = Some (n, m') \<and>
    atoi m' 64 = Some 0x80000000"
  by (rule print_atoi_roundtrip) (simp_all add: str_outside_def span_unat disjoint_iff)

end
