(* ===== verification/Console.thy ===== *)
theory Console
  imports KString
begin

text \<open>
  The text console of \<^verbatim>\<open>kernel/src/drivers/vga.c\<close>: 25 rows of 80 two-byte cells in text
  memory, a cursor, a colour attribute and the escape that sets it. Text memory is the byte memory
  of \<^verbatim>\<open>KString\<close>; the bytes sent to the CRT controller's ports are recorded in order. A C
  \<^verbatim>\<open>int\<close> that counts is an \<^typ>\<open>int\<close>; the attribute, which is shifted and
  truncated, is a 32-bit word.
\<close>

section \<open>State\<close>

record console =
  vgamem :: u32
  attrib :: u32
  csr_x :: int
  csr_y :: int
  col_next :: bool
  saved_csr_x :: int
  saved_csr_y :: int
  saved_attrib :: u32
  text_mem :: bmem
  outs :: "(u16 \<times> u8) list"

definition outportb_c :: "u16 \<Rightarrow> u8 \<Rightarrow> console \<Rightarrow> console" where
  "outportb_c port v s = s\<lparr>outs := outs s @ [(port, v)]\<rparr>"

definition cell_at :: "console \<Rightarrow> int \<Rightarrow> u32" where
  "cell_at s i = vgamem s + 2 * of_int i"

section \<open>Operations\<close>

definition vga_save_cursor_state :: "console \<Rightarrow> console" where
  "vga_save_cursor_state s =
     s\<lparr>saved_csr_x := csr_x s, saved_csr_y := csr_y s, saved_attrib := attrib s\<rparr>"

text \<open>\<^verbatim>\<open>(attrib << 8) | ' '\<close> in 16 bits.\<close>

definition blank_cell :: "console \<Rightarrow> u16" where
  "blank_cell s = ucast (push_bit 8 (attrib s) OR 32)"

definition scroll :: "console \<Rightarrow> console" where
  "scroll s =
     (let blank = blank_cell s
      in if csr_y s \<ge> 25 then
           (let n = csr_y s - 25 + 1;
                scroll_by = (if n > 25 then 25 else n);
                m = memcpy (vgamem s) (cell_at s (80 * scroll_by)) ((25 - scroll_by) * 80 * 2) (text_mem s);
                m = memsetw (cell_at s (80 * (25 - scroll_by))) blank 80 m
            in s\<lparr>text_mem := m, csr_y := 25 - 1\<rparr>)
         else s)"

definition move_csr :: "console \<Rightarrow> console" where
  "move_csr s =
     (let temp = of_int (csr_y s * 80 + csr_x s) :: u32
      in outportb_c 0x3D5 (ucast temp) (outportb_c 0x3D4 15
           (outportb_c 0x3D5 (ucast (drop_bit 8 temp)) (outportb_c 0x3D4 14 s))))"

definition cls :: "console \<Rightarrow> console" where
  "cls s =
     (let blank = blank_cell s
      in move_csr (s\<lparr>text_mem := fold (\<lambda>i. memsetw (cell_at s (int i * 80)) blank 80) [0..<25] (text_mem s)\<rparr>))"

definition put_cell :: "u16 \<Rightarrow> console \<Rightarrow> console" where
  "put_cell v s = s\<lparr>text_mem := st16 (cell_at s (csr_y s * 80 + csr_x s)) v (text_mem s)\<rparr>"

definition putch :: "u8 \<Rightarrow> console \<Rightarrow> console" where
  "putch c s =
     (if col_next s then s\<lparr>attrib := scast c, col_next := False\<rparr>
      else if c = 0x1B then s\<lparr>col_next := True\<rparr>
      else if c = 0x0C then cls s
      else
        (let s = (if c = 0x08 then
                    (let s = (if csr_x s \<noteq> 0 then s\<lparr>csr_x := csr_x s - 1\<rparr> else s)
                     in put_cell (blank_cell s) s)
                  else if c = 9 then s\<lparr>csr_x := csr_x s + (4 - csr_x s mod 4)\<rparr>
                  else if c = 13 then s\<lparr>csr_x := 0\<rparr>
                  else if c = 10 then s\<lparr>csr_x := 0, csr_y := csr_y s + 1\<rparr>
                  else if sint c \<ge> 32 then
                    (let s = put_cell (ucast (ucast c OR push_bit 8 (attrib s))) s
                     in s\<lparr>csr_x := csr_x s + 1\<rparr>)
                  else s);
             s = (if csr_x s \<ge> 80 then s\<lparr>csr_x := 0, csr_y := csr_y s + 1\<rparr> else s)
         in move_csr (scroll s)))"

partial_function (option) puts_loop :: "bmem \<Rightarrow> u32 \<Rightarrow> console \<Rightarrow> console option" where
  "puts_loop m str s = (if m str \<noteq> 0 then puts_loop m (str + 1) (putch (m str) s) else Some s)"

text \<open>The string is in kernel memory, which the console's writes do not reach.\<close>

definition puts :: "bmem \<Rightarrow> u32 \<Rightarrow> console \<Rightarrow> console option" where
  "puts m str s = puts_loop m str s"

definition vga_write_fs :: "u32 \<Rightarrow> u32 \<Rightarrow> u8 list \<Rightarrow> console \<Rightarrow> u32 \<times> console" where
  "vga_write_fs n units buffer s =
     fold (\<lambda>_ st. fold (\<lambda>j (ret, s). (ret + 1, putch (buffer ! j) s)) [0..<unat n] st)
       [0..<unat units] (0, s\<lparr>col_next := False\<rparr>)"

definition settextcolor :: "u8 \<Rightarrow> u8 \<Rightarrow> console \<Rightarrow> console" where
  "settextcolor forecolor backcolor s =
     s\<lparr>attrib := push_bit 4 (ucast backcolor) OR (ucast forecolor AND 0x0F)\<rparr>"

definition init_video :: "console \<Rightarrow> console" where
  "init_video s = cls (s\<lparr>vgamem := 0xB8000 + KERNEL_VIRTUAL_BASE\<rparr>)"

section \<open>The screen\<close>

text \<open>
  The 2000 cells of text memory as a list, row by row. The text buffer does not wrap around the
  address space and starts at an even address.
\<close>

definition cells :: "u32 \<Rightarrow> bmem \<Rightarrow> u16 list" where
  "cells b m = map (\<lambda>i. ld16 m (b + 2 * of_nat i)) [0..<2000]"

definition text_area :: "u32 \<Rightarrow> bool" where
  "text_area b \<longleftrightarrow> unat b + 4000 \<le> 2 ^ 32"

lemma length_cells [simp]: "length (cells b m) = 2000"
  by (simp add: cells_def)

lemma cells_nth: "i < 2000 \<Longrightarrow> cells b m ! i = ld16 m (b + 2 * of_nat i)"
  by (simp add: cells_def)

lemma cell_inj:
  assumes "text_area b" "i < 4000" "j < 4000" "b + of_nat i = b + of_nat j"
  shows "i = j"
  using offset_inj [of b i j] assms by simp

lemma ld16_offset: "ld16 m (b + 2 * of_nat i) = ucast (m (b + of_nat (2 * i))) OR push_bit 8 (ucast (m (b + of_nat (2 * i + 1))))"
  by (simp add: ld16_def ac_simps)

lemma cells_st16:
  assumes "text_area b" "i < 2000"
  shows "cells b (st16 (b + 2 * of_nat i) v m) = (cells b m)[i := v]"
proof (rule nth_equalityI)
  fix j assume "j < length (cells b (st16 (b + 2 * of_nat i) v m))"
  then have j: "j < 2000" by simp
  show "cells b (st16 (b + 2 * of_nat i) v m) ! j = (cells b m)[i := v] ! j"
  proof (cases "i = j")
    case True
    then show ?thesis using j by (simp add: cells_nth)
  next
    case False
    let ?m = "st16 (b + of_nat (2 * i)) v m"
    have "b + of_nat k \<noteq> b + of_nat l" if "k \<in> {2 * j, 2 * j + 1}" "l \<in> {2 * i, 2 * i + 1}" for k l
      using cell_inj [OF assms(1), of k l] that assms(2) j False by auto
    from this [of "2 * j" "2 * i"] this [of "2 * j" "2 * i + 1"] this [of "2 * j + 1" "2 * i"]
      this [of "2 * j + 1" "2 * i + 1"]
    have "?m (b + of_nat (2 * j)) = m (b + of_nat (2 * j))" "?m (b + of_nat (2 * j + 1)) = m (b + of_nat (2 * j + 1))"
      by (simp_all add: st16_def ac_simps)
    then have "ld16 ?m (b + 2 * of_nat j) = ld16 m (b + 2 * of_nat j)" by (simp only: ld16_offset)
    then show ?thesis using j False assms(2) by (simp add: cells_nth)
  qed
qed simp

lemma st16_area:
  assumes "i < 2000" "x \<notin> span b 4000"
  shows "st16 (b + 2 * of_nat i) v m x = m x"
proof -
  have "b + of_nat (2 * i) \<in> span b 4000" "b + of_nat (2 * i + 1) \<in> span b 4000"
    using assms(1) unfolding span_def by (intro imageI; simp)+
  then show ?thesis using assms(2) by (auto simp: st16_def ac_simps)
qed

lemma memsetw_cells:
  assumes "text_area b" "k + n \<le> 2000"
  shows "cells b (memsetw (b + 2 * of_nat k) v (int n) m) =
      take k (cells b m) @ replicate n v @ drop (k + n) (cells b m)"
    and "x \<notin> span b 4000 \<Longrightarrow> memsetw (b + 2 * of_nat k) v (int n) m x = m x"
proof -
  have s: "memsetw (b + 2 * of_nat k) v (int (Suc n)) m =
      st16 (b + 2 * of_nat (k + n)) v (memsetw (b + 2 * of_nat k) v (int n) m)" for n
    by (simp add: memsetw_def algebra_simps nat_add_distrib)
  show "cells b (memsetw (b + 2 * of_nat k) v (int n) m) =
      take k (cells b m) @ replicate n v @ drop (k + n) (cells b m)"
    using assms(2)
  proof (induction n)
    case (Suc n)
    have "drop (k + n) (cells b m) = cells b m ! (k + n) # drop (k + Suc n) (cells b m)"
      using Suc.prems by (simp add: Cons_nth_drop_Suc)
    moreover have "cells b (memsetw (b + 2 * of_nat k) v (int (Suc n)) m) =
        (cells b (memsetw (b + 2 * of_nat k) v (int n) m))[k + n := v]"
      unfolding s using Suc.prems by (intro cells_st16 [OF assms(1)]) simp
    ultimately show ?case using Suc by (simp add: list_update_append replicate_append_same)
  qed (simp add: memsetw_def)
  show "memsetw (b + 2 * of_nat k) v (int n) m x = m x" if "x \<notin> span b 4000"
    using assms(2)
  proof (induction n)
    case (Suc n)
    then show ?case unfolding s using st16_area [of "k + n" x b] that by simp
  qed (simp add: memsetw_def)
qed


lemma scroll_copy:
  assumes "text_area b"
  shows "cells b (memcpy b (b + 2 * 80) 3840 m) = drop 80 (cells b m) @ drop 1920 (cells b m)"
    and "x \<notin> span b 4000 \<Longrightarrow> memcpy b (b + 2 * 80) 3840 m x = m x"
proof -
  let ?m = "memcpy b (b + 2 * 80) 3840 m"
  have "forward_safe b (b + 2 * 80) (nat 3840)"
    unfolding forward_safe_def
  proof (intro allI impI notI)
    fix i j assume "j < nat 3840" "i < j" "b + of_nat i = b + 2 * 80 + of_nat j"
    then have "b + of_nat i = b + of_nat (160 + j)" "i < 4000" "160 + j < 4000" by (simp_all add: ac_simps)
    then show False using cell_inj [OF assms, of i "160 + j"] \<open>i < j\<close> by simp
  qed
  note eff = memcpy_effect [OF this]
  have byte: "?m (b + of_nat i) = m (b + of_nat (160 + i))" if "i < 3840" for i
    using eff(1) [of i m] that by (simp add: ac_simps)
  have out: "?m (b + of_nat i) = m (b + of_nat i)" if "3840 \<le> i" "i < 4000" for i
  proof (intro eff(2))
    show "b + of_nat i \<notin> span b (nat 3840)"
    proof
      assume "b + of_nat i \<in> span b (nat 3840)"
      then obtain j where "j < nat 3840" "b + of_nat i = b + of_nat j" unfolding span_mem by blast
      then show False using cell_inj [OF assms, of i j] that by simp
    qed
  qed simp
  show "cells b ?m = drop 80 (cells b m) @ drop 1920 (cells b m)"
  proof (rule nth_equalityI)
    fix i assume "i < length (cells b ?m)"
    then have i: "i < 2000" by simp
    show "cells b ?m ! i = (drop 80 (cells b m) @ drop 1920 (cells b m)) ! i"
    proof (cases "i < 1920")
      case True
      then have "ld16 ?m (b + 2 * of_nat i) = ld16 m (b + 2 * of_nat (80 + i))"
        using byte [of "2 * i"] byte [of "2 * i + 1"] unfolding ld16_offset by (simp add: ac_simps)
      then show ?thesis using True i by (simp add: nth_append cells_nth)
    next
      case False
      then have "ld16 ?m (b + 2 * of_nat i) = ld16 m (b + 2 * of_nat i)"
        using out [of "2 * i"] out [of "2 * i + 1"] i unfolding ld16_offset by simp
      then show ?thesis using False i by (simp add: nth_append cells_nth)
    qed
  qed simp
  show "?m x = m x" if "x \<notin> span b 4000"
  proof (intro eff(2))
    show "x \<notin> span b (nat 3840)" using that unfolding span_def by auto
  qed simp
qed

text \<open>The console's invariant: the cursor is on the screen.\<close>

definition console_ok :: "console \<Rightarrow> bool" where
  "console_ok s \<longleftrightarrow> text_area (vgamem s) \<and> 0 \<le> csr_x s \<and> csr_x s < 80 \<and> 0 \<le> csr_y s \<and> csr_y s < 25"

text \<open>The terminal the console implements: cells, cursor index, attribute and pending escape.\<close>

record terminal =
  grid :: "u16 list"
  tx :: nat
  ty :: nat
  colour :: u8
  escape :: bool

definition glyph :: "u8 \<Rightarrow> u8 \<Rightarrow> u16" where
  "glyph a c = ucast c OR push_bit 8 (ucast a)"

definition newline_t :: "terminal \<Rightarrow> terminal" where
  "newline_t t =
     (if ty t = 24 then t\<lparr>grid := drop 80 (grid t) @ replicate 80 (glyph (colour t) 32), tx := 0\<rparr>
      else t\<lparr>tx := 0, ty := Suc (ty t)\<rparr>)"

definition goto_t :: "nat \<Rightarrow> terminal \<Rightarrow> terminal" where
  "goto_t x t = (if x \<ge> 80 then newline_t t else t\<lparr>tx := x\<rparr>)"

definition set_cell_t :: "u16 \<Rightarrow> terminal \<Rightarrow> terminal" where
  "set_cell_t v t = t\<lparr>grid := (grid t)[ty t * 80 + tx t := v]\<rparr>"

definition type_t :: "u8 \<Rightarrow> terminal \<Rightarrow> terminal" where
  "type_t c t =
     (if escape t then t\<lparr>colour := c, escape := False\<rparr>
      else if c = 0x1B then t\<lparr>escape := True\<rparr>
      else if c = 0x0C then t\<lparr>grid := replicate 2000 (glyph (colour t) 32)\<rparr>
      else if c = 0x08 then
        (let t = t\<lparr>tx := tx t - 1\<rparr> in set_cell_t (glyph (colour t) 32) t)
      else if c = 9 then goto_t (4 * (tx t div 4 + 1)) t
      else if c = 13 then t\<lparr>tx := 0\<rparr>
      else if c = 10 then newline_t t
      else if 32 \<le> c \<and> c < 128 then goto_t (tx t + 1) (set_cell_t (glyph (colour t) c) t)
      else t)"

definition view :: "console \<Rightarrow> terminal" where
  "view s = \<lparr>grid = cells (vgamem s) (text_mem s), tx = nat (csr_x s), ty = nat (csr_y s),
     colour = ucast (attrib s), escape = col_next s\<rparr>"

lemma glyph_blank: "blank_cell s = glyph (ucast (attrib s)) 32"
  unfolding blank_cell_def glyph_def
proof (rule bit_word_eqI)
  fix n assume "n < LENGTH(16)"
  then show "bit (ucast (push_bit 8 (attrib s) OR 32) :: u16) n =
      bit (ucast (32 :: u8) OR push_bit 8 (ucast (ucast (attrib s) :: u8)) :: u16) n"
    by (auto simp: bit_simps)
qed

lemma glyph_char: "(ucast (ucast c OR push_bit 8 (a :: u32)) :: u16) = glyph (ucast a) c"
  unfolding glyph_def
proof (rule bit_word_eqI)
  fix n assume "n < LENGTH(16)"
  then show "bit (ucast (ucast c OR push_bit 8 a) :: u16) n =
      bit (ucast c OR push_bit 8 (ucast (ucast a :: u8)) :: u16) n"
    by (auto simp: bit_simps)
qed

lemma ucast_scast_byte: "(ucast (scast (c :: u8) :: u32) :: u8) = c"
  by (rule bit_word_eqI) (simp add: bit_simps)

lemma scroll_inside [simp]: "csr_y s < 25 \<Longrightarrow> scroll s = s"
  by (simp add: scroll_def)

lemma cell_at_nat: "0 \<le> i \<Longrightarrow> cell_at s i = vgamem s + 2 * of_nat (nat i)"
  by (simp add: cell_at_def of_nat_nat)

lemma scroll_bottom:
  assumes "csr_y s = 25" "text_area (vgamem s)"
  shows "cells (vgamem s) (text_mem (scroll s)) =
      drop 80 (cells (vgamem s) (text_mem s)) @ replicate 80 (glyph (ucast (attrib s)) 32)"
    and "x \<notin> span (vgamem s) 4000 \<Longrightarrow> text_mem (scroll s) x = text_mem s x"
    and "\<exists>m. scroll s = s\<lparr>text_mem := m, csr_y := 24\<rparr>"
proof -
  let ?b = "vgamem s" and ?c = "memcpy (vgamem s) (vgamem s + 2 * 80) 3840 (text_mem s)"
  have eq: "scroll s = s\<lparr>text_mem := memsetw (?b + 2 * of_nat 1920) (blank_cell s) (int 80) ?c, csr_y := 24\<rparr>"
    using assms(1) by (simp add: scroll_def Let_def cell_at_def)
  show "cells ?b (text_mem (scroll s)) = drop 80 (cells ?b (text_mem s)) @ replicate 80 (glyph (ucast (attrib s)) 32)"
    unfolding eq using memsetw_cells(1) [OF assms(2), of 1920 80 "blank_cell s" ?c]
      scroll_copy(1) [OF assms(2), of "text_mem s"] by (simp add: glyph_blank)
  show "text_mem (scroll s) x = text_mem s x" if "x \<notin> span ?b 4000"
    unfolding eq using memsetw_cells(2) [OF assms(2), of 1920 80 x "blank_cell s" ?c] scroll_copy(2) [OF assms(2) that] that
    by simp
  show "\<exists>m. scroll s = s\<lparr>text_mem := m, csr_y := 24\<rparr>" using eq by blast
qed

lemma move_csr_fields [simp]:
  "vgamem (move_csr s) = vgamem s" "attrib (move_csr s) = attrib s" "csr_x (move_csr s) = csr_x s"
  "csr_y (move_csr s) = csr_y s" "col_next (move_csr s) = col_next s" "text_mem (move_csr s) = text_mem s"
  "view (move_csr s) = view s" "console_ok (move_csr s) = console_ok s"
  by (simp_all add: move_csr_def outportb_c_def Let_def view_def console_ok_def)

text \<open>What a step of the console keeps.\<close>

definition stays :: "console \<Rightarrow> console \<Rightarrow> bool" where
  "stays s s' \<longleftrightarrow> console_ok s' \<and> vgamem s' = vgamem s \<and>
     (\<forall>x. x \<notin> span (vgamem s) 4000 \<longrightarrow> text_mem s' x = text_mem s x)"

lemma newline_step:
  assumes "console_ok s"
  shows "view (move_csr (scroll (s\<lparr>csr_x := 0, csr_y := csr_y s + 1\<rparr>))) = newline_t (view s)"
    and "stays s (move_csr (scroll (s\<lparr>csr_x := 0, csr_y := csr_y s + 1\<rparr>)))"
proof -
  let ?s = "s\<lparr>csr_x := 0, csr_y := csr_y s + 1\<rparr>"
  have *: "view (scroll ?s) = newline_t (view s) \<and> stays s (scroll ?s)"
  proof (cases "csr_y s = 24")
    case True
    have sc: "csr_y ?s = 25" "text_area (vgamem ?s)" using True assms by (simp_all add: console_ok_def)
    obtain m where m: "scroll ?s = ?s\<lparr>text_mem := m, csr_y := 24\<rparr>" using scroll_bottom(3) [OF sc] by blast
    show ?thesis
      using scroll_bottom(1,2) [OF sc] assms True unfolding m
      by (simp add: view_def newline_t_def stays_def console_ok_def)
  next
    case False
    then show ?thesis using assms by (auto simp: view_def newline_t_def stays_def console_ok_def nat_add_distrib)
  qed
  then show "view (move_csr (scroll ?s)) = newline_t (view s)" "stays s (move_csr (scroll ?s))"
    by (simp_all add: stays_def)
qed

lemma goto_step:
  assumes "text_area (vgamem s)" "0 \<le> csr_x s" "0 \<le> csr_y s" "csr_y s < 25"
  shows "view (move_csr (scroll (if csr_x s \<ge> 80 then s\<lparr>csr_x := 0, csr_y := csr_y s + 1\<rparr> else s))) =
      goto_t (nat (csr_x s)) (view s)"
    and "stays s (move_csr (scroll (if csr_x s \<ge> 80 then s\<lparr>csr_x := 0, csr_y := csr_y s + 1\<rparr> else s)))"
proof -
  let ?r = "move_csr (scroll (if csr_x s \<ge> 80 then s\<lparr>csr_x := 0, csr_y := csr_y s + 1\<rparr> else s))"
  have "view ?r = goto_t (nat (csr_x s)) (view s) \<and> stays s ?r"
  proof (cases "csr_x s \<ge> 80")
    case True
    have ok: "console_ok (s\<lparr>csr_x := 0\<rparr>)" using assms by (simp add: console_ok_def)
    have "newline_t (view (s\<lparr>csr_x := 0\<rparr>)) = newline_t (view s)"
      by (simp add: newline_t_def view_def)
    then show ?thesis
      using newline_step [OF ok] True by (simp add: goto_t_def stays_def)
  next
    case False
    then show ?thesis using assms by (simp add: goto_t_def stays_def console_ok_def view_def)
  qed
  then show "view ?r = goto_t (nat (csr_x s)) (view s)" "stays s ?r" by auto
qed

lemma put_cell_step:
  assumes "console_ok s"
  shows "view (put_cell v s) = set_cell_t v (view s)" "stays s (put_cell v s)"
proof -
  let ?i = "nat (csr_y s) * 80 + nat (csr_x s)"
  have i: "?i < 2000" using assms unfolding console_ok_def by (elim conjE) linarith
  have "cell_at s (csr_y s * 80 + csr_x s) = vgamem s + 2 * of_nat ?i"
    using assms by (subst cell_at_nat) (simp_all add: console_ok_def nat_add_distrib nat_mult_distrib)
  then have eq: "put_cell v s = s\<lparr>text_mem := st16 (vgamem s + 2 * of_nat ?i) v (text_mem s)\<rparr>"
    by (simp only: put_cell_def)
  have a: "text_area (vgamem s)" using assms by (simp add: console_ok_def)
  show "view (put_cell v s) = set_cell_t v (view s)"
    unfolding eq using cells_st16 [OF a i] by (simp add: view_def set_cell_t_def)
  show "stays s (put_cell v s)"
    unfolding eq using st16_area [OF i] assms by (simp add: stays_def console_ok_def del: of_nat_add of_nat_mult)
qed

lemma cls_step:
  assumes "console_ok s"
  shows "view (cls s) = (view s)\<lparr>grid := replicate 2000 (glyph (ucast (attrib s)) 32)\<rparr>" "stays s (cls s)"
proof -
  let ?b = "vgamem s" and ?v = "blank_cell s"
  let ?row = "\<lambda>i. memsetw (cell_at s (int i * 80)) ?v 80"
  have a: "text_area ?b" using assms by (simp add: console_ok_def)
  have row: "?row i = memsetw (?b + 2 * of_nat (80 * i)) ?v (int 80)" for i
    by (simp add: cell_at_def mult.commute)
  have *: "cells ?b (fold ?row [0..<k] m) = replicate (80 * k) ?v @ drop (80 * k) (cells ?b m) \<and>
      (\<forall>x. x \<notin> span ?b 4000 \<longrightarrow> fold ?row [0..<k] m x = m x)" if "k \<le> 25" for k m
    using that
  proof (induction k)
    case (Suc k)
    let ?m = "fold ?row [0..<k] m"
    have "fold ?row [0..<Suc k] m = memsetw (?b + 2 * of_nat (80 * k)) ?v (int 80) ?m" using row by simp
    then show ?case
      using memsetw_cells [OF a, of "80 * k" 80] Suc by (simp add: replicate_add [symmetric] add.commute)
  qed simp
  from * [of 25 "text_mem s"]
  show "view (cls s) = (view s)\<lparr>grid := replicate 2000 (glyph (ucast (attrib s)) 32)\<rparr>" "stays s (cls s)"
    using assms by (simp_all add: cls_def Let_def view_def glyph_blank stays_def console_ok_def)
qed

lemma stays_trans:
  "stays s s' \<Longrightarrow> stays s' s'' \<Longrightarrow> stays s s''"
  by (simp add: stays_def)

lemma stays_cursor:
  assumes "stays s' s''" "vgamem s' = vgamem s" "text_mem s' = text_mem s"
  shows "stays s s''"
  using assms by (simp add: stays_def)

lemma printable: "32 \<le> sint (c :: u8) \<longleftrightarrow> 32 \<le> c \<and> c < 128"
  using unsigned_less [of c, where 'a = int] by (simp add: sint_signed word_le_def word_less_def)

lemma putch_step:
  assumes "console_ok s"
  shows "view (putch c s) = type_t c (view s) \<and> stays s (putch c s)"
proof -
  have ok: "text_area (vgamem s)" "0 \<le> csr_x s" "csr_x s < 80" "0 \<le> csr_y s" "csr_y s < 25"
    using assms by (simp_all add: console_ok_def)
  have c: "colour (view s) = ucast (attrib s)" "tx (view s) = nat (csr_x s)" "escape (view s) = col_next s"
    by (simp_all add: view_def)
  consider "col_next s" | "\<not> col_next s" "c = 0x1B" | "\<not> col_next s" "c = 0x0C" | "\<not> col_next s" "c = 0x08"
    | "\<not> col_next s" "c = 9" | "\<not> col_next s" "c = 13" | "\<not> col_next s" "c = 10"
    | "\<not> col_next s" "c \<noteq> 0x1B" "c \<noteq> 0x0C" "c \<noteq> 0x08" "c \<noteq> 9" "c \<noteq> 13" "c \<noteq> 10" by blast
  then show ?thesis
  proof cases
    case 1
    then show ?thesis using assms
      by (simp add: putch_def type_t_def view_def stays_def console_ok_def ucast_scast_byte)
  next
    case 2
    then show ?thesis using assms by (simp add: putch_def type_t_def view_def stays_def console_ok_def)
  next
    case 3
    then show ?thesis using cls_step [OF assms] c by (simp add: putch_def type_t_def)
  next
    case 4
    define s1 where "s1 = (if csr_x s \<noteq> 0 then s\<lparr>csr_x := csr_x s - 1\<rparr> else s)"
    have s1: "console_ok s1" "vgamem s1 = vgamem s" "text_mem s1 = text_mem s"
      "view s1 = (view s)\<lparr>tx := tx (view s) - 1\<rparr>" "col_next s1 = col_next s"
      using assms by (auto simp: s1_def console_ok_def view_def nat_diff_distrib)
    define s2 where "s2 = put_cell (blank_cell s1) s1"
    have s2: "view s2 = set_cell_t (blank_cell s1) (view s1)" "stays s1 s2"
      using put_cell_step [OF s1(1)] by (simp_all add: s2_def)
    then have "csr_x s2 < 80" "csr_y s2 < 25" by (simp_all add: stays_def console_ok_def)
    then have "putch c s = move_csr s2"
      using 4 by (simp add: putch_def Let_def flip: s1_def s2_def)
    moreover have "blank_cell s1 = glyph (colour (view s)) 32" using c by (simp add: glyph_blank s1_def)
    ultimately show ?thesis
      using s2 s1 c 4 stays_cursor [OF s2(2), of s] by (simp add: type_t_def Let_def stays_def)
  next
    case 5
    define s1 where "s1 = s\<lparr>csr_x := csr_x s + (4 - csr_x s mod 4)\<rparr>"
    have x: "csr_x s + (4 - csr_x s mod 4) = 4 * (csr_x s div 4 + 1)" by presburger
    have s1: "text_area (vgamem s1)" "0 \<le> csr_x s1" "0 \<le> csr_y s1" "csr_y s1 < 25"
      using ok by (auto simp: s1_def)
    have put: "putch c s = move_csr (scroll (if csr_x s1 \<ge> 80 then s1\<lparr>csr_x := 0, csr_y := csr_y s1 + 1\<rparr> else s1))"
      using 5 by (simp add: putch_def Let_def flip: s1_def)
    have "goto_t n (view s1) = goto_t n (view s)" for n
      by (simp add: goto_t_def newline_t_def view_def s1_def)
    moreover have "nat (csr_x s1) = 4 * (tx (view s) div 4 + 1)"
      using ok(2) unfolding s1_def c console.simps x
      by (simp add: nat_mult_distrib nat_add_distrib nat_div_distrib)
    ultimately have "view (putch c s) = type_t c (view s)"
      unfolding put using goto_step(1) [OF s1] 5 c(3) by (simp add: type_t_def)
    moreover have "stays s (putch c s)"
      unfolding put by (rule stays_cursor [OF goto_step(2) [OF s1]]) (simp_all add: s1_def)
    ultimately show ?thesis ..
  next
    case 6
    then show ?thesis using assms by (simp add: putch_def Let_def type_t_def view_def stays_def console_ok_def)
  next
    case 7
    then show ?thesis using newline_step [OF assms] c by (simp add: putch_def Let_def type_t_def)
  next
    case 8
    show ?thesis
    proof (cases "32 \<le> sint c")
      case True
      define s1 where "s1 = put_cell (ucast (ucast c OR push_bit 8 (attrib s))) s"
      have s1: "view s1 = set_cell_t (glyph (colour (view s)) c) (view s)" "stays s s1"
        using put_cell_step [OF assms] by (simp_all add: s1_def glyph_char c)
      define s2 where "s2 = s1\<lparr>csr_x := csr_x s1 + 1\<rparr>"
      have s2: "text_area (vgamem s2)" "0 \<le> csr_x s2" "0 \<le> csr_y s2" "csr_y s2 < 25"
        using s1(2) by (auto simp: s2_def stays_def console_ok_def)
      have put: "putch c s = move_csr (scroll (if csr_x s2 \<ge> 80 then s2\<lparr>csr_x := 0, csr_y := csr_y s2 + 1\<rparr> else s2))"
        using 8 True by (simp add: putch_def Let_def flip: s1_def s2_def)
      have "goto_t n (view s2) = goto_t n (view s1)" for n
        by (simp add: goto_t_def newline_t_def view_def s2_def)
      moreover have "nat (csr_x s2) = tx (view s) + 1"
        using ok(2) by (simp add: s2_def s1_def put_cell_def c nat_add_distrib)
      ultimately have "view (putch c s) = type_t c (view s)"
        using goto_step(1) [OF s2] s1(1) 8 c printable True put by (simp add: type_t_def)
      moreover have "stays s1 (putch c s)"
        unfolding put by (rule stays_cursor [OF goto_step(2) [OF s2]]) (simp_all add: s2_def)
      then have "stays s (putch c s)" by (rule stays_trans [OF s1(2)])
      ultimately show ?thesis ..
    next
      case False
      then have "putch c s = move_csr s" using 8 ok by (simp add: putch_def Let_def)
      moreover have "type_t c (view s) = view s" using 8 c False printable [of c] by (auto simp: type_t_def)
      ultimately show ?thesis using assms by (simp add: stays_def)
    qed
  qed
qed

lemma putch_all:
  assumes "console_ok s"
  shows "view (fold putch cs s) = fold type_t cs (view s) \<and> stays s (fold putch cs s)"
  using assms
proof (induction cs arbitrary: s)
  case (Cons c cs)
  have "stays s (putch c s)" "view (putch c s) = type_t c (view s)" using putch_step [OF Cons.prems] by auto
  moreover from this have "console_ok (putch c s)" by (simp add: stays_def)
  ultimately show ?case using Cons.IH [of "putch c s"] stays_trans by auto
qed (simp add: stays_def)

lemma puts_ok: "cstr_at m str cs \<Longrightarrow> puts m str s = Some (fold putch cs s)"
proof -
  have "cstr_at m str cs \<Longrightarrow> puts_loop m str s = Some (fold putch cs s)"
  proof (induction cs arbitrary: str s)
    case (Cons c cs)
    then show ?case by (subst puts_loop.simps) simp
  qed (subst puts_loop.simps, simp)
  then show "cstr_at m str cs \<Longrightarrow> puts m str s = Some (fold putch cs s)" by (simp add: puts_def)
qed

lemma write_row:
  "n \<le> length cs \<Longrightarrow> fold (\<lambda>j (ret, s). (ret + 1, putch (cs ! j) s)) [0..<n] (r :: u32, s) =
    (r + of_nat n, fold putch (take n cs) s)"
proof (induction n)
  case (Suc n)
  then show ?case by (simp add: take_Suc_conv_app_nth ac_simps)
qed simp

lemma write_units:
  "unat n \<le> length cs \<Longrightarrow> vga_write_fs n units cs s =
    (units * n, fold putch (concat (replicate (unat units) (take (unat n) cs))) (s\<lparr>col_next := False\<rparr>))"
proof -
  assume n: "unat n \<le> length cs"
  have "fold (\<lambda>_ st. fold (\<lambda>j (ret, s). (ret + 1, putch (cs ! j) s)) [0..<unat n] st) [0..<k] (0, s) =
      (of_nat k * n, fold putch (concat (replicate k (take (unat n) cs))) s)" for k s
  proof (induction k)
    case (Suc k)
    have "concat (replicate (Suc k) (take (unat n) cs)) = concat (replicate k (take (unat n) cs)) @ take (unat n) cs"
      by (induction k) simp_all
    then show ?case using Suc write_row [OF n] by (simp add: algebra_simps)
  qed simp
  from this [of "unat units"] show ?thesis by (simp add: vga_write_fs_def)
qed

lemma console_ok_write:
  assumes "console_ok s" "unat n = length cs"
  shows "\<exists>s'. vga_write_fs n 1 cs s = (n, s') \<and> stays s s' \<and>
    view s' = fold type_t cs ((view s)\<lparr>escape := False\<rparr>)"
proof -
  let ?s = "s\<lparr>col_next := False\<rparr>"
  have "console_ok ?s" "view ?s = (view s)\<lparr>escape := False\<rparr>"
    using assms(1) by (simp_all add: console_ok_def view_def)
  then show ?thesis using write_units [of n cs 1 s] putch_all [of ?s cs] assms(2) by (simp add: stays_def)
qed

section \<open>What the console promises\<close>

text \<open>
  C9010. The console is a terminal. Printing a string ends with the cursor on the screen, has
  written to no byte outside the 4000 bytes of text memory, and the screen shows what the abstract
  terminal (\<^const>\<open>type_t\<close>) shows after the same characters: glyphs in the current colour, wrapping
  at column 80, scrolling by one row with a blank last row, backspace, tabs, form feed and the
  colour escape. Writing to the console file prints the buffer once per unit.
\<close>

theorem console_refines_terminal:
  assumes "console_ok s" "cstr_at m str cs" "unat n \<le> length cs"
  shows "(\<exists>s'. puts m str s = Some s' \<and> view s' = fold type_t cs (view s) \<and> stays s s') \<and>
    (\<exists>s'. vga_write_fs n units cs s = (units * n, s') \<and> stays s s' \<and>
      view s' = fold type_t (concat (replicate (unat units) (take (unat n) cs))) ((view s)\<lparr>escape := False\<rparr>))"
proof
  show "\<exists>s'. puts m str s = Some s' \<and> view s' = fold type_t cs (view s) \<and> stays s s'"
    using puts_ok [OF assms(2)] putch_all [OF assms(1)] by blast
  let ?s = "s\<lparr>col_next := False\<rparr>"
  have "console_ok ?s" "view ?s = (view s)\<lparr>escape := False\<rparr>"
    using assms(1) by (simp_all add: console_ok_def view_def)
  then show "\<exists>s'. vga_write_fs n units cs s = (units * n, s') \<and> stays s s' \<and>
      view s' = fold type_t (concat (replicate (unat units) (take (unat n) cs))) ((view s)\<lparr>escape := False\<rparr>)"
    using write_units [OF assms(3)] putch_all [of ?s] by (simp add: stays_def)
qed

text \<open>A fresh console at the usual address, with the cursor in the last cell.\<close>

definition demo_console :: console where
  "demo_console = \<lparr>vgamem = 0xC00B8000, attrib = 0x0F, csr_x = 79, csr_y = 24, col_next = False,
     saved_csr_x = 0, saved_csr_y = 0, saved_attrib = 0x0F, text_mem = (\<lambda>_. 0), outs = []\<rparr>"

theorem console_refines_terminal_witness:
  "\<exists>s'. puts demo_mem 16 demo_console = Some s' \<and> view s' = fold type_t [97, 98] (view demo_console) \<and>
    stays demo_console s'"
  using console_refines_terminal [of demo_console demo_mem 16 "[97, 98]" 1 1] demo_mem_strings(1)
  by (simp add: console_ok_def demo_console_def text_area_def)

end
