(* ===== verification/KPrint.thy ===== *)
theory KPrint
  imports Format Console "HOL-Library.Signed_Division"
begin

text \<open>
  The kernel's formatted printing, \<^verbatim>\<open>kernel/src/kilb/print.c\<close>, and its way to the console.
  Numbers are written into the buffer backwards, padded there and reversed in place. As in
  \<^verbatim>\<open>LibcStdio\<close>, a \<^verbatim>\<open>va_list\<close> is the list of the 32-bit arguments left.
\<close>

definition BUFFER_SIZE :: u32 where
  "BUFFER_SIZE = 1024"

section \<open>Numbers\<close>

partial_function (option) uint_digits :: "u32 \<Rightarrow> u32 \<Rightarrow> nat \<Rightarrow> u32 \<Rightarrow> bmem \<Rightarrow> (nat \<times> bmem) option" where
  "uint_digits buf base cursz val m =
     (if val = 0 then Some (cursz, m)
      else if base = 0 then None
      else (let curd = ucast (val mod base) :: u8;
                curd = curd + (if sint curd \<le> 9 then 48 else 65 - 10)
            in uint_digits buf base (Suc cursz) (val div base) (m(buf + of_nat cursz := curd))))"

text \<open>The padding loop and the reversal, the same in both functions.\<close>

definition pad_zeros :: "u32 \<Rightarrow> int \<Rightarrow> nat \<times> bmem \<Rightarrow> nat \<times> bmem" where
  "pad_zeros buf n = (\<lambda>(cursz, m).
     (max cursz (nat n), fold (\<lambda>i m. m(buf + of_nat i := 48)) [cursz..<nat n] m))"

definition swap_step :: "u32 \<Rightarrow> nat \<Rightarrow> nat \<Rightarrow> bmem \<Rightarrow> bmem" where
  "swap_step buf cursz i m =
     (let tmp = m (buf + of_nat i); m = m(buf + of_nat i := m (buf + of_nat (cursz - i - 1)))
      in m(buf + of_nat (cursz - i - 1) := tmp))"

definition reverse_buf :: "u32 \<Rightarrow> nat \<times> bmem \<Rightarrow> bmem" where
  "reverse_buf buf = (\<lambda>(cursz, m). fold (swap_step buf cursz) [0..<cursz div 2] m)"

definition print_uint :: "u32 \<Rightarrow> u32 \<Rightarrow> u32 \<Rightarrow> int \<Rightarrow> bmem \<Rightarrow> (u32 \<times> bmem) option" where
  "print_uint buf val base n m =
     map_option (\<lambda>r. let r = pad_zeros buf n r in (of_nat (fst r), reverse_buf buf r))
       (uint_digits buf base 0 val m)"

text \<open>Signed division truncates, so a negative \<open>val\<close> would have negative digits.\<close>

partial_function (option) int_digits :: "u32 \<Rightarrow> int \<Rightarrow> nat \<Rightarrow> int \<Rightarrow> bmem \<Rightarrow> (nat \<times> bmem) option" where
  "int_digits buf base cursz val m =
     (if val = 0 then Some (cursz, m)
      else if base = 0 then None
      else (let curd = of_int (val smod base) :: u8;
                curd = curd + (if sint curd \<le> 9 then 48 else 65 - 10)
            in int_digits buf base (Suc cursz) (val sdiv base) (m(buf + of_nat cursz := curd))))"

definition print_int :: "u32 \<Rightarrow> u32 \<Rightarrow> int \<Rightarrow> int \<Rightarrow> bmem \<Rightarrow> (u32 \<times> bmem) option" where
  "print_int buf val base n m =
     (let (off, val, m) = (if sint val < 0 then (1, - val, m(buf := 45)) else (0, val, m))
      in map_option (\<lambda>r. let r = pad_zeros (buf + off) n r in (off + of_nat (fst r), reverse_buf (buf + off) r))
           (int_digits (buf + off) base 0 (sint val) m))"

section \<open>Format strings\<close>

partial_function (option) sz_loop :: "bmem \<Rightarrow> u32 \<Rightarrow> u32 \<Rightarrow> (u32 \<times> u32) option" where
  "sz_loop m sz p =
     (if 48 \<le> sint (m p) \<and> sint (m p) \<le> 57 then sz_loop m (sz * 10 + ucast (m p) - 48) (p + 1)
      else Some (sz, p))"

partial_function (option) put_all :: "u32 \<Rightarrow> u32 \<Rightarrow> u32 \<Rightarrow> u32 \<Rightarrow> bmem \<Rightarrow> (u32 \<times> bmem) option" where
  "put_all buf limit sval pos m =
     (if m sval \<noteq> 0 then
        (let r = put_char buf limit (m sval) (pos, m) in put_all buf limit (sval + 1) (fst r) (snd r))
      else Some (pos, m))"

definition next_arg :: "u32 list \<Rightarrow> (u32 \<times> u32 list) option" where
  "next_arg args = (case args of [] \<Rightarrow> None | a # as \<Rightarrow> Some (a, as))"

definition next_pos :: "u32 \<Rightarrow> (u32 \<times> bmem) option \<Rightarrow> (u32 \<times> bmem) option" where
  "next_pos pos = map_option (\<lambda>(n, m). (pos + n, m))"

text \<open>
  One directive with character \<open>c\<close>, followed by \<open>e\<close> in the format; the result says how many
  characters it took.
\<close>

definition kformat_one ::
    "u32 \<Rightarrow> u32 \<Rightarrow> u8 \<Rightarrow> u8 \<Rightarrow> u32 \<Rightarrow> u32 list \<Rightarrow> u32 \<times> bmem \<Rightarrow> (u32 \<times> u32 list \<times> u32 \<times> bmem) option" where
  "kformat_one buf limit c e sz args s =
     (let (pos, m) = s in
      if c = 37 then Some (1, args, put_char buf limit 37 s)
      else if c = 100 then
        Option.bind (next_arg args) (\<lambda>(ival, args).
          if pos < limit then map_option (\<lambda>s. (1, args, s)) (next_pos pos (print_int (buf + pos) ival 10 (sint sz) m))
          else Some (1, args, s))
      else if c = 120 then
        Option.bind (next_arg args) (\<lambda>(ival, args).
          map_option (\<lambda>s. (1, args, s)) (next_pos pos (print_uint (buf + pos) ival 16 (sint sz) m)))
      else if c = 117 then
        (let (base, k) = (if e = 120 then (16, 2) else if e = 100 then (10, 2) else (10, 1))
         in Option.bind (next_arg args) (\<lambda>(uval, args).
              map_option (\<lambda>s. (k, args, s)) (next_pos pos (print_uint (buf + pos) uval base (sint sz) m))))
      else if c = 115 then
        Option.bind (next_arg args) (\<lambda>(sval, args).
          map_option (\<lambda>s. (1, args, s)) (put_all buf limit sval pos m))
      else if c = 99 then
        Option.bind (next_arg args) (\<lambda>(uval, args). Some (1, args, put_char buf limit (ucast uval) s))
      else Some (1, args, put_char buf limit c s))"

partial_function (option) kformat_loop ::
    "u32 \<Rightarrow> u32 \<Rightarrow> u32 \<Rightarrow> u32 list \<Rightarrow> u32 \<times> bmem \<Rightarrow> (u32 \<times> bmem) option" where
  "kformat_loop buf limit p args s =
     (let c = snd s p
      in if c = 0 then Some s
         else if c \<noteq> 37 then kformat_loop buf limit (p + 1) args (put_char buf limit c s)
         else Option.bind
           (if snd s (p + 1) = 48 then sz_loop (snd s) 0 (p + 1) else Some (1, p + 1)) (\<lambda>(sz, q).
           Option.bind (kformat_one buf limit (snd s q) (snd s (q + 1)) sz args s) (\<lambda>(k, args, s).
             kformat_loop buf limit (q + k) args s)))"

definition vsnprintf :: "u32 \<Rightarrow> u32 \<Rightarrow> u32 \<Rightarrow> u32 list \<Rightarrow> bmem \<Rightarrow> bmem option" where
  "vsnprintf buf bufsize format args m =
     (if bufsize = 0 then Some m
      else map_option (\<lambda>(pos, m). m(buf + (if pos < bufsize then pos else bufsize - 1) := 0))
        (kformat_loop buf (bufsize - 1) format args (0, m)))"

text \<open>
  \<^verbatim>\<open>vfprintf\<close> to the console, the node \<^verbatim>\<open>stdout_node\<close> whose write operation is
  \<^verbatim>\<open>vga_write_fs\<close>. The buffer is on the kernel stack, at \<open>buf\<close>.
\<close>

definition bytes_at :: "bmem \<Rightarrow> u32 \<Rightarrow> nat \<Rightarrow> u8 list" where
  "bytes_at m a n = map (\<lambda>i. m (a + of_nat i)) [0..<n]"

definition vfprintf_con :: "u32 \<Rightarrow> u32 \<Rightarrow> u32 list \<Rightarrow> bmem \<Rightarrow> console \<Rightarrow> (bmem \<times> console) option" where
  "vfprintf_con buf format args m con =
     Option.bind (vsnprintf buf BUFFER_SIZE format args m) (\<lambda>m.
       Option.bind (strlen m buf) (\<lambda>n.
         Some (m, snd (vga_write_fs (of_int n) 1 (bytes_at m buf (nat n)) con))))"

definition printf :: "u32 \<Rightarrow> u32 \<Rightarrow> u32 list \<Rightarrow> bmem \<Rightarrow> console \<Rightarrow> (bmem \<times> console) option" where
  "printf buf format args m con = vfprintf_con buf format args m con"

text \<open>\<^verbatim>\<open>panic\<close> up to the halt.\<close>

definition PANIC_TEXT :: "u8 list" where
  "PANIC_TEXT = [0x1b, 0x40, 75, 101, 114, 110, 101, 108, 32, 80, 97, 110, 105, 99, 58, 32]"

definition panic :: "u32 \<Rightarrow> u32 \<Rightarrow> u32 list \<Rightarrow> bmem \<Rightarrow> console \<Rightarrow> (bmem \<times> console) option" where
  "panic buf format args m con =
     (let con = fold putch PANIC_TEXT con
      in Option.bind (vsnprintf buf BUFFER_SIZE format args m) (\<lambda>m.
           Option.bind (puts m buf con) (\<lambda>con. Some (m, con))))"

section \<open>Reversal in place\<close>

lemma write_bytes_update:
  assumes "i < length xs" "length xs \<le> 2 ^ 32"
  shows "(write_bytes a xs m)(a + of_nat i := v) = write_bytes a (xs[i := v]) m"
proof
  fix x
  show "((write_bytes a xs m)(a + of_nat i := v)) x = write_bytes a (xs[i := v]) m x"
  proof (cases "x \<in> span a (length xs)")
    case True
    then obtain j where j: "j < length xs" "x = a + of_nat j" unfolding span_mem by blast
    then have "x = a + of_nat i \<longleftrightarrow> j = i" using offset_inj [of a j i] assms by auto
    then show ?thesis using j assms by (simp add: write_bytes_nth nth_list_update)
  next
    case False
    then have "x \<noteq> a + of_nat i" using span_memI [OF assms(1), of a] by auto
    then show ?thesis using False by (simp add: write_bytes_other)
  qed
qed

definition swap_list :: "nat \<Rightarrow> 'a list \<Rightarrow> 'a list" where
  "swap_list i xs = xs[i := xs ! (length xs - i - 1), length xs - i - 1 := xs ! i]"

lemma length_swap_list [simp]: "length (swap_list i xs) = length xs"
  by (simp add: swap_list_def)

lemma swaps_nth:
  assumes "2 * k \<le> length xs" "j < length xs"
  shows "fold swap_list [0..<k] xs ! j =
      (if j < k \<or> length xs - k \<le> j then xs ! (length xs - 1 - j) else xs ! j) \<and>
    length (fold swap_list [0..<k] xs) = length xs"
  using assms
proof (induction k arbitrary: j)
  case (Suc k)
  let ?ys = "fold swap_list [0..<k] xs"
  have l: "length ?ys = length xs" using Suc by simp
  have y: "?ys ! j = (if j < k \<or> length xs - k \<le> j then xs ! (length xs - 1 - j) else xs ! j)"
    if "j < length xs" for j using Suc.IH [of j] Suc.prems that by simp
  have k: "k < length xs" "length xs - k - 1 < length xs" using Suc.prems by auto
  have "?ys ! (length xs - k - 1) = xs ! (length xs - k - 1)" "?ys ! k = xs ! k"
    using y [of k] y [of "length xs - k - 1"] Suc.prems k by auto
  then have s: "swap_list k ?ys = ?ys[k := xs ! (length xs - k - 1), length xs - k - 1 := xs ! k]"
    by (simp add: swap_list_def l)
  consider "j = k" | "j = length xs - k - 1" "j \<noteq> k" | "j \<noteq> k" "j \<noteq> length xs - k - 1" by blast
  then have "(swap_list k ?ys) ! j =
      (if j < Suc k \<or> length xs - Suc k \<le> j then xs ! (length xs - 1 - j) else xs ! j)"
  proof cases
    case 1
    then show ?thesis unfolding s using k l Suc.prems by (cases "k = length xs - k - 1") (auto simp: nth_list_update)
  next
    case 2
    have "length xs - 1 - j = k" using 2 k by linarith
    then show ?thesis unfolding s using 2 k l by (auto simp: nth_list_update)
  next
    case 3
    have "j < Suc k \<or> length xs - Suc k \<le> j \<longleftrightarrow> j < k \<or> length xs - k \<le> j" using 3 by linarith
    then show ?thesis unfolding s using 3 y [OF Suc.prems(2)] l by (simp add: nth_list_update_neq)
  qed
  then show ?case using l by simp
qed simp

lemma swaps_rev: "fold swap_list [0..<length xs div 2] xs = rev xs"
proof (rule nth_equalityI)
  show l: "length (fold swap_list [0..<length xs div 2] xs) = length (rev xs)"
    using swaps_nth [of "length xs div 2" xs 0] by (cases xs) auto
  fix j assume "j < length (fold swap_list [0..<length xs div 2] xs)"
  then have j: "j < length xs" using l by simp
  have "xs ! j = xs ! (length xs - 1 - j)" if "\<not> j < length xs div 2" "\<not> length xs - length xs div 2 \<le> j"
  proof -
    have "j = length xs - 1 - j" using that j by linarith
    then show ?thesis by simp
  qed
  then show "fold swap_list [0..<length xs div 2] xs ! j = rev xs ! j"
    using swaps_nth [of "length xs div 2" xs j] j by (auto simp: rev_nth)
qed

lemma swap_step_list:
  assumes "k < length ys" "length ys \<le> 2 ^ 32"
  shows "swap_step a (length ys) k (write_bytes a ys m) = write_bytes a (swap_list k ys) m"
proof -
  define j where "j = length ys - k - 1"
  have j: "j < length ys" using assms(1) by (simp add: j_def)
  show ?thesis
    unfolding swap_step_def Let_def swap_list_def
    unfolding j_def [symmetric] using j assms by (simp add: write_bytes_nth write_bytes_update)
qed

lemma reverse_buf_ok:
  assumes "length xs \<le> 2 ^ 32"
  shows "reverse_buf a (length xs, write_bytes a xs m) = write_bytes a (rev xs) m"
proof -
  have "fold (swap_step a (length xs)) [0..<k] (write_bytes a xs m) = write_bytes a (fold swap_list [0..<k] xs) m"
    if "2 * k \<le> length xs" for k
    using that
  proof (induction k)
    case (Suc k)
    let ?ys = "fold swap_list [0..<k] xs"
    have l: "length ?ys = length xs" using swaps_nth [of k xs 0] Suc.prems by (cases xs) auto
    then have "swap_step a (length xs) k (write_bytes a ?ys m) = write_bytes a (swap_list k ?ys) m"
      using swap_step_list [of k ?ys a m] assms Suc.prems by simp
    then show ?case using Suc by simp
  qed simp
  from this [of "length xs div 2"] show ?thesis by (simp add: reverse_buf_def swaps_rev)
qed

section \<open>Numbers are their numerals\<close>

lemma sint_digit: "d < 16 \<Longrightarrow> sint (of_nat d :: u8) = int d"
proof -
  assume "d < 16"
  moreover from this have "uint (of_nat d :: u8) = int d" by (simp add: unsigned_of_nat take_bit_nat_eq_self)
  ultimately show ?thesis by (simp add: sint_signed)
qed

lemma curd_char: "d < 16 \<Longrightarrow> (of_nat d :: u8) + (if sint (of_nat d :: u8) \<le> 9 then 48 else 65 - 10) = digit_char d"
  by (simp add: sint_digit digit_char_def)

lemma uint_digits_ok:
  assumes "2 \<le> unat base" "unat base \<le> 16"
  shows "uint_digits buf base (length ys) val (write_bytes buf ys m) =
    Some (length (ys @ numeral_bytes (unat base) (unat val)),
      write_bytes buf (ys @ rev (numeral_bytes (unat base) (unat val))) m)"
proof (induction "unat val" arbitrary: val ys rule: less_induct)
  case less
  show ?case
  proof (cases "val = 0")
    case False
    let ?d = "unat val mod unat base"
    have v: "unat val \<noteq> 0" using False by (simp add: unat_eq_0)
    have b: "base \<noteq> 0" using assms(1) by auto
    have lt: "unat (val div base) < unat val" using v assms(1) by (simp add: unat_div)
    have st: "numeral_bytes (unat base) (unat val) = numeral_bytes (unat base) (unat (val div base)) @ [digit_char ?d]"
      using v assms(1) by (simp add: numeral_bytes_step unat_div)
    have d: "?d < 16" using mod_less_divisor [of "unat base" "unat val"] assms by linarith
    have "ucast (val mod base) = (of_nat ?d :: u8)" by (simp flip: unat_mod)
    then have "(ucast (val mod base) :: u8) + (if sint (ucast (val mod base) :: u8) \<le> 9 then 48 else 65 - 10) = digit_char ?d"
      using curd_char [OF d] by simp
    moreover have "(write_bytes buf ys m)(buf + of_nat (length ys) := digit_char ?d) =
        write_bytes buf (ys @ [digit_char ?d]) m"
      by (simp add: write_bytes_append)
    ultimately have "uint_digits buf base (length ys) val (write_bytes buf ys m) =
        uint_digits buf base (length (ys @ [digit_char ?d])) (val div base) (write_bytes buf (ys @ [digit_char ?d]) m)"
      using False b by (subst uint_digits.simps) (simp add: Let_def)
    then show ?thesis using less [OF lt, of "ys @ [digit_char ?d]"] st by simp
  qed (subst uint_digits.simps, simp)
qed

lemma int_digits_ok:
  assumes "2 \<le> base" "base \<le> 16"
  shows "int_digits buf (int base) (length ys) (int n) (write_bytes buf ys m) =
    Some (length (ys @ numeral_bytes base n), write_bytes buf (ys @ rev (numeral_bytes base n)) m)"
proof (induction n arbitrary: ys rule: less_induct)
  case (less n)
  show ?case
  proof (cases "n = 0")
    case False
    let ?d = "n mod base"
    have lt: "n div base < n" using False assms(1) by simp
    have st: "numeral_bytes base n = numeral_bytes base (n div base) @ [digit_char ?d]"
      using False assms(1) by (simp add: numeral_bytes_step)
    have d: "?d < 16" using mod_less_divisor [of base n] assms by linarith
    have q: "int n sdiv int base = int (n div base)" "int n smod int base = int ?d"
      using assms(1) by (simp_all add: signed_divide_int_def signed_modulo_int_def zdiv_int zmod_int sgn_if)
    have "(write_bytes buf ys m)(buf + of_nat (length ys) := digit_char ?d) =
        write_bytes buf (ys @ [digit_char ?d]) m"
      by (simp add: write_bytes_append)
    then have "int_digits buf (int base) (length ys) (int n) (write_bytes buf ys m) =
        int_digits buf (int base) (length (ys @ [digit_char ?d])) (int (n div base)) (write_bytes buf (ys @ [digit_char ?d]) m)"
      using False assms(1) curd_char [OF d] by (subst int_digits.simps) (simp add: Let_def q)
    then show ?thesis using less [OF lt, of "ys @ [digit_char ?d]"] st by simp
  qed (subst int_digits.simps, simp)
qed

lemma pad_zeros_ok:
  "pad_zeros buf n (length xs, write_bytes buf xs m) =
    (length (xs @ replicate (nat n - length xs) 48), write_bytes buf (xs @ replicate (nat n - length xs) 48) m)"
proof -
  have "fold (\<lambda>i m. m(buf + of_nat i := 48)) [length xs..<length xs + k] (write_bytes buf xs m) =
      write_bytes buf (xs @ replicate k 48) m" for k
    by (simp only: byte_fill write_bytes_append)
  from this [of "nat n - length xs"] show ?thesis
    by (cases "length xs \<le> nat n") (simp_all add: pad_zeros_def max_def)
qed

lemma number_written:
  assumes "nat n < 2 ^ 31" "length ds \<le> 2 ^ 31"
  shows "(let r = pad_zeros buf n (length ds, write_bytes buf (rev ds) m) in (f (fst r), reverse_buf buf r)) =
    (f (length (zero_padded (nat n) ds)), write_bytes buf (zero_padded (nat n) ds) m)"
proof -
  let ?xs = "rev ds @ replicate (nat n - length ds) 48"
  have "length ?xs \<le> 2 ^ 32" using assms by simp
  from reverse_buf_ok [OF this, of buf m] show ?thesis
    using pad_zeros_ok [of buf n "rev ds" m] by (simp add: zero_padded_def Let_def add.commute)
qed

lemma digits_bound: "2 \<le> b \<Longrightarrow> n < 2 ^ 32 \<Longrightarrow> length (nat_digits b n) \<le> 32"
proof -
  assume b: "2 \<le> b" and "n < 2 ^ 32"
  moreover have "(2::nat) ^ 32 \<le> b ^ 32" using b by (intro power_mono) auto
  ultimately show ?thesis by (intro nat_digits_length) auto
qed

lemma print_uint_eq:
  assumes "2 \<le> unat base" "unat base \<le> 16" "nat n < 2 ^ 31"
  shows "print_uint buf val base n m =
    (let ds = zero_padded (nat n) (numeral_bytes (unat base) (unat val))
     in Some (of_nat (length ds), write_bytes buf ds m))"
proof -
  let ?ds = "numeral_bytes (unat base) (unat val)"
  have "length ?ds \<le> 2 ^ 31"
    using digits_bound [OF assms(1), of "unat val"] unsigned_less [of val, where 'a = nat] by simp
  from number_written [OF assms(3) this, of buf m of_nat] show ?thesis
    using uint_digits_ok [OF assms(1,2), of buf "[]" val m] by (simp add: print_uint_def Let_def)
qed

text \<open>A signed number in decimal, except the most negative one.\<close>

definition signed_bytes :: "nat \<Rightarrow> int \<Rightarrow> u8 list" where
  "signed_bytes w v =
     (if v < 0 then 45 # zero_padded w (numeral_bytes 10 (nat (- v))) else zero_padded w (numeral_bytes 10 (nat v)))"

lemma print_int_eq:
  assumes "nat n < 2 ^ 31" "sint val \<noteq> - (2 ^ 31)"
  shows "print_int buf val 10 n m =
    Some (of_nat (length (signed_bytes (nat n) (sint val))), write_bytes buf (signed_bytes (nat n) (sint val)) m)"
proof -
  have b: "- (2 ^ 31) \<le> sint val" "sint val < 2 ^ 31" using sint_greater_eq [of val] sint_less [of val] by auto
  have main: "map_option (\<lambda>r. let r = pad_zeros a n r in (g (fst r), reverse_buf a r)) (int_digits a 10 0 (int v) m') =
      Some (g (length (zero_padded (nat n) (numeral_bytes 10 v))), write_bytes a (zero_padded (nat n) (numeral_bytes 10 v)) m')"
    if "v < 2 ^ 31" for a v m' and g :: "nat \<Rightarrow> u32"
  proof -
    have "length (numeral_bytes 10 v) \<le> 2 ^ 31" using digits_bound [of 10 v] that by simp
    from number_written [OF assms(1) this, of a m' g] show ?thesis
      using int_digits_ok [of 10 a "[]" v m'] by (simp add: Let_def)
  qed
  show ?thesis
  proof (cases "sint val < 0")
    case True
    note neg = sint_neg [OF True assms(2)]
    show ?thesis
      using main [of "nat (- sint val)" "buf + 1" "\<lambda>k. 1 + of_nat k" "m(buf := 45)"] True b assms(2)
      by (simp add: print_int_def signed_bytes_def neg ac_simps del: fun_upd_apply)
  next
    case False
    show ?thesis
      using main [of "nat (sint val)" buf of_nat m] False b by (simp add: print_int_def signed_bytes_def)
  qed
qed

section \<open>The formatting as a function of the format and the arguments\<close>

text \<open>
  The complete text for a format. A directive other than \<^verbatim>\<open>%\<close> and a width that starts with
  0; without a width the width is 1, so that zero prints one digit. Formats the code does not
  handle (a \<^verbatim>\<open>%\<close> at the end, the most negative number) have no text.
\<close>

definition width_k :: "u8 list \<Rightarrow> u32 \<times> u8 list" where
  "width_k fs = (if fs \<noteq> [] \<and> hd fs = 48 then width_digits 0 fs else (1, fs))"

definition text_of :: "(u32 \<Rightarrow> u8 list option) \<Rightarrow> u8 \<Rightarrow> nat \<Rightarrow> u32 \<Rightarrow> u8 list option" where
  "text_of strs c w v =
     (if c = 100 then (if sint v = - (2 ^ 31) then None else Some (signed_bytes w (sint v)))
      else if c = 120 then Some (zero_padded w (numeral_bytes 16 (unat v)))
      else if c = 117 then Some (zero_padded w (numeral_bytes 10 (unat v)))
      else if c = 115 then strs v
      else Some [ucast v])"

definition kdirective ::
    "(u32 \<Rightarrow> u8 list option) \<Rightarrow> u8 \<Rightarrow> u8 list \<Rightarrow> u32 \<Rightarrow> u32 list \<Rightarrow> (u8 list \<times> u32 list \<times> u8 list) option" where
  "kdirective strs c gs w args =
     (if unat w \<ge> 2 ^ 31 then None
      else if c \<in> {100, 120, 117, 115, 99} then
        (case args of [] \<Rightarrow> None
         | v # args \<Rightarrow>
             (let long = (c = 117 \<and> gs \<noteq> [] \<and> (hd gs = 120 \<or> hd gs = 100));
                  d = (if c = 117 \<and> gs \<noteq> [] \<and> hd gs = 120 then 120 else c)
              in map_option (\<lambda>ys. (ys, args, if long then tl gs else gs)) (text_of strs d (unat w) v)))
      else Some ([c], args, gs))"

lemma kdirective_shorter: "kdirective strs c gs w args = Some (ys, args', hs) \<Longrightarrow> length hs \<le> length gs"
  by (auto simp: kdirective_def Let_def split: if_splits list.splits)

lemma width_k_shorter: "width_k fs = (w, gs) \<Longrightarrow> length gs \<le> length fs"
  by (auto simp: width_k_def dest: width_digits_shorter split: if_splits)

function kfmt_bytes :: "(u32 \<Rightarrow> u8 list option) \<Rightarrow> u8 list \<Rightarrow> u32 list \<Rightarrow> u8 list option" where
  "kfmt_bytes strs [] args = Some []"
| "kfmt_bytes strs (c # fs) args =
     (if c \<noteq> 37 then map_option (Cons c) (kfmt_bytes strs fs args)
      else (case width_k fs of
              (w, []) \<Rightarrow> None
            | (w, d # gs) \<Rightarrow>
                Option.bind (kdirective strs d gs w args) (\<lambda>(ys, args, hs).
                  map_option (append ys) (kfmt_bytes strs hs args))))"
  by pat_completeness auto
termination
  by (relation "measure (\<lambda>(strs, fs, args). length fs)")
    (auto dest!: width_k_shorter [OF sym] kdirective_shorter)

section \<open>The code computes that function\<close>

lemma emit_fits:
  assumes "unat pos + length ys \<le> unat limit"
  shows "emit buf limit ys (pos, m) = (pos + of_nat (length ys), write_bytes (buf + pos) ys m)"
proof -
  have "pos \<le> limit" using assms by (simp add: word_le_nat_alt)
  moreover have "min (length ys) (unat limit - unat pos) = length ys" using assms by simp
  ultimately show ?thesis using emit_eq [of pos limit buf ys m] by (simp add: Let_def)
qed

lemma sz_loop_ok:
  assumes "str_outside buf n m p fs"
  shows "\<exists>q. sz_loop m w p = Some (fst (width_digits w fs), q) \<and>
    str_outside buf n m q (snd (width_digits w fs))"
  using assms
proof (induction fs arbitrary: p w)
  case Nil
  then show ?case by (subst sz_loop.simps) (simp add: str_outside_def)
next
  case (Cons c fs)
  note c = str_outside_Cons [OF Cons.prems]
  have dg: "48 \<le> sint c \<and> sint c \<le> 57 \<longleftrightarrow> 48 \<le> c \<and> c \<le> 57"
    using unsigned_less [of c, where 'a = int] by (auto simp: sint_signed word_le_def)
  show ?case
  proof (cases "48 \<le> c \<and> c \<le> 57")
    case True
    then show ?thesis using Cons.IH [of "p + 1" "w * 10 + ucast c - 48"] c dg
      by (subst sz_loop.simps) simp
  next
    case False
    then show ?thesis using Cons.prems c dg by (subst sz_loop.simps) auto
  qed
qed

lemma put_all_ok:
  assumes "str_outside buf (unat limit) m s xs" "pos \<le> limit" "unat buf + unat limit \<le> 2 ^ 32"
  shows "put_all buf limit s pos m = Some (emit buf limit xs (pos, m))"
  using assms
proof (induction xs arbitrary: s pos m)
  case Nil
  then show ?case by (subst put_all.simps) (simp add: str_outside_def)
next
  case (Cons x xs)
  note x = str_outside_Cons [OF Cons.prems(1)]
  obtain pos' m' where e: "put_char buf limit x (pos, m) = (pos', m')" by fastforce
  then have em: "emit buf limit [x] (pos, m) = (pos', m')" by (simp add: emit_Cons)
  have "pos' \<le> limit" "str_outside buf (unat limit) m' (s + 1) xs"
    using emit_frame [OF em Cons.prems(2,3)] x str_outside_cong [of buf "unat limit" m' m] by blast+
  from Cons.IH [OF this(2,1) Cons.prems(3)] show ?case
    using x e by (subst put_all.simps) (simp add: emit_Cons Let_def)
qed

lemma number_emitted:
  assumes "unat (w :: u32) < 2 ^ 31" "unat pos + length ys \<le> unat limit"
  shows "c \<noteq> 0 \<Longrightarrow> unat b = c \<Longrightarrow> 2 \<le> c \<Longrightarrow> c \<le> 16 \<Longrightarrow> ys = zero_padded (unat w) (numeral_bytes c (unat v)) \<Longrightarrow>
      next_pos pos (print_uint (buf + pos) v b (sint w) m) = Some (emit buf limit ys (pos, m))"
    and "sint v \<noteq> - (2 ^ 31) \<Longrightarrow> ys = signed_bytes (unat w) (sint v) \<Longrightarrow>
      next_pos pos (print_int (buf + pos) v 10 (sint w) m) = Some (emit buf limit ys (pos, m))"
proof -
  have w: "nat (sint w) = unat w" "unat w < 2 ^ 31" using assms(1) sint_small_nat by simp_all
  show "next_pos pos (print_uint (buf + pos) v b (sint w) m) = Some (emit buf limit ys (pos, m))"
    if "c \<noteq> 0" "unat b = c" "2 \<le> c" "c \<le> 16" "ys = zero_padded (unat w) (numeral_bytes c (unat v))"
    using print_uint_eq [of b "sint w" "buf + pos" v m] that w emit_fits [OF assms(2)]
    by (simp add: next_pos_def Let_def)
  show "next_pos pos (print_int (buf + pos) v 10 (sint w) m) = Some (emit buf limit ys (pos, m))"
    if "sint v \<noteq> - (2 ^ 31)" "ys = signed_bytes (unat w) (sint v)"
    using print_int_eq [of "sint w" v "buf + pos" m] that w emit_fits [OF assms(2)] by (simp add: next_pos_def)
qed

lemma kformat_one_ok:
  assumes "kdirective strs c gs w args = Some (ys, args', hs)" "c \<noteq> 0"
    "\<forall>a xs. strs a = Some xs \<longrightarrow> str_outside buf (unat limit) m a xs"
    "str_outside buf (unat limit) m (q + 1) gs"
    "unat pos + length ys \<le> unat limit" "unat buf + unat limit \<le> 2 ^ 32"
  shows "\<exists>k. kformat_one buf limit c (m (q + 1)) w args (pos, m) = Some (k, args', emit buf limit ys (pos, m)) \<and>
    str_outside buf (unat limit) m (q + k) hs"
proof -
  have w: "unat w < 2 ^ 31" using assms(1) by (auto simp: kdirective_def split: if_splits)
  have pos: "pos \<le> limit" using assms(5) by (simp add: word_le_nat_alt)
  note num = number_emitted [OF w assms(5)]
  show ?thesis
  proof (cases "c \<in> {100, 120, 117, 115, 99}")
    case False
    then have "ys = [c]" "args' = args" "hs = gs" using assms(1) w by (auto simp: kdirective_def)
    then show ?thesis using False assms(4) by (auto simp: kformat_one_def emit_Cons)
  next
    case True
    define d where "d = (if c = 117 \<and> gs \<noteq> [] \<and> hd gs = 120 then 120 else c)"
    define long where "long = (c = 117 \<and> gs \<noteq> [] \<and> (hd gs = 120 \<or> hd gs = 100))"
    obtain v where v: "args = v # args'" "text_of strs d (unat w) v = Some ys" "hs = (if long then tl gs else gs)"
      using assms(1) True w by (auto simp: kdirective_def Let_def d_def long_def split: list.splits if_splits)
    have e: "m (q + 1) = (if gs = [] then 0 else hd gs)"
      using assms(4) str_outside_Cons [of buf "unat limit" m "q + 1"] str_outside_Nil by (cases gs) auto
    have tl: "str_outside buf (unat limit) m (q + 2) (tl gs)" if "gs \<noteq> []"
      using that assms(4) str_outside_Cons [of buf "unat limit" m "q + 1" "hd gs" "tl gs"] by (simp add: ac_simps)
    consider "c = 100" | "c = 120" | "c = 117" | "c = 115" | "c = 99" using True by auto
    then show ?thesis
    proof cases
      case 1
      then have t: "sint v \<noteq> - (2 ^ 31)" "ys = signed_bytes (unat w) (sint v)"
        using v(2) by (auto simp: text_of_def d_def split: if_splits)
      have "emit buf limit ys (pos, m) = (pos, m)" if "\<not> pos < limit" using that emit_full by blast
      then show ?thesis using 1 v t num(2) [OF t] assms(4)
        by (auto simp: kformat_one_def next_arg_def long_def)
    next
      case 2
      then have t: "ys = zero_padded (unat w) (numeral_bytes 16 (unat v))"
        using v(2) by (auto simp: text_of_def d_def)
      then show ?thesis using 2 v num(1) [of 16 16 v] assms(4)
        by (auto simp: kformat_one_def next_arg_def long_def)
    next
      case 3
      show ?thesis
      proof (cases "gs \<noteq> [] \<and> hd gs = 120")
        case True
        then have t: "ys = zero_padded (unat w) (numeral_bytes 16 (unat v))"
          using v(2) 3 by (auto simp: text_of_def d_def)
        then show ?thesis using 3 True v num(1) [of 16 16 v] tl e
          by (auto simp: kformat_one_def next_arg_def long_def)
      next
        case False
        then have t: "ys = zero_padded (unat w) (numeral_bytes 10 (unat v))"
          using v(2) 3 by (auto simp: text_of_def d_def)
        then show ?thesis using 3 False v num(1) [of 10 10 v] tl e assms(4)
          by (auto simp: kformat_one_def next_arg_def long_def)
      qed
    next
      case 4
      then have "str_outside buf (unat limit) m v ys" using v(2) assms(3) by (auto simp: text_of_def d_def)
      from put_all_ok [OF this pos assms(6)] show ?thesis using 4 v assms(4)
        by (auto simp: kformat_one_def next_arg_def long_def)
    next
      case 5
      then have "ys = [ucast v]" using v(2) by (auto simp: text_of_def d_def)
      then show ?thesis using 5 v assms(4) by (auto simp: kformat_one_def next_arg_def long_def emit_Cons)
    qed
  qed
qed

lemma kformat_loop_ok:
  assumes "kfmt_bytes strs fs args = Some out" "str_outside buf (unat limit) m p fs"
    "\<forall>a xs. strs a = Some xs \<longrightarrow> str_outside buf (unat limit) m a xs"
    "unat pos + length out \<le> unat limit" "unat buf + unat limit \<le> 2 ^ 32"
  shows "kformat_loop buf limit p args (pos, m) = Some (emit buf limit out (pos, m))"
  using assms
proof (induction strs fs args arbitrary: p pos m out rule: kfmt_bytes.induct)
  case (1 strs args)
  then show ?case by (subst kformat_loop.simps) (simp add: str_outside_def)
next
  case (2 strs c fs args)
  note c = str_outside_Cons [OF "2.prems"(2)]
  have after: "unat pos' = unat pos + length ys \<and>
      (\<forall>a xs. str_outside buf (unat limit) m' a xs \<longleftrightarrow> str_outside buf (unat limit) m a xs)"
    if e: "emit buf limit ys (pos, m) = (pos', m')" and l: "unat pos + length ys \<le> unat limit" for ys pos' m'
  proof -
    have "pos \<le> limit" using l by (simp add: word_le_nat_alt)
    from emit_frame(2) [OF e this "2.prems"(5)] str_outside_cong [of buf "unat limit" m' m]
    have "\<forall>a xs. str_outside buf (unat limit) m' a xs \<longleftrightarrow> str_outside buf (unat limit) m a xs" by blast
    moreover have "unat pos + length ys < 2 ^ 32" using l unsigned_less [of limit, where 'a = nat] by simp
    then have "unat (pos + of_nat (length ys)) = unat pos + length ys" by (intro unat_add_small) simp
    ultimately show ?thesis using e emit_fits [OF l] by simp
  qed
  show ?case
  proof (cases "c = 37")
    case False
    then obtain out' where out': "kfmt_bytes strs fs args = Some out'" "out = c # out'" using "2.prems"(1) by auto
    obtain pos' m' where e: "emit buf limit [c] (pos, m) = (pos', m')" by fastforce
    then have pc: "put_char buf limit c (pos, m) = (pos', m')" by (simp add: emit_Cons)
    have "kformat_loop buf limit (p + 1) args (pos', m') = Some (emit buf limit out' (pos', m'))"
      using "2.IH"(1) [OF False out'(1), of m' "p + 1" pos'] after [OF e] c "2.prems"(3,4,5) out'(2) by simp
    then show ?thesis using c False out'(2) pc by (subst kformat_loop.simps) (simp add: Let_def emit_Cons)
  next
    case True
    obtain w ds where wd: "width_k fs = (w, ds)" by fastforce
    note fb = "2.prems"(1) [simplified True kfmt_bytes.simps(2), simplified wd]
    then obtain d gs where ds: "ds = d # gs" by (cases ds) auto
    then obtain ys args' hs out' where d: "kdirective strs d gs w args = Some (ys, args', hs)"
      "kfmt_bytes strs hs args' = Some out'" "out = ys @ out'"
      using fb by (auto simp: bind_eq_Some_conv)
    have "m (p + 1) = 48 \<longleftrightarrow> fs \<noteq> [] \<and> hd fs = 48"
      using c str_outside_Cons [of buf "unat limit" m "p + 1"] str_outside_Nil by (cases fs) fastforce+
    then obtain q where q: "(if m (p + 1) = 48 then sz_loop m 0 (p + 1) else Some (1, p + 1)) = Some (w, q)"
      "str_outside buf (unat limit) m q (d # gs)"
      using sz_loop_ok [of buf "unat limit" m "p + 1" fs 0] c wd ds by (auto simp: width_k_def split: if_splits)
    have q': "m q = d" "d \<noteq> 0" "str_outside buf (unat limit) m (q + 1) gs"
      using str_outside_Cons [OF q(2)] by auto
    have fit: "unat pos + length ys \<le> unat limit" using "2.prems"(4) d(3) by simp
    obtain k where k: "kformat_one buf limit d (m (q + 1)) w args (pos, m) = Some (k, args', emit buf limit ys (pos, m))"
      "str_outside buf (unat limit) m (q + k) hs"
      using kformat_one_ok [OF d(1) q'(2) "2.prems"(3) q'(3) fit "2.prems"(5)] by blast
    obtain pos' m' where e: "emit buf limit ys (pos, m) = (pos', m')" by fastforce
    have "kformat_loop buf limit (q + k) args' (pos', m') = Some (emit buf limit out' (pos', m'))"
      using after [OF e fit] k(2) "2.prems"(3,4,5) d(2,3) True wd ds d(1) by (intro "2.IH"(2)) auto
    moreover have "kformat_loop buf limit p args (pos, m) =
        Option.bind (if m (p + 1) = 48 then sz_loop m 0 (p + 1) else Some (1, p + 1)) (\<lambda>(sz, q).
          Option.bind (kformat_one buf limit (m q) (m (q + 1)) sz args (pos, m)) (\<lambda>(k, args, s).
            kformat_loop buf limit (q + k) args s))"
      using c True by (subst kformat_loop.simps) (simp add: Let_def cong: if_cong)
    ultimately show ?thesis using q(1) q' k(1) e d(3) by (simp only: emit_append) simp
  qed
qed

lemma kvsnprintf_ok:
  assumes "kfmt_bytes strs fs args = Some out" "str_outside buf (unat bufsize) m format fs"
    "\<forall>a xs. strs a = Some xs \<longrightarrow> str_outside buf (unat bufsize) m a xs"
    "length out < unat bufsize" "unat buf + unat bufsize \<le> 2 ^ 32"
  shows "vsnprintf buf bufsize format args m = Some (write_bytes buf (out @ [0]) m)"
proof -
  have b: "bufsize \<noteq> 0" using assms(4) by auto
  have l: "unat (bufsize - 1) = unat bufsize - 1" using b by (simp add: unat_minus_one)
  have "kformat_loop buf (bufsize - 1) format args (0, m) = Some (emit buf (bufsize - 1) out (0, m))"
  proof (rule kformat_loop_ok)
    show "\<forall>a xs. strs a = Some xs \<longrightarrow> str_outside buf (unat (bufsize - 1)) m a xs"
      using assms(3) str_outside_mono [of buf "unat bufsize" m] l by (metis diff_le_self)
  qed (use assms str_outside_mono [of buf "unat bufsize" m] l in auto)
  moreover have "length out < 2 ^ 32" using assms(4) unsigned_less [of bufsize, where 'a = nat] by simp
  then have "(of_nat (length out) :: u32) < bufsize"
    using assms(4) by (simp add: word_less_nat_alt unat_of_nat_small)
  ultimately show ?thesis
    using b emit_fits [of 0 out "bufsize - 1" buf m] l assms(4) by (simp add: vsnprintf_def write_bytes_append)
qed

lemma bytes_at_written:
  "length (xs @ ys) \<le> 2 ^ 32 \<Longrightarrow> bytes_at (write_bytes a (xs @ ys) m) a (length xs) = xs"
  by (rule nth_equalityI) (auto simp: bytes_at_def write_bytes_nth nth_append)

section \<open>What kernel printing promises\<close>

text \<open>
  C9011. The kernel's \<^verbatim>\<open>printf\<close> shows its text: when the formatted text fits in the buffer
  of 1024 bytes and holds no NUL, printing returns, leaves exactly the text and a NUL in the buffer
  and nothing else in memory changed, and the console then shows what the terminal shows after
  those characters, with the cursor still on the screen. \<^verbatim>\<open>vsnprintf\<close> computes the text of
  \<^verbatim>\<open>%d\<close>, \<^verbatim>\<open>%x\<close>, \<^verbatim>\<open>%u\<close>, \<^verbatim>\<open>%ux\<close>, \<^verbatim>\<open>%ud\<close>,
  \<^verbatim>\<open>%s\<close>, \<^verbatim>\<open>%c\<close> and \<^verbatim>\<open>%%\<close>, numbers with leading zeros up to the
  width and reversed in place.
\<close>

theorem kernel_printf_shows_text:
  assumes "kfmt_bytes strs fs args = Some out" "length out < 1024" "0 \<notin> set out"
    and "str_outside buf 1024 m format fs" "\<forall>a xs. strs a = Some xs \<longrightarrow> str_outside buf 1024 m a xs"
    and "unat buf + 1024 \<le> 2 ^ 32" "console_ok con"
  shows "\<exists>con'. printf buf format args m con = Some (write_bytes buf (out @ [0]) m, con') \<and>
    view con' = fold type_t out ((view con)\<lparr>escape := False\<rparr>) \<and> stays con con'"
proof -
  let ?m = "write_bytes buf (out @ [0]) m"
  have v: "vsnprintf buf BUFFER_SIZE format args m = Some ?m"
    using assms(1,2,4,5,6) by (intro kvsnprintf_ok [of strs fs]) (simp_all add: BUFFER_SIZE_def)
  have c: "cstr_at ?m buf out" using write_bytes_cstr assms(2,3) by simp
  have n: "unat (of_nat (length out) :: u32) = length out" using assms(2) by (simp add: unat_of_nat_small)
  from console_ok_write [OF assms(7), of "of_nat (length out)" out] n
  show ?thesis
    using v strlen_ok [OF c] bytes_at_written [of out "[0]" buf m] assms(2)
    by (auto simp: printf_def vfprintf_con_def)
qed

text \<open>The format ``%d:%s'' at 16 and the string ``ok'' at 32; the buffer is at 0x1000.\<close>

definition demo_kfmt :: bmem where
  "demo_kfmt = write_bytes 16 [37, 100, 58, 37, 115, 0] (write_bytes 32 [111, 107, 0] (\<lambda>_. 0))"

theorem kernel_printf_shows_text_witness:
  "\<exists>con'. printf 0x1000 16 [-42, 32] demo_kfmt demo_console =
      Some (write_bytes 0x1000 [45, 52, 50, 58, 111, 107, 0] demo_kfmt, con') \<and>
    view con' = fold type_t [45, 52, 50, 58, 111, 107] (view demo_console)"
proof -
  let ?strs = "\<lambda>a. if a = 32 then Some [111, 107 :: u8] else None"
  have d: "nat_digits 10 42 = [4, 2]" by (simp add: nat_digits.simps)
  have "kfmt_bytes ?strs [37, 100, 58, 37, 115] [-42, 32] = Some [45, 52, 50, 58, 111, 107]"
    by (simp add: kdirective_def width_k_def text_of_def signed_bytes_def numeral_bytes_def d
      zero_padded_def digit_char_def)
  moreover have "str_outside 0x1000 1024 demo_kfmt 16 [37, 100, 58, 37, 115]"
    "str_outside 0x1000 1024 demo_kfmt 32 [111, 107]"
    by (simp_all add: str_outside_def demo_kfmt_def span_unat disjoint_iff)
  ultimately have "\<exists>con'. printf 0x1000 16 [-42, 32] demo_kfmt demo_console =
      Some (write_bytes 0x1000 ([45, 52, 50, 58, 111, 107] @ [0]) demo_kfmt, con') \<and>
      view con' = fold type_t [45, 52, 50, 58, 111, 107] ((view demo_console)\<lparr>escape := False\<rparr>) \<and> stays demo_console con'"
    by (intro kernel_printf_shows_text [of ?strs "[37, 100, 58, 37, 115]"])
      (simp_all add: console_ok_def demo_console_def text_area_def)
  moreover have "(view demo_console)\<lparr>escape := False\<rparr> = view demo_console"
    by (simp add: view_def demo_console_def)
  ultimately show ?thesis by (metis append_Cons append_Nil)
qed

text \<open>
  Two departures. The directives \<^verbatim>\<open>%x\<close> and \<^verbatim>\<open>%u\<close> ignore the size of the buffer:
  with two bytes of buffer at 64, \<^verbatim>\<open>%x\<close> of a large number has written the byte at 71. And
  \<^verbatim>\<open>%d\<close> of the most negative number prints no digits, since its negation is itself.
\<close>

lemma hex_overruns_buffer:
  "\<exists>m'. vsnprintf 64 2 16 [0xFFFFFFFF] (write_bytes 16 [37, 120, 0] (\<lambda>_. 0)) = Some m' \<and> m' 71 = 70"
proof -
  let ?F = "[70, 70, 70, 70, 70, 70, 70, 70]" and ?m = "write_bytes 16 [37, 120, 0] (\<lambda>_. 0)"
  have "nat_digits 16 0xFFFFFFFF = [15, 15, 15, 15, 15, 15, 15, 15]" by (simp add: nat_digits.simps)
  then have "zero_padded 1 (numeral_bytes 16 0xFFFFFFFF) = ?F"
    by (simp add: zero_padded_def numeral_bytes_def digit_char_def)
  then have hx: "kformat_one 64 1 120 0 1 [0xFFFFFFFF] (0, ?m) = Some (1, [], 8, write_bytes 64 ?F ?m)"
    using print_uint_eq [of 16 1 64 "0xFFFFFFFF" ?m] by (simp add: kformat_one_def next_arg_def next_pos_def Let_def)
  have "kformat_loop 64 1 18 [] (8, write_bytes 64 ?F ?m) = Some (8, write_bytes 64 ?F ?m)"
    by (subst kformat_loop.simps) simp
  then have "kformat_loop 64 1 16 [0xFFFFFFFF] (0, ?m) = Some (8, write_bytes 64 ?F ?m)"
    using hx by (subst kformat_loop.simps) simp
  then show ?thesis by (simp add: vsnprintf_def)
qed

lemma most_negative_misprinted:
  "\<exists>m'. print_int 64 0x80000000 10 1 (\<lambda>_. 0) = Some (11, m') \<and> m' 64 = 45 \<and> m' 74 = 40"
proof -
  have v: "sint (0x80000000 :: u32) = -2147483648" by simp
  have d: "int_digits 65 10 0 (-2147483648) m =
      Some (10, write_bytes 65 [40, 44, 42, 45, 40, 44, 41, 44, 47, 46] m)" for m
  proof -
    note st = int_digits.simps [of 65 10]
    show ?thesis
      by (subst st, simp add: Let_def signed_divide_int_def signed_modulo_int_def)+
  qed
  have "reverse_buf 65 (10, write_bytes 65 [40, 44, 42, 45, 40, 44, 41, 44, 47, 46] m) =
      write_bytes 65 [46, 47, 44, 41, 44, 40, 45, 42, 44, 40] m" for m
  proof -
    have "length [40, 44, 42, 45, 40, 44, 41, 44, 47, 46 :: u8] = 10" by simp
    from reverse_buf_ok [of "[40, 44, 42, 45, 40, 44, 41, 44, 47, 46]" 65 m, unfolded this] show ?thesis by simp
  qed
  then show ?thesis using d by (simp add: print_int_def v pad_zeros_def Let_def)
qed

end
