(* ===== verification/Tables.thy ===== *)
theory Tables
  imports Prelude
begin

text \<open>
  The processor's descriptor tables: \<^verbatim>\<open>kernel/src/arch/gdt.c\<close>,
  \<^verbatim>\<open>kernel/src/arch/idt.c\<close> and \<^verbatim>\<open>kernel/src/arch/tss.c\<close>. Entries are records of
  the fields the C structures have, and what the processor reads from them (base, limit, type,
  privilege) is stated by decoding functions. Loading the tables (\<^verbatim>\<open>lgdt\<close>, \<^verbatim>\<open>lidt\<close>,
  \<^verbatim>\<open>ltr\<close>) is assembly and not modelled.
\<close>

section \<open>The global descriptor table\<close>

record gdt_entry =
  limit_low :: u16
  base_low :: u16
  base_middle :: u8
  access :: u8
  granularity :: u8
  base_high :: u8

record table_ptr =
  ptr_limit :: u16
  ptr_base :: u32

definition gdt_set_tss :: "nat \<Rightarrow> u32 \<Rightarrow> u32 \<Rightarrow> gdt_entry list \<Rightarrow> gdt_entry list" where
  "gdt_set_tss num base limit gdt = gdt[num := (gdt ! num)\<lparr>
     base_low := ucast (base AND 0xFFFF),
     base_middle := ucast (drop_bit 16 base AND 0xFF),
     base_high := ucast (drop_bit 24 base AND 0xFF),
     limit_low := ucast (limit AND 0xFFFF),
     granularity := ucast (drop_bit 16 limit AND 0x0F) OR 0x00,
     access := 0x89\<rparr>]"

definition gdt_set_gate :: "nat \<Rightarrow> u32 \<Rightarrow> u32 \<Rightarrow> u8 \<Rightarrow> u8 \<Rightarrow> gdt_entry list \<Rightarrow> gdt_entry list" where
  "gdt_set_gate num base limit acc gran gdt = gdt[num := (gdt ! num)\<lparr>
     base_low := ucast (base AND 0xFFFF),
     base_middle := ucast (drop_bit 16 base AND 0xFF),
     base_high := ucast (drop_bit 24 base AND 0xFF),
     limit_low := ucast (limit AND 0xFFFF),
     granularity := ucast (drop_bit 16 limit AND 0x0F) OR (gran AND 0xF0),
     access := acc\<rparr>]"

definition gdt_install :: "u32 \<Rightarrow> gdt_entry list \<Rightarrow> table_ptr \<times> gdt_entry list" where
  "gdt_install gdt_addr gdt =
     (\<lparr>ptr_limit = 8 * 6 - 1, ptr_base = gdt_addr\<rparr>,
      gdt_set_gate 4 0 0xFFFFFFFF 0xF2 0xCF
       (gdt_set_gate 3 0 0xFFFFFFFF 0xFA 0xCF
        (gdt_set_gate 2 0 0xFFFFFFFF 0x92 0xCF
         (gdt_set_gate 1 0 0xFFFFFFFF 0x9A 0xCF
          (gdt_set_gate 0 0 0 0 0 gdt)))))"

section \<open>The task state segment\<close>

record tss_entry =
  prev_tss :: u32
  esp0 :: u32
  ss0 :: u32
  esp1 :: u32
  ss1 :: u32
  esp2 :: u32
  ss2 :: u32
  tss_cr3 :: u32
  tss_eip :: u32
  tss_eflags :: u32
  tss_eax :: u32
  tss_ecx :: u32
  tss_edx :: u32
  tss_ebx :: u32
  tss_esp :: u32
  tss_ebp :: u32
  tss_esi :: u32
  tss_edi :: u32
  tss_es :: u32
  tss_cs :: u32
  tss_ss :: u32
  tss_ds :: u32
  tss_fs :: u32
  tss_gs :: u32
  ldt :: u32
  trap :: u16
  iomap_base :: u16

definition TSS_EXCEPTION_STACK_SIZE :: u32 where
  "TSS_EXCEPTION_STACK_SIZE = 4096"

definition sizeof_tss :: u32 where
  "sizeof_tss = 104"

definition tss_install :: "u32 \<Rightarrow> u32 \<Rightarrow> gdt_entry list \<Rightarrow> tss_entry \<times> gdt_entry list" where
  "tss_install tss_addr exception_stack gdt =
     (\<lparr>prev_tss = 0, esp0 = exception_stack + TSS_EXCEPTION_STACK_SIZE, ss0 = 0x10, esp1 = 0, ss1 = 0,
       esp2 = 0, ss2 = 0, tss_cr3 = 0, tss_eip = 0, tss_eflags = 0, tss_eax = 0, tss_ecx = 0, tss_edx = 0,
       tss_ebx = 0, tss_esp = 0, tss_ebp = 0, tss_esi = 0, tss_edi = 0, tss_es = 0, tss_cs = 0, tss_ss = 0,
       tss_ds = 0, tss_fs = 0, tss_gs = 0, ldt = 0, trap = 0, iomap_base = ucast sizeof_tss\<rparr>,
      gdt_set_tss 5 tss_addr (sizeof_tss - 1) gdt)"

definition tss_set_stack :: "u32 \<Rightarrow> u32 \<Rightarrow> tss_entry \<Rightarrow> tss_entry" where
  "tss_set_stack kernel_ss kernel_esp t = t\<lparr>ss0 := kernel_ss, esp0 := kernel_esp\<rparr>"

section \<open>The interrupt descriptor table\<close>

record idt_entry =
  base_lo :: u16
  sel :: u16
  always0 :: u8
  flags :: u8
  base_hi :: u16

definition idt_set_gate :: "u8 \<Rightarrow> u32 \<Rightarrow> u16 \<Rightarrow> u8 \<Rightarrow> idt_entry list \<Rightarrow> idt_entry list" where
  "idt_set_gate num base s f idt = idt[unat num := (idt ! unat num)\<lparr>
     base_lo := ucast (base AND 0xFFFF), base_hi := ucast (drop_bit 16 base AND 0xFFFF),
     sel := s, flags := f, always0 := 0\<rparr>]"

definition idt_install :: "u32 \<Rightarrow> idt_entry list \<Rightarrow> table_ptr \<times> idt_entry list" where
  "idt_install idt_addr idt =
     (\<lparr>ptr_limit = 8 * 256 - 1, ptr_base = idt_addr\<rparr>,
      replicate 256 \<lparr>base_lo = 0, sel = 0, always0 = 0, flags = 0, base_hi = 0\<rparr>)"

section \<open>What the processor reads\<close>

definition segment_base :: "gdt_entry \<Rightarrow> u32" where
  "segment_base e = ucast (base_low e) OR push_bit 16 (ucast (base_middle e)) OR push_bit 24 (ucast (base_high e))"

definition raw_limit :: "gdt_entry \<Rightarrow> u32" where
  "raw_limit e = ucast (limit_low e) OR push_bit 16 (ucast (granularity e AND 0x0F))"

text \<open>With the granularity bit set the limit counts pages.\<close>

definition segment_limit :: "gdt_entry \<Rightarrow> u32" where
  "segment_limit e = (if bit (granularity e) 7 then push_bit 12 (raw_limit e) OR 0xFFF else raw_limit e)"

definition privilege :: "gdt_entry \<Rightarrow> u8" where
  "privilege e = drop_bit 5 (access e) AND 3"

datatype segment_kind = Null_Seg | Code_Seg | Data_Seg | Tss_Seg | Other_Seg

text \<open>Bit 7 of the access byte is present, bit 4 code or data, bit 3 code.\<close>

definition kind_of :: "gdt_entry \<Rightarrow> segment_kind" where
  "kind_of e =
     (if \<not> bit (access e) 7 then Null_Seg
      else if bit (access e) 4 then (if bit (access e) 3 then Code_Seg else Data_Seg)
      else if access e AND 0x0F = 9 then Tss_Seg else Other_Seg)"

definition gate_base :: "idt_entry \<Rightarrow> u32" where
  "gate_base e = ucast (base_lo e) OR push_bit 16 (ucast (base_hi e))"

text \<open>The access rights in a gate's flags: present, and the privilege level that may call it.\<close>

definition gate_present :: "idt_entry \<Rightarrow> bool" where
  "gate_present e \<longleftrightarrow> bit (flags e) 7"

lemma and_0xFFFF: "(w :: 'a::len word) AND 0xFFFF = take_bit 16 w"
  by (simp add: take_bit_eq_mask mask_eq_exp_minus_1)

lemma split_base:
  fixes base :: u32
  shows "ucast (ucast (base AND 0xFFFF) :: u16) OR push_bit 16 (ucast (ucast (drop_bit 16 base AND 0xFF) :: u8)) OR
    push_bit 24 (ucast (ucast (drop_bit 24 base AND 0xFF) :: u8)) = base" (is "?l = _")
proof (rule bit_word_eqI)
  fix n assume n: "n < LENGTH(32)"
  have "24 + (n - 24) = n" if "24 \<le> n" using that by simp
  moreover have "16 + (n - 16) = n" if "16 \<le> n" using that by simp
  ultimately show "bit ?l n = bit base n"
    using n unfolding and_0xFF and_0xFFFF
    by (cases "n < 16"; cases "n < 24") (auto simp: bit_simps)
qed

lemma split_limit:
  fixes limit :: u32 and g :: u8
  assumes "limit < 2 ^ 20" "g AND 0x0F = 0"
  shows "ucast (ucast (limit AND 0xFFFF) :: u16) OR
    push_bit 16 (ucast ((ucast (drop_bit 16 limit AND 0x0F) OR g) AND 0x0F)) = limit" (is "?l = _")
proof -
  have g: "\<not> bit g n" if "n < 4" for n
    using assms(2) that unfolding and_0x0F by (metis bit_0_eq bit_take_bit_iff bot_apply bot_bool_def)
  have l: "\<not> bit limit n" if "20 \<le> n" for n
  proof -
    have "take_bit 20 limit = limit" using take_bit_word_small [OF assms(1)] .
    then show ?thesis using that by (metis bit_take_bit_iff leD)
  qed
  show ?thesis
  proof (rule bit_word_eqI)
    fix n assume n: "n < LENGTH(32)"
    have "16 + (n - 16) = n" if "16 \<le> n" using that by simp
    then show "bit ?l n = bit limit n"
      using n l [of n] g [of "n - 16"] unfolding and_0x0F and_0xFFFF
      by (cases "n < 16"; cases "n < 20") (auto simp: bit_simps)
  qed
qed

lemma split_gate:
  fixes base :: u32
  shows "ucast (ucast (base AND 0xFFFF) :: u16) OR push_bit 16 (ucast (ucast (drop_bit 16 base AND 0xFFFF) :: u16)) = base" (is "?l = _")
proof (rule bit_word_eqI)
  fix n assume n: "n < LENGTH(32)"
  have "16 + (n - 16) = n" if "16 \<le> n" using that by simp
  then show "bit ?l n = bit base n"
    using n unfolding and_0xFFFF by (cases "n < 16") (auto simp: bit_simps)
qed

section \<open>What the tables say\<close>

lemma set_tss_decodes:
  assumes "num < length gdt" "limit < 2 ^ 20"
  shows "segment_base (gdt_set_tss num base limit gdt ! num) = base"
    "segment_limit (gdt_set_tss num base limit gdt ! num) = limit"
    "kind_of (gdt_set_tss num base limit gdt ! num) = Tss_Seg"
    "privilege (gdt_set_tss num base limit gdt ! num) = 0"
proof -
  have "\<not> bit (ucast (drop_bit 16 limit AND 0x0F) :: u8) 7" by (simp add: and_0x0F bit_simps)
  then show "segment_base (gdt_set_tss num base limit gdt ! num) = base"
    "segment_limit (gdt_set_tss num base limit gdt ! num) = limit"
    "kind_of (gdt_set_tss num base limit gdt ! num) = Tss_Seg"
    "privilege (gdt_set_tss num base limit gdt ! num) = 0"
    using assms split_base [of base] split_limit [OF assms(2), of 0]
    by (simp_all add: gdt_set_tss_def segment_base_def segment_limit_def raw_limit_def kind_of_def
        privilege_def drop_bit_eq_div)
qed

lemma set_gate_decodes:
  assumes "num < length gdt"
  shows "segment_base (gdt_set_gate num base limit acc gran gdt ! num) = base"
    "access (gdt_set_gate num base limit acc gran gdt ! num) = acc"
  using assms split_base [of base] by (simp_all add: gdt_set_gate_def segment_base_def)

lemma flat_limit:
  "num < length gdt \<Longrightarrow> segment_limit (gdt_set_gate num base 0xFFFFFFFF acc 0xCF gdt ! num) = 0xFFFFFFFF"
  by (simp add: gdt_set_gate_def segment_limit_def raw_limit_def)

lemma gate_decodes:
  assumes "length idt = 256"
  shows "gate_base (idt_set_gate num base s f idt ! unat num) = base"
    "sel (idt_set_gate num base s f idt ! unat num) = s" "flags (idt_set_gate num base s f idt ! unat num) = f"
    "k \<noteq> unat num \<Longrightarrow> idt_set_gate num base s f idt ! k = idt ! k" "length (idt_set_gate num base s f idt) = 256"
proof -
  have "unat num < 256" using unsigned_less [of num, where 'a = nat] by simp
  then show "gate_base (idt_set_gate num base s f idt ! unat num) = base"
    "sel (idt_set_gate num base s f idt ! unat num) = s" "flags (idt_set_gate num base s f idt ! unat num) = f"
    "k \<noteq> unat num \<Longrightarrow> idt_set_gate num base s f idt ! k = idt ! k" "length (idt_set_gate num base s f idt) = 256"
    using assms split_gate [of base] by (simp_all add: idt_set_gate_def gate_base_def)
qed

lemma gdt_frame: "k \<noteq> num \<Longrightarrow> gdt_set_gate num base limit acc gran gdt ! k = gdt ! k"
  "k \<noteq> num \<Longrightarrow> gdt_set_tss num base limit gdt ! k = gdt ! k"
  "length (gdt_set_gate num base limit acc gran gdt) = length gdt" "length (gdt_set_tss num base limit gdt) = length gdt"
  by (simp_all add: gdt_set_gate_def gdt_set_tss_def)

text \<open>
  C9020. The installed descriptor tables are well formed. The descriptor table has the six entries
  its pointer announces: a null segment, kernel code and data of privilege 0, user code and data of
  privilege 3, all four flat from 0 to the last byte of the address space, and a task state segment
  with exactly the base and size of the \<^verbatim>\<open>tss\<close> structure, whose ring-0 stack segment 0x10
  is the kernel data segment. A gate set in the interrupt table carries the handler's address,
  selector and flags, and leaves every other gate alone.
\<close>

theorem descriptor_tables_well_formed:
  assumes "length gdt = 6" "gdt_install gdt_addr gdt = (gp, g1)" "tss_install tss_addr stack g1 = (t, g2)"
    and "idt_install idt_addr idt = (ip, i1)"
  shows "length g2 = 6 \<and> unat (ptr_limit gp) + 1 = 8 * length g2 \<and>
    map kind_of g2 = [Null_Seg, Code_Seg, Data_Seg, Code_Seg, Data_Seg, Tss_Seg] \<and>
    map privilege g2 = [0, 0, 0, 3, 3, 0] \<and>
    (\<forall>k\<in>{1..4}. segment_base (g2 ! k) = 0 \<and> segment_limit (g2 ! k) = 0xFFFFFFFF) \<and>
    segment_base (g2 ! 5) = tss_addr \<and> segment_limit (g2 ! 5) + 1 = sizeof_tss \<and>
    kind_of (g2 ! unat (drop_bit 3 (ss0 t))) = Data_Seg \<and> privilege (g2 ! unat (drop_bit 3 (ss0 t))) = 0 \<and>
    unat (ptr_limit ip) + 1 = 8 * length i1 \<and>
    gate_base (idt_set_gate num base s f i1 ! unat num) = base \<and>
    sel (idt_set_gate num base s f i1 ! unat num) = s \<and> flags (idt_set_gate num base s f i1 ! unat num) = f \<and>
    (\<forall>k. k \<noteq> unat num \<longrightarrow> idt_set_gate num base s f i1 ! k = i1 ! k)"
proof -
  let ?G = "\<lambda>n l a g. gdt_set_gate n 0 l a g"
  have g1: "g1 = ?G 4 0xFFFFFFFF 0xF2 0xCF (?G 3 0xFFFFFFFF 0xFA 0xCF (?G 2 0xFFFFFFFF 0x92 0xCF
      (?G 1 0xFFFFFFFF 0x9A 0xCF (?G 0 0 0 0 gdt))))" and gp: "ptr_limit gp = 47"
    using assms(2) by (auto simp: gdt_install_def)
  have g2: "g2 = gdt_set_tss 5 tss_addr (sizeof_tss - 1) g1" and t: "ss0 t = 0x10"
    using assms(3) by (auto simp: tss_install_def)
  have i1: "length i1 = 256" "ptr_limit ip = 2047" using assms(4) by (auto simp: idt_install_def)
  have len: "length g1 = 6" "length g2 = 6" using assms(1) by (simp_all add: g1 g2 gdt_frame)
  note dec = set_gate_decodes flat_limit gdt_frame
  have e: "access (g2 ! 0) = 0" "access (g2 ! 1) = 0x9A" "access (g2 ! 2) = 0x92" "access (g2 ! 3) = 0xFA"
    "access (g2 ! 4) = 0xF2"
    using assms(1) by (simp_all add: g1 g2 dec)
  have flat: "segment_base (g2 ! k) = 0 \<and> segment_limit (g2 ! k) = 0xFFFFFFFF" if "k \<in> {1, 2, 3, 4}" for k
    using that assms(1) by (auto simp: g1 g2 dec)
  have tss: "segment_base (g2 ! 5) = tss_addr" "segment_limit (g2 ! 5) = sizeof_tss - 1"
    "kind_of (g2 ! 5) = Tss_Seg" "privilege (g2 ! 5) = 0"
    unfolding g2 using set_tss_decodes [of 5 g1 "sizeof_tss - 1" tss_addr] len by (simp_all add: sizeof_tss_def)
  have all: "g2 = [g2 ! 0, g2 ! 1, g2 ! 2, g2 ! 3, g2 ! 4, g2 ! 5]"
    using len(2) by (intro nth_equalityI) (auto simp: less_Suc_eq numeral_eq_Suc)
  have "map kind_of g2 = [Null_Seg, Code_Seg, Data_Seg, Code_Seg, Data_Seg, Tss_Seg]"
    "map privilege g2 = [0, 0, 0, 3, 3, 0]"
    using e tss(3,4) by (subst all, simp add: kind_of_def privilege_def drop_bit_eq_div)+
  moreover have "{1..4} = {1, 2, 3, 4::nat}" by auto
  ultimately show ?thesis
    using len gp flat tss i1 t e gate_decodes [OF i1(1)]
    by (simp add: sizeof_tss_def kind_of_def privilege_def drop_bit_eq_div)
qed

text \<open>Entries of a table before it is set up, and the tables made from them.\<close>

definition zero_entry :: gdt_entry where
  "zero_entry = \<lparr>limit_low = 0, base_low = 0, base_middle = 0, access = 0, granularity = 0, base_high = 0\<rparr>"

theorem descriptor_tables_well_formed_witness:
  "kind_of (snd (tss_install 0xC0105000 0xC0106000 (snd (gdt_install 0xC0104000 (replicate 6 zero_entry)))) ! 3) = Code_Seg"
proof -
  let ?g = "gdt_install 0xC0104000 (replicate 6 zero_entry)"
  let ?t = "tss_install 0xC0105000 0xC0106000 (snd ?g)" and ?i = "idt_install 0xC0107000 []"
  have "map kind_of (snd ?t) = [Null_Seg, Code_Seg, Data_Seg, Code_Seg, Data_Seg, Tss_Seg] \<and> length (snd ?t) = 6"
    using descriptor_tables_well_formed [of "replicate 6 zero_entry" "0xC0104000" "fst ?g" "snd ?g"
        "0xC0105000" "0xC0106000" "fst ?t" "snd ?t" "0xC0107000" "[]" "fst ?i" "snd ?i" 0 0 0 0] by simp
  then have "map kind_of (snd ?t) ! 3 = Code_Seg" "3 < length (snd ?t)" by auto
  then show ?thesis by simp
qed

end
