(* ===== verification/PhysMem.thy ===== *)
theory PhysMem
  imports Prelude
begin

text \<open>
  The physical memory manager, \<^verbatim>\<open>kernel/src/mem/phys_mem.c\<close>: a bitmap with
  one bit per 4 KiB frame (1 = free) and a reference count per frame.

  State: \<^verbatim>\<open>mem_bitmap\<close> (4096 words) and \<^verbatim>\<open>ref_counts\<close> (4096 counters)
  are functions of the index. A C store outside either array is undefined behaviour; the model
  drops it and sets the sticky flag \<open>oob\<close>, so "no store out of bounds" is the
  statement that the flag stays down.
\<close>

section \<open>State and constants\<close>

definition BLOCK_SIZE :: u32 where
  "BLOCK_SIZE = 4096"

definition MAX_BLOCK_ENTRIES :: nat where
  "MAX_BLOCK_ENTRIES = 4096"

record phys =
  bitmap_ptr :: u32
  mem_bitmap :: "nat \<Rightarrow> u32"
  ref_counts :: "nat \<Rightarrow> u16"
  oob :: bool

definition store_bitmap :: "nat \<Rightarrow> u32 \<Rightarrow> phys \<Rightarrow> phys" where
  "store_bitmap i w s =
     (if i < MAX_BLOCK_ENTRIES then s\<lparr>mem_bitmap := (mem_bitmap s)(i := w)\<rparr>
      else s\<lparr>oob := True\<rparr>)"

definition store_ref :: "nat \<Rightarrow> u16 \<Rightarrow> phys \<Rightarrow> phys" where
  "store_ref i c s =
     (if i < MAX_BLOCK_ENTRIES then s\<lparr>ref_counts := (ref_counts s)(i := c)\<rparr>
      else s\<lparr>oob := True\<rparr>)"

section \<open>Operations\<close>

definition set_block :: "nat \<Rightarrow> u32 \<Rightarrow> phys \<Rightarrow> phys" where
  "set_block b v s =
     store_bitmap (b div 32)
       ((mem_bitmap s (b div 32) AND NOT (push_bit (b mod 32) 1)) OR push_bit (b mod 32) v) s"

definition test_block :: "phys \<Rightarrow> nat \<Rightarrow> bool" where
  "test_block s b \<longleftrightarrow> mem_bitmap s (b div 32) AND push_bit (b mod 32) 1 \<noteq> 0"

definition init_phys_mem :: "u32 \<Rightarrow> phys \<Rightarrow> phys" where
  "init_phys_mem start_address s =
     s\<lparr>bitmap_ptr := start_address + KERNEL_VIRTUAL_BASE,
       mem_bitmap := (\<lambda>i. if i < MAX_BLOCK_ENTRIES then 0 else mem_bitmap s i),
       ref_counts := (\<lambda>i. if i < MAX_BLOCK_ENTRIES then 0 else ref_counts s i)\<rparr>"

definition initialize_memory_region :: "u32 \<Rightarrow> u32 \<Rightarrow> phys \<Rightarrow> phys" where
  "initialize_memory_region start sz s =
     (let start_block = unat ((start + BLOCK_SIZE - 1) div BLOCK_SIZE);
          end_block = unat ((start + sz) div BLOCK_SIZE)
      in fold (\<lambda>i. set_block i 1) [start_block..<end_block] s)"

definition deinitialize_memory_region :: "u32 \<Rightarrow> u32 \<Rightarrow> phys \<Rightarrow> phys" where
  "deinitialize_memory_region start sz s =
     (let start_block = unat (start div BLOCK_SIZE);
          end_block = unat ((start + sz + BLOCK_SIZE - 1) div BLOCK_SIZE)
      in fold (\<lambda>i. set_block i 0) [start_block..<end_block] s)"

text \<open>
  The inner loop of \<^verbatim>\<open>find_first_free_blocks\<close>: the first \<open>j\<close> at
  which the run starting at block \<open>i\<close> is broken, if any. In the outer loop the C code
  writes the loop variable (\<^verbatim>\<open>i = i + j; break;\<close>, then \<^verbatim>\<open>i++\<close>), so
  the next candidate is \<open>i + j + 1\<close>; an all-zero bitmap word skips to the next word.
\<close>

definition block_limit :: nat where
  "block_limit = MAX_BLOCK_ENTRIES * 32"

function broken_at :: "phys \<Rightarrow> nat \<Rightarrow> nat \<Rightarrow> nat \<Rightarrow> nat option" where
  "broken_at s i sz j =
     (if j < sz then (if \<not> test_block s (i + j) then Some j else broken_at s i sz (Suc j))
      else None)"
  by pat_completeness auto
termination
  by (relation "measure (\<lambda>(s, i, sz, j). sz - j)") auto

function find_loop :: "phys \<Rightarrow> nat \<Rightarrow> nat \<Rightarrow> int" where
  "find_loop s sz i =
     (if i \<le> block_limit - sz then
        (if mem_bitmap s (i div 32) = 0 then find_loop s sz ((i div 32 + 1) * 32)
         else (case broken_at s i sz 0 of
                 Some j \<Rightarrow> find_loop s sz (i + j + 1)
               | None \<Rightarrow> int i))
      else - 1)"
  by pat_completeness auto
termination
proof (relation "measure (\<lambda>(s, sz, i). Suc block_limit - i)", goal_cases)
  case (2 s sz i)
  have "i < (i div 32 + 1) * 32" by (metis Suc_eq_plus1 dividend_less_div_times mult.commute mult_Suc_right zero_less_numeral add.commute)
  with 2 show ?case by simp
qed auto

definition find_first_free_blocks :: "u32 \<Rightarrow> phys \<Rightarrow> int" where
  "find_first_free_blocks sz s =
     (if sz = 0 then 0
      else if block_limit < unat sz then - 1
      else find_loop s (unat sz) 0)"

definition alloc_blocks :: "u32 \<Rightarrow> phys \<Rightarrow> u32 \<times> phys" where
  "alloc_blocks sz s =
     (let start_block = find_first_free_blocks sz s
      in if start_block = - 1 then (0, s)
         else (of_int start_block * BLOCK_SIZE,
               fold (\<lambda>i s. store_ref (nat start_block + i) 1 (set_block (nat start_block + i) 0 s))
                 [0..<unat sz] s))"

fun free_loop :: "nat \<Rightarrow> nat \<Rightarrow> phys \<Rightarrow> phys" where
  "free_loop b 0 s = s"
| "free_loop b (Suc n) s =
     (if MAX_BLOCK_ENTRIES \<le> b then s
      else free_loop (Suc b) n
        (if 1 < ref_counts s b then store_ref b (ref_counts s b - 1) s
         else set_block b 1 (store_ref b 0 s)))"

definition free_blocks :: "u32 \<Rightarrow> u32 \<Rightarrow> phys \<Rightarrow> phys" where
  "free_blocks address sz s = free_loop (unat (address div BLOCK_SIZE)) (unat sz) s"

definition phys_ref_block :: "u32 \<Rightarrow> phys \<Rightarrow> phys" where
  "phys_ref_block address s =
     (let block = unat (address div BLOCK_SIZE)
      in if block < MAX_BLOCK_ENTRIES then store_ref block (ref_counts s block + 1) s else s)"

definition phys_get_refcount :: "u32 \<Rightarrow> phys \<Rightarrow> int" where
  "phys_get_refcount address s =
     (let block = unat (address div BLOCK_SIZE)
      in if block < MAX_BLOCK_ENTRIES then uint (ref_counts s block) else 0)"

section \<open>Bits and ranges of the bitmap\<close>

lemmas phys_consts = BLOCK_SIZE_def MAX_BLOCK_ENTRIES_def block_limit_def

lemma test_block_bit: "test_block s b \<longleftrightarrow> bit (mem_bitmap s (b div 32)) (b mod 32)"
  by (simp add: test_block_def)

lemma block_eq_iff: "(c div 32 = b div 32 \<and> c mod 32 = b mod (32::nat)) \<longleftrightarrow> c = b"
  by (metis mult_div_mod_eq)

lemma in_bitmap: "b < block_limit \<longleftrightarrow> b div 32 < MAX_BLOCK_ENTRIES"
  by (auto simp: phys_consts)

lemma test_set_block:
  assumes "b < block_limit"
  shows "test_block (set_block b (of_bool v) s) c = (if c = b then v else test_block s c)"
proof -
  have b: "b div 32 < MAX_BLOCK_ENTRIES" using assms by (simp add: in_bitmap)
  show ?thesis
  proof (cases "c div 32 = b div 32")
    case True
    with b have "test_block (set_block b (of_bool v) s) c =
        (if c mod 32 = b mod 32 then v else test_block s c)"
      by (simp add: test_block_bit set_block_def store_bitmap_def)
    with True show ?thesis using block_eq_iff [of c b] by auto
  next
    case False
    with b show ?thesis by (auto simp: test_block_bit set_block_def store_bitmap_def)
  qed
qed

lemmas test_set_block_1 = test_set_block [where v = True, simplified]
lemmas test_set_block_0 = test_set_block [where v = False, simplified]

lemma set_block_keeps [kframe, simp]:
  "ref_counts (set_block b v s) = ref_counts s"
  "bitmap_ptr (set_block b v s) = bitmap_ptr s"
  "b < block_limit \<Longrightarrow> oob (set_block b v s) = oob s"
  "block_limit \<le> b \<Longrightarrow> set_block b v s = s\<lparr>oob := True\<rparr>"
  using in_bitmap [of b] by (auto simp: set_block_def store_bitmap_def)

lemma store_ref_keeps [kframe, simp]:
  "mem_bitmap (store_ref b c s) = mem_bitmap s"
  "test_block (store_ref b c s) = test_block s"
  "bitmap_ptr (store_ref b c s) = bitmap_ptr s"
  "b < MAX_BLOCK_ENTRIES \<Longrightarrow> oob (store_ref b c s) = oob s"
  "b < MAX_BLOCK_ENTRIES \<Longrightarrow> ref_counts (store_ref b c s) = (ref_counts s)(b := c)"
  "MAX_BLOCK_ENTRIES \<le> b \<Longrightarrow> store_ref b c s = s\<lparr>oob := True\<rparr>"
  by (auto simp: store_ref_def test_block_def)

lemma test_block_oob [simp]: "test_block (s\<lparr>oob := x\<rparr>) = test_block s"
  by (simp add: test_block_def fun_eq_iff)

lemma set_range_test:
  assumes "b \<le> block_limit" and "a \<le> b"
  shows "test_block (fold (\<lambda>i. set_block i (of_bool v)) [a..<b] s) c =
    (if a \<le> c \<and> c < b then v else test_block s c)"
  using assms(2,1)
proof (induction b rule: dec_induct)
  case (step n)
  then show ?case by (auto simp: test_set_block)
qed auto

section \<open>The search for a run of free frames\<close>

declare broken_at.simps [simp del] find_loop.simps [simp del]

text \<open>Reference notion: \<open>n\<close> consecutive free frames starting at \<open>b\<close>.\<close>

definition free_run :: "phys \<Rightarrow> nat \<Rightarrow> nat \<Rightarrow> bool" where
  "free_run s b n \<longleftrightarrow> b + n \<le> block_limit \<and> (\<forall>j < n. test_block s (b + j))"

lemma broken_at_None:
  "broken_at s i sz j = None \<longleftrightarrow> (\<forall>k. j \<le> k \<and> k < sz \<longrightarrow> test_block s (i + k))"
proof (induction s i sz j rule: broken_at.induct)
  case (1 s i sz j)
  then show ?case
    by (subst broken_at.simps) (auto simp: le_Suc_eq dest: le_neq_implies_less intro: Suc_leI)
qed

lemma broken_at_Some:
  "broken_at s i sz j = Some k \<Longrightarrow> j \<le> k \<and> k < sz \<and> \<not> test_block s (i + k)"
proof (induction s i sz j rule: broken_at.induct)
  case (1 s i sz j)
  then show ?case
    by (subst (asm) broken_at.simps) (auto split: if_splits)
qed

lemma zero_word_no_free:
  assumes "mem_bitmap s (i div 32) = 0" and "i \<le> c" and "c < (i div 32 + 1) * 32"
  shows "\<not> test_block s c"
proof -
  have "c div 32 = i div 32"
  proof (rule antisym)
    show "c div 32 \<le> i div 32" using assms(3) by (metis Suc_eq_plus1 less_Suc_eq_le less_mult_imp_div_less)
    show "i div 32 \<le> c div 32" using assms(2) by (rule div_le_mono)
  qed
  with assms(1) show ?thesis by (simp add: test_block_bit)
qed

lemma free_run_start: "free_run s c n \<Longrightarrow> 0 < n \<Longrightarrow> test_block s c"
  by (auto simp: free_run_def)

lemma free_run_gap: "free_run s c n \<Longrightarrow> c \<le> d \<Longrightarrow> d < c + n \<Longrightarrow> test_block s d"
  unfolding free_run_def by (metis le_add_diff_inverse less_diff_conv2 add.commute)

definition is_first_run :: "phys \<Rightarrow> nat \<Rightarrow> int \<Rightarrow> bool" where
  "is_first_run s n r \<longleftrightarrow>
     (r = - 1 \<and> (\<forall>b. \<not> free_run s b n)) \<or>
     (\<exists>b. r = int b \<and> free_run s b n \<and> (\<forall>c < b. \<not> free_run s c n))"

lemma find_loop_first:
  assumes "0 < sz" and "sz \<le> block_limit" and "\<forall>c < i. \<not> free_run s c sz"
  shows "is_first_run s sz (find_loop s sz i)"
  using assms
proof (induction s sz i rule: find_loop.induct)
  case (1 s sz i)
  show ?case
  proof (cases "i \<le> block_limit - sz")
    case False
    then have "\<not> free_run s b sz" for b
      using 1 by (cases "b < i") (auto simp: free_run_def)
    with False show ?thesis by (subst find_loop.simps) (auto simp: is_first_run_def)
  next
    case le: True
    show ?thesis
    proof (cases "mem_bitmap s (i div 32) = 0")
      case True
      have "\<not> free_run s c sz" if "c < (i div 32 + 1) * 32" for c
        using 1 that zero_word_no_free [OF True, of c] free_run_start [of s c sz]
        by (cases "c < i") auto
      with 1 le True show ?thesis by (subst find_loop.simps) simp
    next
      case nz: False
      show ?thesis
      proof (cases "broken_at s i sz 0")
        case None
        then have "free_run s i sz"
          using le 1 by (auto simp: free_run_def broken_at_None)
        with None 1 le nz show ?thesis
          by (subst find_loop.simps) (auto simp: is_first_run_def)
      next
        case (Some j)
        note j = broken_at_Some [OF this]
        have "\<not> free_run s c sz" if "c < i + j + 1" for c
        proof (cases "c < i")
          case False
          with j that show ?thesis using free_run_gap [of s c sz "i + j"] by auto
        qed (use 1 in auto)
        with 1 le nz Some show ?thesis by (subst find_loop.simps) simp
      qed
    qed
  qed
qed

section \<open>Effect of allocating and freeing\<close>

lemma unat_block_addr:
  assumes "b < 2 ^ 20"
  shows "unat ((of_nat b * BLOCK_SIZE) div BLOCK_SIZE) = b"
proof -
  have "unat (of_nat b * BLOCK_SIZE :: u32) = b * 4096"
    using assms by (simp add: BLOCK_SIZE_def unat_word_ariths unat_of_nat)
  then show ?thesis by (simp add: BLOCK_SIZE_def unat_div_distrib)
qed

lemma bitmap_ext:
  assumes "\<And>c. test_block s c = test_block s' c"
  shows "mem_bitmap s = mem_bitmap s'"
proof (rule ext, rule bit_word_eqI)
  fix i n assume "n < LENGTH(32)"
  then have n: "(32 * i + n) div 32 = i" "(32 * i + n) mod 32 = n" by auto
  show "bit (mem_bitmap s i) n = bit (mem_bitmap s' i) n"
    using assms [of "32 * i + n"] unfolding test_block_bit n .
qed

definition take_frames :: "nat \<Rightarrow> nat \<Rightarrow> phys \<Rightarrow> phys" where
  "take_frames b n s =
     fold (\<lambda>i s. store_ref (b + i) 1 (set_block (b + i) 0 s)) [0..<n] s"

lemma take_frames_rec [simp]:
  "take_frames b 0 s = s"
  "take_frames b (Suc n) s =
     store_ref (b + n) 1 (set_block (b + n) 0 (take_frames b n s))"
  by (simp_all add: take_frames_def)

lemma take_frames_effect:
  assumes "b + n \<le> MAX_BLOCK_ENTRIES"
  shows "test_block (take_frames b n s) c = (test_block s c \<and> \<not> (b \<le> c \<and> c < b + n))"
    and "ref_counts (take_frames b n s) c = (if b \<le> c \<and> c < b + n then 1 else ref_counts s c)"
    and "oob (take_frames b n s) = oob s"
    and "bitmap_ptr (take_frames b n s) = bitmap_ptr s"
proof -
  have "(test_block (take_frames b n s) c = (test_block s c \<and> \<not> (b \<le> c \<and> c < b + n)))
    \<and> (ref_counts (take_frames b n s) c = (if b \<le> c \<and> c < b + n then 1 else ref_counts s c))
    \<and> (oob (take_frames b n s) = oob s) \<and> (bitmap_ptr (take_frames b n s) = bitmap_ptr s)"
    using assms
  proof (induction n)
    case (Suc n)
    then have "b + n < block_limit" "b + n < MAX_BLOCK_ENTRIES"
      by (auto simp: phys_consts)
    with Suc show ?case
      by (auto simp: test_set_block_0)
  qed auto
  then show
    "test_block (take_frames b n s) c = (test_block s c \<and> \<not> (b \<le> c \<and> c < b + n))"
    "ref_counts (take_frames b n s) c = (if b \<le> c \<and> c < b + n then 1 else ref_counts s c)"
    "oob (take_frames b n s) = oob s" "bitmap_ptr (take_frames b n s) = bitmap_ptr s"
    by blast+
qed

lemma take_frames_oob_mono: "oob s \<Longrightarrow> oob (take_frames b n s)"
  unfolding take_frames_def
  by (rule fold_preserves) (auto simp: store_ref_def set_block_def store_bitmap_def)

lemma take_frames_oob:
  assumes "MAX_BLOCK_ENTRIES < b + n" and "0 < n"
  shows "oob (take_frames b n s)"
proof -
  obtain m where n: "n = Suc m" using assms(2) by (cases n) auto
  then have "MAX_BLOCK_ENTRIES \<le> b + m" using assms(1) by simp
  then show ?thesis by (simp add: n)
qed

lemma alloc_blocks_eq:
  "alloc_blocks sz s =
     (if find_first_free_blocks sz s = - 1 then (0, s)
      else (of_int (find_first_free_blocks sz s) * BLOCK_SIZE,
            take_frames (nat (find_first_free_blocks sz s)) (unat sz) s))"
  by (simp add: alloc_blocks_def take_frames_def Let_def)

lemma find_first_cases:
  assumes "0 < sz"
  shows "is_first_run s (unat sz) (find_first_free_blocks sz s)"
proof (cases "block_limit < unat sz")
  case True
  with assms show ?thesis
    by (auto simp: find_first_free_blocks_def is_first_run_def free_run_def)
next
  case False
  moreover have "0 < unat sz" using assms by (simp add: unat_gt_0 word_gt_0)
  ultimately show ?thesis
    using assms find_loop_first [of "unat sz" 0 s]
    by (simp add: find_first_free_blocks_def word_gt_0)
qed

lemma free_loop_effect:
  assumes "b + n \<le> MAX_BLOCK_ENTRIES" and "\<forall>c. b \<le> c \<and> c < b + n \<longrightarrow> ref_counts s c \<le> 1"
  shows "test_block (free_loop b n s) c = (test_block s c \<or> (b \<le> c \<and> c < b + n))
    \<and> ref_counts (free_loop b n s) c = (if b \<le> c \<and> c < b + n then 0 else ref_counts s c)
    \<and> oob (free_loop b n s) = oob s \<and> bitmap_ptr (free_loop b n s) = bitmap_ptr s"
  using assms
proof (induction n arbitrary: b s)
  case (Suc n)
  then have b: "b < block_limit" "b < MAX_BLOCK_ENTRIES"
    by (auto simp: phys_consts)
  have le1: "\<not> 1 < ref_counts s b" using Suc.prems(2) by (simp add: not_less)
  let ?s = "set_block b 1 (store_ref b 0 s)"
  have "\<forall>c. Suc b \<le> c \<and> c < Suc b + n \<longrightarrow> ref_counts ?s c \<le> 1"
    using Suc.prems(2) b by simp
  from Suc.IH [OF _ this] Suc.prems(1)
  show ?case using b le1 by (auto simp: test_set_block_1)
qed auto

section \<open>The frame allocator as an interface\<close>

text \<open>
  What the page-table code relies on: \<open>alloc\<close> hands out one frame nobody holds, with
  one reference; \<open>share\<close> adds a reference; \<open>release\<close> drops one and returns
  the frame only with the last. \<open>blk\<close> is the frame an address lies in.
\<close>

locale frame_allocator =
  fixes inv :: "'s \<Rightarrow> bool"
    and alloc :: "'s \<Rightarrow> 'a \<times> 's"
    and release :: "'a \<Rightarrow> 's \<Rightarrow> 's"
    and share :: "'a \<Rightarrow> 's \<Rightarrow> 's"
    and avail :: "'s \<Rightarrow> 'f \<Rightarrow> bool"
    and refs :: "'s \<Rightarrow> 'f \<Rightarrow> nat"
    and blk :: "'a \<Rightarrow> 'f"
    and managed :: "'f \<Rightarrow> bool"
    and nul :: 'a
    and max_refs :: nat
  assumes avail_refs: "inv s \<Longrightarrow> avail s f \<Longrightarrow> refs s f = 0"
    and avail_managed: "inv s \<Longrightarrow> avail s f \<Longrightarrow> managed f"
    and alloc_nul: "inv s \<Longrightarrow> fst (alloc s) = nul \<longleftrightarrow> (\<forall>f. \<not> avail s f)"
    and alloc_nul_keeps: "inv s \<Longrightarrow> fst (alloc s) = nul \<Longrightarrow> snd (alloc s) = s"
    and alloc_avail: "inv s \<Longrightarrow> fst (alloc s) \<noteq> nul \<Longrightarrow> avail s (blk (fst (alloc s)))"
    and alloc_takes: "inv s \<Longrightarrow> fst (alloc s) \<noteq> nul \<Longrightarrow>
      avail (snd (alloc s)) = (avail s)(blk (fst (alloc s)) := False)"
    and alloc_refs: "inv s \<Longrightarrow> fst (alloc s) \<noteq> nul \<Longrightarrow>
      refs (snd (alloc s)) = (refs s)(blk (fst (alloc s)) := 1)"
    and alloc_inv: "inv s \<Longrightarrow> inv (snd (alloc s))"
    and share_refs: "inv s \<Longrightarrow> managed (blk a) \<Longrightarrow> refs s (blk a) < max_refs \<Longrightarrow>
      refs (share a s) = (refs s)(blk a := Suc (refs s (blk a)))"
    and share_avail: "inv s \<Longrightarrow> avail (share a s) = avail s"
    and share_inv: "inv s \<Longrightarrow> 0 < refs s (blk a) \<Longrightarrow> refs s (blk a) < max_refs \<Longrightarrow> inv (share a s)"
    and release_refs: "inv s \<Longrightarrow> managed (blk a) \<Longrightarrow>
      refs (release a s) = (refs s)(blk a := refs s (blk a) - 1)"
    and release_avail: "inv s \<Longrightarrow> managed (blk a) \<Longrightarrow>
      avail (release a s) = (avail s)(blk a := avail s (blk a) \<or> refs s (blk a) \<le> 1)"
    and release_inv: "inv s \<Longrightarrow> managed (blk a) \<Longrightarrow> inv (release a s)"
begin

lemma alloc_distinct:
  assumes "inv s" and "fst (alloc s) \<noteq> nul" and "fst (alloc (snd (alloc s))) \<noteq> nul"
  shows "blk (fst (alloc (snd (alloc s)))) \<noteq> blk (fst (alloc s))"
  using assms alloc_avail [OF alloc_inv [OF assms(1)] assms(3)] by (auto simp: alloc_takes)

lemma alloc_release:
  assumes "inv s" and "fst (alloc s) \<noteq> nul"
  defines "s' \<equiv> release (fst (alloc s)) (snd (alloc s))"
  shows "avail s' = avail s" and "refs s' = refs s"
proof -
  let ?f = "blk (fst (alloc s))"
  have f: "avail s ?f" using assms by (simp add: alloc_avail)
  then have m: "managed ?f" "refs s ?f = 0" using assms(1) by (auto simp: avail_managed avail_refs)
  show "avail s' = avail s" "refs s' = refs s"
    using assms m f
    by (auto simp: s'_def release_avail release_refs alloc_inv alloc_takes alloc_refs fun_eq_iff)
qed

text \<open>\<open>n\<close> extra references: the frame comes back after \<open>n + 1\<close> releases, not before.\<close>

lemma share_many:
  assumes "inv s" and "managed (blk a)" and "refs s (blk a) = 1" and "n < max_refs" and "\<not> avail s (blk a)"
  shows "inv ((share a ^^ n) s) \<and> refs ((share a ^^ n) s) (blk a) = Suc n \<and>
    avail ((share a ^^ n) s) = avail s"
  using assms by (induction n) (auto simp: share_refs share_avail intro: share_inv)

lemma release_many:
  assumes "inv s" and "managed (blk a)" and "refs s (blk a) = n" and "k < n" and "\<not> avail s (blk a)"
  shows "inv ((release a ^^ k) s) \<and> refs ((release a ^^ k) s) (blk a) = n - k \<and>
    \<not> avail ((release a ^^ k) s) (blk a)"
  using assms by (induction k) (auto simp: release_refs release_avail release_inv)

lemma last_release_frees:
  assumes "inv s" and "managed (blk a)" and "refs s (blk a) = Suc n" and "\<not> avail s (blk a)"
  shows "avail ((release a ^^ Suc n) s) (blk a)"
  using release_many [OF assms(1,2,3), of n] assms(2,4) by (auto simp: release_avail)

end

text \<open>
  The provider. The contract holds while every free frame is one the reference counters cover
  (below 16 MiB) and frame 0 is reserved: then no store leaves the arrays and the address
  \<^verbatim>\<open>NULL\<close> is never a frame.
\<close>

definition phys_ok :: "phys \<Rightarrow> bool" where
  "phys_ok s \<longleftrightarrow> \<not> oob s \<and>
     (\<forall>b. test_block s b \<longrightarrow> 0 < b \<and> b < MAX_BLOCK_ENTRIES \<and> ref_counts s b = 0)"

definition frame_of :: "u32 \<Rightarrow> nat" where
  "frame_of a = unat (a div BLOCK_SIZE)"

lemma frame_of_block_addr: "b < 2 ^ 20 \<Longrightarrow> frame_of (of_nat b * BLOCK_SIZE) = b"
  by (simp add: frame_of_def unat_block_addr)

lemma free_run_bound:
  assumes "phys_ok s" and "free_run s b n" and "0 < n"
  shows "0 < b" and "b + n \<le> MAX_BLOCK_ENTRIES"
proof -
  from assms(2,3) have "test_block s b" "test_block s (b + (n - 1))"
    by (auto simp: free_run_def simp del: add_diff_assoc)
  then have "0 < b" "b + (n - 1) < MAX_BLOCK_ENTRIES"
    using assms(1) by (auto simp: phys_ok_def)
  with assms(3) show "0 < b" "b + n \<le> MAX_BLOCK_ENTRIES" by auto
qed

lemma alloc_blocks_cases:
  assumes "phys_ok s" and "0 < sz"
  obtains (none) "alloc_blocks sz s = (0, s)" "\<forall>b. \<not> free_run s b (unat sz)"
  | (some) b where "alloc_blocks sz s = (of_nat b * BLOCK_SIZE, take_frames b (unat sz) s)"
      "free_run s b (unat sz)" "\<forall>c < b. \<not> free_run s c (unat sz)" "0 < b"
      "b + unat sz \<le> MAX_BLOCK_ENTRIES" "of_nat b * BLOCK_SIZE \<noteq> 0"
proof -
  have n: "0 < unat sz" using assms(2) by (simp add: unat_gt_0 word_gt_0)
  from find_first_cases [OF assms(2), of s] show thesis
    unfolding is_first_run_def
  proof (elim disjE conjE exE)
    assume "find_first_free_blocks sz s = - 1" "\<forall>b. \<not> free_run s b (unat sz)"
    then show thesis by (intro none) (auto simp: alloc_blocks_eq)
  next
    fix b assume b: "find_first_free_blocks sz s = int b" "free_run s b (unat sz)"
      "\<forall>c < b. \<not> free_run s c (unat sz)"
    note bd = free_run_bound [OF assms(1) b(2) n]
    have "frame_of (of_nat b * BLOCK_SIZE) = b"
      using bd n by (intro frame_of_block_addr) (simp add: phys_consts)
    then have "of_nat b * BLOCK_SIZE \<noteq> 0"
      using bd(1) by (auto simp: frame_of_def simp del: mult_eq_0_iff)
    with b bd show thesis by (intro some) (auto simp: alloc_blocks_eq)
  qed
qed

lemma phys_ok_alloc [kinv]: "phys_ok s \<Longrightarrow> 0 < sz \<Longrightarrow> phys_ok (snd (alloc_blocks sz s))"
  by (rule alloc_blocks_cases [of s sz]) (auto simp: phys_ok_def take_frames_effect)

lemma free_blocks_1:
  "free_blocks a 1 s =
     (if MAX_BLOCK_ENTRIES \<le> frame_of a then s
      else if 1 < ref_counts s (frame_of a)
        then store_ref (frame_of a) (ref_counts s (frame_of a) - 1) s
      else set_block (frame_of a) 1 (store_ref (frame_of a) 0 s))"
  by (simp add: free_blocks_def frame_of_def)

lemma alloc_one_cases:
  assumes "phys_ok s"
  obtains (none) "alloc_blocks 1 s = (0, s)" "\<forall>b. \<not> test_block s b"
  | (some) b where "alloc_blocks 1 s = (of_nat b * BLOCK_SIZE, take_frames b 1 s)"
      "test_block s b" "frame_of (of_nat b * BLOCK_SIZE) = b" "of_nat b * BLOCK_SIZE \<noteq> 0"
      "0 < b" "b < MAX_BLOCK_ENTRIES"
proof -
  have run: "free_run s b (unat (1::u32)) \<longleftrightarrow> test_block s b" for b
    using assms by (auto simp: free_run_def phys_ok_def phys_consts dest!: spec [of _ b])
  show thesis
  proof (rule alloc_blocks_cases [OF assms, of 1])
    fix b assume b: "alloc_blocks 1 s = (of_nat b * BLOCK_SIZE, take_frames b (unat (1::u32)) s)"
      "free_run s b (unat (1::u32))" "0 < b" "b + unat (1::u32) \<le> MAX_BLOCK_ENTRIES"
      "of_nat b * BLOCK_SIZE \<noteq> 0"
    have "frame_of (of_nat b * BLOCK_SIZE) = b"
      using b(4) by (intro frame_of_block_addr) (simp add: phys_consts)
    moreover have "test_block s b" using b(2) run by blast
    ultimately show thesis using b by (intro some [of b]) simp_all
  next
    assume "alloc_blocks 1 s = (0, s)" "\<forall>b. \<not> free_run s b (unat (1::u32))"
    then show thesis using run none by blast
  qed simp
qed

lemma word_pred_unat: "0 < w \<Longrightarrow> unat (w - 1) = unat (w :: u16) - 1"
  by (metis unat_minus_one word_gt_0)

interpretation fa: frame_allocator
  phys_ok "alloc_blocks 1" "\<lambda>a. free_blocks a 1" phys_ref_block test_block
  "\<lambda>s b. unat (ref_counts s b)" frame_of "\<lambda>b. 0 < b \<and> b < MAX_BLOCK_ENTRIES" 0 65535
proof (unfold_locales, goal_cases)
  case (3 s) then show ?case by (rule alloc_one_cases) auto
next
  case (4 s) then show ?case by (elim alloc_one_cases) auto
next
  case (5 s) then show ?case by (elim alloc_one_cases) auto
next
  case (6 s)
  then show ?case by (elim alloc_one_cases) (auto simp: test_set_block_0 phys_consts)
next
  case (7 s)
  then show ?case by (elim alloc_one_cases) (auto simp: fun_eq_iff)
next
  case (8 s) then show ?case by (simp add: phys_ok_alloc)
next
  case (9 s a)
  then have "unat (ref_counts s (frame_of a) + 1) = Suc (unat (ref_counts s (frame_of a)))"
    by (simp add: unat_word_ariths)
  with 9 show ?case
    by (auto simp: phys_ref_block_def frame_of_def [symmetric] fun_eq_iff Let_def)
next
  case (10 s a) then show ?case by (simp add: phys_ref_block_def Let_def)
next
  case (11 s a)
  then show ?case by (auto simp: phys_ref_block_def phys_ok_def frame_of_def [symmetric] Let_def)
next
  case (12 s a)
  then show ?case
    by (auto simp: free_blocks_1 fun_eq_iff word_pred_unat word_gt_0 not_less le_Suc_eq
        word_le_nat_alt word_less_nat_alt)
next
  case (13 s a)
  then show ?case
    by (auto simp: free_blocks_1 fun_eq_iff test_set_block_1 phys_consts
        word_le_nat_alt word_less_nat_alt)
next
  case (14 s a)
  then show ?case
    by (auto simp: free_blocks_1 phys_ok_def test_set_block_1 phys_consts word_less_nat_alt
        split: if_splits)
qed (auto simp: phys_ok_def)

lemma find_first_iff:
  assumes "0 < sz"
  shows "find_first_free_blocks sz s = int b \<longleftrightarrow>
    free_run s b (unat sz) \<and> (\<forall>c < b. \<not> free_run s c (unat sz))"
  using find_first_cases [OF assms, of s]
  unfolding is_first_run_def by (auto intro: linorder_cases [of _ b])

section \<open>A small machine for the witnesses\<close>

text \<open>Two free frames, 33 and 34; and a machine whose only free frame is number 4096.\<close>

definition demo_phys :: phys where
  "demo_phys = \<lparr>bitmap_ptr = 0, mem_bitmap = (\<lambda>i. if i = 1 then 6 else 0),
     ref_counts = (\<lambda>_. 0), oob = False\<rparr>"

definition high_phys :: phys where
  "high_phys = \<lparr>bitmap_ptr = 0, mem_bitmap = (\<lambda>i. if i = 128 then 1 else 0),
     ref_counts = (\<lambda>_. 0), oob = False\<rparr>"

lemma bit_6: "bit (6::u32) n \<longleftrightarrow> n = 1 \<or> n = 2"
proof -
  have "(6::u32) = 2 ^ 1 OR 2 ^ 2" by simp
  then show ?thesis by (simp only: bit_or_exp) (auto simp: bit_simps)
qed

lemma demo_test: "test_block demo_phys b \<longleftrightarrow> b = 33 \<or> b = 34"
proof -
  have "b div 32 = 1 \<and> (b mod 32 = 1 \<or> b mod 32 = 2) \<longleftrightarrow> b = 33 \<or> b = 34"
  proof
    assume "b div 32 = 1 \<and> (b mod 32 = 1 \<or> b mod 32 = 2)"
    then show "b = 33 \<or> b = 34" using mult_div_mod_eq [of 32 b] by linarith
  qed auto
  then show ?thesis unfolding test_block_bit demo_phys_def
    using bit_6 [of "b mod 32"] by (cases "b div 32 = 1") simp_all
qed

lemma demo_ok: "phys_ok demo_phys"
  by (auto simp: phys_ok_def demo_test phys_consts) (auto simp: demo_phys_def)

lemma demo_run: "free_run demo_phys b 2 \<longleftrightarrow> b = 33"
proof -
  have *: "(\<forall>j<2. b + j = 33 \<or> b + j = 34) \<longleftrightarrow> b = 33"
  proof
    assume h: "\<forall>j<2. b + j = 33 \<or> b + j = 34"
    show "b = 33" using h [rule_format, of 0] h [rule_format, of 1] by linarith
  qed auto
  show ?thesis unfolding free_run_def demo_test * by (auto simp: phys_consts)
qed

lemma demo_find: "find_first_free_blocks 2 demo_phys = 33"
  using find_first_iff [of 2 demo_phys 33] by (simp add: demo_run)

lemma demo_alloc: "alloc_blocks 2 demo_phys = (0x21000, take_frames 33 2 demo_phys)"
  by (simp add: alloc_blocks_eq demo_find BLOCK_SIZE_def)

lemma high_find: "find_first_free_blocks 1 high_phys = 4096"
proof -
  have "test_block high_phys b \<longleftrightarrow> b = 4096" for b
    using block_eq_iff [of b 4096] by (auto simp: test_block_bit high_phys_def bit_1_iff)
  then have "free_run high_phys b (Suc 0) \<longleftrightarrow> b = 4096" for b
    by (auto simp: free_run_def phys_consts)
  then show ?thesis using find_first_iff [of 1 high_phys 4096] by simp
qed

section \<open>Properties\<close>

text \<open>
  \<^verbatim>\<open>find_first_free_blocks\<close> is exact first fit: for a non-zero size it
  returns -1 precisely when no run of that many free frames exists, and otherwise the start of
  the first such run. The word-skipping and the jumps of the loop variable lose no candidate.
\<close>

theorem find_first_free_blocks_first_fit:
  assumes "0 < sz"
  shows "(find_first_free_blocks sz s = - 1 \<longleftrightarrow> (\<forall>b. \<not> free_run s b (unat sz)))
    \<and> (find_first_free_blocks sz s = int b \<longleftrightarrow>
        free_run s b (unat sz) \<and> (\<forall>c < b. \<not> free_run s c (unat sz)))"
  using find_first_cases [OF assms, of s] find_first_iff [OF assms, of s b]
  unfolding is_first_run_def by auto

theorem find_first_free_blocks_first_fit_witness:
  "(0::u32) < 2 \<and> find_first_free_blocks 2 demo_phys = int 33"
  using find_first_free_blocks_first_fit [of 2 demo_phys 33] by (simp add: demo_run)

text \<open>
  C1. \<^verbatim>\<open>alloc_blocks\<close> returns \<^verbatim>\<open>NULL\<close> and changes nothing when there is no
  run, and otherwise the byte address of a free run: exactly those frames become used with
  reference count 1, every other frame keeps its bit and its count, and the bookkeeping stays
  consistent.
\<close>

theorem alloc_blocks_correct:
  assumes "phys_ok s" and "0 < sz" and "alloc_blocks sz s = (a, s')"
  shows "phys_ok s' \<and>
    (if \<forall>b. \<not> free_run s b (unat sz) then a = 0 \<and> s' = s
     else \<exists>b. a = of_nat b * BLOCK_SIZE \<and> a \<noteq> 0 \<and> free_run s b (unat sz) \<and>
       (\<forall>c. test_block s' c = (test_block s c \<and> \<not> (b \<le> c \<and> c < b + unat sz))) \<and>
       (\<forall>c. ref_counts s' c = (if b \<le> c \<and> c < b + unat sz then 1 else ref_counts s c)))"
proof -
  have "phys_ok s'" using phys_ok_alloc [OF assms(1,2)] assms(3) by simp
  with assms show ?thesis
    by (rule_tac alloc_blocks_cases [OF assms(1,2)]) (auto simp: take_frames_effect intro!: exI)
qed

theorem alloc_blocks_correct_witness:
  "phys_ok demo_phys \<and> alloc_blocks 2 demo_phys = (0x21000, take_frames 33 2 demo_phys) \<and>
   phys_ok (take_frames 33 2 demo_phys)"
  using alloc_blocks_correct [OF demo_ok _ demo_alloc] demo_ok demo_alloc by simp

text \<open>
  C2. Freeing what was just allocated restores the manager's state exactly: bitmap words,
  reference counters and all.
\<close>

theorem alloc_free_restores:
  assumes "phys_ok s" and "0 < sz" and "alloc_blocks sz s = (a, s')" and "a \<noteq> 0"
  shows "free_blocks a sz s' = s"
proof (rule alloc_blocks_cases [OF assms(1,2)])
  fix b assume b: "alloc_blocks sz s = (of_nat b * BLOCK_SIZE, take_frames b (unat sz) s)"
    "free_run s b (unat sz)" "b + unat sz \<le> MAX_BLOCK_ENTRIES"
  have n: "0 < unat sz" using assms(2) by (simp add: unat_gt_0 word_gt_0)
  have fr: "unat (a div BLOCK_SIZE) = b"
    using b(1,3) assms(3) unat_block_addr [of b] n by (simp add: MAX_BLOCK_ENTRIES_def)
  then have fb: "free_blocks a sz s' = free_loop b (unat sz) s'" by (simp add: free_blocks_def)
  have s': "s' = take_frames b (unat sz) s" using b(1) assms(3) by simp
  have one: "\<forall>c. b \<le> c \<and> c < b + unat sz \<longrightarrow> ref_counts s' c \<le> 1"
    using b(3) by (auto simp: s' take_frames_effect)
  have in_run: "test_block s c \<and> ref_counts s c = 0" if "b \<le> c" "c < b + unat sz" for c
    using free_run_gap [OF b(2) that] assms(1) by (auto simp: phys_ok_def)
  note eff = free_loop_effect [OF b(3) one]
  have "test_block (free_blocks a sz s') c = test_block s c" for c
    using eff [of c] in_run [of c] b(3) unfolding fb by (auto simp: s' take_frames_effect)
  then have "mem_bitmap (free_blocks a sz s') = mem_bitmap s" by (rule bitmap_ext)
  moreover have "ref_counts (free_blocks a sz s') c = ref_counts s c" for c
    using eff [of c] in_run [of c] b(3) unfolding fb by (auto simp: s' take_frames_effect)
  then have "ref_counts (free_blocks a sz s') = ref_counts s" by (rule ext)
  moreover have "oob (free_blocks a sz s') = oob s" "bitmap_ptr (free_blocks a sz s') = bitmap_ptr s"
    using eff [of 0] b(3) unfolding fb by (auto simp: s' take_frames_effect)
  ultimately show ?thesis by simp
qed (use assms in simp)

theorem alloc_free_restores_witness:
  "alloc_blocks 2 demo_phys = (0x21000, take_frames 33 2 demo_phys) \<and>
   free_blocks 0x21000 2 (take_frames 33 2 demo_phys) = demo_phys"
  using alloc_free_restores [OF demo_ok _ demo_alloc] demo_alloc by simp

text \<open>
  C3. Shared frames: after \<open>n\<close> calls of \<^verbatim>\<open>phys_ref_block\<close> on a freshly
  allocated frame, \<open>k\<close> calls of \<^verbatim>\<open>free_blocks\<close> leave it in use as long as
  \<open>k\<close> is at most \<open>n\<close>, and the call number \<open>n + 1\<close> gives it back.
\<close>

theorem shared_frame_lifetime:
  assumes "phys_ok s" and "alloc_blocks 1 s = (a, s')" and "a \<noteq> 0" and "n < 65535" and "k \<le> n"
  defines "sh \<equiv> (phys_ref_block a ^^ n) s'"
  shows "\<not> test_block (((\<lambda>t. free_blocks a 1 t) ^^ k) sh) (frame_of a)
    \<and> test_block (((\<lambda>t. free_blocks a 1 t) ^^ Suc n) sh) (frame_of a)"
proof
  have a: "test_block s (frame_of a)" "\<not> test_block s' (frame_of a)"
    "unat (ref_counts s' (frame_of a)) = 1" "phys_ok s'"
    using fa.alloc_avail [of s] fa.alloc_takes [of s] fun_cong [OF fa.alloc_refs [of s], of "frame_of a"]
      fa.alloc_inv [of s] assms(1-3) by auto
  have m: "0 < frame_of a \<and> frame_of a < MAX_BLOCK_ENTRIES"
    using a(1) assms(1) by (auto simp: phys_ok_def)
  note sm = fa.share_many [OF a(4) m a(3) assms(4) a(2), folded sh_def]
  have nt: "\<not> test_block sh (frame_of a)" using sm a(2) by simp
  show "\<not> test_block (((\<lambda>t. free_blocks a 1 t) ^^ k) sh) (frame_of a)"
    using fa.release_many [of sh a "Suc n" k] sm m nt assms(5) by simp
  show "test_block (((\<lambda>t. free_blocks a 1 t) ^^ Suc n) sh) (frame_of a)"
    using fa.last_release_frees [of sh a n] sm m nt by blast
qed

theorem shared_frame_lifetime_witness:
  "fst (alloc_blocks 1 demo_phys) \<noteq> 0 \<and>
   \<not> test_block (((\<lambda>t. free_blocks (fst (alloc_blocks 1 demo_phys)) 1 t) ^^ 2)
       ((phys_ref_block (fst (alloc_blocks 1 demo_phys)) ^^ 3) (snd (alloc_blocks 1 demo_phys))))
     (frame_of (fst (alloc_blocks 1 demo_phys)))"
proof -
  have nz: "fst (alloc_blocks 1 demo_phys) \<noteq> 0"
    using fa.alloc_nul [OF demo_ok] by (auto simp: demo_test)
  show ?thesis
    using nz shared_frame_lifetime [OF demo_ok prod.collapse [symmetric] nz, of 3 2] by simp
qed

text \<open>
  The bitmap describes 131072 frames, \<^verbatim>\<open>ref_counts\<close> only 4096. As soon as first
  fit picks a frame at or above 16 MiB the reference count is stored outside the array, and
  \<^verbatim>\<open>free_blocks\<close> on such a frame does nothing, so the frame is never returned.
\<close>

theorem high_frames_out_of_bounds_and_leaked:
  assumes "find_first_free_blocks sz s = int b" and "0 < sz"
    and "MAX_BLOCK_ENTRIES < b + unat sz" and "MAX_BLOCK_ENTRIES \<le> frame_of a"
  shows "oob (snd (alloc_blocks sz s)) \<and> free_blocks a n t = t"
proof
  show "oob (snd (alloc_blocks sz s))"
    using assms take_frames_oob [of b "unat sz" s]
    by (simp add: alloc_blocks_eq unat_gt_0 word_gt_0)
  show "free_blocks a n t = t"
    using assms(4) by (cases "unat n") (simp_all add: free_blocks_def frame_of_def)
qed

theorem high_frames_out_of_bounds_and_leaked_witness:
  "oob (snd (alloc_blocks 1 high_phys)) \<and> free_blocks 0x1000000 1 high_phys = high_phys"
  using high_frames_out_of_bounds_and_leaked [of 1 high_phys 4096 "0x1000000" 1 high_phys]
  by (simp add: high_find phys_consts frame_of_def)

end
