(* ===== verification/Boot.thy ===== *)
theory Boot
  imports PhysMem Console
begin

text \<open>
  Taking over memory at boot, \<^verbatim>\<open>init_memory_regions\<close> and \<^verbatim>\<open>print_hex\<close> of
  \<^verbatim>\<open>kernel/src/kmain.c\<close>: the boot loader's memory map fills the frame bitmap of
  \<^verbatim>\<open>PhysMem\<close>, then the frames of the kernel and of text memory are taken out again, with
  messages on the console. The memory map is the list of the entries the loop reads; a halted
  machine is an \<^const>\<open>Inl\<close>.
\<close>

section \<open>Messages\<close>

definition put_text :: "u8 list \<Rightarrow> console \<Rightarrow> console" where
  "put_text cs con = fold putch cs con"

definition print_hex :: "u32 \<Rightarrow> console \<Rightarrow> console" where
  "print_hex x con =
     putch 10
       (fold (\<lambda>i con.
          let msk = push_bit (4 * i) 0xF; dig = drop_bit (4 * i) (x AND msk)
          in if dig \<le> 9 then putch (ucast (dig + 48)) con else putch (ucast (dig - 10 + 65)) con)
        (rev [0..<8]) (put_text [48, 120] con))"

section \<open>Memory regions\<close>

record mmap_entry =
  addr_low :: u32
  len_low :: u32
  mm_type :: u32

definition MULTIBOOT_BOOTLOADER_MAGIC :: u32 where
  "MULTIBOOT_BOOTLOADER_MAGIC = 0x2BADB002"

definition MULTIBOOT_MEMORY_AVAILABLE :: u32 where
  "MULTIBOOT_MEMORY_AVAILABLE = 1"

definition max_u :: "u32 \<Rightarrow> u32 \<Rightarrow> u32" where
  "max_u a b = (if a > b then a else b)"

definition add_region :: "mmap_entry \<Rightarrow> phys \<Rightarrow> phys" where
  "add_region e p =
     (if mm_type e = MULTIBOOT_MEMORY_AVAILABLE then initialize_memory_region (addr_low e) (len_low e) p else p)"

definition init_memory_regions ::
    "u32 \<Rightarrow> u32 \<Rightarrow> mmap_entry list \<Rightarrow> u32 \<Rightarrow> u32 \<Rightarrow> u32 \<Rightarrow> phys \<Rightarrow> console \<Rightarrow> console + (phys \<times> console)" where
  "init_memory_regions magic mb_flags mmap kstart kend initrd_end p con =
     (let con = print_hex kstart (put_text [75, 83, 84, 65, 82, 84, 58, 32] con);
          con = print_hex kend (put_text [75, 69, 78, 68, 58, 32] con);
          con = print_hex initrd_end (put_text [105, 110, 105, 116, 114, 100, 95, 101, 110, 100, 58, 32] con);
          p = init_phys_mem (max_u kend initrd_end) p;
          con = put_text [105, 110, 105, 116, 32, 100, 111, 110, 101, 32, 58, 68, 10] con;
          p = fold add_region mmap p
      in if magic \<noteq> MULTIBOOT_BOOTLOADER_MAGIC then
           Inl (put_text [73, 110, 118, 97, 108, 105, 100, 32, 109, 97, 103, 105, 99, 32, 110, 117, 109, 98, 101, 114, 33, 33]
             (put_text [0x1b, 0x40] con))
         else if drop_bit 6 mb_flags AND 1 = 0 then
           Inl (put_text [105, 110, 118, 97, 108, 105, 100, 32, 109, 101, 109, 111, 114, 121, 32, 109, 97, 112, 32, 103,
               105, 118, 101, 110, 32, 98, 121, 32, 71, 82, 85, 66, 32, 98, 111, 111, 116, 108, 111, 97, 100, 101, 114]
             (put_text [0x1b, 0x40] con))
         else Inr (deinitialize_memory_region 0xB8000 0x1000
                (deinitialize_memory_region 0 (kend + of_nat MAX_BLOCK_ENTRIES * 4) p), con))"

section \<open>Regions as sets of frames\<close>

text \<open>A region inside the frames that the bitmap describes, and a frame wholly inside it.\<close>

definition region_ok :: "u32 \<Rightarrow> u32 \<Rightarrow> bool" where
  "region_ok a n \<longleftrightarrow> unat a + unat n \<le> block_limit * 4096"

definition frame_in :: "nat \<Rightarrow> u32 \<Rightarrow> u32 \<Rightarrow> bool" where
  "frame_in b a n \<longleftrightarrow> unat a \<le> b * 4096 \<and> (b + 1) * 4096 \<le> unat a + unat n"

lemma block_limit_bytes: "block_limit * 4096 = 536870912"
  by (simp add: block_limit_def MAX_BLOCK_ENTRIES_def)

lemma region_unat:
  assumes "region_ok a n"
  shows "unat (a + n) = unat a + unat n" "unat (a + BLOCK_SIZE - 1) = unat a + 4095"
    "unat (a + n + BLOCK_SIZE - 1) = unat a + unat n + 4095"
proof -
  have l: "unat a + unat n \<le> 536870912" using assms by (simp add: region_ok_def block_limit_bytes)
  have add: "unat (x + y) = unat x + unat y" if "unat x + unat y < 4294967296" for x y :: u32
    using that by (simp add: unat_word_ariths)
  show an: "unat (a + n) = unat a + unat n" using add l by simp
  have bs: "x + BLOCK_SIZE - 1 = x + 4095" for x :: u32 unfolding BLOCK_SIZE_def by (simp add: algebra_simps)
  have "unat (a + 4095) = unat a + 4095" "unat (a + n + 4095) = unat a + unat n + 4095"
    using add [of a 4095] add [of "a + n" 4095] an l by simp_all
  then show "unat (a + BLOCK_SIZE - 1) = unat a + 4095" "unat (a + n + BLOCK_SIZE - 1) = unat a + unat n + 4095"
    by (simp_all only: bs)
qed

lemma div_le_frame: "(x + 4095) div 4096 \<le> b \<longleftrightarrow> x \<le> b * (4096 :: nat)"
  using div_less_iff_less_mult [of 4096 "x + 4095" "Suc b"] by (simp add: less_Suc_eq_le)

lemma frame_lt_div: "b < x div 4096 \<longleftrightarrow> (b + 1) * 4096 \<le> (x :: nat)"
  using less_eq_div_iff_mult_less_eq [of 4096 "b + 1" x] by (simp add: Suc_le_eq)

lemma set_range_oob: "e \<le> block_limit \<Longrightarrow> oob (fold (\<lambda>i. set_block i v) [a..<e] p) = oob p"
proof (induction e)
  case (Suc e)
  then show ?case by (cases "a \<le> e") simp_all
qed simp

lemma initialize_region_frames:
  assumes "region_ok a n"
  shows "test_block (initialize_memory_region a n p) b \<longleftrightarrow> frame_in b a n \<or> test_block p b"
    "oob (initialize_memory_region a n p) = oob p"
proof -
  let ?s = "(unat a + 4095) div 4096" and ?e = "(unat a + unat n) div 4096"
  have eq: "initialize_memory_region a n p = fold (\<lambda>i. set_block i (of_bool True)) [?s..<?e] p"
    using region_unat [OF assms] by (simp add: initialize_memory_region_def Let_def unat_div BLOCK_SIZE_def)
  have e: "?e \<le> block_limit" using assms by (simp add: region_ok_def div_le_mono [THEN order_trans] block_limit_bytes
      block_limit_def MAX_BLOCK_ENTRIES_def)
  have fi: "frame_in b a n \<longleftrightarrow> ?s \<le> b \<and> b < ?e" by (simp add: frame_in_def div_le_frame frame_lt_div)
  show "test_block (initialize_memory_region a n p) b \<longleftrightarrow> frame_in b a n \<or> test_block p b"
  proof (cases "?s \<le> ?e")
    case True
    then show ?thesis unfolding eq using set_range_test [OF e True, where v = True] fi by auto
  qed (use fi in \<open>auto simp: eq\<close>)
  show "oob (initialize_memory_region a n p) = oob p" unfolding eq by (rule set_range_oob [OF e])
qed

text \<open>A frame that a region touches.\<close>

definition frame_touches :: "nat \<Rightarrow> u32 \<Rightarrow> u32 \<Rightarrow> bool" where
  "frame_touches b a n \<longleftrightarrow> unat a < (b + 1) * 4096 \<and> b * 4096 < unat a + unat n"

lemma deinitialize_region_frames:
  assumes "region_ok a n"
  shows "test_block (deinitialize_memory_region a n p) b \<longleftrightarrow> test_block p b \<and> \<not> frame_touches b a n"
    "oob (deinitialize_memory_region a n p) = oob p"
proof -
  let ?s = "unat a div 4096" and ?e = "(unat a + unat n + 4095) div 4096"
  have eq: "deinitialize_memory_region a n p = fold (\<lambda>i. set_block i (of_bool False)) [?s..<?e] p"
    using region_unat [OF assms] by (simp add: deinitialize_memory_region_def Let_def unat_div BLOCK_SIZE_def)
  have e: "?e \<le> block_limit" using assms by (simp add: div_le_frame region_ok_def)
  have fi: "frame_touches b a n \<longleftrightarrow> ?s \<le> b \<and> b < ?e"
    using div_less_iff_less_mult [of 4096 "unat a" "Suc b"] div_le_frame [of "unat a + unat n" b]
    by (auto simp: frame_touches_def less_Suc_eq_le not_le)
  have se: "?s \<le> ?e" by (intro div_le_mono) simp
  show "test_block (deinitialize_memory_region a n p) b \<longleftrightarrow> test_block p b \<and> \<not> frame_touches b a n"
    unfolding eq using set_range_test [OF e se, where v = False] fi by auto
  show "oob (deinitialize_memory_region a n p) = oob p" unfolding eq by (rule set_range_oob [OF e])
qed

lemma add_regions_frames:
  assumes "\<forall>e\<in>set mmap. mm_type e = MULTIBOOT_MEMORY_AVAILABLE \<longrightarrow> region_ok (addr_low e) (len_low e)"
  shows "(test_block (fold add_region mmap p) b \<longleftrightarrow> test_block p b \<or>
      (\<exists>e\<in>set mmap. mm_type e = MULTIBOOT_MEMORY_AVAILABLE \<and> frame_in b (addr_low e) (len_low e))) \<and>
    oob (fold add_region mmap p) = oob p \<and> bitmap_ptr (fold add_region mmap p) = bitmap_ptr p"
  using assms
proof (induction mmap arbitrary: p)
  case (Cons e mmap)
  have "bitmap_ptr (add_region e p) = bitmap_ptr p"
  proof -
    have "bitmap_ptr (fold (\<lambda>i. set_block i v) is p) = bitmap_ptr p" for v "is" and p :: phys
      by (induction "is" arbitrary: p) simp_all
    then show ?thesis by (simp add: add_region_def initialize_memory_region_def Let_def)
  qed
  then show ?case
    using Cons.IH [of "add_region e p"] Cons.prems
      initialize_region_frames(1) [of "addr_low e" "len_low e" p b] initialize_region_frames(2) [of "addr_low e" "len_low e" p]
    by (auto simp: add_region_def split: if_splits)
qed simp

lemma init_phys_empty: "b < block_limit \<Longrightarrow> \<not> test_block (init_phys_mem a p) b"
  by (simp add: test_block_bit init_phys_mem_def in_bitmap)

section \<open>What the kernel owns after boot\<close>

text \<open>
  C9021. Memory at boot. With the right magic number and a memory map, booting does not halt, and
  when the available regions, the kernel and its tables end below the 512 MB that the bitmap
  describes, then afterwards exactly those frames are free that lie wholly inside an available
  region and touch neither the bytes from 0 to 16 KB past the kernel's end nor the page of text
  memory: the allocator never hands out the kernel or the screen. No store misses the bitmap. With
  another magic number or no memory map the machine halts.
\<close>

theorem boot_memory_correct:
  assumes "\<forall>e\<in>set mmap. mm_type e = MULTIBOOT_MEMORY_AVAILABLE \<longrightarrow> region_ok (addr_low e) (len_low e)"
    and "unat kend + 16384 \<le> block_limit * 4096" "b < block_limit"
  shows "(\<exists>p' con'. init_memory_regions MULTIBOOT_BOOTLOADER_MAGIC 0x40 mmap kstart kend initrd_end p con = Inr (p', con') \<and>
      oob p' = oob p \<and>
      (test_block p' b \<longleftrightarrow>
        (\<exists>e\<in>set mmap. mm_type e = MULTIBOOT_MEMORY_AVAILABLE \<and> frame_in b (addr_low e) (len_low e)) \<and>
        unat kend + 16384 \<le> b * 4096 \<and> b \<noteq> 0xB8)) \<and>
    (magic \<noteq> MULTIBOOT_BOOTLOADER_MAGIC \<or> drop_bit 6 mb_flags AND 1 = 0 \<longrightarrow>
      isl (init_memory_regions magic mb_flags mmap kstart kend initrd_end p con))"
proof
  let ?a = "max_u kend initrd_end"
  define p1 where "p1 = fold add_region mmap (init_phys_mem ?a p)"
  define p2 where "p2 = deinitialize_memory_region 0 (kend + of_nat MAX_BLOCK_ENTRIES * 4) p1"
  define p3 where "p3 = deinitialize_memory_region 0xB8000 0x1000 p2"
  have k: "unat (kend + of_nat MAX_BLOCK_ENTRIES * 4) = unat kend + 16384"
    using assms(2) unat_add_small [of kend 16384] by (simp add: MAX_BLOCK_ENTRIES_def block_limit_bytes)
  have r2: "region_ok 0 (kend + of_nat MAX_BLOCK_ENTRIES * 4)" "region_ok 0xB8000 0x1000"
    using assms(2) k by (simp_all add: region_ok_def block_limit_bytes)
  have "test_block p1 b \<longleftrightarrow>
      (\<exists>e\<in>set mmap. mm_type e = MULTIBOOT_MEMORY_AVAILABLE \<and> frame_in b (addr_low e) (len_low e))"
    "oob p1 = oob p"
    using add_regions_frames [OF assms(1), of "init_phys_mem ?a p" b] init_phys_empty [OF assms(3)]
    by (simp_all add: p1_def init_phys_mem_def)
  moreover have "test_block p2 b \<longleftrightarrow> test_block p1 b \<and> unat kend + 16384 \<le> b * 4096" "oob p2 = oob p1"
    using deinitialize_region_frames(1) [OF r2(1), of p1 b] deinitialize_region_frames(2) [OF r2(1), of p1] k by (auto simp: p2_def frame_touches_def)
  moreover have "test_block p3 b \<longleftrightarrow> test_block p2 b \<and> b \<noteq> 0xB8" "oob p3 = oob p2"
    using deinitialize_region_frames(1) [OF r2(2), of p2 b] deinitialize_region_frames(2) [OF r2(2), of p2] by (auto simp: p3_def frame_touches_def)
  moreover have "\<exists>con'. init_memory_regions MULTIBOOT_BOOTLOADER_MAGIC 0x40 mmap kstart kend initrd_end p con = Inr (p3, con')"
    by (simp add: init_memory_regions_def Let_def p1_def p2_def p3_def drop_bit_eq_div)
  ultimately show "\<exists>p' con'. init_memory_regions MULTIBOOT_BOOTLOADER_MAGIC 0x40 mmap kstart kend initrd_end p con = Inr (p', con') \<and>
      oob p' = oob p \<and>
      (test_block p' b \<longleftrightarrow>
        (\<exists>e\<in>set mmap. mm_type e = MULTIBOOT_MEMORY_AVAILABLE \<and> frame_in b (addr_low e) (len_low e)) \<and>
        unat kend + 16384 \<le> b * 4096 \<and> b \<noteq> 0xB8)" by auto
qed (auto simp: init_memory_regions_def Let_def)

text \<open>A machine with 126 MB from 1 MB on, the kernel ending at 2 MB and the ram disk at 4 MB.\<close>

definition demo_map :: "mmap_entry list" where
  "demo_map = [\<lparr>addr_low = 0x100000, len_low = 0x7E00000, mm_type = 1\<rparr>]"

theorem boot_memory_correct_witness:
  "\<exists>p' con'. init_memory_regions MULTIBOOT_BOOTLOADER_MAGIC 0x40 demo_map 0x100000 0x200000 0x400000 demo_phys demo_console =
      Inr (p', con') \<and> test_block p' 0x1000"
proof -
  have r: "\<forall>e\<in>set demo_map. mm_type e = MULTIBOOT_MEMORY_AVAILABLE \<longrightarrow> region_ok (addr_low e) (len_low e)"
    by (simp add: demo_map_def region_ok_def block_limit_bytes)
  have f: "\<exists>e\<in>set demo_map. mm_type e = MULTIBOOT_MEMORY_AVAILABLE \<and> frame_in 0x1000 (addr_low e) (len_low e)"
    by (simp add: demo_map_def frame_in_def MULTIBOOT_MEMORY_AVAILABLE_def)
  have k: "unat (0x200000 :: u32) + 16384 \<le> block_limit * 4096" "0x1000 < block_limit"
    by (simp_all add: block_limit_def MAX_BLOCK_ENTRIES_def)
  show ?thesis
    using boot_memory_correct [OF r k, of "0x100000" "0x400000" demo_phys demo_console 0 0] f by auto
qed

text \<open>
  The frames of the ram disk and of the bitmap itself, which starts where the ram disk ends, are
  not taken out: in this machine the frame that holds the first byte of the bitmap is free after
  boot, so the allocator may hand it out.
\<close>

lemma boot_leaves_bitmap_free:
  "\<exists>p' con'. init_memory_regions MULTIBOOT_BOOTLOADER_MAGIC 0x40 demo_map 0x100000 0x200000 0x400000 p con = Inr (p', con') \<and>
    bitmap_ptr p' - KERNEL_VIRTUAL_BASE = 0x400000 \<and> test_block p' 0x400"
proof -
  define p1 where "p1 = fold add_region demo_map (init_phys_mem 0x400000 p)"
  define p2 where "p2 = deinitialize_memory_region 0 (0x200000 + of_nat MAX_BLOCK_ENTRIES * 4) p1"
  have r: "\<forall>e\<in>set demo_map. mm_type e = MULTIBOOT_MEMORY_AVAILABLE \<longrightarrow> region_ok (addr_low e) (len_low e)"
    by (simp add: demo_map_def region_ok_def block_limit_bytes)
  have p1: "test_block p1 0x400" "bitmap_ptr p1 = 0x400000 + KERNEL_VIRTUAL_BASE"
    using add_regions_frames [OF r, of "init_phys_mem 0x400000 p" "0x400"]
    by (simp_all add: p1_def demo_map_def frame_in_def MULTIBOOT_MEMORY_AVAILABLE_def init_phys_mem_def)
  have k: "(0x200000 + of_nat MAX_BLOCK_ENTRIES * 4 :: u32) = 0x204000" by (simp add: MAX_BLOCK_ENTRIES_def)
  have ptr: "bitmap_ptr (deinitialize_memory_region a n p) = bitmap_ptr p" for a n p
  proof -
    have "bitmap_ptr (fold (\<lambda>i. set_block i v) is p) = bitmap_ptr p" for v "is" and p :: phys
      by (induction "is" arbitrary: p) simp_all
    then show ?thesis by (simp add: deinitialize_memory_region_def Let_def)
  qed
  have "test_block p2 0x400"
    using deinitialize_region_frames(1) [of 0 "0x204000" p1 "0x400"] p1(1)
    by (simp add: p2_def k region_ok_def block_limit_bytes frame_touches_def)
  then have "test_block (deinitialize_memory_region 0xB8000 0x1000 p2) 0x400"
    using deinitialize_region_frames(1) [of "0xB8000" "0x1000" p2 "0x400"]
    by (simp add: region_ok_def block_limit_bytes frame_touches_def)
  moreover have "bitmap_ptr (deinitialize_memory_region 0xB8000 0x1000 p2) - KERNEL_VIRTUAL_BASE = 0x400000"
    by (simp add: ptr p2_def p1(2))
  moreover have "\<exists>con'. init_memory_regions MULTIBOOT_BOOTLOADER_MAGIC 0x40 demo_map 0x100000 0x200000 0x400000 p con =
      Inr (deinitialize_memory_region 0xB8000 0x1000 p2, con')"
    by (simp add: init_memory_regions_def Let_def p1_def p2_def max_u_def drop_bit_eq_div)
  ultimately show ?thesis by blast
qed

end
