(* ===== verification/Fat12Table.thy ===== *)
theory Fat12Table
  imports Prelude
begin

text \<open>
  The file allocation table of \<^verbatim>\<open>kernel/src/fs/fat12.c\<close>: packed 12-bit entries in the
  byte cache, cluster allocation and chain release. Cluster numbers are 32-bit words as in the
  code; a table entry of 0xFF7 or more reads as the end mark 0xFFFF.
\<close>

section \<open>Entries\<close>

type_synonym fatbytes = "nat \<Rightarrow> u8"

definition fat_offset :: "u32 \<Rightarrow> nat" where
  "fat_offset cluster = unat (cluster + cluster div 2)"

definition raw_entry :: "fatbytes \<Rightarrow> u32 \<Rightarrow> u16" where
  "raw_entry fat cluster =
     (let offset = fat_offset cluster
      in if cluster AND 1 \<noteq> 0
         then ucast (drop_bit 4 (fat offset)) OR push_bit 4 (ucast (fat (offset + 1)))
         else ucast (fat offset) OR push_bit 8 (ucast (fat (offset + 1) AND 0x0F)))"

definition fat12_get_fat_entry :: "fatbytes \<Rightarrow> u32 \<Rightarrow> u16" where
  "fat12_get_fat_entry fat cluster =
     (let fat_entry = raw_entry fat cluster
      in if 0xFF8 \<le> fat_entry then 0xFFFF
         else if fat_entry = 0xFF7 then 0xFFFF
         else fat_entry)"

definition fat12_set_fat_entry :: "u32 \<Rightarrow> u16 \<Rightarrow> fatbytes \<Rightarrow> fatbytes" where
  "fat12_set_fat_entry cluster value fat =
     (let offset = fat_offset cluster
      in if cluster AND 1 \<noteq> 0
         then fat(offset := (fat offset AND 0x0F) OR ucast (push_bit 4 (value AND 0x0F)),
                  offset + 1 := ucast (drop_bit 4 value))
         else fat(offset := ucast (value AND 0xFF),
                  offset + 1 := (fat (offset + 1) AND 0xF0) OR ucast (drop_bit 8 value AND 0x0F)))"

section \<open>Allocation and release\<close>

text \<open>\<open>n\<close> is \<^verbatim>\<open>fat12.total_clusters\<close>.\<close>

function alloc_loop :: "u32 \<Rightarrow> u32 \<Rightarrow> fatbytes \<Rightarrow> u32 \<times> fatbytes" where
  "alloc_loop i limit fat =
     (if i < limit then
        (if fat12_get_fat_entry fat i = 0 then (i, fat12_set_fat_entry i 0xFFF fat)
         else alloc_loop (i + 1) limit fat)
      else (0, fat))"
  by pat_completeness auto
termination
proof (relation "measure (\<lambda>(i, limit, fat). unat limit - unat i)", goal_cases)
  case (2 i limit fat)
  then have "unat i < unat limit" by (simp add: word_less_nat_alt)
  moreover have "unat limit < 2 ^ 32" using unsigned_less [of limit] by simp
  ultimately have "unat (i + 1) = Suc (unat i)" using unat_add_small [of i 1] by simp
  with \<open>unat i < unat limit\<close> show ?case by simp
qed simp

declare alloc_loop.simps [simp del]

definition fat12_allocate_cluster :: "u32 \<Rightarrow> fatbytes \<Rightarrow> u32 \<times> fatbytes" where
  "fat12_allocate_cluster total_clusters fat = alloc_loop 2 (total_clusters + 2) fat"

partial_function (option) fat12_free_cluster_chain :: "u32 \<Rightarrow> fatbytes \<Rightarrow> fatbytes option" where
  "fat12_free_cluster_chain cluster fat =
     (if cluster \<noteq> 0xFFFF \<and> 2 \<le> cluster then
        fat12_free_cluster_chain (ucast (fat12_get_fat_entry fat cluster)) (fat12_set_fat_entry cluster 0 fat)
      else Some fat)"

section \<open>Bits of the packed table\<close>

text \<open>Entry \<open>n\<close> is the bits \<open>12 n\<close> to \<open>12 n + 11\<close> of the byte stream.\<close>

definition stream_bit :: "fatbytes \<Rightarrow> nat \<Rightarrow> bool" where
  "stream_bit fat p = bit (fat (p div 8)) (p mod 8)"

lemma fat_offset_eq:
  assumes "unat c < 0x10000"
  shows "fat_offset c = unat c + unat c div 2"
  using assms by (simp add: fat_offset_def unat_word_ariths unat_div_distrib)

lemma odd_cluster: "c AND 1 \<noteq> 0 \<longleftrightarrow> odd (unat (c :: u32))"
proof -
  have "c AND 1 = 0 \<longleftrightarrow> unat (c mod 2) = 0" by (simp only: and_one_eq unat_eq_zero)
  then show ?thesis by (simp only: unat_mod_distrib) (simp add: odd_iff_mod_2_eq_one)
qed

lemma low_nibble: "bit ((x :: 'a::len word) AND 0xF) n \<longleftrightarrow> n < 4 \<and> bit x n"
proof -
  have m: "(0xF :: 'a word) = mask 4" by (simp add: mask_eq_exp_minus_1)
  show ?thesis unfolding m bit_and_iff bit_mask_iff by (auto dest: bit_imp_possible_bit)
qed

lemma low_byte: "bit ((x :: u16) AND 0xFF) n \<longleftrightarrow> n < 8 \<and> bit x n"
proof -
  have m: "(0xFF :: u16) = mask 8" by (simp add: mask_eq_exp_minus_1)
  show ?thesis unfolding m bit_and_iff bit_mask_iff by (auto dest: bit_imp_possible_bit)
qed

lemma high_nibble: "bit ((x :: u8) AND 0xF0) n \<longleftrightarrow> 4 \<le> n \<and> bit x n"
proof -
  have m: "(0xF0 :: u8) = NOT (mask 4)" by (simp add: mask_eq_exp_minus_1)
  show ?thesis unfolding m bit_and_iff bit_not_iff bit_mask_iff by (auto dest: bit_imp_possible_bit)
qed

lemma mid_nibble: "bit (push_bit 4 (x :: u16) AND 240) n \<longleftrightarrow> 4 \<le> n \<and> n < 8 \<and> bit x (n - 4)"
proof -
  have m: "(240 :: u16) = mask 8 AND NOT (mask 4)" by (simp add: mask_eq_exp_minus_1)
  show ?thesis unfolding m bit_and_iff bit_not_iff bit_mask_iff bit_push_bit_iff
    by (auto dest: bit_imp_possible_bit)
qed

lemma byte_bit: "bit (x :: u8) n \<Longrightarrow> n < 8"
  using bit_imp_le_length by fastforce

lemmas fat_bits = mid_nibble bit_or_iff bit_push_bit_iff bit_unsigned_iff bit_drop_bit_eq low_nibble low_byte high_nibble

text \<open>Where an entry starts: on a byte boundary or in the middle of a byte.\<close>

lemma entry_start:
  assumes "unat c < 0x10000"
  shows "12 * unat c = 8 * fat_offset c + (if odd (unat c) then 4 else 0)"
proof (cases "odd (unat c)")
  case True
  then obtain m where m: "unat c = 2 * m + 1" by (elim oddE)
  then show ?thesis using True unfolding fat_offset_eq [OF assms] m by simp
next
  case False
  then have "2 * (unat c div 2) = unat c" by simp
  then show ?thesis using False unfolding fat_offset_eq [OF assms] by simp
qed

lemma stream_bit_at: "j < 8 \<Longrightarrow> stream_bit fat (8 * i + j) = bit (fat i) j"
  by (simp add: stream_bit_def)

lemma raw_bit:
  assumes "unat c < 0x10000"
  shows "bit (raw_entry fat c) k \<longleftrightarrow> k < 12 \<and> stream_bit fat (12 * unat c + k)"
proof -
  let ?o = "fat_offset c"
  have e: "stream_bit fat (8 * ?o + k) = (if k < 8 then bit (fat ?o) k else bit (fat (?o + 1)) (k - 8))"
    if "k < 16" for k
    using stream_bit_at [of k fat ?o] stream_bit_at [of "k - 8" fat "?o + 1"] that by (auto simp: not_less)
  show ?thesis
  proof (cases "odd (unat c)")
    case True
    have "stream_bit fat (12 * unat c + k) = (if k < 4 then bit (fat ?o) (k + 4) else bit (fat (?o + 1)) (k - 4))"
      if "k < 12"
      using e [of "k + 4"] entry_start [OF assms] True that by (simp add: ac_simps)
    then show ?thesis
      using True byte_bit [of "fat ?o" "k + 4"] byte_bit [of "fat (?o + 1)" "k - 4"]
      unfolding raw_entry_def Let_def odd_cluster
      by (cases "k < 4"; cases "k < 12") (auto simp: fat_bits add.commute [of 4])
  next
    case False
    have "12 * unat c = 8 * ?o" using entry_start [OF assms] False by simp
    then have "stream_bit fat (12 * unat c + k) = stream_bit fat (8 * ?o + k)" by metis
    then show ?thesis
      using False e [of k] byte_bit [of "fat ?o" k] byte_bit [of "fat (?o + 1)" "k - 8"]
      unfolding raw_entry_def Let_def odd_cluster
      by (cases "k < 8"; cases "k < 12") (auto simp: fat_bits)
  qed
qed

lemma set_stream:
  assumes "unat c < 0x10000"
  shows "stream_bit (fat12_set_fat_entry c v fat) p \<longleftrightarrow>
    (if 12 * unat c \<le> p \<and> p < 12 * unat c + 12 then bit v (p - 12 * unat c) else stream_bit fat p)"
proof -
  let ?o = "fat_offset c"
  define i j where "i = p div 8" and "j = p mod 8"
  have p: "p = 8 * i + j" and j: "j < 8" by (simp_all add: i_def j_def)
  have sb: "stream_bit f p = bit (f i) j" for f using j unfolding p by (rule stream_bit_at)
  consider "i = ?o" | "i = ?o + 1" | "i \<noteq> ?o" "i \<noteq> ?o + 1" by blast
  then show ?thesis
  proof cases
    case 1
    then show ?thesis
      using j entry_start [OF assms] unfolding sb
      by (auto simp: fat12_set_fat_entry_def Let_def odd_cluster fat_bits p)
  next
    case 2
    then show ?thesis
      using j entry_start [OF assms] unfolding sb
      by (auto simp: fat12_set_fat_entry_def Let_def odd_cluster fat_bits p)
  next
    case 3
    then have "\<not> (12 * unat c \<le> p \<and> p < 12 * unat c + 12)"
      using j entry_start [OF assms] unfolding p by (auto split: if_splits)
    with 3 show ?thesis unfolding sb by (auto simp: fat12_set_fat_entry_def Let_def)
  qed
qed

lemma raw_set:
  assumes "unat c < 0x10000" "unat d < 0x10000"
  shows "raw_entry (fat12_set_fat_entry c v fat) d = (if c = d then v AND 0xFFF else raw_entry fat d)"
proof (rule bit_word_eqI)
  fix k assume "k < LENGTH(16)"
  have m: "(0xFFF :: u16) = mask 12" by (simp add: mask_eq_exp_minus_1)
  have v: "bit (v AND 0xFFF) k \<longleftrightarrow> k < 12 \<and> bit v k"
    unfolding m bit_and_iff bit_mask_iff by (auto dest: bit_imp_possible_bit)
  have "12 * unat c \<le> 12 * unat d + k \<and> 12 * unat d + k < 12 * unat c + 12 \<longleftrightarrow> unat c = unat d"
    if "k < 12" using that by (cases "unat c" "unat d" rule: linorder_cases) auto
  then show "bit (raw_entry (fat12_set_fat_entry c v fat) d) k =
      bit (if c = d then v AND 0xFFF else raw_entry fat d) k"
    unfolding raw_bit [OF assms(2)] set_stream [OF assms(1)]
    by (cases "k < 12") (auto simp: v raw_bit [OF assms(2)] word_unat_eq_iff)
qed

lemma raw_bound: "raw_entry fat c < 0x1000" if "unat c < 0x10000"
proof -
  have "raw_entry fat c = take_bit 12 (raw_entry fat c)"
    by (rule bit_word_eqI) (simp add: bit_take_bit_iff raw_bit [OF that])
  then have "unat (raw_entry fat c) < 2 ^ 12"
    by (metis take_bit_nat_less_exp unsigned_take_bit_eq)
  then show ?thesis by (simp add: word_less_nat_alt)
qed

text \<open>What an entry reads as after a value has been stored.\<close>

definition fat_norm :: "u16 \<Rightarrow> u16" where
  "fat_norm v = (if 0xFF7 \<le> v then 0xFFFF else v)"

lemma get_entry_norm: "fat12_get_fat_entry fat c = fat_norm (raw_entry fat c)"
proof -
  have "(0xFF8 :: u16) \<le> e \<or> e = 0xFF7 \<longleftrightarrow> 0xFF7 \<le> e" for e
    by (auto simp: word_le_nat_alt word_unat_eq_iff)
  then show ?thesis by (auto simp: fat12_get_fat_entry_def fat_norm_def Let_def)
qed

lemma and_fff: "v < 0x1000 \<Longrightarrow> v AND 0xFFF = (v :: u16)"
proof -
  assume "v < 0x1000"
  moreover have "v AND 0xFFF = take_bit 12 v" by (simp add: take_bit_eq_mask mask_eq_exp_minus_1)
  ultimately show ?thesis
    by (simp add: word_less_nat_alt word_unat_eq_iff unsigned_take_bit_eq take_bit_nat_eq_self)
qed

lemma get_set_entry:
  assumes "unat c < 0x10000" "unat d < 0x10000" "v < 0x1000"
  shows "fat12_get_fat_entry (fat12_set_fat_entry c v fat) d =
    (if c = d then fat_norm v else fat12_get_fat_entry fat d)"
  using raw_set [OF assms(1,2)] and_fff [OF assms(3)] by (simp add: get_entry_norm)

lemma get_entry_small:
  "unat (ucast (fat12_get_fat_entry fat c) :: u32) < 0x10000"
proof -
  have "unat (fat12_get_fat_entry fat c) < 2 ^ 16"
    using unsigned_less [of "fat12_get_fat_entry fat c", where 'a = nat] by simp
  then show ?thesis by (simp add: unsigned_ucast_eq take_bit_nat_eq_self)
qed

section \<open>The table as an interface\<close>

text \<open>
  What the rest of the file system relies on: an array of successor entries, with update laws that
  know nothing of the packing.
\<close>

locale fat_table =
  fixes succ :: "'t \<Rightarrow> 'c \<Rightarrow> 'e"
    and upd :: "'c \<Rightarrow> 'v \<Rightarrow> 't \<Rightarrow> 't"
    and valid :: "'c \<Rightarrow> bool"
    and storable :: "'v \<Rightarrow> bool"
    and norm :: "'v \<Rightarrow> 'e"
  assumes succ_upd: "valid c \<Longrightarrow> valid d \<Longrightarrow> storable v \<Longrightarrow>
      succ (upd c v t) d = (if c = d then norm v else succ t d)"
begin

lemma upd_all:
  assumes "storable v" and "\<forall>c\<in>set cs. valid c" and "valid d"
  shows "succ (fold (\<lambda>c. upd c v) cs t) d = (if d \<in> set cs then norm v else succ t d)"
  using assms by (induction cs arbitrary: t) (auto simp: succ_upd)

lemma upd_upd:
  assumes "valid c" and "valid d" and "storable v" and "storable w"
  shows "succ (upd c v (upd c w t)) d = succ (upd c v t) d"
  using assms by (simp add: succ_upd)

lemma upd_commute:
  assumes "valid c" and "valid c'" and "valid d" and "storable v" and "storable w" and "c \<noteq> c'"
  shows "succ (upd c v (upd c' w t)) d = succ (upd c' w (upd c v t)) d"
  using assms by (auto simp: succ_upd)

end

interpretation ft: fat_table fat12_get_fat_entry fat12_set_fat_entry "\<lambda>c. unat c < 0x10000"
  "\<lambda>v. v < 0x1000" fat_norm
  by unfold_locales (rule get_set_entry)

section \<open>Allocation and chains\<close>

definition fat_free :: "fatbytes \<Rightarrow> u32 \<Rightarrow> bool" where
  "fat_free fat c \<longleftrightarrow> fat12_get_fat_entry fat c = 0"

lemma alloc_loop_cases:
  obtains (none) "alloc_loop i limit fat = (0, fat)" "\<forall>c. i \<le> c \<and> c < limit \<longrightarrow> \<not> fat_free fat c"
  | (some) c where "alloc_loop i limit fat = (c, fat12_set_fat_entry c 0xFFF fat)" "i \<le> c" "c < limit"
      "fat_free fat c" "\<forall>d. i \<le> d \<and> d < c \<longrightarrow> \<not> fat_free fat d"
proof (induction i limit fat arbitrary: thesis rule: alloc_loop.induct)
  case (1 i limit fat)
  show ?case
  proof (cases "i < limit \<and> \<not> fat_free fat i")
    case False
    then have "alloc_loop i limit fat = (if i < limit then (i, fat12_set_fat_entry i 0xFFF fat) else (0, fat))"
      by (subst alloc_loop.simps) (auto simp: fat_free_def)
    moreover have "\<not> (i \<le> d \<and> d < i)" for d by (simp add: not_less)
    moreover have "\<not> (i \<le> c \<and> c < limit)" if "\<not> i < limit" for c
      using that by (meson le_less_trans)
    ultimately show ?thesis using False 1(2) 1(3) [of i] by (cases "i < limit") auto
  next
    case True
    then have step: "alloc_loop i limit fat = alloc_loop (i + 1) limit fat"
      by (subst alloc_loop.simps) (simp add: fat_free_def)
    have i1: "unat (i + 1) = Suc (unat i)"
      using True unsigned_less [of limit, where 'a = nat] unat_add_small [of i 1]
      by (simp add: word_less_nat_alt)
    then have ge: "i \<le> c \<longleftrightarrow> c = i \<or> i + 1 \<le> c" for c
      by (auto simp: word_le_nat_alt word_unat_eq_iff)
    show ?thesis
    proof (rule 1(1))
      show "i < limit" "fat12_get_fat_entry fat i \<noteq> 0" using True by (auto simp: fat_free_def)
    next
      assume "alloc_loop (i + 1) limit fat = (0, fat)" "\<forall>c. i + 1 \<le> c \<and> c < limit \<longrightarrow> \<not> fat_free fat c"
      then show ?thesis using 1(2) step True ge by auto
    next
      fix c assume "alloc_loop (i + 1) limit fat = (c, fat12_set_fat_entry c 0xFFF fat)" "i + 1 \<le> c"
        "c < limit" "fat_free fat c" "\<forall>d. i + 1 \<le> d \<and> d < c \<longrightarrow> \<not> fat_free fat d"
      then show ?thesis using 1(3) [of c] step True ge by auto
    qed
  qed
qed

text \<open>The clusters visited from \<open>c\<close> on, up to an end mark or a reserved number.\<close>

fun is_chain :: "fatbytes \<Rightarrow> u32 \<Rightarrow> u32 list \<Rightarrow> bool" where
  "is_chain fat c [] \<longleftrightarrow> c = 0xFFFF \<or> c < 2"
| "is_chain fat c (d # ds) \<longleftrightarrow> d = c \<and> c \<noteq> 0xFFFF \<and> 2 \<le> c \<and> unat c < 0x10000 \<and>
     is_chain fat (ucast (fat12_get_fat_entry fat c)) ds"

lemma is_chain_bounds: "is_chain fat c cs \<Longrightarrow> d \<in> set cs \<Longrightarrow> unat d < 0x10000 \<and> 2 \<le> d"
  by (induction cs arbitrary: c) auto

lemma is_chain_cong:
  assumes "\<forall>d\<in>set cs. fat12_get_fat_entry fat' d = fat12_get_fat_entry fat d"
  shows "is_chain fat' c cs = is_chain fat c cs"
  using assms by (induction cs arbitrary: c) auto

lemma is_chain_upd:
  assumes "is_chain fat c cs" "unat d < 0x10000" "v < 0x1000" "d \<notin> set cs"
  shows "is_chain (fat12_set_fat_entry d v fat) c cs"
proof -
  have "fat12_get_fat_entry (fat12_set_fat_entry d v fat) x = fat12_get_fat_entry fat x" if "x \<in> set cs" for x
    using is_chain_bounds [OF assms(1) that] assms that ft.succ_upd [of d x v fat] by auto
  then show ?thesis using assms(1) is_chain_cong by blast
qed

lemma free_chain_ok:
  assumes "is_chain fat c cs" "distinct cs"
  shows "fat12_free_cluster_chain c fat = Some (fold (\<lambda>c. fat12_set_fat_entry c 0) cs fat)"
  using assms
proof (induction cs arbitrary: c fat)
  case Nil
  then show ?case by (subst fat12_free_cluster_chain.simps) (auto simp: not_le)
next
  case (Cons d ds)
  then have "is_chain (fat12_set_fat_entry c 0 fat) (ucast (fat12_get_fat_entry fat c)) ds"
    by (intro is_chain_upd) auto
  then show ?case using Cons by (subst fat12_free_cluster_chain.simps) auto
qed

text \<open>
  Releasing ends on every table, cyclic ones included: each round clears an entry, and a cleared
  entry leads to cluster 0.
\<close>

definition used_entries :: "fatbytes \<Rightarrow> u32 set" where
  "used_entries fat = {c. unat c < 0x10000 \<and> \<not> fat_free fat c}"

lemma finite_used [simp]: "finite (used_entries fat)"
  by simp

lemma used_entries_clear:
  "unat c < 0x10000 \<Longrightarrow> used_entries (fat12_set_fat_entry c 0 fat) = used_entries fat - {c}"
  using ft.succ_upd [of c _ 0 fat] by (auto simp: used_entries_def fat_free_def fat_norm_def split: if_splits)

lemma free_chain_total:
  assumes "unat c < 0x10000"
  shows "\<exists>fat'. fat12_free_cluster_chain c fat = Some fat'"
  using assms
proof (induction "card (used_entries fat)" arbitrary: c fat rule: less_induct)
  case less
  let ?n = "ucast (fat12_get_fat_entry fat c) :: u32" and ?f = "fat12_set_fat_entry c 0 fat"
  show ?case
  proof (cases "c \<noteq> 0xFFFF \<and> 2 \<le> c")
    case go: True
    show ?thesis
    proof (cases "fat_free fat c")
      case True
      then have "fat12_free_cluster_chain ?n ?f = Some ?f"
        by (subst fat12_free_cluster_chain.simps) (simp add: fat_free_def)
      then show ?thesis using go by (subst fat12_free_cluster_chain.simps) simp
    next
      case False
      then have "c \<in> used_entries fat" using less.prems by (simp add: used_entries_def)
      then have "card (used_entries ?f) < card (used_entries fat)"
        unfolding used_entries_clear [OF less.prems] by (rule card_Diff1_less [OF finite_used])
      then obtain fat' where "fat12_free_cluster_chain ?n ?f = Some fat'"
        using less.hyps get_entry_small by blast
      then show ?thesis using go by (subst fat12_free_cluster_chain.simps) simp
    qed
  next
    case False
    then have "fat12_free_cluster_chain c fat = Some fat"
      by (subst fat12_free_cluster_chain.simps) (simp only: if_False)
    then show ?thesis by blast
  qed
qed

section \<open>Properties\<close>

text \<open>
  C13. The packed table behaves as an array of 12-bit entries: a stored value is read back (as the
  end mark when it is 0xFF7 or more), and storing one entry changes no other, although
  neighbours share a byte.
\<close>

theorem fat_entry_get_set:
  assumes "unat c < 0x10000" and "unat d < 0x10000" and "v < 0x1000"
  shows "fat12_get_fat_entry (fat12_set_fat_entry c v fat) d =
    (if c \<noteq> d then fat12_get_fat_entry fat d else if 0xFF7 \<le> v then 0xFFFF else v)"
  using ft.succ_upd [OF assms] by (auto simp: fat_norm_def)

theorem fat_entry_get_set_witness:
  "fat12_get_fat_entry (fat12_set_fat_entry 3 0x123 (\<lambda>_. 0)) 3 = 0x123"
  using fat_entry_get_set [of 3 3 "0x123" "\<lambda>_. 0"] by simp

text \<open>
  C14. \<^verbatim>\<open>fat12_allocate_cluster\<close> returns 0 with the table unchanged exactly when no
  cluster of the volume is free; otherwise it returns the first free cluster, marks it as the end
  of a chain and leaves every other entry alone.
\<close>

theorem fat12_allocate_cluster_correct:
  assumes "unat n < 0xFFF0"
  shows "(\<exists>c. fat12_allocate_cluster n fat = (c, fat12_set_fat_entry c 0xFFF fat) \<and> 2 \<le> c \<and> c < n + 2 \<and>
      fat_free fat c \<and> (\<forall>d. 2 \<le> d \<and> d < c \<longrightarrow> \<not> fat_free fat d) \<and>
      (\<forall>d. unat d < 0x10000 \<longrightarrow> fat12_get_fat_entry (fat12_set_fat_entry c 0xFFF fat) d =
         (if d = c then 0xFFFF else fat12_get_fat_entry fat d))) \<or>
    fat12_allocate_cluster n fat = (0, fat) \<and> (\<forall>c. 2 \<le> c \<and> c < n + 2 \<longrightarrow> \<not> fat_free fat c)"
proof (rule alloc_loop_cases [of 2 "n + 2" fat])
  fix c assume c: "alloc_loop 2 (n + 2) fat = (c, fat12_set_fat_entry c 0xFFF fat)" "2 \<le> c" "c < n + 2"
    "fat_free fat c" "\<forall>d. 2 \<le> d \<and> d < c \<longrightarrow> \<not> fat_free fat d"
  have "unat (n + 2) = unat n + 2" using assms unat_add_small [of n 2] by simp
  then have "unat c < 0x10000" using c(3) assms by (simp add: word_less_nat_alt)
  then have "fat12_get_fat_entry (fat12_set_fat_entry c 0xFFF fat) d =
      (if d = c then 0xFFFF else fat12_get_fat_entry fat d)" if "unat d < 0x10000" for d
    using ft.succ_upd [of c d "0xFFF" fat] that by (auto simp: fat_norm_def)
  then show ?thesis using c by (auto simp: fat12_allocate_cluster_def)
qed (auto simp: fat12_allocate_cluster_def)

theorem fat12_allocate_cluster_correct_witness:
  "fat12_allocate_cluster 5 (\<lambda>_. 0) = (2, fat12_set_fat_entry 2 0xFFF (\<lambda>_. 0))"
proof -
  have "fat_free (\<lambda>_. 0) 2"
    by (simp add: fat_free_def get_entry_norm raw_entry_def fat_norm_def Let_def)
  then show ?thesis
    using fat12_allocate_cluster_correct [of 5 "\<lambda>_. 0"] by (auto simp: not_less_iff_gr_or_eq)
qed

text \<open>
  C15. \<^verbatim>\<open>fat12_free_cluster_chain\<close> returns on every table, even a cyclic one; on a proper
  chain it frees exactly the clusters of the chain and keeps every other entry.
\<close>

theorem fat12_free_cluster_chain_correct:
  assumes "unat c < 0x10000"
  shows "(\<exists>fat'. fat12_free_cluster_chain c fat = Some fat') \<and>
    (\<forall>cs. is_chain fat c cs \<and> distinct cs \<longrightarrow>
       (\<exists>fat'. fat12_free_cluster_chain c fat = Some fat' \<and>
         (\<forall>d. unat d < 0x10000 \<longrightarrow> fat12_get_fat_entry fat' d =
            (if d \<in> set cs then 0 else fat12_get_fat_entry fat d))))"
proof (intro conjI allI impI)
  show "\<exists>fat'. fat12_free_cluster_chain c fat = Some fat'" by (rule free_chain_total [OF assms])
  fix cs assume cs: "is_chain fat c cs \<and> distinct cs"
  have "fat12_get_fat_entry (fold (\<lambda>c. fat12_set_fat_entry c 0) cs fat) d =
      (if d \<in> set cs then 0 else fat12_get_fat_entry fat d)" if "unat d < 0x10000" for d
    using ft.upd_all [of 0 cs d fat] is_chain_bounds [of fat c cs] cs that by (auto simp: fat_norm_def)
  then show "\<exists>fat'. fat12_free_cluster_chain c fat = Some fat' \<and>
      (\<forall>d. unat d < 0x10000 \<longrightarrow> fat12_get_fat_entry fat' d = (if d \<in> set cs then 0 else fat12_get_fat_entry fat d))"
    using free_chain_ok cs by blast
qed

theorem fat12_free_cluster_chain_correct_witness:
  "\<exists>fat'. fat12_free_cluster_chain 5 (fat12_set_fat_entry 5 5 (\<lambda>_. 0)) = Some fat'"
  using fat12_free_cluster_chain_correct [of 5 "fat12_set_fat_entry 5 5 (\<lambda>_. 0)"] by simp

end
