(* ===== verification/Ata.thy ===== *)
theory Ata
  imports Prelude
begin

text \<open>
  The PIO disk driver \<^verbatim>\<open>kernel/src/drivers/ata.c\<close>, down to the port accesses. The
  drive is hardware: its registers are reached through four port operations on a device state of
  any type, which every definition takes as a parameter. What the driver relies on is the locale
  \<open>ata_drive\<close>: the task-file registers, the PIO data phases and a bound on how often a
  poll of the status register can find the drive busy. Over it the two transfers are shown to
  implement the sector-level operations \<open>disk_read\<close> and \<open>disk_write\<close>, which the
  file system model uses.
\<close>

section \<open>The driver\<close>

type_synonym bytes = "nat \<Rightarrow> u8"

record 'd ports =
  inportb :: "u16 \<Rightarrow> 'd \<Rightarrow> u8 \<times> 'd"
  inportw :: "u16 \<Rightarrow> 'd \<Rightarrow> u16 \<times> 'd"
  outportb :: "u16 \<Rightarrow> u8 \<Rightarrow> 'd \<Rightarrow> 'd"
  outportw :: "u16 \<Rightarrow> u16 \<Rightarrow> 'd \<Rightarrow> 'd"

record ata_device =
  base_port :: u16
  ctrl_port :: u16
  slave :: u8
  present :: bool
  sectors :: u32

definition ATA_PRIMARY_IO :: u16 where "ATA_PRIMARY_IO = 0x1F0"
definition ATA_PRIMARY_CTRL :: u16 where "ATA_PRIMARY_CTRL = 0x3F6"
definition ATA_REG_DATA :: u16 where "ATA_REG_DATA = 0"
definition ATA_REG_SECCOUNT :: u16 where "ATA_REG_SECCOUNT = 2"
definition ATA_REG_LBA_LO :: u16 where "ATA_REG_LBA_LO = 3"
definition ATA_REG_LBA_MID :: u16 where "ATA_REG_LBA_MID = 4"
definition ATA_REG_LBA_HI :: u16 where "ATA_REG_LBA_HI = 5"
definition ATA_REG_DRIVE_HEAD :: u16 where "ATA_REG_DRIVE_HEAD = 6"
definition ATA_REG_STATUS :: u16 where "ATA_REG_STATUS = 7"
definition ATA_REG_COMMAND :: u16 where "ATA_REG_COMMAND = 7"
definition ATA_CMD_READ_PIO :: u8 where "ATA_CMD_READ_PIO = 0x20"
definition ATA_CMD_WRITE_PIO :: u8 where "ATA_CMD_WRITE_PIO = 0x30"
definition ATA_CMD_IDENTIFY :: u8 where "ATA_CMD_IDENTIFY = 0xEC"
definition ATA_SR_BSY :: u8 where "ATA_SR_BSY = 0x80"
definition ATA_SR_DRQ :: u8 where "ATA_SR_DRQ = 8"
definition ATA_SR_ERR :: u8 where "ATA_SR_ERR = 1"
definition ATA_SECTOR_SIZE :: nat where "ATA_SECTOR_SIZE = 512"

lemmas ata_reg_defs = ATA_PRIMARY_IO_def ATA_PRIMARY_CTRL_def ATA_REG_DATA_def ATA_REG_SECCOUNT_def
  ATA_REG_LBA_LO_def ATA_REG_LBA_MID_def ATA_REG_LBA_HI_def ATA_REG_DRIVE_HEAD_def
  ATA_REG_STATUS_def ATA_REG_COMMAND_def

definition ata_delay :: "'d ports \<Rightarrow> u16 \<Rightarrow> 'd \<Rightarrow> 'd" where
  "ata_delay p port = (\<lambda>d. snd (inportb p (port + ATA_REG_STATUS) d)) ^^ 4"

text \<open>The two polling loops; the first argument is \<^verbatim>\<open>timeout\<close>.\<close>

fun wait_ready_loop :: "nat \<Rightarrow> 'd ports \<Rightarrow> u16 \<Rightarrow> u8 \<Rightarrow> 'd \<Rightarrow> u8 \<times> 'd" where
  "wait_ready_loop 0 p port status d = (status, d)"
| "wait_ready_loop (Suc timeout) p port status d =
     (let (status, d) = inportb p (port + ATA_REG_STATUS) d
      in if status AND ATA_SR_BSY = 0 then (status, d) else wait_ready_loop timeout p port status d)"

definition ata_wait_ready :: "'d ports \<Rightarrow> u16 \<Rightarrow> 'd \<Rightarrow> u8 \<times> 'd" where
  "ata_wait_ready p port d = wait_ready_loop 500000 p port 0 d"

fun wait_drq_loop :: "nat \<Rightarrow> 'd ports \<Rightarrow> u16 \<Rightarrow> u8 \<Rightarrow> 'd \<Rightarrow> u8 \<times> 'd" where
  "wait_drq_loop 0 p port status d = (status, d)"
| "wait_drq_loop (Suc timeout) p port status d =
     (let (status, d) = inportb p (port + ATA_REG_STATUS) d
      in if status AND ATA_SR_DRQ \<noteq> 0 then (status, d)
         else if status AND ATA_SR_ERR \<noteq> 0 then (status, d)
         else wait_drq_loop timeout p port status d)"

definition ata_wait_drq :: "'d ports \<Rightarrow> u16 \<Rightarrow> 'd \<Rightarrow> u8 \<times> 'd" where
  "ata_wait_drq p port d = wait_drq_loop 500000 p port 0 d"

text \<open>
  \<^verbatim>\<open>ata_init\<close>: reset, IDENTIFY, and the size from words 60 and 61 of the answer.
\<close>

definition read_identify :: "'d ports \<Rightarrow> 'd \<Rightarrow> u16 list \<times> 'd" where
  "read_identify p d =
     fold (\<lambda>_ (ws, d). let (w, d) = inportw p (ATA_PRIMARY_IO + ATA_REG_DATA) d in (ws @ [w], d))
       [0..<256] ([], d)"

definition ata_init :: "'d ports \<Rightarrow> 'd \<Rightarrow> ata_device \<times> 'd" where
  "ata_init p d =
     (let dev = \<lparr>base_port = ATA_PRIMARY_IO, ctrl_port = ATA_PRIMARY_CTRL, slave = 0, present = False,
                 sectors = 0\<rparr>;
          d = ata_delay p ATA_PRIMARY_IO (outportb p ATA_PRIMARY_CTRL 0x06 d);
          d = ata_delay p ATA_PRIMARY_IO (outportb p (ATA_PRIMARY_IO + ATA_REG_DRIVE_HEAD) 0xA0 d);
          d = outportb p (ATA_PRIMARY_IO + ATA_REG_SECCOUNT) 0 d;
          d = outportb p (ATA_PRIMARY_IO + ATA_REG_LBA_LO) 0 d;
          d = outportb p (ATA_PRIMARY_IO + ATA_REG_LBA_MID) 0 d;
          d = outportb p (ATA_PRIMARY_IO + ATA_REG_LBA_HI) 0 d;
          d = ata_delay p ATA_PRIMARY_IO (outportb p (ATA_PRIMARY_IO + ATA_REG_COMMAND) ATA_CMD_IDENTIFY d);
          (status, d) = inportb p (ATA_PRIMARY_IO + ATA_REG_STATUS) d
      in if status = 0 then (dev, d)
         else
           let (status, d) = ata_wait_ready p ATA_PRIMARY_IO d
           in if status AND ATA_SR_ERR \<noteq> 0 then (dev, d)
              else if status AND ATA_SR_BSY \<noteq> 0 then (dev, d)
              else
                let (mid, d) = inportb p (ATA_PRIMARY_IO + ATA_REG_LBA_MID) d;
                    (hi, d) = inportb p (ATA_PRIMARY_IO + ATA_REG_LBA_HI) d
                in if mid \<noteq> 0 \<or> hi \<noteq> 0 then (dev, d)
                   else
                     let (ws, d) = read_identify p d
                     in (dev\<lparr>present := True, sectors := push_bit 16 (ucast (ws ! 61)) OR ucast (ws ! 60)\<rparr>, d))"

text \<open>The command set-up shared by both transfers, as written in each of them.\<close>

definition ata_command :: "'d ports \<Rightarrow> u32 \<Rightarrow> u32 \<Rightarrow> u8 \<Rightarrow> 'd \<Rightarrow> 'd" where
  "ata_command p lba cnt cmd d =
     (let (_, d) = ata_wait_ready p ATA_PRIMARY_IO d;
          d = outportb p (ATA_PRIMARY_IO + ATA_REG_DRIVE_HEAD) (0xE0 OR (ucast (drop_bit 24 lba) AND 0x0F)) d;
          d = outportb p (ATA_PRIMARY_IO + ATA_REG_SECCOUNT) (ucast cnt) d;
          d = outportb p (ATA_PRIMARY_IO + ATA_REG_LBA_LO) (ucast (lba AND 0xFF)) d;
          d = outportb p (ATA_PRIMARY_IO + ATA_REG_LBA_MID) (ucast (drop_bit 8 lba AND 0xFF)) d;
          d = outportb p (ATA_PRIMARY_IO + ATA_REG_LBA_HI) (ucast (drop_bit 16 lba AND 0xFF)) d
      in outportb p (ATA_PRIMARY_IO + ATA_REG_COMMAND) cmd d)"

definition read_word :: "'d ports \<Rightarrow> nat \<Rightarrow> nat \<Rightarrow> bytes \<times> 'd \<Rightarrow> bytes \<times> 'd" where
  "read_word p s i = (\<lambda>(buf, d).
     let (w, d) = inportw p (ATA_PRIMARY_IO + ATA_REG_DATA) d
     in (buf(s * ATA_SECTOR_SIZE + i * 2 := ucast (w AND 0xFF),
             s * ATA_SECTOR_SIZE + i * 2 + 1 := ucast (drop_bit 8 w AND 0xFF)), d))"

fun ata_read_loop :: "'d ports \<Rightarrow> nat \<Rightarrow> nat \<Rightarrow> bytes \<Rightarrow> 'd \<Rightarrow> bool \<times> bytes \<times> 'd" where
  "ata_read_loop p s 0 buf d = (True, buf, d)"
| "ata_read_loop p s (Suc n) buf d =
     (let (status, d) = ata_wait_drq p ATA_PRIMARY_IO d
      in if status AND ATA_SR_ERR \<noteq> 0 then (False, buf, d)
         else if status AND ATA_SR_DRQ = 0 then (False, buf, d)
         else let (buf, d) = fold (read_word p s) [0..<256] (buf, d)
              in ata_read_loop p (Suc s) n buf d)"

definition ata_read_sectors :: "'d ports \<Rightarrow> ata_device \<Rightarrow> u32 \<Rightarrow> u32 \<Rightarrow> bytes \<Rightarrow> 'd \<Rightarrow> bool \<times> bytes \<times> 'd" where
  "ata_read_sectors p dev lba cnt buf d =
     (if \<not> present dev then (False, buf, d)
      else ata_read_loop p 0 (unat cnt) buf (ata_command p lba cnt ATA_CMD_READ_PIO d))"

definition write_word :: "'d ports \<Rightarrow> nat \<Rightarrow> bytes \<Rightarrow> nat \<Rightarrow> 'd \<Rightarrow> 'd" where
  "write_word p s buf i d =
     outportw p (ATA_PRIMARY_IO + ATA_REG_DATA)
       (ucast (buf (s * ATA_SECTOR_SIZE + i * 2)) OR push_bit 8 (ucast (buf (s * ATA_SECTOR_SIZE + i * 2 + 1)))) d"

fun ata_write_loop :: "'d ports \<Rightarrow> nat \<Rightarrow> nat \<Rightarrow> bytes \<Rightarrow> 'd \<Rightarrow> bool \<times> 'd" where
  "ata_write_loop p s 0 buf d = (True, d)"
| "ata_write_loop p s (Suc n) buf d =
     (let (status, d) = ata_wait_drq p ATA_PRIMARY_IO d
      in if status AND ATA_SR_ERR \<noteq> 0 then (False, d)
         else if status AND ATA_SR_DRQ = 0 then (False, d)
         else let d = fold (write_word p s buf) [0..<256] d;
                  (_, d) = ata_wait_ready p ATA_PRIMARY_IO d
              in ata_write_loop p (Suc s) n buf d)"

definition ata_write_sectors :: "'d ports \<Rightarrow> ata_device \<Rightarrow> u32 \<Rightarrow> u32 \<Rightarrow> bytes \<Rightarrow> 'd \<Rightarrow> bool \<times> 'd" where
  "ata_write_sectors p dev lba cnt buf d =
     (if \<not> present dev then (False, d)
      else ata_write_loop p 0 (unat cnt) buf (ata_command p lba cnt ATA_CMD_WRITE_PIO d))"

section \<open>Sectors\<close>

text \<open>
  The sector-level view: a disk is a function from block addresses to 512 bytes. Reading fills the
  buffer, writing replaces the sectors.
\<close>

type_synonym disk = "u32 \<Rightarrow> nat \<Rightarrow> u8"

definition disk_read :: "u32 \<Rightarrow> nat \<Rightarrow> bytes \<Rightarrow> disk \<Rightarrow> bytes" where
  "disk_read lba n buf dk =
     (\<lambda>i. if i < n * ATA_SECTOR_SIZE
          then dk (lba + of_nat (i div ATA_SECTOR_SIZE)) (i mod ATA_SECTOR_SIZE) else buf i)"

definition disk_write :: "u32 \<Rightarrow> nat \<Rightarrow> bytes \<Rightarrow> disk \<Rightarrow> disk" where
  "disk_write lba n buf dk =
     (\<lambda>l j. if unat (l - lba) < n \<and> j < ATA_SECTOR_SIZE
            then buf (unat (l - lba) * ATA_SECTOR_SIZE + j) else dk l j)"


lemma disk_read_write:
  assumes "n \<le> 2 ^ 32"
  shows "disk_read lba n buf' (disk_write lba n buf dk) = (\<lambda>i. if i < n * ATA_SECTOR_SIZE then buf i else buf' i)"
proof
  fix i
  show "disk_read lba n buf' (disk_write lba n buf dk) i = (if i < n * ATA_SECTOR_SIZE then buf i else buf' i)"
  proof (cases "i < n * ATA_SECTOR_SIZE")
    case True
    then have q: "i div ATA_SECTOR_SIZE < n" by (simp add: less_mult_imp_div_less)
    then have "unat (of_nat (i div ATA_SECTOR_SIZE) :: u32) = i div ATA_SECTOR_SIZE"
      using assms by (intro unat_of_nat_small) simp
    with True q show ?thesis
      by (simp add: disk_read_def disk_write_def ATA_SECTOR_SIZE_def mult.commute [of _ 512])
  qed (simp add: disk_read_def)
qed

section \<open>The drive\<close>

text \<open>
  What the driver relies on. A drive has task-file registers, a transfer phase (the block being
  transferred, the blocks left with it, the words done), its content, and the number of polls of
  the status register for which it is still busy. It answers within the driver's 500000 polls,
  reports DRQ exactly when a data phase is ready, and no error.
\<close>

datatype phase = Idle | DataIn u32 nat nat | DataOut u32 nat nat

definition reg_lba :: "(u16 \<Rightarrow> u8) \<Rightarrow> u32" where
  "reg_lba r = push_bit 24 (ucast (r 0x1F6 AND 0x0F)) OR push_bit 16 (ucast (r 0x1F5)) OR
     push_bit 8 (ucast (r 0x1F4)) OR ucast (r 0x1F3)"

definition reg_count :: "(u16 \<Rightarrow> u8) \<Rightarrow> nat" where
  "reg_count r = (if r 0x1F2 = 0 then 256 else unat (r 0x1F2))"

definition advance :: "(u32 \<Rightarrow> nat \<Rightarrow> nat \<Rightarrow> phase) \<Rightarrow> u32 \<Rightarrow> nat \<Rightarrow> nat \<Rightarrow> phase" where
  "advance mk l n w = (if Suc w < 256 then mk l n (Suc w) else if n \<le> 1 then Idle else mk (l + 1) (n - 1) 0)"

definition put_word :: "u32 \<Rightarrow> nat \<Rightarrow> u16 \<Rightarrow> disk \<Rightarrow> disk" where
  "put_word l w v dk = dk(l := (dk l)(2 * w := ucast v, 2 * w + 1 := ucast (drop_bit 8 v)))"

definition get_word :: "u32 \<Rightarrow> nat \<Rightarrow> disk \<Rightarrow> u16" where
  "get_word l w dk = ucast (dk l (2 * w)) OR push_bit 8 (ucast (dk l (2 * w + 1)))"

lemma byte_bit_ge: "8 \<le> n \<Longrightarrow> \<not> bit (x :: u8) n"
  using bit_imp_le_length [of x n] by auto

lemma lba_regs:
  fixes lba :: u32
  assumes "lba < 2 ^ 28"
  shows "push_bit 24 (ucast ((0xE0 OR (ucast (drop_bit 24 lba) AND 0x0F) :: u8) AND 0x0F)) OR
    push_bit 16 (ucast (ucast (drop_bit 16 lba AND 0xFF) :: u8)) OR
    push_bit 8 (ucast (ucast (drop_bit 8 lba AND 0xFF) :: u8)) OR ucast (ucast (lba AND 0xFF) :: u8) = lba"
proof (rule bit_word_eqI)
  fix n :: nat assume n: "n < LENGTH(32)"
  have "take_bit 28 lba = lba" using assms by (simp add: take_bit_word_small)
  then have hi: "bit lba n \<Longrightarrow> n < 28" using bit_take_bit_iff [of 28 lba n] by simp
  have c: "(0xE0 OR x) AND 0x0F = x AND (0x0F :: u8)" for x
    by (simp add: bit.conj_disj_distrib2)
  show "bit (push_bit 24 (ucast ((0xE0 OR (ucast (drop_bit 24 lba) AND 0x0F) :: u8) AND 0x0F)) OR
    push_bit 16 (ucast (ucast (drop_bit 16 lba AND 0xFF) :: u8)) OR
    push_bit 8 (ucast (ucast (drop_bit 8 lba AND 0xFF) :: u8)) OR ucast (ucast (lba AND 0xFF) :: u8) :: u32) n = bit lba n"
    unfolding c and_0xFF and_0x0F
    using n hi by (cases "n < 8"; cases "n < 16"; cases "n < 24"; cases "n < 28") (simp_all add: bit_simps byte_bit_ge, auto)
qed

lemma count_reg:
  fixes cnt :: u32
  assumes "0 < cnt" and "cnt \<le> 256"
  shows "(if (ucast cnt :: u8) = 0 then 256 else unat (ucast cnt :: u8)) = unat cnt"
proof -
  have "0 < unat cnt" "unat cnt \<le> 256" using assms by (simp_all add: word_less_nat_alt word_le_nat_alt)
  moreover have "unat (ucast cnt :: u8) = unat cnt mod 256" by (simp add: unat_ucast_mod)
  ultimately show ?thesis
    by (cases "unat cnt = 256") (auto simp: unat_eq_zero [symmetric])
qed

lemma get_word_bytes:
  "ucast (get_word l w dk AND 0xFF) = dk l (2 * w)"
  "ucast (drop_bit 8 (get_word l w dk) AND 0xFF) = dk l (Suc (2 * w))"
  unfolding get_word_def and_0xFF
  by (rule bit_word_eqI, auto simp: bit_simps byte_bit_ge)+

lemma word_bytes:
  "ucast (ucast a OR push_bit 8 (ucast b) :: u16) = (a :: u8)"
  "ucast (drop_bit 8 (ucast a OR push_bit 8 (ucast b) :: u16)) = (b :: u8)"
  by (rule bit_word_eqI, auto simp: bit_simps byte_bit_ge)+

lemma put_word_bytes:
  "put_word l w (ucast a OR push_bit 8 (ucast b)) dk = dk(l := (dk l)(2 * w := a, 2 * w + 1 := b))"
  unfolding put_word_def word_bytes by (rule refl)

lemma unat_diff_Suc:
  fixes k l :: u32
  assumes "k \<noteq> l"
  shows "unat (k - l) = Suc (unat (k - (l + 1)))"
proof -
  have "k - l \<noteq> 0" using assms by simp
  then have "unat (k - l - 1) = unat (k - l) - 1" "0 < unat (k - l)" by (simp_all add: unat_minus_one unat_gt_0)
  then show ?thesis by (simp add: diff_diff_eq)
qed

locale ata_drive =
  fixes p :: "'d ports" and reg :: "'d \<Rightarrow> u16 \<Rightarrow> u8" and phase :: "'d \<Rightarrow> phase"
    and content :: "'d \<Rightarrow> disk" and busy :: "'d \<Rightarrow> nat"
  assumes poll: "inportb p 0x1F7 d = (st, d') \<Longrightarrow>
      reg d' = reg d \<and> phase d' = phase d \<and> content d' = content d \<and> busy d' = busy d - 1 \<and>
      (bit st 7 \<longleftrightarrow> 0 < busy d) \<and> (bit st 3 \<longleftrightarrow> busy d = 0 \<and> phase d \<noteq> Idle) \<and> \<not> bit st 0"
    and answers: "busy d < 500000"
    and set_reg: "phase d = Idle \<Longrightarrow> busy d = 0 \<Longrightarrow> r \<in> {0x1F2, 0x1F3, 0x1F4, 0x1F5, 0x1F6} \<Longrightarrow>
      outportb p r v d = d' \<Longrightarrow> reg d' = (reg d)(r := v) \<and> phase d' = Idle \<and> content d' = content d \<and> busy d' = 0"
    and read_cmd: "phase d = Idle \<Longrightarrow> busy d = 0 \<Longrightarrow> outportb p 0x1F7 0x20 d = d' \<Longrightarrow>
      phase d' = DataIn (reg_lba (reg d)) (reg_count (reg d)) 0 \<and> content d' = content d"
    and write_cmd: "phase d = Idle \<Longrightarrow> busy d = 0 \<Longrightarrow> outportb p 0x1F7 0x30 d = d' \<Longrightarrow>
      phase d' = DataOut (reg_lba (reg d)) (reg_count (reg d)) 0 \<and> content d' = content d"
    and data_in: "phase d = DataIn l n w \<Longrightarrow> busy d = 0 \<Longrightarrow> inportw p 0x1F0 d = (x, d') \<Longrightarrow>
      x = get_word l w (content d) \<and> phase d' = advance DataIn l n w \<and> content d' = content d \<and>
      (Suc w < 256 \<longrightarrow> busy d' = 0)"
    and data_out: "phase d = DataOut l n w \<Longrightarrow> busy d = 0 \<Longrightarrow> outportw p 0x1F0 x d = d' \<Longrightarrow>
      phase d' = advance DataOut l n w \<and> content d' = put_word l w x (content d) \<and>
      (Suc w < 256 \<longrightarrow> busy d' = 0)"
begin

lemma wait_ready_loop_ok:
  assumes "busy d < n"
  obtains st d' where "wait_ready_loop n p ATA_PRIMARY_IO s0 d = (st, d')" "reg d' = reg d"
    "phase d' = phase d" "content d' = content d" "busy d' = 0"
  using assms
proof (induction n arbitrary: d s0 thesis)
  case (Suc n)
  obtain st d' where io: "inportb p 0x1F7 d = (st, d')" by (cases "inportb p 0x1F7 d")
  note st = poll [OF io]
  have bsy: "st AND ATA_SR_BSY = 0 \<longleftrightarrow> busy d = 0"
    using st and_exp_eq_0 [of st 7] by (simp add: ATA_SR_BSY_def)
  show ?case
  proof (cases "busy d = 0")
    case True
    then show ?thesis using Suc.prems(1) [of st d'] io st bsy by (simp add: ata_reg_defs)
  next
    case False
    have "busy d' < n" using Suc.prems(2) st False by simp
    then obtain t e where "wait_ready_loop n p ATA_PRIMARY_IO st d' = (t, e)" "reg e = reg d'"
      "phase e = phase d'" "content e = content d'" "busy e = 0" using Suc.IH by blast
    then show ?thesis using Suc.prems(1) [of t e] io st bsy False by (simp add: ata_reg_defs)
  qed
qed simp

lemma wait_drq_loop_ok:
  assumes "busy d < n" and "phase d \<noteq> Idle"
  obtains st d' where "wait_drq_loop n p ATA_PRIMARY_IO s0 d = (st, d')" "bit st 3" "\<not> bit st 0"
    "phase d' = phase d" "content d' = content d" "busy d' = 0"
  using assms
proof (induction n arbitrary: d s0 thesis)
  case (Suc n)
  obtain st d' where io: "inportb p 0x1F7 d = (st, d')" by (cases "inportb p 0x1F7 d")
  note st = poll [OF io]
  have drq: "st AND ATA_SR_DRQ = 0 \<longleftrightarrow> busy d \<noteq> 0" and err: "st AND ATA_SR_ERR = 0"
    using st Suc.prems(3) and_exp_eq_0 [of st 3] and_exp_eq_0 [of st 0]
    by (simp_all add: ATA_SR_DRQ_def ATA_SR_ERR_def)
  show ?case
  proof (cases "busy d = 0")
    case True
    then show ?thesis using Suc.prems(1) [of st d'] Suc.prems(3) io st drq by (simp add: ata_reg_defs)
  next
    case False
    have "busy d' < n" using Suc.prems(2) st False by simp
    then obtain t e where "wait_drq_loop n p ATA_PRIMARY_IO st d' = (t, e)" "bit t 3" "\<not> bit t 0"
      "phase e = phase d'" "content e = content d'" "busy e = 0" using Suc.IH st Suc.prems(3) by metis
    then show ?thesis using Suc.prems(1) [of t e] io st drq err False by (simp add: ata_reg_defs)
  qed
qed simp

lemma wait_ready_ok:
  obtains st d' where "ata_wait_ready p ATA_PRIMARY_IO d = (st, d')" "reg d' = reg d"
    "phase d' = phase d" "content d' = content d" "busy d' = 0"
  using wait_ready_loop_ok [OF answers] unfolding ata_wait_ready_def by blast

lemma wait_drq_ok:
  assumes "phase d \<noteq> Idle"
  obtains st d' where "ata_wait_drq p ATA_PRIMARY_IO d = (st, d')" "st AND ATA_SR_ERR = 0"
    "st AND ATA_SR_DRQ \<noteq> 0" "phase d' = phase d" "content d' = content d" "busy d' = 0"
proof -
  obtain st d' where w: "wait_drq_loop 500000 p ATA_PRIMARY_IO 0 d = (st, d')" "bit st 3" "\<not> bit st 0"
    "phase d' = phase d" "content d' = content d" "busy d' = 0"
    using wait_drq_loop_ok [OF answers assms] by blast
  moreover have "st AND ATA_SR_ERR = 0" "st AND ATA_SR_DRQ \<noteq> 0"
    using w(2,3) and_exp_eq_0 [of st 3] and_exp_eq_0 [of st 0] by (simp_all add: ATA_SR_DRQ_def ATA_SR_ERR_def)
  ultimately show thesis using that unfolding ata_wait_drq_def by blast
qed

lemma set_regs_ok:
  fixes v2 v3 v4 v5 v6 :: u8
  assumes "phase d = Idle" and "busy d = 0"
  defines "e \<equiv> outportb p 0x1F5 v5 (outportb p 0x1F4 v4 (outportb p 0x1F3 v3 (outportb p 0x1F2 v2
    (outportb p 0x1F6 v6 d))))"
  shows "phase e = Idle" "busy e = 0" "content e = content d"
    "reg e = (reg d)(0x1F6 := v6, 0x1F2 := v2, 0x1F3 := v3, 0x1F4 := v4, 0x1F5 := v5)"
proof -
  define a where "a = outportb p 0x1F6 v6 d"
  define b where "b = outportb p 0x1F2 v2 a"
  define c where "c = outportb p 0x1F3 v3 b"
  define f where "f = outportb p 0x1F4 v4 c"
  have e: "e = outportb p 0x1F5 v5 f" unfolding e_def f_def c_def b_def a_def by (rule refl)
  have 1: "reg a = (reg d)(0x1F6 := v6)" "phase a = Idle" "content a = content d" "busy a = 0"
    using set_reg [OF assms(1,2) _ a_def [symmetric]] by auto
  have 2: "reg b = (reg a)(0x1F2 := v2)" "phase b = Idle" "content b = content a" "busy b = 0"
    using set_reg [OF 1(2,4) _ b_def [symmetric]] by auto
  have 3: "reg c = (reg b)(0x1F3 := v3)" "phase c = Idle" "content c = content b" "busy c = 0"
    using set_reg [OF 2(2,4) _ c_def [symmetric]] by auto
  have 4: "reg f = (reg c)(0x1F4 := v4)" "phase f = Idle" "content f = content c" "busy f = 0"
    using set_reg [OF 3(2,4) _ f_def [symmetric]] by auto
  have 5: "reg e = (reg f)(0x1F5 := v5)" "phase e = Idle" "content e = content f" "busy e = 0"
    using set_reg [OF 4(2,4) _ e [symmetric]] by auto
  from 1 2 3 4 5 show "phase e = Idle" "busy e = 0" "content e = content d"
    "reg e = (reg d)(0x1F6 := v6, 0x1F2 := v2, 0x1F3 := v3, 0x1F4 := v4, 0x1F5 := v5)"
    by simp_all
qed

lemma command_ok:
  assumes "phase d = Idle" and "lba < 2 ^ 28" and "0 < cnt" and "cnt \<le> 256"
  obtains e where "ata_command p lba cnt cmd d = outportb p 0x1F7 cmd e" "phase e = Idle" "busy e = 0"
    "content e = content d" "reg_lba (reg e) = lba" "reg_count (reg e) = unat cnt"
proof -
  obtain st d' where w: "ata_wait_ready p ATA_PRIMARY_IO d = (st, d')" "reg d' = reg d"
    "phase d' = phase d" "content d' = content d" "busy d' = 0" by (rule wait_ready_ok)
  let ?v6 = "0xE0 OR (ucast (drop_bit 24 lba) AND 0x0F) :: u8" and ?v3 = "ucast (lba AND 0xFF) :: u8"
    and ?v4 = "ucast (drop_bit 8 lba AND 0xFF) :: u8" and ?v5 = "ucast (drop_bit 16 lba AND 0xFF) :: u8"
  define e where "e = outportb p 0x1F5 ?v5 (outportb p 0x1F4 ?v4 (outportb p 0x1F3 ?v3 (outportb p 0x1F2 (ucast cnt)
    (outportb p 0x1F6 ?v6 d'))))"
  have e: "phase e = Idle" "busy e = 0" "content e = content d'"
    "reg e = (reg d')(0x1F6 := ?v6, 0x1F2 := ucast cnt, 0x1F3 := ?v3, 0x1F4 := ?v4, 0x1F5 := ?v5)"
    unfolding e_def using set_regs_ok [of d'] w assms(1) by simp_all
  have "ata_command p lba cnt cmd d = outportb p 0x1F7 cmd e"
    unfolding ata_command_def w(1) e_def by (simp add: ata_reg_defs Let_def)
  moreover have "reg_lba (reg e) = lba" unfolding e(4) using lba_regs [OF assms(2)] by (simp add: reg_lba_def)
  moreover have "reg e 0x1F2 = ucast cnt" unfolding e(4) by simp
  then have "reg_count (reg e) = unat cnt" unfolding reg_count_def by (simp only: count_reg [OF assms(3,4)])
  ultimately show thesis using that e w by simp
qed

lemma read_sector_ok:
  assumes "phase d = DataIn l n 0" and "busy d = 0"
  shows "\<exists>d'. fold (read_word p s) [0..<256] (buf, d) =
      (\<lambda>k. if s * 512 \<le> k \<and> k < s * 512 + 512 then content d l (k - s * 512) else buf k, d') \<and>
    phase d' = (if n \<le> 1 then Idle else DataIn (l + 1) (n - 1) 0) \<and> content d' = content d"
proof -
  define P where "P i x \<longleftrightarrow> (\<exists>e. x = (\<lambda>k. if s * 512 \<le> k \<and> k < s * 512 + 2 * i then content d l (k - s * 512) else buf k, e) \<and>
      (if i < 256 then phase e = DataIn l n i \<and> busy e = 0
       else phase e = (if n \<le> 1 then Idle else DataIn (l + 1) (n - 1) 0)) \<and> content e = content d)"
    for i x
  have "P 256 (fold (read_word p s) [0..<256] (buf, d))"
  proof (rule fold_upt_inv)
    show "P 0 (buf, d)" using assms unfolding P_def by (auto simp: fun_eq_iff)
  next
    fix i x assume i: "i < 256" and "P i x"
    then obtain e where x: "x = (\<lambda>k. if s * 512 \<le> k \<and> k < s * 512 + 2 * i then content d l (k - s * 512) else buf k, e)"
      "phase e = DataIn l n i" "busy e = 0" "content e = content d" unfolding P_def by auto
    obtain v e' where io: "inportw p 0x1F0 e = (v, e')" by (cases "inportw p 0x1F0 e")
    note io' = data_in [OF x(2,3) io]
    let ?b = "\<lambda>k. if s * 512 \<le> k \<and> k < s * 512 + 2 * i then content d l (k - s * 512) else buf k"
    have "read_word p s i x = (?b(s * 512 + i * 2 := content d l (2 * i), s * 512 + i * 2 + 1 := content d l (2 * i + 1)), e')"
      unfolding x(1) read_word_def using io io' x(4) by (simp add: ata_reg_defs ATA_SECTOR_SIZE_def get_word_bytes)
    also have "?b(s * 512 + i * 2 := content d l (2 * i), s * 512 + i * 2 + 1 := content d l (2 * i + 1)) =
      (\<lambda>k. if s * 512 \<le> k \<and> k < s * 512 + 2 * Suc i then content d l (k - s * 512) else buf k)"
      by (auto simp: fun_eq_iff mult.commute)
    finally show "P (Suc i) (read_word p s i x)"
      using io' x(4) unfolding P_def by (auto simp: advance_def)
  qed simp
  then show ?thesis unfolding P_def by simp
qed

lemma read_loop_ok:
  assumes "phase d = (if n = 0 then Idle else DataIn l n 0)"
  shows "\<exists>d'. ata_read_loop p s n buf d =
      (True, \<lambda>k. if s * 512 \<le> k \<and> k < (s + n) * 512
        then content d (l + of_nat ((k - s * 512) div 512)) ((k - s * 512) mod 512) else buf k, d') \<and>
    phase d' = Idle \<and> content d' = content d"
  using assms
proof (induction n arbitrary: s l buf d)
  case 0
  then show ?case by (auto simp: fun_eq_iff)
next
  case (Suc n)
  obtain st e where w: "ata_wait_drq p ATA_PRIMARY_IO d = (st, e)" "st AND ATA_SR_ERR = 0"
    "st AND ATA_SR_DRQ \<noteq> 0" "phase e = phase d" "content e = content d" "busy e = 0"
    using wait_drq_ok [of d] Suc.prems by auto
  obtain f where f: "fold (read_word p s) [0..<256] (buf, e) =
      (\<lambda>k. if s * 512 \<le> k \<and> k < s * 512 + 512 then content e l (k - s * 512) else buf k, f)"
    "phase f = (if Suc n \<le> 1 then Idle else DataIn (l + 1) (Suc n - 1) 0)" "content f = content e"
    using read_sector_ok [of e l "Suc n" s buf] w Suc.prems by auto
  have "phase f = (if n = 0 then Idle else DataIn (l + 1) n 0)" using f(2) by simp
  from Suc.IH [OF this] obtain g where g: "ata_read_loop p (Suc s) n
      (\<lambda>k. if s * 512 \<le> k \<and> k < s * 512 + 512 then content e l (k - s * 512) else buf k) f =
      (True, \<lambda>k. if Suc s * 512 \<le> k \<and> k < (Suc s + n) * 512
        then content f (l + 1 + of_nat ((k - Suc s * 512) div 512)) ((k - Suc s * 512) mod 512)
        else if s * 512 \<le> k \<and> k < s * 512 + 512 then content e l (k - s * 512) else buf k, g)"
      "phase g = Idle" "content g = content f" by blast
  have split: "(if Suc s * 512 \<le> k \<and> k < (Suc s + n) * 512
        then content d (l + 1 + of_nat ((k - Suc s * 512) div 512)) ((k - Suc s * 512) mod 512)
        else if s * 512 \<le> k \<and> k < s * 512 + 512 then content d l (k - s * 512) else buf k) =
      (if s * 512 \<le> k \<and> k < (s + Suc n) * 512
        then content d (l + of_nat ((k - s * 512) div 512)) ((k - s * 512) mod 512) else buf k)" for k
  proof (cases "Suc s * 512 \<le> k \<and> k < (Suc s + n) * 512")
    case True
    then obtain r where k: "k = Suc s * 512 + r" using le_Suc_ex by blast
    have "(k - s * 512) div 512 = Suc (r div 512)" "(k - s * 512) mod 512 = r mod 512" by (simp_all add: k)
    then show ?thesis using True k by (simp add: algebra_simps)
  next
    case False
    then show ?thesis by (cases "s * 512 \<le> k \<and> k < s * 512 + 512") auto
  qed
  have "ata_read_loop p s (Suc n) buf d = ata_read_loop p (Suc s) n
      (\<lambda>k. if s * 512 \<le> k \<and> k < s * 512 + 512 then content e l (k - s * 512) else buf k) f"
    by (simp add: w(1-3) f(1) del: upt_rec_numeral)
  with g(1) have "ata_read_loop p s (Suc n) buf d = (True, \<lambda>k. if s * 512 \<le> k \<and> k < (s + Suc n) * 512
        then content d (l + of_nat ((k - s * 512) div 512)) ((k - s * 512) mod 512) else buf k, g)"
    by (simp only: f(3) w(5) split)
  moreover have "content g = content d" using g(3) f(3) w(5) by simp
  ultimately show ?case using g(2) by (intro exI [of _ g] conjI)
qed

lemma write_sector_ok:
  assumes "phase d = DataOut l n 0" and "busy d = 0"
  shows "\<exists>d'. fold (write_word p s buf) [0..<256] d = d' \<and>
    phase d' = (if n \<le> 1 then Idle else DataOut (l + 1) (n - 1) 0) \<and>
    content d' = (content d)(l := \<lambda>j. if j < 512 then buf (s * 512 + j) else content d l j)"
proof -
  define P where "P i e \<longleftrightarrow> (if i < 256 then phase e = DataOut l n i \<and> busy e = 0
       else phase e = (if n \<le> 1 then Idle else DataOut (l + 1) (n - 1) 0)) \<and>
     content e = (content d)(l := \<lambda>j. if j < 2 * i then buf (s * 512 + j) else content d l j)" for i e
  have "P 256 (fold (write_word p s buf) [0..<256] d)"
  proof (rule fold_upt_inv)
    show "P 0 d" using assms unfolding P_def by simp
  next
    fix i e assume i: "i < 256" and "P i e"
    then have e: "phase e = DataOut l n i" "busy e = 0"
      "content e = (content d)(l := \<lambda>j. if j < 2 * i then buf (s * 512 + j) else content d l j)"
      unfolding P_def by auto
    note io = data_out [OF e(1,2) refl, of "ucast (buf (s * 512 + i * 2)) OR push_bit 8 (ucast (buf (s * 512 + i * 2 + 1)))"]
    have "content (write_word p s buf i e) =
      (content e)(l := (content e l)(2 * i := buf (s * 512 + i * 2), 2 * i + 1 := buf (s * 512 + i * 2 + 1)))"
      using io by (simp only: write_word_def ata_reg_defs ATA_SECTOR_SIZE_def put_word_bytes add_0_right)
    also have "\<dots> = (content d)(l := \<lambda>j. if j < 2 * Suc i then buf (s * 512 + j) else content d l j)"
      unfolding e(3) by (auto simp: fun_eq_iff mult.commute less_Suc_eq)
    finally have "content (write_word p s buf i e) =
      (content d)(l := \<lambda>j. if j < 2 * Suc i then buf (s * 512 + j) else content d l j)" .
    then show "P (Suc i) (write_word p s buf i e)"
      using io unfolding P_def by (auto simp: advance_def write_word_def ata_reg_defs ATA_SECTOR_SIZE_def)
  qed simp
  then show ?thesis unfolding P_def by simp
qed

lemma write_loop_ok:
  assumes "phase d = (if n = 0 then Idle else DataOut l n 0)" and "n \<le> 256"
  shows "\<exists>d'. ata_write_loop p s n buf d = (True, d') \<and> phase d' = Idle \<and>
    content d' = (\<lambda>k j. if unat (k - l) < n \<and> j < 512 then buf ((s + unat (k - l)) * 512 + j) else content d k j)"
  using assms
proof (induction n arbitrary: s l d)
  case (Suc n)
  obtain st e where w: "ata_wait_drq p ATA_PRIMARY_IO d = (st, e)" "st AND ATA_SR_ERR = 0"
    "st AND ATA_SR_DRQ \<noteq> 0" "phase e = phase d" "content e = content d" "busy e = 0"
    using wait_drq_ok [of d] Suc.prems by auto
  define f where "f = fold (write_word p s buf) [0..<256] e"
  have f: "phase f = (if n = 0 then Idle else DataOut (l + 1) n 0)"
    "content f = (content d)(l := \<lambda>j. if j < 512 then buf (s * 512 + j) else content d l j)"
    using write_sector_ok [of e l "Suc n" s buf] w Suc.prems(1) by (auto simp: f_def cong: if_cong)
  obtain t g where g: "ata_wait_ready p ATA_PRIMARY_IO f = (t, g)" "phase g = phase f" "content g = content f"
    using wait_ready_ok [of f] by metis
  have n: "n \<le> 256" "phase g = (if n = 0 then Idle else DataOut (l + 1) n 0)" using Suc.prems(2) f(1) g(2) by simp_all
  from Suc.IH [OF n(2,1), of "Suc s"] obtain h where h: "ata_write_loop p (Suc s) n buf g = (True, h)" "phase h = Idle"
    "content h = (\<lambda>k j. if unat (k - (l + 1)) < n \<and> j < 512
       then buf ((Suc s + unat (k - (l + 1))) * 512 + j) else content g k j)" by blast
  have "content h k j = (if unat (k - l) < Suc n \<and> j < 512 then buf ((s + unat (k - l)) * 512 + j) else content d k j)"
    for k j
  proof (cases "k = l")
    case True
    then have "unat (k - (l + 1)) = 2 ^ 32 - 1" by (simp add: unsigned_minus_1_eq_mask mask_eq_exp_minus_1)
    then show ?thesis using True f(2) g(3) h(3) n(1) by simp
  next
    case False
    then have "unat (k - l) = Suc (unat (k - (l + 1)))" by (rule unat_diff_Suc)
    then show ?thesis using False f(2) g(3) h(3) by simp
  qed
  then have "content h = (\<lambda>k j. if unat (k - l) < Suc n \<and> j < 512 then buf ((s + unat (k - l)) * 512 + j) else content d k j)"
    by (intro ext)
  then show ?case using w h g(1) by (simp add: Let_def flip: f_def)
qed (auto simp: fun_eq_iff)

lemma read_sectors_ok:
  assumes "present dev" and "phase d = Idle" and "lba < 2 ^ 28" and "0 < cnt" and "cnt \<le> 256"
  shows "\<exists>d'. ata_read_sectors p dev lba cnt buf d = (True, disk_read lba (unat cnt) buf (content d), d') \<and>
    phase d' = Idle \<and> content d' = content d"
proof -
  obtain e where e: "ata_command p lba cnt ATA_CMD_READ_PIO d = outportb p 0x1F7 ATA_CMD_READ_PIO e" "phase e = Idle"
    "busy e = 0" "content e = content d" "reg_lba (reg e) = lba" "reg_count (reg e) = unat cnt"
    using command_ok [OF assms(2-5)] by blast
  let ?f = "outportb p 0x1F7 0x20 e"
  have f: "phase ?f = DataIn lba (unat cnt) 0" "content ?f = content d"
    using read_cmd [OF e(2,3) refl] e(4-6) by simp_all
  moreover have "unat cnt \<noteq> 0" using assms(4) by (simp add: unat_eq_zero)
  ultimately have "phase ?f = (if unat cnt = 0 then Idle else DataIn lba (unat cnt) 0)" by simp
  from read_loop_ok [OF this, of 0 buf] show ?thesis
    using assms(1) e(1) f(2) by (simp add: ata_read_sectors_def ATA_CMD_READ_PIO_def disk_read_def ATA_SECTOR_SIZE_def cong: if_cong)
qed

lemma write_sectors_ok:
  assumes "present dev" and "phase d = Idle" and "lba < 2 ^ 28" and "0 < cnt" and "cnt \<le> 256"
  shows "\<exists>d'. ata_write_sectors p dev lba cnt buf d = (True, d') \<and> phase d' = Idle \<and>
    content d' = disk_write lba (unat cnt) buf (content d)"
proof -
  obtain e where e: "ata_command p lba cnt ATA_CMD_WRITE_PIO d = outportb p 0x1F7 ATA_CMD_WRITE_PIO e" "phase e = Idle"
    "busy e = 0" "content e = content d" "reg_lba (reg e) = lba" "reg_count (reg e) = unat cnt"
    using command_ok [OF assms(2-5)] by blast
  let ?f = "outportb p 0x1F7 0x30 e"
  have f: "phase ?f = DataOut lba (unat cnt) 0" "content ?f = content d"
    using write_cmd [OF e(2,3) refl] e(4-6) by simp_all
  moreover have "unat cnt \<noteq> 0" using assms(4) by (simp add: unat_eq_zero)
  ultimately have ph: "phase ?f = (if unat cnt = 0 then Idle else DataOut lba (unat cnt) 0)" by simp
  have le: "unat cnt \<le> 256" using assms(5) by (simp add: word_le_nat_alt)
  from write_loop_ok [OF ph le, of 0 buf] show ?thesis
    using assms(1) e(1) f(2) by (simp add: ata_write_sectors_def ATA_CMD_WRITE_PIO_def disk_write_def ATA_SECTOR_SIZE_def cong: if_cong)
qed

end

section \<open>A reference drive\<close>

text \<open>
  The protocol as a program: a drive that is busy for one poll after every command and after every
  sector. It satisfies the laws, so they are consistent.
\<close>

record drive =
  dreg :: "u16 \<Rightarrow> u8"
  dphase :: phase
  dcontent :: disk
  dbusy :: bool

definition drive_status :: "drive \<Rightarrow> u8" where
  "drive_status d = (if dbusy d then 0x80 else if dphase d = Idle then 0x40 else 0x48)"

definition pio_ports :: "drive ports" where
  "pio_ports = \<lparr>
     inportb = (\<lambda>r d. if r = 0x1F7 then (drive_status d, d\<lparr>dbusy := False\<rparr>) else (dreg d r, d)),
     inportw = (\<lambda>r d. case dphase d of
        DataIn l n w \<Rightarrow> (get_word l w (dcontent d), d\<lparr>dphase := advance DataIn l n w, dbusy := (w = 255)\<rparr>)
      | _ \<Rightarrow> (0, d)),
     outportb = (\<lambda>r v d.
        if r = 0x1F7 then
          d\<lparr>dphase := (if v = 0x20 then DataIn (reg_lba (dreg d)) (reg_count (dreg d)) 0
                        else if v = 0x30 then DataOut (reg_lba (dreg d)) (reg_count (dreg d)) 0 else Idle),
             dbusy := True\<rparr>
        else d\<lparr>dreg := (dreg d)(r := v)\<rparr>),
     outportw = (\<lambda>r x d. case dphase d of
        DataOut l n w \<Rightarrow> d\<lparr>dphase := advance DataOut l n w, dcontent := put_word l w x (dcontent d), dbusy := (w = 255)\<rparr>
      | _ \<Rightarrow> d)\<rparr>"

lemma status_bits:
  "bit (0x80 :: u8) 7" "\<not> bit (0x80 :: u8) 3" "\<not> bit (0x80 :: u8) 0" "\<not> bit (0x40 :: u8) 7"
  "\<not> bit (0x40 :: u8) 3" "\<not> bit (0x40 :: u8) 0" "\<not> bit (0x48 :: u8) 7" "bit (0x48 :: u8) 3" "\<not> bit (0x48 :: u8) 0"
  by (simp_all add: bit_iff_odd)

interpretation pio: ata_drive pio_ports dreg dphase dcontent "\<lambda>d. of_bool (dbusy d)"
  by unfold_locales (auto simp: pio_ports_def drive_status_def status_bits advance_def)

section \<open>Properties\<close>

text \<open>
  C16. The driver implements sector reads and writes: on an idle drive, for 1 to 256 blocks at an
  address below 2^28, \<^verbatim>\<open>ata_read_sectors\<close> succeeds, fills the buffer with exactly these
  blocks and changes nothing on the drive; \<^verbatim>\<open>ata_write_sectors\<close> succeeds and replaces
  exactly these blocks; and what was written is read back. The drive is idle again afterwards.
\<close>

theorem ata_transfer_correct:
  assumes drive: "ata_drive p reg phase content busy" and "present dev" and "phase d = Idle"
    and "lba < 2 ^ 28" and "0 < cnt" and "cnt \<le> 256"
  shows "(\<exists>d'. ata_read_sectors p dev lba cnt buf d = (True, disk_read lba (unat cnt) buf (content d), d') \<and>
      phase d' = Idle \<and> content d' = content d) \<and>
    (\<exists>d'. ata_write_sectors p dev lba cnt buf d = (True, d') \<and> phase d' = Idle \<and>
      content d' = disk_write lba (unat cnt) buf (content d) \<and>
      (\<exists>d''. ata_read_sectors p dev lba cnt buf' d' =
        (True, \<lambda>i. if i < unat cnt * ATA_SECTOR_SIZE then buf i else buf' i, d'')))"
proof
  note rd = ata_drive.read_sectors_ok [OF drive assms(2) _ assms(4-6)]
  show "\<exists>d'. ata_read_sectors p dev lba cnt buf d = (True, disk_read lba (unat cnt) buf (content d), d') \<and>
      phase d' = Idle \<and> content d' = content d"
    by (rule rd [OF assms(3)])
  obtain d' where d': "ata_write_sectors p dev lba cnt buf d = (True, d')" "phase d' = Idle"
    "content d' = disk_write lba (unat cnt) buf (content d)"
    using ata_drive.write_sectors_ok [OF drive assms(2-6), of buf] by blast
  from rd [OF d'(2), of buf'] d'(3) show "\<exists>d'. ata_write_sectors p dev lba cnt buf d = (True, d') \<and> phase d' = Idle \<and>
      content d' = disk_write lba (unat cnt) buf (content d) \<and>
      (\<exists>d''. ata_read_sectors p dev lba cnt buf' d' =
        (True, \<lambda>i. if i < unat cnt * ATA_SECTOR_SIZE then buf i else buf' i, d''))"
    using d' disk_read_write [of "unat cnt" lba buf' buf "content d"] unsigned_less [of cnt, where 'a = nat]
    by (auto cong: if_cong)
qed

theorem ata_transfer_correct_witness:
  "\<exists>d'. ata_write_sectors pio_ports \<lparr>base_port = 0, ctrl_port = 0, slave = 0, present = True, sectors = 9\<rparr> 7 1 (\<lambda>i. of_nat i)
     \<lparr>dreg = \<lambda>_. 0, dphase = Idle, dcontent = \<lambda>_ _. 0, dbusy = False\<rparr> = (True, d') \<and> dcontent d' 7 5 = 5"
  using ata_transfer_correct [OF pio.ata_drive_axioms,
      of "\<lparr>base_port = 0, ctrl_port = 0, slave = 0, present = True, sectors = 9\<rparr>"
         "\<lparr>dreg = \<lambda>_. 0, dphase = Idle, dcontent = \<lambda>_ _. 0, dbusy = False\<rparr>" 7 1 "\<lambda>i. of_nat i" "\<lambda>_. 0"]
  by (auto simp: disk_write_def ATA_SECTOR_SIZE_def)

end
