(* ===== verification/Fat12File.thy ===== *)
theory Fat12File
  imports Fat12Table Ata
begin

text \<open>
  File data in \<^verbatim>\<open>kernel/src/fs/fat12.c\<close>: the mounted volume, cluster transfers, and
  reading and writing at an offset along a cluster chain, with allocation of the clusters a write
  needs. Disk transfers are the sector operations of theory Ata (the volume exists only when
  a drive is present and its sectors have 512 bytes). Buffers are functions from offsets to bytes;
  a cluster buffer from \<^verbatim>\<open>malloc\<close> is completely overwritten by the transfer that
  follows, so its initial content is immaterial. Byte counts are 32-bit words that wrap. The
  loops along a chain are \<open>partial_function (option)\<close>.
\<close>

section \<open>The volume\<close>

record fat12_fs =
  bytes_per_sector :: u16
  sectors_per_cluster :: u8
  reserved_sectors :: u16
  num_fats :: u8
  root_entry_count :: u16
  total_sectors_16 :: u16
  fat_size_sectors :: u16
  total_sectors_32 :: u32
  fat_lba :: u32
  root_lba :: u32
  data_lba :: u32
  fat_cache :: fatbytes
  total_clusters :: u32
  lba_offset :: u32
  root_inode :: u32
  disk :: disk

definition bytes_per_cluster :: "fat12_fs \<Rightarrow> u32" where
  "bytes_per_cluster v = ucast (sectors_per_cluster v) * ucast (bytes_per_sector v)"

definition fat12_flush_fat :: "fat12_fs \<Rightarrow> fat12_fs" where
  "fat12_flush_fat v =
     fold (\<lambda>i v. v\<lparr>disk := disk_write (fat_lba v + of_nat i * ucast (fat_size_sectors v))
                            (unat (fat_size_sectors v)) (fat_cache v) (disk v)\<rparr>)
       [0..<unat (num_fats v)] v"

definition fat12_sync :: "fat12_fs \<Rightarrow> fat12_fs" where
  "fat12_sync v = fat12_flush_fat v"

definition allocate_cluster :: "fat12_fs \<Rightarrow> u32 \<times> fat12_fs" where
  "allocate_cluster v =
     (let (c, fat) = fat12_allocate_cluster (total_clusters v) (fat_cache v) in (c, v\<lparr>fat_cache := fat\<rparr>))"

definition next_cluster :: "fat12_fs \<Rightarrow> u32 \<Rightarrow> u32" where
  "next_cluster v c = ucast (fat12_get_fat_entry (fat_cache v) c)"

definition set_next :: "u32 \<Rightarrow> u32 \<Rightarrow> fat12_fs \<Rightarrow> fat12_fs" where
  "set_next c n v = v\<lparr>fat_cache := fat12_set_fat_entry c (ucast n) (fat_cache v)\<rparr>"

definition fat12_cluster_to_lba :: "fat12_fs \<Rightarrow> u32 \<Rightarrow> u32" where
  "fat12_cluster_to_lba v cluster = data_lba v + (cluster - 2) * ucast (sectors_per_cluster v)"

definition fat12_read_cluster :: "fat12_fs \<Rightarrow> u32 \<Rightarrow> bytes" where
  "fat12_read_cluster v cluster =
     disk_read (fat12_cluster_to_lba v cluster) (unat (sectors_per_cluster v)) (\<lambda>_. 0) (disk v)"

definition fat12_write_cluster :: "u32 \<Rightarrow> bytes \<Rightarrow> fat12_fs \<Rightarrow> fat12_fs" where
  "fat12_write_cluster cluster buf v =
     v\<lparr>disk := disk_write (fat12_cluster_to_lba v cluster) (unat (sectors_per_cluster v)) buf (disk v)\<rparr>"

section \<open>Reading and writing along a chain\<close>

text \<open>\<^verbatim>\<open>memcpy(dst + doff, src + soff, n)\<close> between two buffers.\<close>

definition copy_bytes :: "nat \<Rightarrow> bytes \<Rightarrow> nat \<Rightarrow> bytes \<Rightarrow> nat \<Rightarrow> bytes" where
  "copy_bytes n src soff dst doff =
     (\<lambda>i. if doff \<le> i \<and> i < doff + n then src (soff + (i - doff)) else dst i)"

text \<open>
  The part of the cluster at file position \<open>pos\<close> that the range from \<open>offset\<close> to
  \<open>tot\<close> touches: start and end inside the cluster, and the place in the caller's buffer.
\<close>

definition part_start :: "u32 \<Rightarrow> u32 \<Rightarrow> u32" where
  "part_start offset pos = (if pos < offset then offset - pos else 0)"

definition part_end :: "fat12_fs \<Rightarrow> u32 \<Rightarrow> u32 \<Rightarrow> u32" where
  "part_end v tot pos = (if tot < pos + bytes_per_cluster v then tot - pos else bytes_per_cluster v)"

definition part_buf :: "u32 \<Rightarrow> u32 \<Rightarrow> u32" where
  "part_buf offset pos = (if offset < pos then pos - offset else 0)"

partial_function (option) read_chain_loop ::
  "fat12_fs \<Rightarrow> u32 \<Rightarrow> u32 \<Rightarrow> u32 \<Rightarrow> u32 \<Rightarrow> bytes \<Rightarrow> (u32 \<times> bytes) option" where
  "read_chain_loop v offset sz bytes_read current buffer =
     (if current \<noteq> 0xFFFF \<and> bytes_read < offset + sz then
        let cluster_buf = fat12_read_cluster v current;
            start = part_start offset bytes_read;
            len = part_end v (offset + sz) bytes_read - start;
            buffer' = (if offset < bytes_read + bytes_per_cluster v \<and> bytes_read < offset + sz \<and> 0 < len
                       then copy_bytes (unat len) cluster_buf (unat start) buffer (unat (part_buf offset bytes_read))
                       else buffer)
        in read_chain_loop v offset sz (bytes_read + bytes_per_cluster v) (next_cluster v current) buffer'
      else Some (bytes_read, buffer))"

definition fat12_read_chain :: "fat12_fs \<Rightarrow> u32 \<Rightarrow> u32 \<Rightarrow> u32 \<Rightarrow> bytes \<Rightarrow> (u32 \<times> bytes) option" where
  "fat12_read_chain v first_cluster offset sz buffer =
     (case read_chain_loop v offset sz 0 first_cluster buffer of
        None \<Rightarrow> None
      | Some (bytes_read, buffer) \<Rightarrow>
          let actual = (if offset < bytes_read then bytes_read - offset else 0)
          in Some (if sz < actual then sz else actual, buffer))"

text \<open>
  The write loop ends with the number of bytes passed (\<open>Inr\<close>), or returns early when the
  volume is full in the middle of a cluster (\<open>Inl\<close>, the value returned).
\<close>

definition write_part :: "fat12_fs \<Rightarrow> u32 \<Rightarrow> u32 \<Rightarrow> u32 \<Rightarrow> u32 \<Rightarrow> bytes \<Rightarrow> fat12_fs" where
  "write_part v offset total_end pos current buffer =
     (let cluster_buf = fat12_read_cluster v current;
          start = part_start offset pos;
          len = part_end v total_end pos - start;
          cluster_buf = (if 0 < len
            then copy_bytes (unat len) buffer (unat (part_buf offset pos)) cluster_buf (unat start)
            else cluster_buf)
      in fat12_write_cluster current cluster_buf v)"

text \<open>
  One new cluster after \<open>current\<close>: allocate, link; \<open>None\<close> when the volume is full.
\<close>

definition extend_chain :: "u32 \<Rightarrow> fat12_fs \<Rightarrow> (u32 \<times> fat12_fs) option" where
  "extend_chain current v =
     (let (new_cluster, v) = allocate_cluster v
      in if new_cluster = 0 then None else Some (new_cluster, set_next current new_cluster v))"

partial_function (option) write_chain_loop ::
  "fat12_fs \<Rightarrow> u32 \<Rightarrow> u32 \<Rightarrow> u32 \<Rightarrow> u32 \<Rightarrow> bytes \<Rightarrow> ((u32 + u32) \<times> fat12_fs) option" where
  "write_chain_loop v offset total_end bytes_written current buffer =
     (if current \<noteq> 0xFFFF \<and> bytes_written < total_end then
        let nxt = next_cluster v current;
            clust_end = bytes_written + bytes_per_cluster v;
            mid = (if offset < clust_end \<and> bytes_written < total_end then
                     (case (if nxt = 0xFFFF \<and> clust_end < total_end then extend_chain current v else Some (nxt, v)) of
                        None \<Rightarrow> None
                      | Some (nxt, v) \<Rightarrow> Some (nxt, write_part v offset total_end bytes_written current buffer))
                   else Some (nxt, v))
        in case mid of
             None \<Rightarrow> Some (Inl (if offset < bytes_written then bytes_written - offset else 0), v)
           | Some (nxt, v) \<Rightarrow>
               (case (if nxt = 0xFFFF \<and> clust_end < total_end then extend_chain current v else Some (nxt, v)) of
                  None \<Rightarrow> Some (Inr clust_end, v)
                | Some (nxt, v) \<Rightarrow> write_chain_loop v offset total_end clust_end nxt buffer)
      else Some (Inr bytes_written, v))"

definition fat12_write_chain :: "fat12_fs \<Rightarrow> u32 \<Rightarrow> u32 \<Rightarrow> u32 \<Rightarrow> bytes \<Rightarrow> (u32 \<times> fat12_fs) option" where
  "fat12_write_chain v first_cluster offset sz buffer =
     (let total_end = offset + sz
      in case write_chain_loop v offset total_end 0 first_cluster buffer of
           None \<Rightarrow> None
         | Some (Inl r, v) \<Rightarrow> Some (r, v)
         | Some (Inr bytes_written, v) \<Rightarrow>
             Some (if offset < total_end
                   then (if total_end < bytes_written then sz
                         else if offset < bytes_written then bytes_written - offset else 0)
                   else 0, v))"


section \<open>Well-formed volumes, chains and their bytes\<close>

definition vol_ok :: "fat12_fs \<Rightarrow> bool" where
  "vol_ok v \<longleftrightarrow> bytes_per_sector v = 512 \<and> 0 < sectors_per_cluster v \<and> unat (total_clusters v) \<le> 0xFF5"

definition in_data :: "fat12_fs \<Rightarrow> u32 \<Rightarrow> bool" where
  "in_data v c \<longleftrightarrow> 2 \<le> c \<and> c < total_clusters v + 2"

definition bpc :: "fat12_fs \<Rightarrow> nat" where
  "bpc v = 512 * unat (sectors_per_cluster v)"

text \<open>The clusters of a file: linked by the table, ending in the end mark.\<close>

fun chain :: "fat12_fs \<Rightarrow> u32 \<Rightarrow> u32 list \<Rightarrow> bool" where
  "chain v c [] \<longleftrightarrow> c = 0xFFFF"
| "chain v c (d # ds) \<longleftrightarrow> d = c \<and> in_data v c \<and> chain v (next_cluster v c) ds"

definition chain_byte :: "fat12_fs \<Rightarrow> u32 list \<Rightarrow> nat \<Rightarrow> u8" where
  "chain_byte v cs i = fat12_read_cluster v (cs ! (i div bpc v)) (i mod bpc v)"

lemma unat_bytes_per_cluster:
  assumes "vol_ok v"
  shows "unat (bytes_per_cluster v) = bpc v" "0 < bpc v" "bpc v < 0x20000"
proof -
  have s: "unat (sectors_per_cluster v) < 256"
    using unsigned_less [of "sectors_per_cluster v", where 'a = nat] by simp
  have "unat (ucast (sectors_per_cluster v) :: u32) = unat (sectors_per_cluster v)"
    using s by (simp add: unat_ucast_mod)
  then show "unat (bytes_per_cluster v) = bpc v"
    using assms s by (simp add: bytes_per_cluster_def bpc_def vol_ok_def unat_word_ariths)
  show "0 < bpc v" "bpc v < 0x20000"
    using assms s by (simp_all add: bpc_def vol_ok_def word_less_nat_alt)
qed

lemma in_data_bound:
  assumes "vol_ok v" and "in_data v c"
  shows "2 \<le> unat c" "unat c < 0xFF7" "c \<noteq> 0xFFFF" "unat c < unat (total_clusters v) + 2"
proof -
  have "unat (total_clusters v + 2) = unat (total_clusters v) + 2"
    using assms(1) unat_add_small [of "total_clusters v" 2] by (simp add: vol_ok_def)
  then show "2 \<le> unat c" "unat c < 0xFF7" "unat c < unat (total_clusters v) + 2"
    using assms by (simp_all add: in_data_def vol_ok_def word_le_nat_alt word_less_nat_alt)
  then show "c \<noteq> 0xFFFF" by auto
qed

lemma chain_in_data: "chain v c cs \<Longrightarrow> d \<in> set cs \<Longrightarrow> in_data v d"
  by (induction cs arbitrary: c) auto

lemma chain_Nil_iff: "vol_ok v \<Longrightarrow> chain v c cs \<Longrightarrow> c = 0xFFFF \<longleftrightarrow> cs = []"
  using in_data_bound(3) by (cases cs) auto

lemma chain_cong:
  assumes "\<forall>d\<in>set cs. next_cluster v' d = next_cluster v d" and "total_clusters v' = total_clusters v"
  shows "chain v' c cs = chain v c cs"
  using assms by (induction cs arbitrary: c) (auto simp: in_data_def)

text \<open>Two data clusters occupy different sectors.\<close>

lemma cluster_lba_apart:
  assumes "vol_ok v" and "in_data v c" and "in_data v d" and "i < unat (sectors_per_cluster v)"
  shows "unat (fat12_cluster_to_lba v c + of_nat i - fat12_cluster_to_lba v d) < unat (sectors_per_cluster v) \<longleftrightarrow> c = d"
proof
  let ?s = "unat (sectors_per_cluster v)"
  define m n where "m = unat c - 2" and "n = unat d - 2"
  have b: "2 \<le> unat c" "unat c < 0xFF7" "2 \<le> unat d" "unat d < 0xFF7" and s: "?s < 256"
    using in_data_bound [OF assms(1)] assms(2,3) unsigned_less [of "sectors_per_cluster v", where 'a = nat] by auto
  have c: "c - 2 = of_nat m" "d - 2 = of_nat n"
    using b by (simp_all add: m_def n_def word_unat_eq_iff unat_sub_if_size unat_of_nat_small)
  have eq: "fat12_cluster_to_lba v c + of_nat i - fat12_cluster_to_lba v d =
    of_nat (m * ?s + i) - (of_nat (n * ?s) :: u32)"
    by (simp add: fat12_cluster_to_lba_def c of_nat_unat)
  have sm: "m * ?s + i < 0x100000" "n * ?s < 0x100000"
  proof -
    have "m * ?s \<le> 0xFF5 * 255" "n * ?s \<le> 0xFF5 * 255"
      using b s by (intro mult_le_mono; simp add: m_def n_def)+
    then show "m * ?s + i < 0x100000" "n * ?s < 0x100000" using assms(4) s by simp_all
  qed
  have u: "unat (of_nat (m * ?s + i) - (of_nat (n * ?s) :: u32)) =
    (if n * ?s \<le> m * ?s + i then m * ?s + i - n * ?s else (m * ?s + i) + 2 ^ 32 - n * ?s)"
    using sm by (intro unat_of_nat_diff) simp_all
  have inj: "c = d \<longleftrightarrow> m = n" using b by (auto simp: m_def n_def word_unat_eq_iff)
  {
    assume "unat (fat12_cluster_to_lba v c + of_nat i - fat12_cluster_to_lba v d) < ?s"
    then have lt: "n * ?s \<le> m * ?s + i" "m * ?s + i < Suc n * ?s"
      unfolding eq u using sm s by (auto split: if_splits)
    have "Suc m * ?s = m * ?s + ?s" by simp
    then have "n * ?s < Suc m * ?s" using lt(1) assms(4) by linarith
    moreover have "m * ?s < Suc n * ?s" using lt(2) by simp
    ultimately show "c = d" using inj by (simp del: mult_Suc)
  }
  assume "c = d"
  then show "unat (fat12_cluster_to_lba v c + of_nat i - fat12_cluster_to_lba v d) < ?s"
    using assms(4) s by (simp add: unat_of_nat_small)
qed

lemma read_write_cluster:
  assumes "vol_ok v" and "in_data v c" and "in_data v d" and "j < bpc v"
  shows "fat12_read_cluster (fat12_write_cluster c buf v) d j = (if c = d then buf j else fat12_read_cluster v d j)"
proof -
  have q: "j div 512 < unat (sectors_per_cluster v)" using assms(4) by (simp add: bpc_def less_mult_imp_div_less)
  have "unat (sectors_per_cluster v) < 256" using unsigned_less [of "sectors_per_cluster v", where 'a = nat] by simp
  then have "unat (of_nat (j div 512) :: u32) = j div 512" using q by (intro unat_of_nat_small) simp
  moreover have "fat12_cluster_to_lba (fat12_write_cluster c buf v) d = fat12_cluster_to_lba v d"
    by (simp add: fat12_cluster_to_lba_def fat12_write_cluster_def)
  ultimately show ?thesis
    using cluster_lba_apart [OF assms(1,3,2) q] assms(4)
    by (auto simp: fat12_read_cluster_def fat12_write_cluster_def disk_read_def disk_write_def ATA_SECTOR_SIZE_def bpc_def)
qed


section \<open>Reading\<close>

text \<open>The word arithmetic of one round, in numbers.\<close>

lemma part_numbers:
  assumes "vol_ok v" and "unat pos < unat tot" and "unat offset \<le> unat tot" and "unat tot + bpc v < 2 ^ 32"
  shows "unat (pos + bytes_per_cluster v) = unat pos + bpc v"
    and "unat (part_start offset pos) = unat offset - unat pos"
    and "unat (part_buf offset pos) = unat pos - unat offset"
    and "unat (part_end v tot pos) = min (unat tot - unat pos) (bpc v)"
    and "unat offset < unat pos + bpc v \<Longrightarrow>
      unat (part_end v tot pos - part_start offset pos) = min (unat tot - unat pos) (bpc v) - (unat offset - unat pos)"
proof -
  note b = unat_bytes_per_cluster [OF assms(1)]
  show 1: "unat (pos + bytes_per_cluster v) = unat pos + bpc v"
    using assms(2,4) b(1) by (simp add: unat_word_ariths)
  show 2: "unat (part_start offset pos) = unat offset - unat pos"
    by (auto simp: part_start_def word_less_nat_alt unat_sub_if_size)
  show "unat (part_buf offset pos) = unat pos - unat offset"
    by (auto simp: part_buf_def word_less_nat_alt unat_sub_if_size)
  show 3: "unat (part_end v tot pos) = min (unat tot - unat pos) (bpc v)"
    using assms(2) by (auto simp: part_end_def word_less_nat_alt unat_sub_if_size 1 b(1))
  assume "unat offset < unat pos + bpc v"
  then have "unat (part_start offset pos) \<le> unat (part_end v tot pos)" unfolding 2 3 using assms(2,3) by auto
  then show "unat (part_end v tot pos - part_start offset pos) = min (unat tot - unat pos) (bpc v) - (unat offset - unat pos)"
    using 2 3 by (simp add: unat_sub_if_size)
qed

text \<open>What one round copies into the caller's buffer.\<close>

lemma copy_out:
  fixes B p q t :: nat
  assumes "p < t" and "q \<le> t" and "q < p + B"
  shows "copy_bytes (min (t - p) B - (q - p)) src (q - p) buf (p - q) i =
    (if p \<le> q + i \<and> q + i < t \<and> q + i < p + B then src (q + i - p) else buf i)"
  using assms by (cases "q \<le> p") (auto simp: copy_bytes_def add.commute)

lemma copy_bytes_0: "copy_bytes 0 src a buf b = buf"
  by (auto simp: copy_bytes_def fun_eq_iff)

lemma chain_byte_Cons:
  assumes "0 < bpc v"
  shows "chain_byte v (d # ds) i = (if i < bpc v then fat12_read_cluster v d i else chain_byte v ds (i - bpc v))"
proof (cases "i < bpc v")
  case False
  then obtain r where "i = bpc v + r" using le_Suc_ex not_less by blast
  then have "i div bpc v = Suc (r div bpc v)" "i mod bpc v = r mod bpc v" "i - bpc v = r"
    using assms by (simp_all add: div_add_self1)
  then show ?thesis using False by (simp add: chain_byte_def)
qed (simp add: chain_byte_def)

lemma read_chain_loop_ok:
  assumes "vol_ok v" and "chain v c cs" and "unat offset + unat sz + bpc v < 2 ^ 32"
  defines "t \<equiv> unat offset + unat sz"
  shows "\<exists>pos'. read_chain_loop v offset sz pos c buf =
      Some (pos', \<lambda>i. if unat pos \<le> unat offset + i \<and> unat offset + i < t \<and>
          unat offset + i < unat pos + bpc v * length cs
        then chain_byte v cs (unat offset + i - unat pos) else buf i) \<and>
    unat pos' \<le> unat pos + bpc v * length cs \<and> (unat pos' < t \<longrightarrow> unat pos' = unat pos + bpc v * length cs)"
  using assms(2)
proof (induction cs arbitrary: c pos buf)
  case Nil
  then show ?case by (subst read_chain_loop.simps) (auto simp: fun_eq_iff)
next
  case (Cons d ds)
  have t: "unat (offset + sz) = t" using assms(3) by (simp add: t_def unat_word_ariths)
  have c: "c \<noteq> 0xFFFF" "d = c" using Cons.prems in_data_bound(3) [OF assms(1)] by auto
  show ?case
  proof (cases "unat pos < t")
    case False
    then have "read_chain_loop v offset sz pos c buf = Some (pos, buf)"
      using t by (subst read_chain_loop.simps) (simp add: word_less_nat_alt)
    then show ?thesis using False by (auto simp: fun_eq_iff)
  next
    case True
    let ?q = "unat offset" and ?p = "unat pos" and ?B = "bpc v"
    have pn: "?q \<le> unat (offset + sz)" "?p < unat (offset + sz)" "unat (offset + sz) + ?B < 2 ^ 32"
      using True t assms(3) by (simp_all add: t_def)
    note num = part_numbers [OF assms(1) pn(2,1,3), unfolded t]
    define buf' where "buf' = (\<lambda>i. if ?p \<le> ?q + i \<and> ?q + i < t \<and> ?q + i < ?p + ?B
       then fat12_read_cluster v c (?q + i - ?p) else buf i)"
    have step: "read_chain_loop v offset sz pos c buf =
      read_chain_loop v offset sz (pos + bytes_per_cluster v) (next_cluster v c) buf'"
    proof (cases "?q < ?p + ?B")
      case True
      define k where "k = min (t - ?p) ?B - (?q - ?p)"
      have k: "unat (part_end v (offset + sz) pos - part_start offset pos) = k" using num(5) True by (simp add: k_def)
      have "buf' = copy_bytes k (fat12_read_cluster v c) (?q - ?p) buf (?p - ?q)"
        using copy_out [of ?p t ?q ?B] \<open>?p < t\<close> True t pn(1) by (auto simp: buf'_def fun_eq_iff k_def)
      then show ?thesis using c True \<open>?p < t\<close> t num(1-3) k
        by (subst read_chain_loop.simps) (cases "k = 0"; simp add: word_less_nat_alt Let_def copy_bytes_0)
    next
      case False
      then have "buf' = buf" by (auto simp: buf'_def fun_eq_iff)
      then show ?thesis using c False \<open>?p < t\<close> t num
        by (subst read_chain_loop.simps) (simp add: word_less_nat_alt Let_def)
    qed
    have ch: "chain v (next_cluster v c) ds" using Cons.prems by simp
    from Cons.IH [OF ch, of "pos + bytes_per_cluster v" buf'] obtain pos' where ih:
      "read_chain_loop v offset sz pos c buf = Some (pos', \<lambda>i. if ?p + ?B \<le> ?q + i \<and> ?q + i < t \<and>
          ?q + i < ?p + ?B + ?B * length ds then chain_byte v ds (?q + i - (?p + ?B)) else buf' i)"
      "unat pos' \<le> ?p + ?B + ?B * length ds" "unat pos' < t \<longrightarrow> unat pos' = ?p + ?B + ?B * length ds"
      unfolding step num(1) by auto
    have "(if ?p + ?B \<le> ?q + i \<and> ?q + i < t \<and> ?q + i < ?p + ?B + ?B * length ds
        then chain_byte v ds (?q + i - (?p + ?B)) else buf' i) =
      (if ?p \<le> ?q + i \<and> ?q + i < t \<and> ?q + i < ?p + ?B * length (d # ds)
        then chain_byte v (d # ds) (?q + i - ?p) else buf i)" for i
      unfolding buf'_def chain_byte_Cons [OF unat_bytes_per_cluster(2) [OF assms(1)]] c(2)
      by (auto simp: diff_diff_eq)
    then show ?thesis using ih by (simp add: algebra_simps)
  qed
qed


lemma read_chain_ok:
  assumes "vol_ok v" and "chain v c cs" and "unat offset + unat sz + bpc v < 2 ^ 32"
  defines "n \<equiv> min (unat sz) (bpc v * length cs - unat offset)"
  shows "fat12_read_chain v c offset sz buf =
    Some (of_nat n, \<lambda>i. if i < n then chain_byte v cs (unat offset + i) else buf i)"
proof -
  obtain pos where r: "read_chain_loop v offset sz 0 c buf =
      Some (pos, \<lambda>i. if unat offset + i < unat offset + unat sz \<and> unat offset + i < bpc v * length cs
        then chain_byte v cs (unat offset + i) else buf i)"
    "unat pos \<le> bpc v * length cs" "unat pos < unat offset + unat sz \<longrightarrow> unat pos = bpc v * length cs"
    using read_chain_loop_ok [OF assms(1-3), of 0 buf] by (auto cong: if_cong)
  have n: "n < 2 ^ 32" using assms(3) by (simp add: n_def)
  define a where "a = (if offset < pos then pos - offset else 0)"
  have "unat a = unat pos - unat offset" by (simp add: a_def word_less_nat_alt unat_sub_if_size)
  moreover have "min (unat sz) (unat pos - unat offset) = n"
    using r(2,3) by (cases "unat pos < unat offset + unat sz") (auto simp: n_def)
  ultimately have "unat (if sz < a then sz else a) = n" by (auto simp: word_less_nat_alt min_def split: if_splits)
  then have "(if sz < a then sz else a) = of_nat n" by (rule of_nat_unatI)
  moreover have "(\<lambda>i. if unat offset + i < unat offset + unat sz \<and> unat offset + i < bpc v * length cs
        then chain_byte v cs (unat offset + i) else buf i) = (\<lambda>i. if i < n then chain_byte v cs (unat offset + i) else buf i)"
    by (auto simp: n_def fun_eq_iff)
  ultimately show ?thesis unfolding fat12_read_chain_def r(1) option.case prod.case Let_def a_def by (simp only:)
qed


section \<open>Writing\<close>

text \<open>
  A write changes only the cached table and the data area: the geometry of the volume stays.
\<close>

definition same_geometry :: "fat12_fs \<Rightarrow> fat12_fs \<Rightarrow> bool" where
  "same_geometry v v' \<longleftrightarrow> v' = v\<lparr>fat_cache := fat_cache v', disk := disk v'\<rparr>"

lemma same_geometryI: "same_geometry v (v\<lparr>fat_cache := f\<rparr>)" "same_geometry v (v\<lparr>disk := dk\<rparr>)"
  by (simp_all add: same_geometry_def)

lemma same_geometry_refl [simp]: "same_geometry v v"
  by (simp add: same_geometry_def)

lemma same_geometry_trans: "same_geometry u v \<Longrightarrow> same_geometry v w \<Longrightarrow> same_geometry u w"
  unfolding same_geometry_def by (metis (no_types, lifting) fat12_fs.surjective fat12_fs.update_convs(12,16))

lemma same_geometry_fields:
  assumes "same_geometry v v'"
  shows "vol_ok v' = vol_ok v" "in_data v' c = in_data v c" "bpc v' = bpc v"
    "bytes_per_cluster v' = bytes_per_cluster v" "total_clusters v' = total_clusters v"
    "fat12_cluster_to_lba v' c = fat12_cluster_to_lba v c"
proof -
  have v': "v' = v\<lparr>fat_cache := fat_cache v', disk := disk v'\<rparr>" using assms by (simp only: same_geometry_def)
  show "vol_ok v' = vol_ok v" "in_data v' c = in_data v c" "bpc v' = bpc v"
    "bytes_per_cluster v' = bytes_per_cluster v" "total_clusters v' = total_clusters v"
    "fat12_cluster_to_lba v' c = fat12_cluster_to_lba v c"
    by (subst v', simp add: vol_ok_def in_data_def bpc_def bytes_per_cluster_def fat12_cluster_to_lba_def)+
qed

lemma next_write_cluster [simp]: "next_cluster (fat12_write_cluster c buf v) d = next_cluster v d"
  by (simp add: next_cluster_def fat12_write_cluster_def)

lemma geometry_write_cluster [simp]: "same_geometry v (fat12_write_cluster c buf v)"
  by (simp add: fat12_write_cluster_def same_geometryI)

lemma geometry_set_next [simp]: "same_geometry v (set_next c n v)"
  by (simp add: set_next_def same_geometryI)

lemma read_set_next [simp]: "fat12_read_cluster (set_next c n v) d = fat12_read_cluster v d"
  by (simp add: set_next_def fat12_read_cluster_def fat12_cluster_to_lba_def)

lemma next_set_next:
  assumes "unat c < 0x10000" and "unat d < 0x10000" and "unat n < 0xFF7"
  shows "next_cluster (set_next c n v) d = (if c = d then n else next_cluster v d)"
proof -
  have u: "unat (ucast n :: u16) = unat n" using assms(3) by (simp add: unat_ucast_mod)
  then have "ucast n < (0x1000 :: u16)" and nn: "fat_norm (ucast n) = ucast n"
    using assms(3) by (simp_all add: word_less_nat_alt fat_norm_def word_le_nat_alt)
  moreover have "ucast (ucast n :: u16) = n"
    using u by (simp add: word_unat_eq_iff unat_ucast_mod)
  ultimately show ?thesis using ft.succ_upd [OF assms(1,2)] by (simp add: next_cluster_def set_next_def nn)
qed

text \<open>A free cluster, and what taking one does.\<close>

definition cluster_free :: "fat12_fs \<Rightarrow> u32 \<Rightarrow> bool" where
  "cluster_free v c \<longleftrightarrow> in_data v c \<and> next_cluster v c = 0"

lemma ucast16_0_iff [simp]: "(ucast (x :: u16) :: u32) = 0 \<longleftrightarrow> x = 0"
proof
  assume "(ucast x :: u32) = 0"
  then have "unat (ucast x :: u32) = 0" by simp
  moreover have "unat x < 2 ^ 16" using unsigned_less [of x, where 'a = nat] by simp
  ultimately have "unat x = 0" by (simp add: unat_ucast_mod)
  then show "x = 0" by (simp add: unat_eq_zero)
qed simp

lemma extend_chain_cases:
  assumes "vol_ok v" and "in_data v c" and "next_cluster v c \<noteq> 0"
  obtains (full) "extend_chain c v = None" "\<forall>d. \<not> cluster_free v d"
  | (ok) n v' where "extend_chain c v = Some (n, v')" "cluster_free v n" "n \<noteq> c" "same_geometry v v'"
      "\<forall>d. fat12_read_cluster v' d = fat12_read_cluster v d"
      "\<forall>d. in_data v d \<longrightarrow> next_cluster v' d = (if d = c then n else if d = n then 0xFFFF else next_cluster v d)"
proof (rule alloc_loop_cases [of 2 "total_clusters v + 2" "fat_cache v"])
  assume a: "alloc_loop 2 (total_clusters v + 2) (fat_cache v) = (0, fat_cache v)"
    "\<forall>c. 2 \<le> c \<and> c < total_clusters v + 2 \<longrightarrow> \<not> fat_free (fat_cache v) c"
  then have "extend_chain c v = None"
    by (simp add: extend_chain_def allocate_cluster_def fat12_allocate_cluster_def)
  moreover have "\<not> cluster_free v d" for d
    using a(2) by (auto simp: cluster_free_def in_data_def fat_free_def next_cluster_def)
  ultimately show thesis using full by blast
next
  fix n assume a: "alloc_loop 2 (total_clusters v + 2) (fat_cache v) = (n, fat12_set_fat_entry n 0xFFF (fat_cache v))"
    "2 \<le> n" "n < total_clusters v + 2" "fat_free (fat_cache v) n"
  let ?w = "v\<lparr>fat_cache := fat12_set_fat_entry n 0xFFF (fat_cache v)\<rparr>" and ?v' = "set_next c n (v\<lparr>fat_cache := fat12_set_fat_entry n 0xFFF (fat_cache v)\<rparr>)"
  have n: "cluster_free v n" "in_data v n" using a by (simp_all add: cluster_free_def in_data_def fat_free_def next_cluster_def)
  have nz: "n \<noteq> 0" "n \<noteq> c" using n assms in_data_bound(1) [OF assms(1) n(2)] by (auto simp: cluster_free_def)
  have "extend_chain c v = Some (n, ?v')"
    using a(1) nz by (simp add: extend_chain_def allocate_cluster_def fat12_allocate_cluster_def)
  moreover have "same_geometry v ?v'" by (rule same_geometry_trans [OF same_geometryI(1) geometry_set_next])
  moreover have "fat12_read_cluster ?v' d = fat12_read_cluster v d" for d
    unfolding read_set_next by (simp add: fat12_read_cluster_def fat12_cluster_to_lba_def)
  moreover have "next_cluster ?v' d = (if d = c then n else if d = n then 0xFFFF else next_cluster v d)" if d: "in_data v d" for d
  proof -
    have b: "unat c < 0x10000" "unat d < 0x10000" "unat n < 0xFF7"
      using in_data_bound(2) [OF assms(1) assms(2)] in_data_bound(2) [OF assms(1) d] in_data_bound(2) [OF assms(1) n(2)] by simp_all
    have "next_cluster ?w d = (if d = n then 0xFFFF else next_cluster v d)"
      using ft.succ_upd [of n d "0xFFF" "fat_cache v"] b by (auto simp: next_cluster_def fat_norm_def)
    then show ?thesis using next_set_next [OF b, of ?w] nz by simp
  qed
  ultimately show thesis using ok n nz by blast
qed


text \<open>
  The effect of a write along the chain \<open>cs\<close> that starts at file position \<open>p\<close>: the chain
  grows by \<open>es\<close>, clusters that were free; links and data of all other clusters stay; and the
  bytes from \<open>q\<close> on, up to \<open>t\<close> and to the position \<open>e\<close> reached, are those of the buffer.
\<close>

definition wrote :: "bytes \<Rightarrow> nat \<Rightarrow> nat \<Rightarrow> fat12_fs \<Rightarrow> u32 \<Rightarrow> u32 list \<Rightarrow> nat \<Rightarrow> nat \<Rightarrow> u32 list \<Rightarrow> fat12_fs \<Rightarrow> bool" where
  "wrote buf q t v c cs p e es v' \<longleftrightarrow>
     same_geometry v v' \<and> chain v' c (cs @ es) \<and> distinct (cs @ es) \<and> (\<forall>x\<in>set es. cluster_free v x) \<and>
     (\<forall>x. in_data v x \<and> x \<notin> set es \<and> (es = [] \<or> cs = [] \<or> x \<noteq> last cs) \<longrightarrow> next_cluster v' x = next_cluster v x) \<and>
     (\<forall>x j. in_data v x \<and> x \<notin> set (cs @ es) \<and> j < bpc v \<longrightarrow> fat12_read_cluster v' x j = fat12_read_cluster v x j) \<and>
     (\<forall>i < bpc v * length (cs @ es). chain_byte v' (cs @ es) i =
        (if q \<le> p + i \<and> p + i < t \<and> p + i < e then buf (p + i - q) else chain_byte v (cs @ es) i)) \<and>
     p \<le> e \<and> e \<le> p + bpc v * length (cs @ es)"

lemma wrote_nothing:
  assumes "chain v c cs" and "distinct cs"
  shows "wrote buf q t v c cs p p [] v"
  using assms by (simp add: wrote_def)

lemma chain_byte_cong:
  assumes "bpc v' = bpc v" and "0 < bpc v" and "i < bpc v * length cs"
    and "\<And>x j. x \<in> set cs \<Longrightarrow> j < bpc v \<Longrightarrow> fat12_read_cluster v' x j = fat12_read_cluster v x j"
  shows "chain_byte v' cs i = chain_byte v cs i"
proof -
  have "i div bpc v < length cs" using assms(3) by (simp add: less_mult_imp_div_less mult.commute)
  then show ?thesis using assms by (simp add: chain_byte_def)
qed

text \<open>One cluster \<open>d\<close> processed, then the rest of the chain.\<close>

lemma wrote_Cons:
  assumes vol: "vol_ok v" and ch: "chain v d (d # ds)" "distinct (d # ds)" and geo: "same_geometry v w"
    and tail: "wrote buf q t w c ds' (p + bpc v) e es v'" and c: "c = next_cluster w d"
    and ext: "ds' = ds \<and> (\<forall>x. in_data v x \<longrightarrow> next_cluster w x = next_cluster v x) \<or>
      ds = [] \<and> ds' = [n] \<and> cluster_free v n \<and> n \<noteq> d \<and>
      (\<forall>x. in_data v x \<longrightarrow> next_cluster w x = (if x = d then n else if x = n then 0xFFFF else next_cluster v x))"
    and other: "\<And>x j. in_data v x \<Longrightarrow> x \<noteq> d \<Longrightarrow> j < bpc v \<Longrightarrow> fat12_read_cluster w x j = fat12_read_cluster v x j"
    and this_cl: "\<And>j. j < bpc v \<Longrightarrow> fat12_read_cluster w d j =
      (if q \<le> p + j \<and> p + j < t then buf (p + j - q) else fat12_read_cluster v d j)"
  shows "\<exists>es'. wrote buf q t v d (d # ds) p e es' v' \<and> d # ds @ es' = d # ds' @ es"
proof -
  define es' where "es' = (if ds' = ds then es else n # es)"
  have eq: "ds @ es' = ds' @ es" using ext by (auto simp: es'_def)
  note g = same_geometry_fields [OF geo]
  note b = unat_bytes_per_cluster(2) [OF vol]
  have d: "in_data v d" using ch(1) by simp
  from tail have t: "same_geometry w v'" "chain v' c (ds' @ es)" "distinct (ds' @ es)" "\<forall>x\<in>set es. cluster_free w x"
    "\<forall>x. in_data v x \<and> x \<notin> set es \<and> (es = [] \<or> ds' = [] \<or> x \<noteq> last ds') \<longrightarrow> next_cluster v' x = next_cluster w x"
    "\<forall>x j. in_data v x \<and> x \<notin> set (ds' @ es) \<and> j < bpc v \<longrightarrow> fat12_read_cluster v' x j = fat12_read_cluster w x j"
    "\<forall>i < bpc v * length (ds' @ es). chain_byte v' (ds' @ es) i =
        (if q \<le> p + bpc v + i \<and> p + bpc v + i < t \<and> p + bpc v + i < e then buf (p + bpc v + i - q) else chain_byte w (ds' @ es) i)"
    "p + bpc v \<le> e" "e \<le> p + bpc v + bpc v * length (ds' @ es)"
    by (simp_all add: wrote_def g)
  have dw: "next_cluster w d \<noteq> 0"
  proof (cases "ds' = ds")
    case True
    then have "next_cluster w d = next_cluster v d" using ext d by auto
    moreover have "next_cluster v d \<noteq> 0"
      using ch(1) in_data_bound(1) [OF vol, of "next_cluster v d"] by (cases ds) (auto simp: in_data_def)
    ultimately show ?thesis by simp
  next
    case False
    then show ?thesis using ext d in_data_bound(1) [OF vol, of n] by (auto simp: cluster_free_def)
  qed
  have d_new: "d \<notin> set (ds' @ es)" using ext ch(2) t(4) dw by (auto simp: cluster_free_def)
  have d_last: "es = [] \<or> ds' = [] \<or> d \<noteq> last ds'" using d_new by (cases ds' rule: rev_cases) auto
  have free: "\<forall>x\<in>set es'. cluster_free v x"
  proof
    fix x assume "x \<in> set es'"
    then consider "x = n" "ds' \<noteq> ds" | "x \<in> set es" by (auto simp: es'_def split: if_splits)
    then show "cluster_free v x"
    proof cases
      case 2
      then have "in_data v x" "next_cluster w x = 0" "x \<noteq> d" using t(4) g(2) d_new by (auto simp: cluster_free_def)
      then show ?thesis using ext by (auto simp: cluster_free_def split: if_splits)
    qed (use ext in auto)
  qed
  have nd: "next_cluster v' d = c" using t(5) d d_new d_last c by simp
  have "chain v' d (d # ds @ es')"
    using t(2) nd d same_geometry_fields(2) [OF same_geometry_trans [OF geo t(1)]] by (simp add: eq)
  moreover have "distinct (d # ds @ es')" unfolding eq using t(3) d_new by simp
  moreover have "next_cluster v' x = next_cluster v x"
    if x: "in_data v x" "x \<notin> set es'" "es' = [] \<or> x \<noteq> last (d # ds)" for x
  proof (cases "ds' = ds")
    case True
    then have "es = [] \<or> ds' = [] \<or> x \<noteq> last ds'" using x(3) by (auto simp: es'_def)
    then show ?thesis using True x ext t(5) by (auto simp: es'_def)
  next
    case False
    then have "x \<noteq> d" "x \<noteq> n" "x \<notin> set es" using x ext by (auto simp: es'_def)
    then show ?thesis using False x ext t(5) by auto
  qed
  moreover have "fat12_read_cluster v' x j = fat12_read_cluster v x j"
    if "in_data v x" "x \<notin> set (d # ds @ es')" "j < bpc v" for x j
    using that t(6) other unfolding eq by simp
  moreover have "chain_byte v' (d # ds @ es') i =
      (if q \<le> p + i \<and> p + i < t \<and> p + i < e then buf (p + i - q) else chain_byte v (d # ds @ es') i)"
    if i: "i < bpc v * length (d # ds @ es')" for i
  proof (cases "i < bpc v")
    case True
    then have "chain_byte v' (d # ds @ es') i = fat12_read_cluster w d i"
      using t(6) d d_new g(3) same_geometry_fields(3) [OF t(1)] b by (simp add: chain_byte_Cons)
    then show ?thesis using True this_cl [OF True] t(8) b by (simp add: chain_byte_Cons)
  next
    case False
    define k where "k = i - bpc v"
    have k: "i = bpc v + k" "k < bpc v * length (ds' @ es)"
      using False i by (auto simp: k_def eq add_mult_distrib2)
    have "chain_byte w (ds' @ es) k = chain_byte v (ds' @ es) k"
    proof (rule chain_byte_cong [OF g(3) b k(2)])
      fix x j assume "x \<in> set (ds' @ es)" "j < bpc v"
      moreover from this have "in_data v x" "x \<noteq> d"
        using d_new chain_in_data [OF t(2)] same_geometry_fields(2) [OF same_geometry_trans [OF geo t(1)]] by auto
      ultimately show "fat12_read_cluster w x j = fat12_read_cluster v x j" using other by blast
    qed
    moreover have "chain_byte u (d # ds' @ es) i = chain_byte u (ds' @ es) k" if "bpc u = bpc v" for u
      using chain_byte_Cons [of u d "ds' @ es" i] that b k(1) by simp
    ultimately show ?thesis using t(7) k same_geometry_fields(3) [OF t(1)] g(3) unfolding eq by (simp add: add.assoc)
  qed
  moreover have "e \<le> p + bpc v * length (d # ds @ es')" unfolding eq using t(9) by simp
  ultimately have "wrote buf q t v d (d # ds) p e es' v'"
    using same_geometry_trans [OF geo t(1)] free t(8) unfolding wrote_def by auto
  then show ?thesis using eq by auto
qed


lemma copy_in:
  fixes B p q t :: nat
  assumes "p < t" and "q \<le> t" and "q < p + B"
  shows "copy_bytes (min (t - p) B - (q - p)) buf (p - q) cl (q - p) j =
    (if q \<le> p + j \<and> p + j < t \<and> j < B then buf (p + j - q) else cl j)"
  using assms by (cases "q \<le> p") (auto simp: copy_bytes_def add.commute)

lemma write_part_ok:
  fixes buf :: bytes
  assumes "vol_ok v" and "in_data v d" and "unat pos < unat tot" and "unat offset \<le> unat tot"
    and "unat tot + bpc v < 2 ^ 32" and "unat offset < unat pos + bpc v"
  defines "w \<equiv> write_part v offset tot pos d buf"
  shows "same_geometry v w" "next_cluster w x = next_cluster v x"
    "in_data v x \<Longrightarrow> x \<noteq> d \<Longrightarrow> j < bpc v \<Longrightarrow> fat12_read_cluster w x j = fat12_read_cluster v x j"
    "j < bpc v \<Longrightarrow> fat12_read_cluster w d j =
      (if unat offset \<le> unat pos + j \<and> unat pos + j < unat tot then buf (unat pos + j - unat offset)
       else fat12_read_cluster v d j)"
proof -
  note num = part_numbers [OF assms(1,3-5)]
  define k where "k = min (unat tot - unat pos) (bpc v) - (unat offset - unat pos)"
  have k: "unat (part_end v tot pos - part_start offset pos) = k" using num(5) assms(6) by (simp add: k_def)
  have w: "w = fat12_write_cluster d
      (copy_bytes k buf (unat pos - unat offset) (fat12_read_cluster v d) (unat offset - unat pos)) v"
    unfolding w_def write_part_def Let_def using num(2,3) k
    by (cases "k = 0") (simp_all add: word_less_nat_alt copy_bytes_0)
  show "same_geometry v w" "next_cluster w x = next_cluster v x" by (simp_all add: w)
  show "in_data v x \<Longrightarrow> x \<noteq> d \<Longrightarrow> j < bpc v \<Longrightarrow> fat12_read_cluster w x j = fat12_read_cluster v x j"
    using assms(1,2) by (simp add: w read_write_cluster)
  show "j < bpc v \<Longrightarrow> fat12_read_cluster w d j =
      (if unat offset \<le> unat pos + j \<and> unat pos + j < unat tot then buf (unat pos + j - unat offset)
       else fat12_read_cluster v d j)"
    using assms(1,2) copy_in [OF assms(3,4,6)] by (simp add: w read_write_cluster k_def)
qed

text \<open>How the loop ends at position \<open>e\<close>.\<close>

definition volume_full :: "fat12_fs \<Rightarrow> bool" where
  "volume_full v \<longleftrightarrow> (\<forall>d. \<not> cluster_free v d)"

definition write_end :: "nat \<Rightarrow> nat \<Rightarrow> u32 + u32 \<Rightarrow> nat \<Rightarrow> fat12_fs \<Rightarrow> bool" where
  "write_end q t r e v' \<longleftrightarrow>
     (case r of Inl x \<Rightarrow> unat x = e - q \<and> e < t \<and> volume_full v'
      | Inr y \<Rightarrow> unat y = e \<and> (e < t \<longrightarrow> e \<le> q \<and> volume_full v'))"

lemma write_loop_stop:
  assumes "c = 0xFFFF \<or> tot \<le> pos"
  shows "write_chain_loop v offset tot pos c buf = Some (Inr pos, v)"
  using assms by (subst write_chain_loop.simps) (auto simp: not_less [symmetric])

text \<open>The rounds: on into the next cluster, or into a new one.\<close>

lemma write_loop_next:
  fixes buf :: bytes
  assumes "vol_ok v" and "in_data v d" and "pos < tot" and "unat offset \<le> unat tot" and "unat tot + bpc v < 2 ^ 32"
    and "next_cluster v d = 0xFFFF \<Longrightarrow> unat tot \<le> unat pos + bpc v"
  defines "w \<equiv> if unat offset < unat pos + bpc v then write_part v offset tot pos d buf else v"
  shows "write_chain_loop v offset tot pos d buf =
    write_chain_loop w offset tot (pos + bytes_per_cluster v) (next_cluster v d) buf"
proof -
  have "unat (pos + bytes_per_cluster v) = unat pos + bpc v"
    using part_numbers(1) [OF assms(1)] assms(3-5) by (simp add: word_less_nat_alt)
  then have 1: "pos + bytes_per_cluster v < tot \<longleftrightarrow> unat pos + bpc v < unat tot"
    "offset < pos + bytes_per_cluster v \<longleftrightarrow> unat offset < unat pos + bpc v"
    by (simp_all add: word_less_nat_alt)
  have 2: "\<not> (next_cluster v d = 0xFFFF \<and> pos + bytes_per_cluster v < tot)" using assms(6) 1 by auto
  have 3: "d \<noteq> 0xFFFF \<and> pos < tot" using in_data_bound(3) [OF assms(1,2)] assms(3) by simp
  show ?thesis
    by (subst write_chain_loop.simps) (simp add: 1(2) 2 3 Let_def w_def del: not_less)
qed

lemma write_loop_extend:
  assumes "vol_ok v" and "in_data v d" and "pos < tot" and "unat offset \<le> unat tot" and "unat tot + bpc v < 2 ^ 32"
    and "next_cluster v d = 0xFFFF" and "unat pos + bpc v < unat tot"
  shows "extend_chain d v = None \<Longrightarrow> write_chain_loop v offset tot pos d buf =
      Some (if unat offset < unat pos + bpc v then Inl (if offset < pos then pos - offset else 0)
            else Inr (pos + bytes_per_cluster v), v)"
    and "extend_chain d v = Some (n, v1) \<Longrightarrow> n \<noteq> 0xFFFF \<Longrightarrow> write_chain_loop v offset tot pos d buf =
      write_chain_loop (if unat offset < unat pos + bpc v then write_part v1 offset tot pos d buf else v1)
        offset tot (pos + bytes_per_cluster v) n buf"
proof -
  have "unat (pos + bytes_per_cluster v) = unat pos + bpc v"
    using part_numbers(1) [OF assms(1)] assms(3-5) by (simp add: word_less_nat_alt)
  then have 1: "pos + bytes_per_cluster v < tot"
    "offset < pos + bytes_per_cluster v \<longleftrightarrow> unat offset < unat pos + bpc v"
    using assms(7) by (simp_all add: word_less_nat_alt)
  have 3: "d \<noteq> 0xFFFF \<and> pos < tot" using in_data_bound(3) [OF assms(1,2)] assms(3) by simp
  show "extend_chain d v = None \<Longrightarrow> write_chain_loop v offset tot pos d buf =
      Some (if unat offset < unat pos + bpc v then Inl (if offset < pos then pos - offset else 0)
            else Inr (pos + bytes_per_cluster v), v)"
    by (subst write_chain_loop.simps) (simp add: 1 3 assms(6) Let_def del: not_less)
  show "extend_chain d v = Some (n, v1) \<Longrightarrow> n \<noteq> 0xFFFF \<Longrightarrow> write_chain_loop v offset tot pos d buf =
      write_chain_loop (if unat offset < unat pos + bpc v then write_part v1 offset tot pos d buf else v1)
        offset tot (pos + bytes_per_cluster v) n buf"
    by (subst write_chain_loop.simps) (simp add: 1 3 assms(6) Let_def del: not_less)
qed


text \<open>
  One round as a change of the volume: the written cluster, with or without a new link.
\<close>

lemma round_volume:
  fixes buf :: bytes
  assumes "vol_ok v" and "in_data v d" and "same_geometry v u" and "unat pos < unat tot"
    and "unat offset \<le> unat tot" and "unat tot + bpc v < 2 ^ 32"
    and "\<forall>x. fat12_read_cluster u x = fat12_read_cluster v x"
  defines "w \<equiv> if unat offset < unat pos + bpc v then write_part u offset tot pos d buf else u"
  shows "same_geometry v w" "next_cluster w x = next_cluster u x"
    "in_data v x \<Longrightarrow> x \<noteq> d \<Longrightarrow> j < bpc v \<Longrightarrow> fat12_read_cluster w x j = fat12_read_cluster v x j"
    "j < bpc v \<Longrightarrow> fat12_read_cluster w d j =
      (if unat offset \<le> unat pos + j \<and> unat pos + j < unat tot then buf (unat pos + j - unat offset)
       else fat12_read_cluster v d j)"
proof -
  note g = same_geometry_fields [OF assms(3)]
  have u: "vol_ok u" "in_data u d" "unat tot + bpc u < 2 ^ 32" using g assms(1,2,6) by simp_all
  note wp = write_part_ok [OF u(1,2) assms(4,5) u(3), where buf = buf]
  show "same_geometry v w" using assms(3) wp(1) same_geometry_trans g(3) by (auto simp: w_def)
  show "next_cluster w x = next_cluster u x" using wp(2) g(3) by (simp add: w_def)
  show "in_data v x \<Longrightarrow> x \<noteq> d \<Longrightarrow> j < bpc v \<Longrightarrow> fat12_read_cluster w x j = fat12_read_cluster v x j"
    using wp(3) g assms(7) by (simp add: w_def)
  show "j < bpc v \<Longrightarrow> fat12_read_cluster w d j =
      (if unat offset \<le> unat pos + j \<and> unat pos + j < unat tot then buf (unat pos + j - unat offset)
       else fat12_read_cluster v d j)"
    using wp(4) g assms(7) by (auto simp: w_def)
qed

lemma write_chain_loop_ok:
  assumes "vol_ok v" and "chain v c cs" and "distinct cs" and "cs = [] \<longrightarrow> tot \<le> pos"
    and "unat offset \<le> unat tot" and "unat tot + bpc v < 2 ^ 32"
  shows "\<exists>r v' e es. write_chain_loop v offset tot pos c buf = Some (r, v') \<and>
    wrote buf (unat offset) (unat tot) v c cs (unat pos) e es v' \<and> write_end (unat offset) (unat tot) r e v'"
  using assms
proof (induction "unat tot - unat pos" arbitrary: v c cs pos rule: less_induct)
  case less
  note vol = less.prems(1) and tot = less.prems(5,6)
  show ?case
  proof (cases "pos < tot")
    case False
    then have "write_chain_loop v offset tot pos c buf = Some (Inr pos, v)" by (simp add: write_loop_stop not_less)
    then show ?thesis using wrote_nothing [OF less.prems(2,3), of buf "unat offset" "unat tot" "unat pos"] False
      by (fastforce simp: write_end_def word_less_nat_alt)
  next
    case True
    then have pt: "unat pos < unat tot" by (simp add: word_less_nat_alt)
    obtain ds where cs: "cs = c # ds" and c: "in_data v c" and nx: "chain v (next_cluster v c) ds" and di: "distinct (c # ds)"
      using less.prems(2-4) True by (cases cs) auto
    let ?B = "bpc v" and ?pos = "pos + bytes_per_cluster v"
    have pos': "unat ?pos = unat pos + ?B" by (rule part_numbers(1) [OF vol pt tot])
    have dec: "unat tot - unat ?pos < unat tot - unat pos"
      using pos' pt unat_bytes_per_cluster(2) [OF vol] by simp
    note whole = less.prems(2) [unfolded cs]
    have finish: ?thesis
      if u: "same_geometry v u" "\<forall>x. fat12_read_cluster u x = fat12_read_cluster v x"
        and w: "w = (if unat offset < unat pos + ?B then write_part u offset tot pos c buf else u)"
        and step: "write_chain_loop v offset tot pos c buf = write_chain_loop w offset tot ?pos (next_cluster u c) buf"
        and ds': "chain u (next_cluster u c) ds'" "distinct ds'" "ds' = [] \<longrightarrow> tot \<le> ?pos"
        and ext: "ds' = ds \<and> (\<forall>x. in_data v x \<longrightarrow> next_cluster u x = next_cluster v x) \<or>
          ds = [] \<and> ds' = [n] \<and> cluster_free v n \<and> n \<noteq> c \<and>
          (\<forall>x. in_data v x \<longrightarrow> next_cluster u x = (if x = c then n else if x = n then 0xFFFF else next_cluster v x))"
      for u w ds' n
    proof -
      note rv = round_volume [OF vol c u(1) pt tot u(2), where buf = buf, folded w]
      note g = same_geometry_fields [OF rv(1)]
      have chw: "chain w (next_cluster u c) ds'"
        using ds'(1) chain_cong [of ds' w u "next_cluster u c"] rv(2) g(5) same_geometry_fields(5) [OF u(1)] by simp
      obtain r v' e es where ih: "write_chain_loop w offset tot ?pos (next_cluster u c) buf = Some (r, v')"
        "wrote buf (unat offset) (unat tot) w (next_cluster u c) ds' (unat pos + ?B) e es v'"
        "write_end (unat offset) (unat tot) r e v'"
        using less.hyps [OF dec, of w, OF _ chw ds'(2,3) tot(1)] g vol tot(2) pos' by auto
      obtain es' where "wrote buf (unat offset) (unat tot) v c (c # ds) (unat pos) e es' v'"
        using wrote_Cons [OF vol whole di rv(1) ih(2) _ _ rv(3,4)] ext rv(2) by metis
      then show ?thesis using ih(1,3) step unfolding cs by auto
    qed
    show ?thesis
    proof (cases "ds = [] \<and> unat pos + ?B < unat tot")
      case False
      have stop: "next_cluster v c = 0xFFFF \<Longrightarrow> unat tot \<le> unat pos + ?B"
        using False chain_Nil_iff [OF vol nx] by auto
      have "ds = [] \<longrightarrow> tot \<le> ?pos" using False pos' by (auto simp: word_le_nat_alt)
      then show ?thesis
        using finish [of v _ ds, OF same_geometry_refl _ refl write_loop_next [OF vol c True tot stop] nx] di by simp
    next
      case ext: True
      then have eoc: "next_cluster v c = 0xFFFF" using nx by simp
      then have nz: "next_cluster v c \<noteq> 0" by simp
      note le = write_loop_extend [OF vol c True tot eoc, where buf = buf]
      show ?thesis using vol c nz
      proof (cases rule: extend_chain_cases)
        case full
        have "wrote buf (unat offset) (unat tot) v c cs (unat pos) (if unat offset < unat pos + ?B then unat pos else unat pos + ?B) [] v"
          using less.prems(2,3) ext cs by (auto simp: wrote_def)
        moreover have "write_end (unat offset) (unat tot)
          (if unat offset < unat pos + ?B then Inl (if offset < pos then pos - offset else 0) else Inr ?pos)
          (if unat offset < unat pos + ?B then unat pos else unat pos + ?B) v"
          using full ext pt pos' by (auto simp: write_end_def volume_full_def word_less_nat_alt unat_sub_if_size)
        ultimately show ?thesis using le(1) full ext by blast
      next
        case (ok n v1)
        have n: "in_data v n" "n \<noteq> 0xFFFF" "next_cluster v1 c = n" "next_cluster v1 n = 0xFFFF"
          using ok(2,3,6) c in_data_bound(3) [OF vol] by (auto simp: cluster_free_def)
        have ch1: "chain v1 (next_cluster v1 c) [n]" using n same_geometry_fields(2) [OF ok(4)] by simp
        show ?thesis
          by (rule finish [of v1 _ "[n]" n, OF ok(4,5) refl _ ch1]) (use le(2) [OF _ ok(1)] ext n ok in auto)
      qed
    qed
  qed
qed


lemma write_chain_ok:
  assumes "vol_ok v" and "chain v c cs" and "distinct cs" and "cs \<noteq> []"
    and "unat offset + unat sz + bpc v < 2 ^ 32"
  obtains n v' e es where "fat12_write_chain v c offset sz buf = Some (of_nat n, v')"
    "wrote buf (unat offset) (unat offset + unat sz) v c cs 0 e es v'"
    "n = min (unat offset + unat sz) e - unat offset" "n = unat sz \<or> volume_full v'"
proof -
  let ?q = "unat offset" and ?t = "unat offset + unat sz"
  have t: "unat (offset + sz) = ?t" using assms(5) by (simp add: unat_word_ariths)
  obtain r v' e es where l: "write_chain_loop v offset (offset + sz) 0 c buf = Some (r, v')"
    "wrote buf ?q ?t v c cs 0 e es v'" "write_end ?q ?t r e v'"
    using write_chain_loop_ok [OF assms(1-3), of "offset + sz" 0 offset buf] assms(4,5) t by auto
  define n where "n = min ?t e - ?q"
  have n: "n < 2 ^ 32" using assms(5) by (simp add: n_def)
  have "fat12_write_chain v c offset sz buf = Some (of_nat n, v') \<and> (n = unat sz \<or> volume_full v')"
  proof (cases r)
    case (Inl x)
    then have "unat x = n" "volume_full v'" using l(3) by (auto simp: write_end_def n_def)
    then show ?thesis using Inl l(1) of_nat_unatI [of x n] by (simp add: fat12_write_chain_def Let_def)
  next
    case (Inr y)
    then have y: "unat y = e" "e < ?t \<longrightarrow> e \<le> ?q \<and> volume_full v'" using l(3) by (auto simp: write_end_def)
    let ?m = "if offset < offset + sz then if offset + sz < y then sz else if offset < y then y - offset else 0 else 0"
    have "unat ?m = n"
      using y t unfolding n_def word_less_nat_alt
      by (cases "e < ?t") (auto simp: unat_sub_if_size min_def)
    then have "?m = of_nat n" by (rule of_nat_unatI)
    moreover have "n = unat sz \<or> volume_full v'" using y(2) by (cases "e < ?t") (auto simp: n_def)
    ultimately show ?thesis using Inr l(1) by (simp add: fat12_write_chain_def Let_def)
  qed
  then show thesis using that [of n v' e es] l(2) by (simp add: n_def)
qed

section \<open>Properties\<close>

text \<open>
  C18. \<^verbatim>\<open>fat12_read_chain\<close> returns on a proper chain and hands out exactly the bytes of the
  file from the offset on, as many as requested and as the chain holds; nothing else in the
  caller's buffer changes.
\<close>

theorem fat12_read_chain_correct:
  assumes "vol_ok v" and "chain v c cs" and "unat offset + unat sz + bpc v < 2 ^ 32"
  defines "n \<equiv> min (unat sz) (bpc v * length cs - unat offset)"
  shows "fat12_read_chain v c offset sz buf =
    Some (of_nat n, \<lambda>i. if i < n then chain_byte v cs (unat offset + i) else buf i)"
  unfolding n_def by (rule read_chain_ok [OF assms(1-3)])

text \<open>
  C19. \<^verbatim>\<open>fat12_write_chain\<close> on a proper chain returns the number of bytes written: all
  of them, or fewer when the volume is full afterwards. The chain keeps its clusters and grows
  only by clusters that were free; exactly the bytes written change, in this file and on the whole
  data area; and reading them back returns what was written.
\<close>

theorem fat12_write_chain_correct:
  assumes "vol_ok v" and "chain v c cs" and "distinct cs" and "cs \<noteq> []"
    and "unat offset + unat sz + bpc v < 2 ^ 32"
  shows "\<exists>n v' es. fat12_write_chain v c offset sz buf = Some (of_nat n, v') \<and>
    (n = unat sz \<or> n < unat sz \<and> volume_full v') \<and>
    chain v' c (cs @ es) \<and> distinct (cs @ es) \<and> (\<forall>x\<in>set es. cluster_free v x) \<and>
    (\<forall>i < bpc v * length (cs @ es). chain_byte v' (cs @ es) i =
       (if unat offset \<le> i \<and> i < unat offset + n then buf (i - unat offset) else chain_byte v (cs @ es) i)) \<and>
    (\<forall>x j. in_data v x \<and> x \<notin> set (cs @ es) \<and> j < bpc v \<longrightarrow> fat12_read_cluster v' x j = fat12_read_cluster v x j) \<and>
    (\<forall>x. in_data v x \<and> x \<notin> set (cs @ es) \<longrightarrow> next_cluster v' x = next_cluster v x) \<and>
    fat12_read_chain v' c offset (of_nat n) buf' = Some (of_nat n, \<lambda>i. if i < n then buf i else buf' i)"
proof -
  let ?q = "unat offset"
  obtain n v' e es where w: "fat12_write_chain v c offset sz buf = Some (of_nat n, v')"
    "wrote buf ?q (?q + unat sz) v c cs 0 e es v'" "n = min (?q + unat sz) e - ?q" "n = unat sz \<or> volume_full v'"
    using write_chain_ok [OF assms] .
  note wr = w(2) [unfolded wrote_def]
  note g = same_geometry_fields [OF conjunct1 [OF wr]]
  have bytes: "chain_byte v' (cs @ es) i = (if ?q \<le> i \<and> i < ?q + n then buf (i - ?q) else chain_byte v (cs @ es) i)"
    if "i < bpc v * length (cs @ es)" for i
  proof -
    have "?q \<le> i \<and> i < ?q + unat sz \<and> i < e \<longleftrightarrow> ?q \<le> i \<and> i < ?q + n" using w(3) by auto
    then show ?thesis using wr that by auto
  qed
  have len: "?q + n \<le> bpc v * length (cs @ es) \<or> n = 0" and n: "n \<le> unat sz" using w(3) wr by auto
  then have n32: "unat (of_nat n :: u32) = n" using assms(5) by (intro unat_of_nat_small) simp
  have m: "min (unat (of_nat n :: u32)) (bpc v' * length (cs @ es) - ?q) = n" using len n32 g(3) by auto
  have "?q + unat (of_nat n :: u32) + bpc v' < 2 ^ 32" using n n32 g(3) assms(5) by simp
  from read_chain_ok [OF _ _ this, of c "cs @ es" buf', unfolded m]
  have "fat12_read_chain v' c offset (of_nat n) buf' =
      Some (of_nat n, \<lambda>i. if i < n then chain_byte v' (cs @ es) (?q + i) else buf' i)"
    using wr g(1) assms(1) by blast
  moreover have "(\<lambda>i. if i < n then chain_byte v' (cs @ es) (?q + i) else buf' i) = (\<lambda>i. if i < n then buf i else buf' i)"
    using len bytes by (auto simp: fun_eq_iff)
  ultimately have rb: "fat12_read_chain v' c offset (of_nat n) buf' = Some (of_nat n, \<lambda>i. if i < n then buf i else buf' i)"
    by simp
  have "n = unat sz \<or> n < unat sz \<and> volume_full v'" using w(4) n by auto
  moreover have "next_cluster v' x = next_cluster v x" if "in_data v x" "x \<notin> set (cs @ es)" for x
    using wr that assms(4) by (metis Un_iff last_in_set set_append)
  ultimately show ?thesis using w(1) wr bytes rb by blast
qed

text \<open>A volume with one-sector clusters and a file of the single cluster 2.\<close>

definition demo_volume :: fat12_fs where
  "demo_volume = \<lparr>bytes_per_sector = 512, sectors_per_cluster = 1, reserved_sectors = 1, num_fats = 2,
     root_entry_count = 16, total_sectors_16 = 100, fat_size_sectors = 1, total_sectors_32 = 0, fat_lba = 1,
     root_lba = 3, data_lba = 4, fat_cache = (\<lambda>i. if i = 3 then 0xFF else if i = 4 then 0x0F else 0),
     total_clusters = 96, lba_offset = 0, root_inode = 0xFFFFFFFF, disk = (\<lambda>_ _. 7)\<rparr>"

lemma demo_volume_ok: "vol_ok demo_volume" "chain demo_volume 2 [2]" "bpc demo_volume = 512"
  by (simp_all add: demo_volume_def vol_ok_def bpc_def in_data_def next_cluster_def fat12_get_fat_entry_def
      raw_entry_def fat_offset_def)

theorem fat12_read_chain_correct_witness:
  "fat12_read_chain demo_volume 2 500 100 (\<lambda>_. 0) = Some (12, \<lambda>i. if i < 12 then chain_byte demo_volume [2] (500 + i) else 0)"
  using fat12_read_chain_correct [OF demo_volume_ok(1,2), of 500 100 "\<lambda>_. 0"] by (simp add: demo_volume_ok(3) cong: if_cong)

theorem fat12_write_chain_correct_witness:
  "\<exists>n v'. fat12_write_chain demo_volume 2 10 3 (\<lambda>i. of_nat i) = Some (of_nat n, v') \<and>
     fat12_read_chain v' 2 10 (of_nat n) (\<lambda>_. 9) = Some (of_nat n, \<lambda>i. if i < n then of_nat i else 9)"
  using fat12_write_chain_correct [OF demo_volume_ok(1,2), of 10 3 "\<lambda>i. of_nat i" "\<lambda>_. 9"]
  by (auto simp: demo_volume_ok(3))

end
