(* ===== verification/Fat12Name.thy ===== *)
theory Fat12Name
  imports Prelude
begin

text \<open>
  File names in \<^verbatim>\<open>kernel/src/fs/fat12.c\<close>: the 8.3 form stored in a directory entry, its
  printed form, and the case-insensitive comparison the lookups use. A C string is the list of its
  characters before the terminating NUL; the end of a list stands for the NUL.
\<close>

section \<open>Operations\<close>

type_synonym cstring = "u8 list"

definition NUL :: u8 where "NUL = 0"
definition SPACE :: u8 where "SPACE = 0x20"
definition DOT :: u8 where "DOT = 0x2E"

text \<open>\<^verbatim>\<open>if (c >= 'a' && c <= 'z') c -= 32;\<close>\<close>

definition upcase :: "u8 \<Rightarrow> u8" where
  "upcase c = (if 0x61 \<le> c \<and> c \<le> 0x7A then c - 32 else c)"

fun strcasecmp_fat :: "cstring \<Rightarrow> cstring \<Rightarrow> int" where
  "strcasecmp_fat (a # as) (b # bs) =
     (if a \<noteq> NUL \<and> b \<noteq> NUL then
        (if upcase a \<noteq> upcase b then sint (upcase a) - sint (upcase b) else strcasecmp_fat as bs)
      else sint a - sint b)"
| "strcasecmp_fat (a # as) [] = sint a - sint NUL"
| "strcasecmp_fat [] (b # bs) = sint NUL - sint b"
| "strcasecmp_fat [] [] = sint NUL - sint NUL"

text \<open>
  \<^verbatim>\<open>fat12_entry_to_name\<close> on the 8 name bytes and the 3 extension bytes of an entry.
\<close>

definition fat12_entry_to_name :: "u8 list \<Rightarrow> u8 list \<Rightarrow> cstring" where
  "fat12_entry_to_name nm ext =
     takeWhile (\<lambda>c. c \<noteq> SPACE) (take 8 nm) @
     (if ext ! 0 \<noteq> SPACE then DOT # takeWhile (\<lambda>c. c \<noteq> SPACE) (take 3 ext) else [])"

text \<open>
  \<^verbatim>\<open>fat12_name_to_83\<close>: the characters before a dot, eight at most, and, only if the
  character after them is a dot, the three characters after it; upper case, padded with spaces.
\<close>

definition fat12_name_to_83 :: "cstring \<Rightarrow> u8 list \<times> u8 list" where
  "fat12_name_to_83 name =
     (let base = takeWhile (\<lambda>c. c \<noteq> DOT) (take 8 name);
          ext = (case drop (length base) name of
                   [] \<Rightarrow> []
                 | c # cs \<Rightarrow> if c = DOT then take 3 cs else [])
      in (map upcase base @ replicate (8 - length base) SPACE,
          map upcase ext @ replicate (3 - length ext) SPACE))"

section \<open>Lemmas\<close>

lemma upcase_idem [simp]: "upcase (upcase c) = upcase c"
proof (cases "0x61 \<le> c \<and> c \<le> 0x7A")
  case True
  then have "unat (c - 32) = unat c - 32" by (simp add: unat_sub_if_size word_le_nat_alt)
  then have "\<not> 0x61 \<le> c - 32" using True by (auto simp: word_le_nat_alt)
  then show ?thesis using True by (simp add: upcase_def)
qed (simp add: upcase_def)

lemma upcase_eq_small: "x < 0x41 \<Longrightarrow> upcase c = x \<longleftrightarrow> c = x"
proof (cases "0x61 \<le> c \<and> c \<le> 0x7A")
  case True
  assume x: "x < 0x41"
  have "unat (c - 32) = unat c - 32" using True by (simp add: unat_sub_if_size word_le_nat_alt)
  then have "upcase c \<noteq> x" "c \<noteq> x" using True x by (auto simp: upcase_def word_le_nat_alt word_less_nat_alt)
  then show ?thesis by simp
qed (auto simp: upcase_def)

lemma upcase_special [simp]:
  "upcase c = SPACE \<longleftrightarrow> c = SPACE" "upcase c = DOT \<longleftrightarrow> c = DOT" "upcase c = NUL \<longleftrightarrow> c = NUL"
  by (simp_all add: upcase_eq_small SPACE_def DOT_def NUL_def)

lemma upcase_special_val [simp]: "upcase DOT = DOT" "upcase SPACE = SPACE"
  by (simp_all add: upcase_def DOT_def SPACE_def)

lemma specials_distinct [simp]: "SPACE \<noteq> DOT" "DOT \<noteq> SPACE" "SPACE \<noteq> NUL" "DOT \<noteq> NUL" "NUL \<noteq> SPACE" "NUL \<noteq> DOT"
  by (simp_all add: SPACE_def DOT_def NUL_def)

lemma sint_eq [simp]: "sint a = sint b \<longleftrightarrow> a = (b :: u8)"
  by (auto intro: signed_word_eqI)

text \<open>Equality up to case is equality of the upper-case forms.\<close>

lemma strcasecmp_fat_0_iff:
  assumes "NUL \<notin> set a" and "NUL \<notin> set b"
  shows "strcasecmp_fat a b = 0 \<longleftrightarrow> map upcase a = map upcase b"
  using assms by (induction a b rule: strcasecmp_fat.induct) auto

lemma strcasecmp_fat_refl:
  assumes "NUL \<notin> set a"
  shows "strcasecmp_fat (map upcase a) a = 0"
proof -
  have "NUL \<notin> set (map upcase a)" using assms by (auto simp: eq_commute [of NUL])
  then show ?thesis using assms by (simp add: strcasecmp_fat_0_iff comp_def)
qed

text \<open>Names that have an 8.3 form: up to eight characters, and a dot with one to three more, or none.\<close>

definition plain :: "u8 \<Rightarrow> bool" where
  "plain c \<longleftrightarrow> c \<noteq> NUL \<and> c \<noteq> SPACE \<and> c \<noteq> DOT"

definition valid_83 :: "cstring \<Rightarrow> bool" where
  "valid_83 name \<longleftrightarrow>
     (let base = takeWhile plain name; rest = dropWhile plain name
      in base \<noteq> [] \<and> length base \<le> 8 \<and>
         (rest = [] \<or> hd rest = DOT \<and> tl rest \<noteq> [] \<and> length (tl rest) \<le> 3 \<and> list_all plain (tl rest)))"

lemma valid_83_cases:
  assumes "valid_83 name"
  obtains (base) "name \<noteq> []" "list_all plain name" "length name \<le> 8"
  | (ext) b e where "name = b @ DOT # e" "b \<noteq> []" "list_all plain b" "length b \<le> 8" "e \<noteq> []"
      "list_all plain e" "length e \<le> 3"
proof -
  let ?b = "takeWhile plain name" and ?r = "dropWhile plain name"
  have n: "name = ?b @ ?r" and b: "list_all plain ?b"
    by (simp_all add: list_all_iff) (meson set_takeWhileD)
  show thesis
  proof (cases "?r = []")
    case True
    then have "takeWhile plain name = name" using n by simp
    then show thesis using base assms b by (simp add: valid_83_def Let_def del: takeWhile_eq_all_conv)
  next
    case False
    then have "?r = DOT # tl ?r" using assms by (cases ?r) (auto simp: valid_83_def Let_def)
    then have "name = ?b @ DOT # tl ?r" using n by simp
    then show thesis using ext [of ?b "tl ?r"] False assms b by (auto simp: valid_83_def Let_def)
  qed
qed

lemma takeWhile_all: "list_all P xs \<Longrightarrow> takeWhile P xs = xs"
  by (induction xs) auto

lemma takeWhile_pad:
  assumes "list_all plain b"
  shows "takeWhile (\<lambda>c. c \<noteq> SPACE) (map upcase b @ replicate n SPACE) = map upcase b"
  using assms by (induction b) (auto simp: plain_def takeWhile_replicate)

lemma takeWhile_dot:
  assumes "list_all plain b"
  shows "takeWhile (\<lambda>c. c \<noteq> DOT) b = b" "takeWhile (\<lambda>c. c \<noteq> DOT) (b @ DOT # e) = b"
  using assms by (induction b) (auto simp: plain_def)

lemma name_to_83_base:
  assumes "list_all plain b" and "length b \<le> 8"
  shows "fat12_name_to_83 b = (map upcase b @ replicate (8 - length b) SPACE, replicate 3 SPACE)"
  unfolding fat12_name_to_83_def using assms(2) takeWhile_dot(1) [OF assms(1)]
  by (simp add: Let_def del: takeWhile_eq_all_conv)

lemma name_to_83_ext:
  assumes "list_all plain b" and "length b \<le> 8" and "length e \<le> 3"
  shows "fat12_name_to_83 (b @ DOT # e) =
    (map upcase b @ replicate (8 - length b) SPACE, map upcase e @ replicate (3 - length e) SPACE)"
proof -
  have "takeWhile (\<lambda>c. c \<noteq> DOT) (take 8 (b @ DOT # e)) = b"
  proof (cases "length b = 8")
    case True
    then show ?thesis using takeWhile_dot(1) [OF assms(1)] by simp
  next
    case False
    then have "take 8 (b @ DOT # e) = b @ DOT # take (7 - length b) e"
      using assms(2) by (simp add: take_Cons' eval_nat_numeral)
    then show ?thesis using takeWhile_dot(2) [OF assms(1)] by simp
  qed
  then show ?thesis using assms by (simp add: fat12_name_to_83_def)
qed

lemma name_to_83_length:
  "length (fst (fat12_name_to_83 name)) = 8" "length (snd (fat12_name_to_83 name)) = 3"
proof -
  let ?b = "takeWhile (\<lambda>c. c \<noteq> DOT) (take 8 name)"
  have "length ?b \<le> 8" using length_takeWhile_le [of _ "take 8 name"] by (rule order_trans) simp
  then show "length (fst (fat12_name_to_83 name)) = 8" by (simp add: fat12_name_to_83_def Let_def)
  show "length (snd (fat12_name_to_83 name)) = 3"
    by (auto simp: fat12_name_to_83_def Let_def split: list.splits)
qed

lemma name_to_83_upcase: "fat12_name_to_83 (map upcase name) = fat12_name_to_83 name"
proof -
  let ?b = "takeWhile (\<lambda>c. c \<noteq> DOT) (take 8 name)"
  have "takeWhile (\<lambda>c. c \<noteq> DOT) (take 8 (map upcase name)) = map upcase ?b"
    by (simp add: take_map takeWhile_map comp_def)
  then show ?thesis
    by (cases "drop (length ?b) name") (simp_all add: fat12_name_to_83_def Let_def drop_map take_map comp_def)
qed

lemma valid_83_no_NUL: "valid_83 name \<Longrightarrow> NUL \<notin> set name"
  by (erule valid_83_cases) (auto simp: list_all_iff plain_def)

lemma valid_83_hd:
  assumes "valid_83 name"
  shows "fst (fat12_name_to_83 name) ! 0 = upcase (hd name)" "hd name \<noteq> NUL"
proof -
  have "fst (fat12_name_to_83 name) ! 0 = upcase (hd name) \<and> hd name \<noteq> NUL"
    using assms
  proof (cases rule: valid_83_cases)
    case base
    then show ?thesis by (cases name) (auto simp: name_to_83_base plain_def)
  next
    case (ext b e)
    then have "fst (fat12_name_to_83 name) = map upcase b @ replicate (8 - length b) SPACE" by (simp add: name_to_83_ext)
    then show ?thesis using ext(1-3) by (cases b) (simp_all add: plain_def)
  qed
  then show "fst (fat12_name_to_83 name) ! 0 = upcase (hd name)" "hd name \<noteq> NUL" by simp_all
qed

lemma entry_name_83:
  assumes "valid_83 name"
  shows "(let (nm, ext) = fat12_name_to_83 name in fat12_entry_to_name nm ext) = map upcase name"
  using assms
proof (cases rule: valid_83_cases)
  case base
  then show ?thesis by (simp add: name_to_83_base fat12_entry_to_name_def takeWhile_pad)
next
  case (ext b e)
  then have "(map upcase e @ replicate (3 - length e) SPACE) ! 0 \<noteq> SPACE"
    by (cases e) (auto simp: plain_def)
  then show ?thesis using ext
    by (simp add: name_to_83_ext fat12_entry_to_name_def takeWhile_pad)
qed

section \<open>Properties\<close>

text \<open>
  C17. Names round trip: for a name with an 8.3 form, what \<^verbatim>\<open>fat12_name_to_83\<close> stores is
  printed by \<^verbatim>\<open>fat12_entry_to_name\<close> as the name in upper case, the lookup comparison
  accepts it, and it accepts no other stored name: two such names have the same stored form
  exactly when they differ in case only.
\<close>

theorem name_83_roundtrip:
  assumes "valid_83 name" and "valid_83 other"
  defines "stored \<equiv> (\<lambda>n. let (nm, ext) = fat12_name_to_83 n in fat12_entry_to_name nm ext)"
  shows "stored name = map upcase name \<and>
    (strcasecmp_fat (stored name) other = 0 \<longleftrightarrow> map upcase name = map upcase other) \<and>
    (fat12_name_to_83 name = fat12_name_to_83 other \<longleftrightarrow> map upcase name = map upcase other)"
proof (intro conjI)
  have st: "stored n = map upcase n" if "valid_83 n" for n
    unfolding stored_def by (rule entry_name_83 [OF that])
  show "stored name = map upcase name" by (rule st [OF assms(1)])
  have "NUL \<notin> set (map upcase name)" using valid_83_no_NUL [OF assms(1)] by (auto simp: eq_commute [of NUL])
  then show "strcasecmp_fat (stored name) other = 0 \<longleftrightarrow> map upcase name = map upcase other"
    using valid_83_no_NUL [OF assms(2)] by (simp add: st [OF assms(1)] strcasecmp_fat_0_iff comp_def)
  show "fat12_name_to_83 name = fat12_name_to_83 other \<longleftrightarrow> map upcase name = map upcase other"
    using st [OF assms(1)] st [OF assms(2)] name_to_83_upcase [of name] name_to_83_upcase [of other]
    unfolding stored_def by metis
qed

theorem name_83_roundtrip_witness:
  "(let (nm, ext) = fat12_name_to_83 [0x61, 0x2E, 0x63] in fat12_entry_to_name nm ext) = [0x41, 0x2E, 0x43]"
proof -
  have v: "valid_83 [0x61, 0x2E, 0x63]"
    by (simp add: valid_83_def plain_def NUL_def SPACE_def DOT_def)
  show ?thesis using name_83_roundtrip [OF v v] by (simp add: upcase_def)
qed

end
