(* ===== verification/Fat12Dir.thy ===== *)
theory Fat12Dir
  imports Fat12File Fat12Name
begin

text \<open>
  Directories and the file operations of \<^verbatim>\<open>kernel/src/fs/fat12.c\<close>: directory entries in
  their 32-byte form, the two iterations with their callbacks, lookup, listing, creation, directory
  creation, deletion, the update of an entry after a write, and mounting. A node
  (\<^verbatim>\<open>fs_node_t\<close>) is passed and returned by value; its function pointers are named by
  the driver that provides them. The root directory is a fixed run of sectors, any other directory
  a cluster chain; walking a chain is \<open>partial_function (option)\<close>.
\<close>

section \<open>Directory entries\<close>

text \<open>\<open>dtimes\<close> holds the fourteen bytes from \<^verbatim>\<open>reserved\<close> to \<^verbatim>\<open>modify_date\<close>.\<close>

record dir_entry =
  dname :: "u8 list"
  dext :: "u8 list"
  attributes :: u8
  dtimes :: "u8 list"
  first_cluster :: u16
  file_size :: u32

definition get_entry :: "bytes \<Rightarrow> nat \<Rightarrow> dir_entry" where
  "get_entry buf i =
     (let b = (\<lambda>k. buf (32 * i + k))
      in \<lparr>dname = map b [0..<8], dext = map b [8..<11], attributes = b 11, dtimes = map b [12..<26],
          first_cluster = ucast (b 26) OR push_bit 8 (ucast (b 27)),
          file_size = ucast (b 28) OR push_bit 8 (ucast (b 29)) OR push_bit 16 (ucast (b 30)) OR push_bit 24 (ucast (b 31))\<rparr>)"

definition entry_bytes :: "dir_entry \<Rightarrow> u8 list" where
  "entry_bytes e = dname e @ dext e @ [attributes e] @ dtimes e @
     [ucast (first_cluster e), ucast (drop_bit 8 (first_cluster e)),
      ucast (file_size e), ucast (drop_bit 8 (file_size e)), ucast (drop_bit 16 (file_size e)), ucast (drop_bit 24 (file_size e))]"

definition put_entry :: "nat \<Rightarrow> dir_entry \<Rightarrow> bytes \<Rightarrow> bytes" where
  "put_entry i e buf = (\<lambda>k. if 32 * i \<le> k \<and> k < 32 * i + 32 then entry_bytes e ! (k - 32 * i) else buf k)"

text \<open>The printed name as a C string: it ends at the first NUL, should an entry contain one.\<close>

definition entry_name :: "dir_entry \<Rightarrow> cstring" where
  "entry_name e = takeWhile (\<lambda>c. c \<noteq> NUL) (fat12_entry_to_name (dname e) (dext e))"

definition entry_end :: "dir_entry \<Rightarrow> bool" where
  "entry_end e \<longleftrightarrow> dname e ! 0 = 0"

definition entry_deleted :: "dir_entry \<Rightarrow> bool" where
  "entry_deleted e \<longleftrightarrow> dname e ! 0 = 0xE5"

section \<open>Nodes\<close>

datatype fnptr = NoFn | Fat12Fn | InitrdFn | PipeFn | KeyboardFn | MouseFn | VgaFn | BgaFn

definition FS_FILE :: u8 where "FS_FILE = 1"
definition FS_DIRECTORY :: u8 where "FS_DIRECTORY = 2"
definition FS_MOUNTPOINT :: u8 where "FS_MOUNTPOINT = 8"
definition FS_SYMLINK :: u8 where "FS_SYMLINK = 6"
definition SEEK_START :: u8 where "SEEK_START = 0"
definition SEEK_CUR :: u8 where "SEEK_CUR = 1"

record fs_node =
  name :: cstring
  flags :: u8
  nsize :: u32
  inode :: u32
  seek_offset :: u32
  impl :: u32
  refcount :: u32
  ptr :: "nat option"
  nread :: fnptr
  nwrite :: fnptr
  nseek :: fnptr
  nopen :: fnptr
  nclose :: fnptr
  nreaddir :: fnptr
  nfinddir :: fnptr
  ncreate :: fnptr
  nmkdir :: fnptr
  nunlink :: fnptr
  mounts :: "(cstring \<times> nat) list"

text \<open>A node after \<^verbatim>\<open>memset(node, 0, sizeof(fs_node_t))\<close>.\<close>

definition zero_node :: fs_node where
  "zero_node = \<lparr>name = [], flags = 0, nsize = 0, inode = 0, seek_offset = 0, impl = 0, refcount = 0, ptr = None,
     nread = NoFn, nwrite = NoFn, nseek = NoFn, nopen = NoFn, nclose = NoFn, nreaddir = NoFn, nfinddir = NoFn,
     ncreate = NoFn, nmkdir = NoFn, nunlink = NoFn, mounts = []\<rparr>"

definition fat12_make_node :: "dir_entry \<Rightarrow> fs_node" where
  "fat12_make_node e =
     (let node = zero_node\<lparr>name := entry_name e, nsize := file_size e, inode := ucast (first_cluster e)\<rparr>
      in if attributes e AND 0x10 \<noteq> 0
         then node\<lparr>flags := FS_DIRECTORY, nreaddir := Fat12Fn, nfinddir := Fat12Fn, ncreate := Fat12Fn,
                   nmkdir := Fat12Fn, nunlink := Fat12Fn\<rparr>
         else node\<lparr>flags := FS_FILE, nread := Fat12Fn, nwrite := Fat12Fn, nseek := Fat12Fn, nclose := Fat12Fn\<rparr>)"

definition FAT12_ROOT_INODE :: u32 where "FAT12_ROOT_INODE = 0xFFFFFFFF"

definition fat12_seek_fs :: "u32 \<Rightarrow> u8 \<Rightarrow> fs_node \<Rightarrow> fs_node" where
  "fat12_seek_fs offset typ node =
     (if typ = SEEK_START then node\<lparr>seek_offset := offset\<rparr>
      else if typ = SEEK_CUR then node\<lparr>seek_offset := seek_offset node + offset\<rparr>
      else node\<lparr>seek_offset := nsize node - offset\<rparr>)"

section \<open>Walking a directory\<close>

definition root_dir_sectors :: "fat12_fs \<Rightarrow> nat" where
  "root_dir_sectors v =
     (unat (root_entry_count v) * 32 + (unat (bytes_per_sector v) - 1)) div unat (bytes_per_sector v)"

definition entries_per_sector :: "fat12_fs \<Rightarrow> nat" where
  "entries_per_sector v = unat (bytes_per_sector v) div 32"

definition entries_per_cluster :: "fat12_fs \<Rightarrow> nat" where
  "entries_per_cluster v = unat (bytes_per_cluster v) div 32"

definition read_root :: "fat12_fs \<Rightarrow> nat \<Rightarrow> bytes" where
  "read_root v s = disk_read (root_lba v + of_nat s) 1 (\<lambda>_. 0) (disk v)"

definition write_root :: "nat \<Rightarrow> bytes \<Rightarrow> fat12_fs \<Rightarrow> fat12_fs" where
  "write_root s buf v = v\<lparr>disk := disk_write (root_lba v + of_nat s) 1 buf (disk v)\<rparr>"

text \<open>
  The entries of one block from index \<open>i\<close> on; the result says whether the end mark was met.
\<close>

fun iter_entries :: "(dir_entry \<Rightarrow> 'c \<Rightarrow> 'c) \<Rightarrow> bytes \<Rightarrow> nat \<Rightarrow> nat \<Rightarrow> 'c \<Rightarrow> bool \<times> 'c" where
  "iter_entries cb buf i 0 c = (False, c)"
| "iter_entries cb buf i (Suc n) c =
     (let e = get_entry buf i
      in if entry_end e then (True, c)
         else if entry_deleted e then iter_entries cb buf (Suc i) n c
         else if attributes e = 0x0F then iter_entries cb buf (Suc i) n c
         else iter_entries cb buf (Suc i) n (cb e c))"

fun iter_root :: "fat12_fs \<Rightarrow> (dir_entry \<Rightarrow> 'c \<Rightarrow> 'c) \<Rightarrow> nat \<Rightarrow> nat \<Rightarrow> 'c \<Rightarrow> 'c" where
  "iter_root v cb s 0 c = c"
| "iter_root v cb s (Suc n) c =
     (let (stop, c) = iter_entries cb (read_root v s) 0 (entries_per_sector v) c
      in if stop then c else iter_root v cb (Suc s) n c)"

partial_function (option) iter_chain :: "fat12_fs \<Rightarrow> (dir_entry \<Rightarrow> 'c \<Rightarrow> 'c) \<Rightarrow> u32 \<Rightarrow> 'c \<Rightarrow> 'c option" where
  "iter_chain v cb cluster c =
     (if cluster = 0xFFFF then Some c
      else let (stop, c) = iter_entries cb (fat12_read_cluster v cluster) 0 (entries_per_cluster v) c
           in if stop then Some c else iter_chain v cb (next_cluster v cluster) c)"

definition fat12_iterate_dir :: "fat12_fs \<Rightarrow> u32 \<Rightarrow> (dir_entry \<Rightarrow> 'c \<Rightarrow> 'c) \<Rightarrow> 'c \<Rightarrow> 'c option" where
  "fat12_iterate_dir v ino cb c =
     (if ino = FAT12_ROOT_INODE then Some (iter_root v cb 0 (root_dir_sectors v) c)
      else iter_chain v cb ino c)"

text \<open>
  The writing iteration offers the first free slot of every block to the callback, which may change
  the entry, its context and the volume; the block is written back.
\<close>

type_synonym 'c wcallback = "dir_entry \<Rightarrow> 'c \<Rightarrow> fat12_fs \<Rightarrow> dir_entry \<times> 'c \<times> fat12_fs"

fun free_slot :: "bytes \<Rightarrow> nat \<Rightarrow> nat \<Rightarrow> nat option" where
  "free_slot buf i 0 = None"
| "free_slot buf i (Suc n) =
     (if entry_end (get_entry buf i) \<or> entry_deleted (get_entry buf i) then Some i else free_slot buf (Suc i) n)"

fun iter_root_write :: "'c wcallback \<Rightarrow> nat \<Rightarrow> nat \<Rightarrow> 'c \<Rightarrow> fat12_fs \<Rightarrow> 'c \<times> fat12_fs" where
  "iter_root_write cb s 0 c v = (c, v)"
| "iter_root_write cb s (Suc n) c v =
     (let buf = read_root v s
      in case free_slot buf 0 (entries_per_sector v) of
           None \<Rightarrow> iter_root_write cb (Suc s) n c v
         | Some i \<Rightarrow>
             let (e, c, v) = cb (get_entry buf i) c v
             in iter_root_write cb (Suc s) n c (write_root s (put_entry i e buf) v))"

partial_function (option) iter_chain_write :: "'c wcallback \<Rightarrow> u32 \<Rightarrow> 'c \<Rightarrow> fat12_fs \<Rightarrow> ('c \<times> fat12_fs) option" where
  "iter_chain_write cb cluster c v =
     (if cluster = 0xFFFF then Some (c, v)
      else
        let buf = fat12_read_cluster v cluster
        in case free_slot buf 0 (entries_per_cluster v) of
             None \<Rightarrow> iter_chain_write cb (next_cluster v cluster) c v
           | Some i \<Rightarrow>
               let (e, c, v) = cb (get_entry buf i) c v;
                   v = fat12_write_cluster cluster (put_entry i e buf) v
               in iter_chain_write cb (next_cluster v cluster) c v)"

definition fat12_iterate_dir_write :: "u32 \<Rightarrow> 'c wcallback \<Rightarrow> 'c \<Rightarrow> fat12_fs \<Rightarrow> ('c \<times> fat12_fs) option" where
  "fat12_iterate_dir_write ino cb c v =
     (if ino = FAT12_ROOT_INODE then Some (iter_root_write cb 0 (root_dir_sectors v) c v)
      else iter_chain_write cb ino c v)"

section \<open>Lookup and listing\<close>

definition finddir_callback :: "cstring \<Rightarrow> dir_entry \<Rightarrow> fs_node option \<Rightarrow> fs_node option" where
  "finddir_callback nm e result =
     (case result of
        Some n \<Rightarrow> Some n
      | None \<Rightarrow> if strcasecmp_fat (entry_name e) nm = 0 then Some (fat12_make_node e) else None)"

definition fat12_finddir_fs :: "fat12_fs \<Rightarrow> fs_node \<Rightarrow> cstring \<Rightarrow> fs_node option option" where
  "fat12_finddir_fs v node nm =
     (if flags node AND FS_DIRECTORY = 0 then Some None
      else fat12_iterate_dir v (inode node) (finddir_callback nm) None)"

text \<open>
  The listing has room for 128 names; the flag records a store behind the end of that array.
\<close>

definition readdir_callback :: "dir_entry \<Rightarrow> cstring list \<times> bool \<Rightarrow> cstring list \<times> bool" where
  "readdir_callback e = (\<lambda>(files, oob). (files @ [entry_name e], oob \<or> 128 \<le> length files))"

definition fat12_readdir_fs :: "fat12_fs \<Rightarrow> fs_node \<Rightarrow> (cstring list \<times> bool) option option" where
  "fat12_readdir_fs v node =
     (if flags node AND FS_DIRECTORY = 0 then Some None
      else map_option Some (fat12_iterate_dir v (inode node) readdir_callback ([], False)))"


section \<open>Changing a directory\<close>

definition new_entry :: "cstring \<Rightarrow> u8 \<Rightarrow> u32 \<Rightarrow> dir_entry" where
  "new_entry nm attr cluster =
     (let (n8, x3) = fat12_name_to_83 nm
      in \<lparr>dname = n8, dext = x3, attributes = attr, dtimes = replicate 14 0, first_cluster = ucast cluster, file_size = 0\<rparr>)"

definition create_file_callback :: "cstring \<Rightarrow> fs_node option wcallback" where
  "create_file_callback nm e result v =
     (case result of
        Some n \<Rightarrow> (e, Some n, v)
      | None \<Rightarrow>
          let (cluster, v) = allocate_cluster v;
              e = new_entry nm 0x20 cluster
          in (e, Some (fat12_make_node e), v))"

definition fat12_create_file :: "fs_node \<Rightarrow> cstring \<Rightarrow> fat12_fs \<Rightarrow> (fs_node option \<times> fat12_fs) option" where
  "fat12_create_file dir_node nm v =
     (case fat12_iterate_dir v (inode dir_node) (finddir_callback nm) None of
        None \<Rightarrow> None
      | Some (Some n) \<Rightarrow> Some (Some n, v)
      | Some None \<Rightarrow> fat12_iterate_dir_write (inode dir_node) (create_file_callback nm) None v)"

definition fat12_root :: "fat12_fs \<Rightarrow> fs_node" where
  "fat12_root v =
     zero_node\<lparr>name := [0x6D, 0x6E, 0x74], flags := FS_DIRECTORY, inode := root_inode v, nreaddir := Fat12Fn,
       nfinddir := Fat12Fn, ncreate := Fat12Fn, nmkdir := Fat12Fn, nunlink := Fat12Fn\<rparr>"

definition fat12_create :: "cstring \<Rightarrow> fat12_fs \<Rightarrow> (fs_node option \<times> fat12_fs) option" where
  "fat12_create nm v =
     (case fat12_create_file (fat12_root v) nm v of
        None \<Rightarrow> None
      | Some (file, v) \<Rightarrow> Some (file, if file \<noteq> None then fat12_flush_fat v else v))"

definition mkdir_entry_cb :: "cstring \<Rightarrow> u32 \<Rightarrow> bool wcallback" where
  "mkdir_entry_cb nm cluster e don v = (if don then (e, don, v) else (new_entry nm 0x10 cluster, True, v))"

definition dot_entry :: "u8 list \<Rightarrow> u32 \<Rightarrow> dir_entry" where
  "dot_entry dots cluster =
     \<lparr>dname = dots @ replicate (8 - length dots) SPACE, dext = replicate 3 SPACE, attributes = 0x10,
      dtimes = replicate 14 0, first_cluster = ucast cluster, file_size = 0\<rparr>"

definition free_cluster_chain :: "u32 \<Rightarrow> fat12_fs \<Rightarrow> fat12_fs option" where
  "free_cluster_chain c v = map_option (\<lambda>fat. v\<lparr>fat_cache := fat\<rparr>) (fat12_free_cluster_chain c (fat_cache v))"

definition fat12_mkdir :: "fs_node \<Rightarrow> cstring \<Rightarrow> fat12_fs \<Rightarrow> (int \<times> fat12_fs) option" where
  "fat12_mkdir dir_node nm v =
     (if nm = [] then Some (- 1, v)
      else case fat12_iterate_dir v (inode dir_node) (finddir_callback nm) None of
        None \<Rightarrow> None
      | Some (Some n) \<Rightarrow> Some (- 1, v)
      | Some None \<Rightarrow>
          let (cluster, v) = allocate_cluster v
          in if cluster = 0 then Some (- 1, v)
             else
               let parent = (if inode dir_node = FAT12_ROOT_INODE then 0 else inode dir_node);
                   buf = put_entry 1 (dot_entry [DOT, DOT] parent) (put_entry 0 (dot_entry [DOT] cluster) (\<lambda>_. 0));
                   v = fat12_write_cluster cluster buf v
               in case fat12_iterate_dir_write (inode dir_node) (mkdir_entry_cb nm cluster) False v of
                    None \<Rightarrow> None
                  | Some (don, v) \<Rightarrow>
                      if \<not> don then map_option (\<lambda>v. (- 1, v)) (free_cluster_chain cluster v)
                      else Some (0, fat12_flush_fat v))"

text \<open>
  The search loops of \<^verbatim>\<open>fat12_unlink\<close> and \<^verbatim>\<open>fat12_update_dir_entry\<close>: the first
  matching entry of a block, up to its end mark; an end mark only ends the search in that block.
\<close>

fun find_entry :: "cstring \<Rightarrow> bytes \<Rightarrow> nat \<Rightarrow> nat \<Rightarrow> nat option" where
  "find_entry nm buf i 0 = None"
| "find_entry nm buf i (Suc n) =
     (let e = get_entry buf i
      in if entry_end e then None
         else if entry_deleted e then find_entry nm buf (Suc i) n
         else if attributes e = 0x0F then find_entry nm buf (Suc i) n
         else if strcasecmp_fat (entry_name e) nm = 0 then Some i
         else find_entry nm buf (Suc i) n)"

fun root_change :: "cstring \<Rightarrow> (dir_entry \<Rightarrow> dir_entry) \<Rightarrow> nat \<Rightarrow> nat \<Rightarrow> fat12_fs \<Rightarrow> bool \<times> fat12_fs" where
  "root_change nm f s 0 v = (False, v)"
| "root_change nm f s (Suc n) v =
     (let buf = read_root v s
      in case find_entry nm buf 0 (entries_per_sector v) of
           Some i \<Rightarrow> (True, write_root s (put_entry i (f (get_entry buf i)) buf) v)
         | None \<Rightarrow> root_change nm f (Suc s) n v)"

partial_function (option) chain_change :: "cstring \<Rightarrow> (dir_entry \<Rightarrow> dir_entry) \<Rightarrow> u32 \<Rightarrow> fat12_fs \<Rightarrow> (bool \<times> fat12_fs) option" where
  "chain_change nm f cl v =
     (if cl = 0xFFFF then Some (False, v)
      else let buf = fat12_read_cluster v cl
           in case find_entry nm buf 0 (entries_per_cluster v) of
                Some i \<Rightarrow> Some (True, fat12_write_cluster cl (put_entry i (f (get_entry buf i)) buf) v)
              | None \<Rightarrow> chain_change nm f (next_cluster v cl) v)"

definition dir_change :: "u32 \<Rightarrow> cstring \<Rightarrow> (dir_entry \<Rightarrow> dir_entry) \<Rightarrow> fat12_fs \<Rightarrow> (bool \<times> fat12_fs) option" where
  "dir_change ino nm f v =
     (if ino = FAT12_ROOT_INODE then Some (root_change nm f 0 (root_dir_sectors v) v) else chain_change nm f ino v)"

definition fat12_unlink :: "fs_node \<Rightarrow> cstring \<Rightarrow> fat12_fs \<Rightarrow> (int \<times> fat12_fs) option" where
  "fat12_unlink dir_node nm v =
     (if nm = [] then Some (- 1, v)
      else case fat12_iterate_dir v (inode dir_node) (finddir_callback nm) None of
        None \<Rightarrow> None
      | Some None \<Rightarrow> Some (- 1, v)
      | Some (Some node) \<Rightarrow>
          if flags node AND FS_DIRECTORY \<noteq> 0 then Some (- 1, v)
          else
            let file_cluster = inode node
            in case dir_change (inode dir_node) nm (\<lambda>e. e\<lparr>dname := (dname e)[0 := 0xE5]\<rparr>) v of
                 None \<Rightarrow> None
               | Some (found, v) \<Rightarrow>
                   if \<not> found then Some (- 1, v)
                   else case (if 2 \<le> file_cluster then free_cluster_chain file_cluster v else Some v) of
                          None \<Rightarrow> None
                        | Some v \<Rightarrow> Some (0, fat12_flush_fat v))"

section \<open>Files\<close>

text \<open>\<^verbatim>\<open>fat12_update_dir_entry\<close> searches the root directory, whatever directory the file is in.\<close>

definition fat12_update_dir_entry :: "fs_node \<Rightarrow> fat12_fs \<Rightarrow> fat12_fs option" where
  "fat12_update_dir_entry file_node v =
     map_option snd
       (dir_change (root_inode v) (name file_node)
          (\<lambda>e. e\<lparr>first_cluster := ucast (inode file_node), file_size := nsize file_node\<rparr>) v)"

definition fat12_read_fs :: "fs_node \<Rightarrow> u32 \<Rightarrow> u32 \<Rightarrow> bytes \<Rightarrow> fat12_fs \<Rightarrow> (u32 \<times> bytes \<times> fs_node) option" where
  "fat12_read_fs node sz units buffer v =
     (let tot = sz * units
      in case fat12_read_chain v (inode node) (seek_offset node) tot buffer of
           None \<Rightarrow> None
         | Some (rd, buffer) \<Rightarrow> Some (rd, buffer, node\<lparr>seek_offset := seek_offset node + rd\<rparr>))"

definition fat12_write_fs :: "fs_node \<Rightarrow> u32 \<Rightarrow> u32 \<Rightarrow> bytes \<Rightarrow> fat12_fs \<Rightarrow> (u32 \<times> fs_node \<times> fat12_fs) option" where
  "fat12_write_fs node sz units buffer v =
     (let tot = sz * units
      in if tot = 0 then Some (0, node, v)
         else
           let (ok, node, v) =
             (if inode node = 0
              then let (cluster, v) = allocate_cluster v
                   in if cluster = 0 then (False, node, v) else (True, node\<lparr>inode := cluster\<rparr>, v)
              else (True, node, v))
           in if \<not> ok then Some (0, node, v)
              else case fat12_write_chain v (inode node) (seek_offset node) tot buffer of
                     None \<Rightarrow> None
                   | Some (written, v) \<Rightarrow>
                       let node = node\<lparr>seek_offset := seek_offset node + written\<rparr>;
                           node = (if nsize node < seek_offset node then node\<lparr>nsize := seek_offset node\<rparr> else node)
                       in case fat12_update_dir_entry node v of
                            None \<Rightarrow> None
                          | Some v \<Rightarrow> Some (written, node, fat12_sync v))"

section \<open>Mounting\<close>

text \<open>
  \<^verbatim>\<open>init_fat12\<close> on a disk that answers: the fields of the boot sector, the layout, the
  table. The result says whether the volume was accepted; the volume before is \<open>v\<close>. A boot
  sector with zero sectors per cluster ends in a divide fault (\<open>None\<close>).
\<close>

definition le16 :: "bytes \<Rightarrow> nat \<Rightarrow> u16" where
  "le16 b i = ucast (b i) OR push_bit 8 (ucast (b (i + 1)))"

definition le32 :: "bytes \<Rightarrow> nat \<Rightarrow> u32" where
  "le32 b i = ucast (b i) OR push_bit 8 (ucast (b (i + 1))) OR push_bit 16 (ucast (b (i + 2))) OR push_bit 24 (ucast (b (i + 3)))"

definition read_bpb :: "bytes \<Rightarrow> fat12_fs \<Rightarrow> fat12_fs" where
  "read_bpb sector v =
     v\<lparr>bytes_per_sector := le16 sector 11, sectors_per_cluster := sector 13, reserved_sectors := le16 sector 14,
       num_fats := sector 16, root_entry_count := le16 sector 17, total_sectors_16 := le16 sector 19,
       fat_size_sectors := le16 sector 22, total_sectors_32 := le32 sector 32\<rparr>"

definition init_fat12 :: "u32 \<Rightarrow> ata_device \<Rightarrow> fat12_fs \<Rightarrow> (bool \<times> fat12_fs) option" where
  "init_fat12 off dev v =
     (if \<not> present dev then Some (False, v)
      else
        let v = v\<lparr>lba_offset := off\<rparr>;
            v = read_bpb (disk_read off 1 (\<lambda>_. 0) (disk v)) v
        in if bytes_per_sector v \<noteq> 512 then Some (False, v)
           else
             let v = v\<lparr>fat_lba := off + ucast (reserved_sectors v)\<rparr>;
                 v = v\<lparr>root_lba := fat_lba v + ucast (num_fats v) * ucast (fat_size_sectors v)\<rparr>;
                 v = v\<lparr>data_lba := root_lba v + of_nat (root_dir_sectors v)\<rparr>;
                 v = v\<lparr>fat_cache := disk_read (fat_lba v) (unat (fat_size_sectors v)) (\<lambda>_. 0) (disk v)\<rparr>;
                 data_sectors = (if total_sectors_16 v \<noteq> 0 then ucast (total_sectors_16 v) - data_lba v + off
                                 else total_sectors_32 v - data_lba v + off)
             in if sectors_per_cluster v = 0 then None
                else Some (True, v\<lparr>total_clusters := data_sectors div ucast (sectors_per_cluster v),
                                   root_inode := FAT12_ROOT_INODE\<rparr>))"


section \<open>Entries and bytes\<close>

definition entry_wf :: "dir_entry \<Rightarrow> bool" where
  "entry_wf e \<longleftrightarrow> length (dname e) = 8 \<and> length (dext e) = 3 \<and> length (dtimes e) = 14"

lemma bytes16:
  fixes x :: u16
  shows "ucast (ucast x :: u8) OR push_bit 8 (ucast (ucast (drop_bit 8 x) :: u8)) = x"
proof (rule bit_word_eqI)
  fix n :: nat assume "n < LENGTH(16)"
  then show "bit (ucast (ucast x :: u8) OR push_bit 8 (ucast (ucast (drop_bit 8 x) :: u8)) :: u16) n = bit x n"
    by (cases "n < 8") (auto simp: bit_simps)
qed

lemma bytes32:
  fixes x :: u32
  shows "ucast (ucast x :: u8) OR push_bit 8 (ucast (ucast (drop_bit 8 x) :: u8)) OR
    push_bit 16 (ucast (ucast (drop_bit 16 x) :: u8)) OR push_bit 24 (ucast (ucast (drop_bit 24 x) :: u8)) = x"
proof (rule bit_word_eqI)
  fix n :: nat assume "n < LENGTH(32)"
  then show "bit (ucast (ucast x :: u8) OR push_bit 8 (ucast (ucast (drop_bit 8 x) :: u8)) OR
    push_bit 16 (ucast (ucast (drop_bit 16 x) :: u8)) OR push_bit 24 (ucast (ucast (drop_bit 24 x) :: u8)) :: u32) n = bit x n"
    by (cases "n < 8"; cases "n < 16"; cases "n < 24") (simp_all add: bit_simps, auto)
qed

lemma bytes16_parts:
  fixes a b :: u8
  defines "x \<equiv> ucast a OR push_bit 8 (ucast b) :: u16"
  shows "ucast x = a" "ucast (drop_bit 8 x) = b"
  unfolding x_def by (rule bit_word_eqI, auto simp: bit_simps byte_bit_ge)+

lemma bytes32_parts:
  fixes a b c d :: u8
  defines "x \<equiv> ucast a OR push_bit 8 (ucast b) OR push_bit 16 (ucast c) OR push_bit 24 (ucast d) :: u32"
  shows "ucast x = a" "ucast (drop_bit 8 x) = b" "ucast (drop_bit 16 x) = c" "ucast (drop_bit 24 x) = d"
  unfolding x_def by (rule bit_word_eqI, simp add: bit_simps byte_bit_ge)+

lemma length_entry_bytes: "entry_wf e \<Longrightarrow> length (entry_bytes e) = 32"
  by (simp add: entry_wf_def entry_bytes_def)

lemma get_entry_wf [simp]: "entry_wf (get_entry buf i)"
  by (simp add: get_entry_def entry_wf_def Let_def)

lemma get_entry_cong: "(\<And>k. 32 * i \<le> k \<Longrightarrow> k < 32 * i + 32 \<Longrightarrow> buf k = buf' k) \<Longrightarrow> get_entry buf i = get_entry buf' i"
  by (simp add: get_entry_def Let_def)

lemma nth_map_upt: "map (\<lambda>k. xs ! k) [a..<b] = take (b - a) (drop a xs)" if "b \<le> length xs"
  using that by (auto simp: list_eq_iff_nth_eq min_def)

lemma get_put_entry_same:
  assumes "entry_wf e"
  shows "get_entry (put_entry i e buf) i = e"
proof -
  have l: "length (dname e) = 8" "length (dext e) = 3" "length (dtimes e) = 14" using assms by (simp_all add: entry_wf_def)
  let ?b = "entry_bytes e"
  have len: "length ?b = 32" by (rule length_entry_bytes [OF assms])
  have b: "put_entry i e buf (32 * i + k) = ?b ! k" if "k < 32" for k using that by (simp add: put_entry_def)
  have m: "map (\<lambda>k. put_entry i e buf (32 * i + k)) [a..<c] = take (c - a) (drop a ?b)" if "c \<le> 32" for a c
    using nth_map_upt [of c ?b a] that b len by (metis (no_types, lifting) atLeastLessThan_iff map_cong order_less_le_trans set_upt)
  have "?b ! 11 = attributes e" "?b ! 26 = ucast (first_cluster e)" "?b ! 27 = ucast (drop_bit 8 (first_cluster e))"
    "?b ! 28 = ucast (file_size e)" "?b ! 29 = ucast (drop_bit 8 (file_size e))"
    "?b ! 30 = ucast (drop_bit 16 (file_size e))" "?b ! 31 = ucast (drop_bit 24 (file_size e))"
    by (simp_all add: entry_bytes_def nth_append l)
  moreover have "take 8 ?b = dname e" "take 3 (drop 8 ?b) = dext e" "take 14 (drop 12 ?b) = dtimes e"
    by (simp_all add: entry_bytes_def l)
  then have "map (\<lambda>k. put_entry i e buf (32 * i + k)) [0..<8] = dname e"
    "map (\<lambda>k. put_entry i e buf (32 * i + k)) [8..<11] = dext e"
    "map (\<lambda>k. put_entry i e buf (32 * i + k)) [12..<26] = dtimes e"
    using m [of 8 0] m [of 11 8] m [of 26 12] by (simp_all del: upt_rec_numeral list.map)
  ultimately show ?thesis unfolding get_entry_def Let_def by (simp add: b bytes16 bytes32 del: upt_rec_numeral list.map)
qed

lemma map_upt_32:
  "map f [0..<8] @ map f [8..<11] @ [f 11] @ map f [12..<26] @ [f 26, f 27, f 28, f 29, f 30, f 31] = map f [0..<32]"
  by (simp add: upt_rec eval_nat_numeral)

lemma get_put_entry_other: "i \<noteq> j \<Longrightarrow> get_entry (put_entry i e buf) j = get_entry buf j"
proof (rule get_entry_cong)
  fix k assume "i \<noteq> j" "32 * j \<le> k" "k < 32 * j + 32"
  then have "\<not> (32 * i \<le> k \<and> k < 32 * i + 32)" by linarith
  then show "put_entry i e buf k = buf k" by (auto simp: put_entry_def)
qed

lemma put_get_entry: "put_entry i (get_entry buf i) buf = buf"
proof
  fix k
  show "put_entry i (get_entry buf i) buf k = buf k"
  proof (cases "32 * i \<le> k \<and> k < 32 * i + 32")
    case True
    then obtain r where r: "k = 32 * i + r" "r < 32" using le_Suc_ex by (metis nat_add_left_cancel_less)
    have "entry_bytes (get_entry buf i) = map (\<lambda>k. buf (32 * i + k)) [0..<32]"
      unfolding entry_bytes_def get_entry_def Let_def dir_entry.simps bytes16_parts bytes32_parts by (rule map_upt_32)
    then show ?thesis using r by (simp add: put_entry_def)
  qed (auto simp: put_entry_def)
qed


section \<open>A directory as the list of its slots\<close>

definition slot_free :: "dir_entry \<Rightarrow> bool" where
  "slot_free e \<longleftrightarrow> entry_end e \<or> entry_deleted e"

definition shown :: "dir_entry \<Rightarrow> bool" where
  "shown e \<longleftrightarrow> \<not> entry_deleted e \<and> attributes e \<noteq> 0x0F"

text \<open>The entries a walk visits: up to the end mark, without deleted ones and long-name parts.\<close>

definition live :: "dir_entry list \<Rightarrow> dir_entry list" where
  "live es = filter shown (takeWhile (\<lambda>e. \<not> entry_end e) es)"

lemma live_simps [simp]:
  "live [] = []"
  "live (e # es) = (if entry_end e then [] else if shown e then e # live es else live es)"
  by (simp_all add: live_def)

lemma live_append: "live (xs @ ys) = (if \<exists>e\<in>set xs. entry_end e then live xs else live xs @ live ys)"
  by (induction xs) auto

definition block :: "bytes \<Rightarrow> nat \<Rightarrow> nat \<Rightarrow> dir_entry list" where
  "block buf i n = map (get_entry buf) [i..<i + n]"

lemma block_simps [simp]: "block buf i 0 = []" "block buf i (Suc n) = get_entry buf i # block buf (Suc i) n"
  unfolding block_def by (simp, subst upt_conv_Cons, simp_all)

lemma length_block [simp]: "length (block buf i n) = n"
  by (simp add: block_def)

lemma nth_block: "k < n \<Longrightarrow> block buf i n ! k = get_entry buf (i + k)"
  by (simp add: block_def)

lemma iter_entries_fold:
  "iter_entries cb buf i n c = (\<exists>e\<in>set (block buf i n). entry_end e, fold cb (live (block buf i n)) c)"
  by (induction n arbitrary: i c) (auto simp: Let_def shown_def)

fun root_slots :: "fat12_fs \<Rightarrow> nat \<Rightarrow> nat \<Rightarrow> dir_entry list" where
  "root_slots v s 0 = []"
| "root_slots v s (Suc n) = block (read_root v s) 0 (entries_per_sector v) @ root_slots v (Suc s) n"

lemma iter_root_fold: "iter_root v cb s n c = fold cb (live (root_slots v s n)) c"
  by (induction n arbitrary: s c) (auto simp: iter_entries_fold live_append)

fun chain_slots :: "fat12_fs \<Rightarrow> u32 list \<Rightarrow> dir_entry list" where
  "chain_slots v [] = []"
| "chain_slots v (c # cs) = block (fat12_read_cluster v c) 0 (entries_per_cluster v) @ chain_slots v cs"

lemma iter_chain_fold:
  assumes "vol_ok v" and "chain v c cs"
  shows "iter_chain v cb c x = Some (fold cb (live (chain_slots v cs)) x)"
  using assms(2)
proof (induction cs arbitrary: c x)
  case Nil
  then show ?case by (subst iter_chain.simps) simp
next
  case (Cons d ds)
  then have "c \<noteq> 0xFFFF" using in_data_bound(3) [OF assms(1)] by auto
  then show ?case using Cons by (subst iter_chain.simps) (auto simp: iter_entries_fold live_append)
qed

text \<open>The slots of a directory: the root's sectors or the clusters of its chain.\<close>

definition dir_slots :: "fat12_fs \<Rightarrow> u32 \<Rightarrow> u32 list \<Rightarrow> dir_entry list" where
  "dir_slots v ino cs = (if ino = FAT12_ROOT_INODE then root_slots v 0 (root_dir_sectors v) else chain_slots v cs)"

definition is_dir :: "fat12_fs \<Rightarrow> u32 \<Rightarrow> u32 list \<Rightarrow> bool" where
  "is_dir v ino cs \<longleftrightarrow> vol_ok v \<and> (ino = FAT12_ROOT_INODE \<or> chain v ino cs)"

lemma iterate_dir_fold:
  assumes "is_dir v ino cs"
  shows "fat12_iterate_dir v ino cb x = Some (fold cb (live (dir_slots v ino cs)) x)"
  using assms by (auto simp: fat12_iterate_dir_def is_dir_def dir_slots_def iter_root_fold iter_chain_fold)

section \<open>Lookup and listing\<close>

definition matches :: "cstring \<Rightarrow> dir_entry \<Rightarrow> bool" where
  "matches nm e \<longleftrightarrow> strcasecmp_fat (entry_name e) nm = 0"

lemma finddir_callback_simps [simp]:
  "finddir_callback nm e (Some n) = Some n"
  "finddir_callback nm e None = (if matches nm e then Some (fat12_make_node e) else None)"
  by (simp_all add: finddir_callback_def matches_def)

lemma fold_finddir_Some: "fold (finddir_callback nm) es (Some n) = Some n"
  by (induction es) simp_all

lemma fold_finddir:
  "fold (finddir_callback nm) es None = map_option fat12_make_node (List.find (matches nm) es)"
  by (induction es) (simp_all add: fold_finddir_Some)

lemma find_iterate:
  assumes "is_dir v ino cs"
  shows "fat12_iterate_dir v ino (finddir_callback nm) None =
    Some (map_option fat12_make_node (List.find (matches nm) (live (dir_slots v ino cs))))"
  by (simp add: iterate_dir_fold [OF assms] fold_finddir)

lemma readdir_callback_simp [simp]:
  "readdir_callback e (fs, b) = (fs @ [entry_name e], b \<or> 128 \<le> length fs)"
  by (simp add: readdir_callback_def)

lemma fold_readdir:
  "fold readdir_callback es (fs, b) = (fs @ map entry_name es, b \<or> 128 < length fs + length es \<and> es \<noteq> [])"
proof (induction es arbitrary: fs b)
  case (Cons e es)
  then show ?case by (cases "es = []") auto
qed simp

lemma readdir_iterate:
  assumes "is_dir v ino cs"
  shows "fat12_iterate_dir v ino readdir_callback ([], False) =
    Some (map entry_name (live (dir_slots v ino cs)), 128 < length (live (dir_slots v ino cs)))"
  by (auto simp: iterate_dir_fold [OF assms] fold_readdir)


section \<open>Changing the root directory\<close>

lemma read_write_root:
  assumes "s < 2 ^ 32" and "s' < 2 ^ 32"
  shows "read_root (write_root s buf v) s' k = (if s = s' \<and> k < 512 then buf k else read_root v s' k)"
proof (cases "k < 512")
  case True
  have "unat (of_nat s' - of_nat s :: u32) = 0 \<longleftrightarrow> s = s'" using assms by (auto simp: unat_of_nat_diff)
  then show ?thesis using True
    by (auto simp: read_root_def write_root_def disk_read_def disk_write_def ATA_SECTOR_SIZE_def)
qed (simp add: read_root_def disk_read_def ATA_SECTOR_SIZE_def)

lemma write_root_same: "write_root s (read_root v s) v = v"
proof -
  have "disk_write (root_lba v + of_nat s) 1 (read_root v s) (disk v) = disk v"
  proof (intro ext)
    fix l j
    have "unat (l - (root_lba v + of_nat s)) < 1 \<longleftrightarrow> l = root_lba v + of_nat s" by (simp add: unat_eq_zero)
    then show "disk_write (root_lba v + of_nat s) 1 (read_root v s) (disk v) l j = disk v l j"
      by (auto simp: disk_write_def read_root_def disk_read_def ATA_SECTOR_SIZE_def)
  qed
  then show ?thesis by (simp add: write_root_def)
qed

lemma write_root_fields [simp]:
  "entries_per_sector (write_root s buf v) = entries_per_sector v" "root_dir_sectors (write_root s buf v) = root_dir_sectors v"
  "fat_cache (write_root s buf v) = fat_cache v" "same_geometry v (write_root s buf v)"
  by (simp_all add: write_root_def entries_per_sector_def root_dir_sectors_def same_geometryI)

lemma block_cong: "(\<And>k. k < 32 * (i + n) \<Longrightarrow> buf k = buf' k) \<Longrightarrow> block buf i n = block buf' i n"
  unfolding block_def by (intro map_cong get_entry_cong) auto

lemma block_put: "i < n \<Longrightarrow> entry_wf e \<Longrightarrow> block (put_entry i e buf) 0 n = (block buf 0 n)[i := e]"
  by (rule nth_equalityI) (auto simp: nth_block nth_list_update get_put_entry_same get_put_entry_other)

lemma eps_512: "vol_ok v \<Longrightarrow> entries_per_sector v = 16"
  by (simp add: vol_ok_def entries_per_sector_def)

lemma root_slots_cong:
  assumes "\<And>r. s \<le> r \<Longrightarrow> r < s + n \<Longrightarrow> read_root v' r = read_root v r" and "entries_per_sector v' = entries_per_sector v"
  shows "root_slots v' s n = root_slots v s n"
  using assms by (induction n arbitrary: s) auto

lemma root_slots_write_other:
  assumes "r < s \<or> s + n \<le> r" and "s + n \<le> 2 ^ 32" and "r < 2 ^ 32"
  shows "root_slots (write_root r buf v) s n = root_slots v s n"
  using assms by (intro root_slots_cong) (auto simp: fun_eq_iff read_write_root)

lemma block_write_same:
  assumes "vol_ok v" and "s < 2 ^ 32"
  shows "block (read_root (write_root s buf v) s) 0 (entries_per_sector v) = block buf 0 (entries_per_sector v)"
  using assms eps_512 [OF assms(1)] by (intro block_cong) (simp add: read_write_root)

lemma free_slot_None: "free_slot buf i n = None \<Longrightarrow> \<forall>e\<in>set (block buf i n). \<not> slot_free e"
  by (induction n arbitrary: i) (auto simp: slot_free_def split: if_splits)

lemma free_slot_Some:
  assumes "free_slot buf i n = Some j"
  shows "i \<le> j \<and> j < i + n \<and> slot_free (get_entry buf j) \<and> (\<forall>k. i \<le> k \<and> k < j \<longrightarrow> \<not> slot_free (get_entry buf k))"
  using assms
proof (induction n arbitrary: i)
  case (Suc n)
  show ?case
  proof (cases "slot_free (get_entry buf i)")
    case False
    then have "free_slot buf (Suc i) n = Some j" using Suc.prems by (simp add: slot_free_def)
    from Suc.IH [OF this] have "Suc i \<le> j \<and> j < Suc i + n \<and> slot_free (get_entry buf j) \<and>
      (\<forall>k. Suc i \<le> k \<and> k < j \<longrightarrow> \<not> slot_free (get_entry buf k))" .
    then show ?thesis using False by (auto simp: Suc_le_eq) (metis le_neq_implies_less)
  qed (use Suc.prems in \<open>auto simp: slot_free_def\<close>)
qed simp

text \<open>The first index of a list with a property.\<close>

definition first_at :: "('a \<Rightarrow> bool) \<Rightarrow> 'a list \<Rightarrow> nat \<Rightarrow> bool" where
  "first_at P xs k \<longleftrightarrow> k < length xs \<and> P (xs ! k) \<and> (\<forall>j<k. \<not> P (xs ! j))"

lemma first_at_append1: "first_at P xs k \<Longrightarrow> first_at P (xs @ ys) k"
  by (auto simp: first_at_def nth_append)

lemma first_at_append2: "\<forall>x\<in>set xs. \<not> P x \<Longrightarrow> first_at P ys k \<Longrightarrow> first_at P (xs @ ys) (length xs + k)"
  by (auto simp: first_at_def nth_append)

lemma first_at_append2D:
  assumes "first_at P (xs @ ys) (length xs + k)"
  shows "first_at P ys k"
proof -
  have "\<not> P (ys ! j)" if "j < k" for j
    using assms that by (auto simp: first_at_def nth_append dest!: spec [of _ "length xs + j"])
  then show ?thesis using assms by (simp add: first_at_def)
qed

lemma first_at_split:
  assumes "first_at P xs k"
  obtains as b bs where "xs = as @ b # bs" "length as = k" "P b" "\<forall>a\<in>set as. \<not> P a" "xs ! k = b"
    "\<And>e. xs[k := e] = as @ e # bs"
proof -
  have k: "k < length xs" and P: "P (xs ! k)" "\<forall>j<k. \<not> P (xs ! j)" using assms by (auto simp: first_at_def)
  have xs: "xs = take k xs @ xs ! k # drop (Suc k) xs" using k by (simp add: id_take_nth_drop)
  have "\<forall>a\<in>set (take k xs). \<not> P a" using P(2) k by (auto simp: in_set_conv_nth)
  then show thesis using that [of "take k xs" "xs ! k" "drop (Suc k) xs"] xs k P(1) by (simp add: upd_conv_take_nth_drop)
qed

text \<open>
  A callback that fills the first slot it is offered and then refuses: what the writing iteration
  makes of it.
\<close>

lemma iter_root_write_done:
  assumes "\<And>e v. cb e c v = (e, c, v)"
  shows "iter_root_write cb s n c v = (c, v)"
  by (induction n arbitrary: s) (auto simp: assms Let_def put_get_entry write_root_same split: option.splits)

lemma iter_root_write_full:
  assumes "\<forall>e\<in>set (root_slots v s n). \<not> slot_free e"
  shows "iter_root_write cb s n c v = (c, v)"
  using assms
proof (induction n arbitrary: s)
  case (Suc n)
  have "free_slot (read_root v s) 0 (entries_per_sector v) = None"
  proof (rule ccontr)
    assume "free_slot (read_root v s) 0 (entries_per_sector v) \<noteq> None"
    then obtain j where "free_slot (read_root v s) 0 (entries_per_sector v) = Some j" by auto
    then have "j < entries_per_sector v" "slot_free (block (read_root v s) 0 (entries_per_sector v) ! j)"
      using free_slot_Some [of "read_root v s" 0 "entries_per_sector v" j] by (auto simp: nth_block)
    then show False using Suc.prems by (metis UnCI length_block nth_mem root_slots.simps(2) set_append)
  qed
  then show ?case using Suc by simp
qed simp

lemma iter_root_write_fill:
  assumes "vol_ok v" and "\<And>e. cb e c v = (E, C, v\<lparr>fat_cache := F\<rparr>)" and "\<And>e w. cb e C w = (e, C, w)"
    and "entry_wf E" and "s + n \<le> 2 ^ 32" and "\<exists>e\<in>set (root_slots v s n). slot_free e"
  shows "\<exists>k v'. iter_root_write cb s n c v = (C, v') \<and> first_at slot_free (root_slots v s n) k \<and>
    root_slots v' s n = (root_slots v s n)[k := E] \<and> same_geometry v v' \<and> fat_cache v' = F \<and>
    (\<forall>r. r < s \<longrightarrow> read_root v' r = read_root v r)"
  using assms(5,6)
proof (induction n arbitrary: s)
  case (Suc n)
  let ?b = "read_root v s" and ?n = "entries_per_sector v"
  show ?case
  proof (cases "free_slot ?b 0 ?n")
    case None
    then have nb: "\<forall>e\<in>set (block ?b 0 ?n). \<not> slot_free e" by (rule free_slot_None)
    then have ex: "\<exists>e\<in>set (root_slots v (Suc s) n). slot_free e" using Suc.prems(2) by auto
    have sn: "Suc s + n \<le> 2 ^ 32" using Suc.prems(1) by simp
    obtain k v' where ih: "iter_root_write cb (Suc s) n c v = (C, v')" "first_at slot_free (root_slots v (Suc s) n) k"
      "root_slots v' (Suc s) n = (root_slots v (Suc s) n)[k := E]" "same_geometry v v'" "fat_cache v' = F"
      "\<forall>r. r < Suc s \<longrightarrow> read_root v' r = read_root v r" using Suc.IH [OF sn ex] by blast
    have "entries_per_sector v' = ?n" using ih(4) assms(1) same_geometry_fields(1) [OF ih(4)] by (simp add: eps_512)
    then have "root_slots v' s (Suc n) = (root_slots v s (Suc n))[?n + k := E]"
      using ih(2,3,6) by (simp add: list_update_append)
    moreover have "first_at slot_free (root_slots v s (Suc n)) (?n + k)"
      using first_at_append2 [OF nb ih(2)] by simp
    moreover have "iter_root_write cb s (Suc n) c v = (C, v')" using None ih(1) by simp
    ultimately show ?thesis using ih(4-6) less_Suc_eq by metis
  next
    case (Some i)
    have i: "i < ?n" "slot_free (get_entry ?b i)" "\<forall>k<i. \<not> slot_free (get_entry ?b k)"
      using free_slot_Some [OF Some] by auto
    let ?w = "v\<lparr>fat_cache := F\<rparr>" and ?p = "put_entry i E (read_root v s)"
    define v' where "v' = write_root s ?p ?w"
    have w: "root_slots ?w r m = root_slots v r m" "read_root ?w r = read_root v r" "vol_ok ?w" for r m
      using assms(1) by (auto intro!: root_slots_cong simp: read_root_def entries_per_sector_def vol_ok_def)
    have it: "iter_root_write cb s (Suc n) c v = (C, v')"
      using Some assms(2) iter_root_write_done [of cb C, OF assms(3)] by (simp add: Let_def v'_def)
    have s: "s < 2 ^ 32" using Suc.prems(1) by simp
    have "block (read_root v' s) 0 (entries_per_sector v') = (block ?b 0 ?n)[i := E]"
      using block_write_same [OF w(3) s, of ?p] block_put [OF i(1) assms(4)] w(3) assms(1)
      by (simp add: v'_def eps_512)
    moreover have "root_slots v' (Suc s) n = root_slots v (Suc s) n"
      using root_slots_write_other [of s "Suc s" n ?p ?w] Suc.prems(1) w(1) by (simp add: v'_def)
    ultimately have "root_slots v' s (Suc n) = (root_slots v s (Suc n))[i := E]"
      using i(1) by (simp add: list_update_append)
    moreover have "first_at slot_free (root_slots v s (Suc n)) i"
      using i first_at_append1 [of slot_free "block ?b 0 ?n" i "root_slots v (Suc s) n"] by (simp add: first_at_def nth_block)
    moreover have "same_geometry v v'"
      unfolding v'_def by (rule same_geometry_trans [OF same_geometryI(1) write_root_fields(4)])
    moreover have "read_root v' r = read_root v r" if "r < s" for r
      using that s w(2) by (auto simp: v'_def fun_eq_iff read_write_root)
    moreover have "fat_cache v' = F" by (simp add: v'_def)
    ultimately show ?thesis using it by blast
  qed
qed simp


text \<open>
  A proper slot list has nothing but end marks behind an end mark.
\<close>

definition slots_ok :: "dir_entry list \<Rightarrow> bool" where
  "slots_ok es \<longleftrightarrow> (\<forall>as b bs. es = as @ b # bs \<and> entry_end b \<longrightarrow> (\<forall>x\<in>set bs. entry_end x))"

lemma slots_ok_ends: "slots_ok (as @ b # bs) \<Longrightarrow> entry_end b \<Longrightarrow> x \<in> set bs \<Longrightarrow> entry_end x"
  unfolding slots_ok_def by blast

lemma live_ends: "\<forall>x\<in>set es. entry_end x \<Longrightarrow> live es = []"
  by (cases es) auto

lemma live_insert:
  assumes "slots_ok es" and "first_at slot_free es k" and "\<not> entry_end e" and "shown e"
  shows "\<exists>xs ys. live es = xs @ ys \<and> live (es[k := e]) = xs @ e # ys"
  using assms(2)
proof (rule first_at_split)
  fix as b bs
  assume s: "es = as @ b # bs" "slot_free b" "\<forall>a\<in>set as. \<not> slot_free a" "\<And>e. es[k := e] = as @ e # bs"
  have as: "\<not> (\<exists>x\<in>set as. entry_end x)" using s(3) by (auto simp: slot_free_def)
  have "live (b # bs) = live bs"
  proof (cases "entry_end b")
    case True
    then have "\<forall>x\<in>set bs. entry_end x" using assms(1) s(1) by (auto simp: slots_ok_def)
    then show ?thesis using True by (simp add: live_ends)
  qed (use s(2) in \<open>auto simp: slot_free_def shown_def\<close>)
  then have "live es = live as @ live bs" unfolding s(1) using as by (simp add: live_append)
  moreover have "live (es[k := e]) = live as @ e # live bs"
    unfolding s(4) using as assms(3,4) by (simp add: live_append)
  ultimately show ?thesis by blast
qed

text \<open>The search for a name, and the change of the entry found.\<close>

definition hit :: "cstring \<Rightarrow> dir_entry \<Rightarrow> bool" where
  "hit nm e \<longleftrightarrow> entry_end e \<or> shown e \<and> matches nm e"

lemma find_entry_Some:
  assumes "find_entry nm buf i n = Some j"
  shows "\<exists>k<n. j = i + k \<and> first_at (hit nm) (block buf i n) k \<and> \<not> entry_end (get_entry buf j)"
  using assms
proof (induction n arbitrary: i)
  case (Suc n)
  let ?e = "get_entry buf i"
  show ?case
  proof (cases "hit nm ?e")
    case True
    then have "j = i" "\<not> entry_end ?e" using Suc.prems by (auto simp: hit_def shown_def matches_def Let_def split: if_splits)
    then show ?thesis using True by (intro exI [of _ 0]) (simp add: first_at_def)
  next
    case False
    then have "find_entry nm buf (Suc i) n = Some j"
      using Suc.prems by (auto simp: hit_def shown_def matches_def Let_def split: if_splits)
    then obtain k where "k < n" "j = Suc i + k" "first_at (hit nm) (block buf (Suc i) n) k" "\<not> entry_end (get_entry buf j)"
      using Suc.IH by blast
    then show ?thesis using False first_at_append2 [of "[?e]" "hit nm" "block buf (Suc i) n" k]
      by (intro exI [of _ "Suc k"]) simp
  qed
qed simp

lemma find_entry_None:
  assumes "find_entry nm buf i n = None"
  shows "(\<forall>e\<in>set (block buf i n). \<not> hit nm e) \<or>
    (\<exists>k. first_at (hit nm) (block buf i n) k \<and> entry_end (block buf i n ! k))"
  using assms
proof (induction n arbitrary: i)
  case (Suc n)
  let ?e = "get_entry buf i"
  show ?case
  proof (cases "hit nm ?e")
    case True
    then have "entry_end ?e" using Suc.prems by (auto simp: hit_def shown_def matches_def Let_def split: if_splits)
    then show ?thesis using True by (intro disjI2 exI [of _ 0]) (simp add: first_at_def)
  next
    case False
    then have "find_entry nm buf (Suc i) n = None"
      using Suc.prems by (auto simp: hit_def shown_def matches_def Let_def split: if_splits)
    from Suc.IH [OF this] show ?thesis
    proof
      assume "\<exists>k. first_at (hit nm) (block buf (Suc i) n) k \<and> entry_end (block buf (Suc i) n ! k)"
      then obtain k where "first_at (hit nm) (block buf (Suc i) n) k" "entry_end (block buf (Suc i) n ! k)" by blast
      then show ?thesis using False first_at_append2 [of "[?e]" "hit nm" "block buf (Suc i) n" k]
        by (intro disjI2 exI [of _ "Suc k"]) simp
    qed (use False in auto)
  qed
qed simp

lemma first_at_0: "first_at P (x # xs) 0 \<longleftrightarrow> P x"
  by (simp add: first_at_def)

lemma first_at_Suc: "first_at P (x # xs) (Suc k) \<longleftrightarrow> \<not> P x \<and> first_at P xs k"
  unfolding first_at_def by (simp only: All_less_Suc2) auto

lemma find_live:
  "List.find (matches nm) (live es) = Some e \<longleftrightarrow>
    (\<exists>k. first_at (hit nm) es k \<and> es ! k = e \<and> \<not> entry_end e)"
proof (induction es)
  case (Cons x es)
  show ?case
  proof (cases "hit nm x")
    case True
    then have at: "first_at (hit nm) (x # es) k \<longleftrightarrow> k = 0" for k by (cases k) (simp_all add: first_at_0 first_at_Suc)
    show ?thesis unfolding at using True by (cases "entry_end x") (auto simp: hit_def)
  next
    case False
    then have at: "first_at (hit nm) (x # es) k \<longleftrightarrow> (\<exists>l. k = Suc l \<and> first_at (hit nm) es l)" for k
      by (cases k) (simp_all add: first_at_Suc first_at_0)
    have "List.find (matches nm) (live (x # es)) = List.find (matches nm) (live es)"
      using False by (simp add: hit_def)
    then have "List.find (matches nm) (live (x # es)) = Some e \<longleftrightarrow> (\<exists>k. first_at (hit nm) es k \<and> es ! k = e \<and> \<not> entry_end e)"
      using Cons by (simp only:)
    then show ?thesis unfolding at by fastforce
  qed
qed (simp add: first_at_def)

lemma first_at_unique: "first_at P xs k \<Longrightarrow> first_at P xs l \<Longrightarrow> k = l"
  by (meson first_at_def linorder_neqE_nat)

lemma root_change_found:
  assumes "vol_ok v" and "s + n \<le> 2 ^ 32" and "first_at (hit nm) (root_slots v s n) k"
    and "\<not> entry_end (root_slots v s n ! k)" and "entry_wf (f (root_slots v s n ! k))"
  shows "\<exists>v'. root_change nm f s n v = (True, v') \<and> same_geometry v v' \<and> fat_cache v' = fat_cache v \<and>
    root_slots v' s n = (root_slots v s n)[k := f (root_slots v s n ! k)] \<and> (\<forall>r. r < s \<longrightarrow> read_root v' r = read_root v r)"
  using assms(2-5)
proof (induction n arbitrary: s k)
  case (Suc n)
  let ?b = "read_root v s" and ?n = "entries_per_sector v"
  let ?B = "block (read_root v s) 0 (entries_per_sector v)"
  have s: "s < 2 ^ 32" "Suc s + n \<le> 2 ^ 32" using Suc.prems(1) by simp_all
  show ?case
  proof (cases "find_entry nm ?b 0 ?n")
    case None
    have nb: "\<forall>e\<in>set ?B. \<not> hit nm e"
    proof (rule disjE [OF find_entry_None [OF None]])
      assume "\<exists>k. first_at (hit nm) ?B k \<and> entry_end (?B ! k)"
      then obtain l where l: "first_at (hit nm) ?B l" "entry_end (?B ! l)" by blast
      then have "k = l" using first_at_unique [OF Suc.prems(2)] first_at_append1 [of "hit nm" ?B l] by simp
      then show ?thesis using l Suc.prems(3) by (simp add: first_at_def nth_append)
    qed
    have kn: "?n \<le> k"
    proof (rule ccontr)
      assume "\<not> ?n \<le> k"
      then have "root_slots v s (Suc n) ! k \<in> set ?B" by (simp add: nth_append)
      then show False using nb Suc.prems(2) by (auto simp: first_at_def)
    qed
    then obtain l where k: "k = ?n + l" using le_Suc_ex by blast
    have at: "first_at (hit nm) (root_slots v (Suc s) n) l" "root_slots v s (Suc n) ! k = root_slots v (Suc s) n ! l"
      using Suc.prems(2) first_at_append2D [of "hit nm" ?B "root_slots v (Suc s) n" l] by (simp_all add: k nth_append)
    obtain v' where ih: "root_change nm f (Suc s) n v = (True, v')" "same_geometry v v'" "fat_cache v' = fat_cache v"
      "root_slots v' (Suc s) n = (root_slots v (Suc s) n)[l := f (root_slots v (Suc s) n ! l)]"
      "\<forall>r. r < Suc s \<longrightarrow> read_root v' r = read_root v r"
      using Suc.IH [OF s(2) at(1)] Suc.prems(3,4) at(2) by auto
    have "entries_per_sector v' = ?n" using assms(1) same_geometry_fields(1) [OF ih(2)] by (simp add: eps_512)
    then have "root_slots v' s (Suc n) = (root_slots v s (Suc n))[k := f (root_slots v s (Suc n) ! k)]"
      using ih(4,5) at(2) by (simp add: k list_update_append nth_append)
    then show ?thesis using None ih by (auto simp: Let_def)
  next
    case (Some j)
    obtain j: "j < ?n" "first_at (hit nm) ?B j" using find_entry_Some [OF Some] by auto
    have kj: "k = j" using first_at_unique [OF Suc.prems(2)] first_at_append1 [OF j(2), of "root_slots v (Suc s) n"] by simp
    have e: "root_slots v s (Suc n) ! k = get_entry ?b j" using j(1) by (simp add: kj nth_append nth_block)
    let ?p = "put_entry j (f (get_entry ?b j)) ?b"
    define v' where "v' = write_root s ?p v"
    have "block (read_root v' s) 0 (entries_per_sector v') = ?B[j := f (get_entry ?b j)]"
      using block_write_same [OF assms(1) s(1), of ?p] block_put [OF j(1)] Suc.prems(4) e by (simp add: v'_def)
    moreover have "root_slots v' (Suc s) n = root_slots v (Suc s) n"
      using root_slots_write_other [of s "Suc s" n ?p v] s by (simp add: v'_def)
    ultimately have "root_slots v' s (Suc n) = (root_slots v s (Suc n))[k := f (root_slots v s (Suc n) ! k)]"
      unfolding e using j(1) by (simp add: kj list_update_append)
    moreover have "read_root v' r = read_root v r" if "r < s" for r
      using that s(1) by (auto simp: v'_def fun_eq_iff read_write_root)
    ultimately show ?thesis using Some by (auto simp: Let_def v'_def)
  qed
qed (simp add: first_at_def)


lemma root_change_none:
  assumes "\<forall>e\<in>set (root_slots v s n). shown e \<and> matches nm e \<longrightarrow> entry_end e"
  shows "root_change nm f s n v = (False, v)"
  using assms
proof (induction n arbitrary: s)
  case (Suc n)
  have "find_entry nm (read_root v s) 0 (entries_per_sector v) = None"
  proof (rule ccontr)
    assume "find_entry nm (read_root v s) 0 (entries_per_sector v) \<noteq> None"
    then obtain j where "find_entry nm (read_root v s) 0 (entries_per_sector v) = Some j" by auto
    from find_entry_Some [OF this] have j: "first_at (hit nm) (block (read_root v s) 0 (entries_per_sector v)) j"
      "\<not> entry_end (block (read_root v s) 0 (entries_per_sector v) ! j)" by (auto simp: nth_block)
    then have "block (read_root v s) 0 (entries_per_sector v) ! j \<in> set (root_slots v s (Suc n))"
      by (simp add: first_at_def)
    with j Suc.prems show False unfolding first_at_def hit_def by blast
  qed
  then show ?case using Suc by simp
qed simp

lemma find_live_None:
  assumes "slots_ok es" and "List.find (matches nm) (live es) = None" and "e \<in> set es" and "shown e" and "matches nm e"
  shows "entry_end e"
proof (rule ccontr)
  assume ne: "\<not> entry_end e"
  obtain as bs where es: "es = as @ e # bs" using assms(3) by (meson split_list)
  have "\<not> entry_end a" if "a \<in> set as" for a
  proof
    assume "entry_end a"
    moreover from \<open>a \<in> set as\<close> obtain ps qs where "as = ps @ a # qs" by (auto dest: split_list)
    ultimately show False using assms(1) ne es slots_ok_ends [of ps a "qs @ e # bs" e] by simp
  qed
  then have "e \<in> set (live es)" using ne assms(4) by (simp add: es live_append)
  then show False using assms(2,5) by (auto simp: find_None_iff)
qed

text \<open>The tables lie in front of the root directory; flushing them leaves it alone.\<close>

definition layout_ok :: "fat12_fs \<Rightarrow> bool" where
  "layout_ok v \<longleftrightarrow> root_lba v = fat_lba v + ucast (num_fats v) * ucast (fat_size_sectors v)"

lemma root_dir_sectors_small: "vol_ok v \<Longrightarrow> root_dir_sectors v \<le> 4096"
proof -
  assume "vol_ok v"
  moreover have "unat (root_entry_count v) < 65536" using unsigned_less [of "root_entry_count v", where 'a = nat] by simp
  ultimately show ?thesis by (simp add: vol_ok_def root_dir_sectors_def)
qed

lemma fat_sector_apart:
  assumes "layout_ok v" and "i < unat (num_fats v)" and "s < 0x100000"
  shows "\<not> unat (root_lba v + of_nat s - (fat_lba v + of_nat i * ucast (fat_size_sectors v))) < unat (fat_size_sectors v)"
proof -
  let ?f = "unat (fat_size_sectors v)" and ?n = "unat (num_fats v)"
  have b: "?f < 65536" "?n < 256"
    using unsigned_less [of "fat_size_sectors v", where 'a = nat] unsigned_less [of "num_fats v", where 'a = nat] by simp_all
  have n: "?n * ?f \<le> 255 * 65535" using b by (intro mult_le_mono) simp_all
  have le: "Suc i * ?f \<le> ?n * ?f" using assms(2) by (intro mult_le_mono1) simp
  have "root_lba v + of_nat s - (fat_lba v + of_nat i * ucast (fat_size_sectors v)) = of_nat (?n * ?f + s) - of_nat (i * ?f)"
    using assms(1) by (simp add: layout_ok_def)
  moreover have "unat (of_nat (?n * ?f + s) - of_nat (i * ?f) :: u32) = ?n * ?f + s - i * ?f"
  proof -
    have "?n * ?f + s < 2 ^ 32" "i * ?f < 2 ^ 32" "i * ?f \<le> ?n * ?f + s" using n le assms(3) by simp_all
    then show ?thesis by (simp add: unat_of_nat_diff del: of_nat_mult of_nat_add)
  qed
  ultimately have "unat (root_lba v + of_nat s - (fat_lba v + of_nat i * ucast (fat_size_sectors v))) = ?n * ?f + s - i * ?f"
    by (simp only:)
  then show ?thesis using le by simp
qed

lemma flush_frame:
  assumes "layout_ok v"
  shows "same_geometry v (fat12_flush_fat v) \<and> fat_cache (fat12_flush_fat v) = fat_cache v \<and>
    (\<forall>s. s < 0x100000 \<longrightarrow> read_root (fat12_flush_fat v) s = read_root v s)"
proof -
  define st where "st i w = w\<lparr>disk := disk_write (fat_lba w + of_nat i * ucast (fat_size_sectors w))
    (unat (fat_size_sectors w)) (fat_cache w) (disk w)\<rparr>" for i and w :: fat12_fs
  define P where "P w \<longleftrightarrow> same_geometry v w \<and> fat_cache w = fat_cache v \<and> (\<forall>s. s < 0x100000 \<longrightarrow> read_root w s = read_root v s)" for w
  have "P (fold st [0..<unat (num_fats v)] v)"
  proof (rule fold_preserves)
    fix i w assume i: "i \<in> set [0..<unat (num_fats v)]" and w: "P w"
    have g: "root_lba w = root_lba v" "fat_lba w = fat_lba v" "fat_size_sectors w = fat_size_sectors v"
      using w unfolding P_def same_geometry_def by (metis fat12_fs.ext_inject fat12_fs.surjective fat12_fs.update_convs(12,16))+
    have "read_root (st i w) s = read_root w s" if "s < 0x100000" for s
      using fat_sector_apart [OF assms _ that, of i] i g
      by (auto simp: st_def read_root_def disk_read_def disk_write_def ATA_SECTOR_SIZE_def fun_eq_iff)
    then show "P (st i w)"
      using w same_geometry_trans [OF _ same_geometryI(2)] by (simp add: P_def st_def)
  qed (simp add: P_def)
  then show ?thesis unfolding fat12_flush_fat_def P_def st_def by blast
qed


lemma geometry_dir:
  assumes "same_geometry v v'"
  shows "root_dir_sectors v' = root_dir_sectors v" "layout_ok v' = layout_ok v" "entries_per_sector v' = entries_per_sector v"
    "entries_per_cluster v' = entries_per_cluster v"
proof -
  have v': "v' = v\<lparr>fat_cache := fat_cache v', disk := disk v'\<rparr>" using assms by (simp only: same_geometry_def)
  show "root_dir_sectors v' = root_dir_sectors v" "layout_ok v' = layout_ok v" "entries_per_sector v' = entries_per_sector v"
    "entries_per_cluster v' = entries_per_cluster v"
    by (subst v', simp add: root_dir_sectors_def layout_ok_def entries_per_sector_def entries_per_cluster_def bytes_per_cluster_def)+
qed

definition all_root_slots :: "fat12_fs \<Rightarrow> dir_entry list" where
  "all_root_slots v = root_slots v 0 (root_dir_sectors v)"

lemma root_is_dir: "vol_ok v \<Longrightarrow> is_dir v FAT12_ROOT_INODE []" "dir_slots v FAT12_ROOT_INODE cs = all_root_slots v"
  by (simp_all add: is_dir_def dir_slots_def all_root_slots_def)

lemma finddir_root:
  assumes "vol_ok v" and "inode dir = FAT12_ROOT_INODE" and "flags dir AND FS_DIRECTORY \<noteq> 0"
  shows "fat12_finddir_fs v dir nm = Some (map_option fat12_make_node (List.find (matches nm) (live (all_root_slots v))))"
  using assms find_iterate [OF root_is_dir(1) [OF assms(1)]] by (simp add: fat12_finddir_fs_def root_is_dir(2))

text \<open>A new entry is a proper one, and its name is found again.\<close>

lemma new_entry_ok:
  assumes "valid_83 nm" and "hd nm \<noteq> 0xE5" and "attr \<noteq> 0x0F"
  shows "entry_wf (new_entry nm attr c)" "entry_name (new_entry nm attr c) = map upcase nm"
    "\<not> entry_end (new_entry nm attr c)" "shown (new_entry nm attr c)" "matches nm (new_entry nm attr c)"
proof -
  obtain n8 x3 where nx: "fat12_name_to_83 nm = (n8, x3)" by (cases "fat12_name_to_83 nm")
  show "entry_wf (new_entry nm attr c)"
    using name_to_83_length [of nm] by (simp add: nx new_entry_def entry_wf_def)
  show nm: "entry_name (new_entry nm attr c) = map upcase nm"
    using entry_name_83 [OF assms(1)] valid_83_no_NUL [OF assms(1)] by (auto simp: nx new_entry_def entry_name_def)
  have "n8 ! 0 = upcase (hd nm)" "hd nm \<noteq> NUL" using valid_83_hd [OF assms(1)] by (simp_all add: nx)
  moreover have "upcase c = 0xE5 \<longleftrightarrow> c = 0xE5" for c
    by (auto simp: upcase_def word_unat_eq_iff unat_sub_if_size word_le_nat_alt split: if_splits)
  ultimately show "\<not> entry_end (new_entry nm attr c)" "shown (new_entry nm attr c)"
    using assms(2,3) upcase_special(3) [of "hd nm"]
    by (simp_all add: new_entry_def nx entry_end_def shown_def entry_deleted_def NUL_def)
  show "matches nm (new_entry nm attr c)"
    using strcasecmp_fat_refl [OF valid_83_no_NUL [OF assms(1)]] by (simp add: matches_def nm)
qed

lemma alloc_small:
  assumes "vol_ok v" and "fat12_allocate_cluster (total_clusters v) (fat_cache v) = (c, fat)"
  shows "ucast (ucast c :: u16) = c"
proof (rule alloc_loop_cases [of 2 "total_clusters v + 2" "fat_cache v"])
  fix d assume d: "alloc_loop 2 (total_clusters v + 2) (fat_cache v) = (d, fat12_set_fat_entry d 0xFFF (fat_cache v))"
    "2 \<le> d" "d < total_clusters v + 2"
  then have "unat c < 0xFF7" using assms in_data_bound(2) [OF assms(1), of c]
    by (simp add: fat12_allocate_cluster_def in_data_def)
  then show ?thesis by (simp add: word_unat_eq_iff unat_ucast_mod)
qed (use assms(2) in \<open>simp add: fat12_allocate_cluster_def\<close>)

lemma root_slots_wf: "e \<in> set (root_slots v s n) \<Longrightarrow> entry_wf e"
  by (induction n arbitrary: s) (auto simp: block_def)

text \<open>Deleting the first match, and what the listing becomes.\<close>

lemma delete_entry_live:
  assumes "first_at (hit nm) es k" and "\<not> entry_end (es ! k)" and "entry_wf (es ! k)"
  defines "e \<equiv> es ! k"
  shows "\<exists>xs ys. live es = xs @ e # ys \<and> (\<forall>x\<in>set xs. \<not> matches nm x) \<and>
    live (es[k := e\<lparr>dname := (dname e)[0 := 0xE5]\<rparr>]) = xs @ ys"
  using assms(1)
proof (rule first_at_split)
  fix as b bs
  assume s: "es = as @ b # bs" "hit nm b" "\<forall>a\<in>set as. \<not> hit nm a" "es ! k = b" "\<And>e. es[k := e] = as @ e # bs"
  have b: "shown b" "\<not> entry_end b" using s(2,4) assms(2) by (auto simp: hit_def)
  have as: "\<not> (\<exists>x\<in>set as. entry_end x)" "\<forall>x\<in>set (live as). \<not> matches nm x"
    using s(3) by (auto simp: hit_def live_def dest: set_takeWhileD)
  have d: "\<not> entry_end (b\<lparr>dname := (dname b)[0 := 0xE5]\<rparr>)" "\<not> shown (b\<lparr>dname := (dname b)[0 := 0xE5]\<rparr>)"
    using assms(3) s(4) by (simp_all add: entry_wf_def entry_end_def shown_def entry_deleted_def)
  have "live es = live as @ b # live bs" unfolding s(1) using as(1) b by (simp add: live_append)
  moreover have "live (es[k := b\<lparr>dname := (dname b)[0 := 0xE5]\<rparr>]) = live as @ live bs"
    unfolding s(5) using as(1) d by (simp add: live_append)
  ultimately show ?thesis unfolding e_def s(4) using as(2) by blast
qed

lemma all_root_slots_flush:
  assumes "vol_ok v" and "layout_ok v"
  shows "all_root_slots (fat12_flush_fat v) = all_root_slots v"
proof -
  note f = flush_frame [OF assms(2)]
  have "root_slots (fat12_flush_fat v) 0 (root_dir_sectors v) = root_slots v 0 (root_dir_sectors v)"
    using f root_dir_sectors_small [OF assms(1)] geometry_dir(3) by (intro root_slots_cong) auto
  then show ?thesis using geometry_dir(1) [of v "fat12_flush_fat v"] f by (simp add: all_root_slots_def)
qed

lemma all_root_slots_cache: "all_root_slots (v\<lparr>fat_cache := f\<rparr>) = all_root_slots v"
proof -
  have "read_root (v\<lparr>fat_cache := f\<rparr>) r = read_root v r" for r by (simp add: read_root_def)
  then show ?thesis unfolding all_root_slots_def
    by (simp add: root_dir_sectors_def entries_per_sector_def root_slots_cong [of _ _ "v\<lparr>fat_cache := f\<rparr>" v])
qed

lemma make_node_flags: "flags (fat12_make_node e) AND FS_DIRECTORY = 0 \<longleftrightarrow> attributes e AND 0x10 = 0"
  by (simp add: fat12_make_node_def Let_def FS_DIRECTORY_def FS_FILE_def)

lemma make_node_inode: "inode (fat12_make_node e) = ucast (first_cluster e)"
  by (simp add: fat12_make_node_def Let_def)

lemma free_file_chain:
  "\<exists>fat. (if 2 \<le> c then free_cluster_chain c v else Some v) = Some (v\<lparr>fat_cache := fat\<rparr>) \<and>
     (if 2 \<le> c then fat12_free_cluster_chain c (fat_cache v) = Some fat else fat = fat_cache v)"
  if "unat c < 0x10000"
  using free_chain_total [OF that, of "fat_cache v"] by (auto simp: free_cluster_chain_def)

text \<open>Creating a file in the root directory, case by case.\<close>

lemma create_file_root:
  assumes "vol_ok v" and "inode dir = FAT12_ROOT_INODE" and "flags dir AND FS_DIRECTORY \<noteq> 0"
    and "valid_83 nm" and "hd nm \<noteq> 0xE5" and "slots_ok (all_root_slots v)"
  shows "case List.find (matches nm) (live (all_root_slots v)) of
      Some e \<Rightarrow> fat12_create_file dir nm v = Some (Some (fat12_make_node e), v)
    | None \<Rightarrow>
        if \<forall>e\<in>set (all_root_slots v). \<not> slot_free e then fat12_create_file dir nm v = Some (None, v)
        else \<exists>node v' e xs ys. fat12_create_file dir nm v = Some (Some node, v') \<and>
          name node = map upcase nm \<and> flags node = FS_FILE \<and> nsize node = 0 \<and>
          (inode node, fat_cache v') = fat12_allocate_cluster (total_clusters v) (fat_cache v) \<and>
          live (all_root_slots v) = xs @ ys \<and> live (all_root_slots v') = xs @ e # ys \<and>
          fat12_finddir_fs v' dir nm = Some (Some node)"
proof (cases "List.find (matches nm) (live (all_root_slots v))")
  note find = find_iterate [OF root_is_dir(1) [OF assms(1)], of nm, unfolded root_is_dir(2)]
  {
    case (Some e)
    then show ?thesis using find assms(2) by (simp add: fat12_create_file_def)
  next
    case None
    let ?n = "root_dir_sectors v"
    have cr: "fat12_create_file dir nm v = Some (iter_root_write (create_file_callback nm) 0 ?n None v)"
      using None find assms(2) by (simp add: fat12_create_file_def fat12_iterate_dir_write_def)
    show ?thesis
    proof (cases "\<forall>e\<in>set (all_root_slots v). \<not> slot_free e")
      case True
      then show ?thesis using None cr iter_root_write_full [of v 0 ?n] by (simp add: all_root_slots_def)
    next
      case False
      obtain c fat where a: "fat12_allocate_cluster (total_clusters v) (fat_cache v) = (c, fat)" by fastforce
      define E where "E = new_entry nm 0x20 c"
      note E = new_entry_ok [OF assms(4,5), of "0x20" c, folded E_def]
      have cb: "create_file_callback nm e None v = (E, Some (fat12_make_node E), v\<lparr>fat_cache := fat\<rparr>)"
        "create_file_callback nm e (Some n) w = (e, Some n, w)" for e n w
        by (simp_all add: create_file_callback_def allocate_cluster_def a E_def Let_def)
      have n: "0 + ?n \<le> 2 ^ 32" using root_dir_sectors_small [OF assms(1)] by simp
      have ex: "\<exists>e\<in>set (root_slots v 0 ?n). slot_free e" using False by (auto simp: all_root_slots_def)
      obtain k v' where w: "iter_root_write (create_file_callback nm) 0 ?n None v = (Some (fat12_make_node E), v')"
        "first_at slot_free (root_slots v 0 ?n) k" "root_slots v' 0 ?n = (root_slots v 0 ?n)[k := E]" "same_geometry v v'" "fat_cache v' = fat"
        using iter_root_write_fill [OF assms(1) cb E(1) n ex] E(3) by (auto simp: E_def)
      have s': "all_root_slots v' = (all_root_slots v)[k := E]"
        using w(3) geometry_dir(1) [OF w(4)] by (simp add: all_root_slots_def)
      have E': "\<not> entry_end E" "shown E" using E(3,4) by simp_all
      obtain xs ys where xy: "live (all_root_slots v) = xs @ ys" "live (all_root_slots v') = xs @ E # ys"
        using live_insert [OF assms(6) w(2) [folded all_root_slots_def] E'] unfolding s' by blast
      have "List.find (matches nm) (live (all_root_slots v')) = Some E"
        using None E(5) unfolding xy by (auto simp: find_None_iff find_Some_iff nth_append in_set_conv_nth
          intro!: exI [of _ "length xs"])
      then have "fat12_finddir_fs v' dir nm = Some (Some (fat12_make_node E))"
        using finddir_root [of v' dir nm] assms(1-3) same_geometry_fields(1) [OF w(4)] by simp
      moreover have "name (fat12_make_node E) = map upcase nm" "flags (fat12_make_node E) = FS_FILE"
        "nsize (fat12_make_node E) = 0" "inode (fat12_make_node E) = c"
        using E(2) alloc_small [OF assms(1) a]
        by (simp_all add: fat12_make_node_def Let_def E_def new_entry_def zero_node_def split: prod.splits)
      ultimately show ?thesis using None False cr w(1,5) xy a by auto
    qed
  }
qed


section \<open>Properties\<close>


text \<open>
  C21. Deleting from the root directory: an empty or unknown name and a directory return -1 and
  change nothing; a file returns 0, exactly the first entry of that name leaves the listing, and
  its cluster chain is released (the call returns even when the chain is cyclic).
\<close>

theorem fat12_unlink_correct:
  assumes "vol_ok v" and "layout_ok v" and "inode dir = FAT12_ROOT_INODE" and "slots_ok (all_root_slots v)"
  shows "fat12_unlink dir [] v = Some (- 1, v) \<and>
    (nm \<noteq> [] \<longrightarrow> (case List.find (matches nm) (live (all_root_slots v)) of
        None \<Rightarrow> fat12_unlink dir nm v = Some (- 1, v)
      | Some e \<Rightarrow>
          if attributes e AND 0x10 \<noteq> 0 then fat12_unlink dir nm v = Some (- 1, v)
          else \<exists>v' xs ys. fat12_unlink dir nm v = Some (0, v') \<and>
            live (all_root_slots v) = xs @ e # ys \<and> (\<forall>x\<in>set xs. \<not> matches nm x) \<and>
            live (all_root_slots v') = xs @ ys \<and>
            (if 2 \<le> first_cluster e
             then fat12_free_cluster_chain (ucast (first_cluster e)) (fat_cache v) = Some (fat_cache v')
             else fat_cache v' = fat_cache v)))"
proof (intro conjI impI)
  show "fat12_unlink dir [] v = Some (- 1, v)" by (simp add: fat12_unlink_def)
  assume nm: "nm \<noteq> []"
  note find = find_iterate [OF root_is_dir(1) [OF assms(1)], of nm, unfolded root_is_dir(2)]
  show "case List.find (matches nm) (live (all_root_slots v)) of
        None \<Rightarrow> fat12_unlink dir nm v = Some (- 1, v)
      | Some e \<Rightarrow>
          if attributes e AND 0x10 \<noteq> 0 then fat12_unlink dir nm v = Some (- 1, v)
          else \<exists>v' xs ys. fat12_unlink dir nm v = Some (0, v') \<and>
            live (all_root_slots v) = xs @ e # ys \<and> (\<forall>x\<in>set xs. \<not> matches nm x) \<and>
            live (all_root_slots v') = xs @ ys \<and>
            (if 2 \<le> first_cluster e
             then fat12_free_cluster_chain (ucast (first_cluster e)) (fat_cache v) = Some (fat_cache v')
             else fat_cache v' = fat_cache v)"
  proof (cases "List.find (matches nm) (live (all_root_slots v))")
    case None
    then show ?thesis using find assms(3) nm by (simp add: fat12_unlink_def)
  next
    case (Some e)
    show ?thesis
    proof (cases "attributes e AND 0x10 = 0")
      case False
      then show ?thesis using Some find assms(3) nm make_node_flags [of e] by (simp add: fat12_unlink_def)
    next
      case True
      let ?f = "\<lambda>e. e\<lparr>dname := (dname e)[0 := 0xE5]\<rparr>" and ?n = "root_dir_sectors v"
      obtain k where k: "first_at (hit nm) (all_root_slots v) k" "all_root_slots v ! k = e" "\<not> entry_end e"
        using Some find_live by blast
      have wf: "entry_wf e"
        using root_slots_wf k(1,2) by (metis all_root_slots_def first_at_def nth_mem)
      then have wf': "entry_wf (?f e)" by (simp add: entry_wf_def)
      have n: "0 + ?n \<le> 2 ^ 32" using root_dir_sectors_small [OF assms(1)] by simp
      obtain v1 where v1: "root_change nm ?f 0 ?n v = (True, v1)" "same_geometry v v1" "fat_cache v1 = fat_cache v"
        "root_slots v1 0 ?n = (root_slots v 0 ?n)[k := ?f e]"
        using root_change_found [OF assms(1) n k(1) [unfolded all_root_slots_def], of ?f] k(2,3) wf'
        by (auto simp: all_root_slots_def)
      let ?c = "ucast (first_cluster e) :: u32"
      have c: "unat ?c < 0x10000"
        using unsigned_less [of "first_cluster e", where 'a = nat] by (simp add: unat_ucast_mod)
      have c2: "2 \<le> ?c \<longleftrightarrow> 2 \<le> first_cluster e"
        using unsigned_less [of "first_cluster e", where 'a = nat] by (simp add: word_le_nat_alt unat_ucast_mod)
      obtain fat where fat: "(if 2 \<le> ?c then free_cluster_chain ?c v1 else Some v1) = Some (v1\<lparr>fat_cache := fat\<rparr>)"
        "if 2 \<le> ?c then fat12_free_cluster_chain ?c (fat_cache v1) = Some fat else fat = fat_cache v1"
        using free_file_chain [OF c] by blast
      define v' where "v' = fat12_flush_fat (v1\<lparr>fat_cache := fat\<rparr>)"
      have g: "same_geometry v (v1\<lparr>fat_cache := fat\<rparr>)" by (rule same_geometry_trans [OF v1(2) same_geometryI(1)])
      have "all_root_slots v' = all_root_slots v1"
        using all_root_slots_flush [of "v1\<lparr>fat_cache := fat\<rparr>"] geometry_dir(2) [OF g] same_geometry_fields(1) [OF g] assms(1,2)
        by (simp add: v'_def all_root_slots_cache)
      also have "\<dots> = (all_root_slots v)[k := ?f e]"
        using v1(4) geometry_dir(1) [OF v1(2)] by (simp add: all_root_slots_def)
      finally have slots: "all_root_slots v' = (all_root_slots v)[k := ?f e]" .
      have "fat_cache v' = fat"
        using flush_frame [of "v1\<lparr>fat_cache := fat\<rparr>"] geometry_dir(2) [OF g] assms(2) by (simp add: v'_def)
      moreover have "fat12_unlink dir nm v = Some (0, v')"
        using Some find assms(3) nm True make_node_flags [of e] v1(1) fat(1)
        by (simp add: fat12_unlink_def dir_change_def make_node_inode v'_def)
      moreover have "\<exists>xs ys. live (all_root_slots v) = xs @ e # ys \<and> (\<forall>x\<in>set xs. \<not> matches nm x) \<and>
          live (all_root_slots v') = xs @ ys"
        using delete_entry_live [OF k(1)] k(2,3) wf unfolding slots by auto
      moreover have "if 2 \<le> first_cluster e then fat12_free_cluster_chain ?c (fat_cache v) = Some fat else fat = fat_cache v"
        using fat(2) unfolding v1(3) c2 .
      ultimately show ?thesis using Some True by simp
    qed
  qed
qed


text \<open>
  After a write the entry of the file is looked for in the root directory by its name alone,
  whatever directory the file lives in: when the root has no entry of that name nothing is
  recorded, so the new size of a file in a subdirectory is lost; when it has one, that entry is
  redirected to the clusters and the size of the file just written, and no other entry changes.
\<close>

theorem update_goes_to_root:
  assumes "vol_ok v" and "root_inode v = FAT12_ROOT_INODE" and "slots_ok (all_root_slots v)"
  shows "case List.find (matches (name node)) (live (all_root_slots v)) of
      None \<Rightarrow> fat12_update_dir_entry node v = Some v
    | Some e \<Rightarrow> \<exists>v' k. fat12_update_dir_entry node v = Some v' \<and>
        k < length (all_root_slots v) \<and> all_root_slots v ! k = e \<and>
        all_root_slots v' = (all_root_slots v)[k := e\<lparr>first_cluster := ucast (inode node), file_size := nsize node\<rparr>]"
proof (cases "List.find (matches (name node)) (live (all_root_slots v))")
  case None
  then have "root_change (name node) f 0 (root_dir_sectors v) v = (False, v)" for f
    using find_live_None [OF assms(3) None] by (intro root_change_none) (auto simp: all_root_slots_def)
  then show ?thesis using None assms(2) by (simp add: fat12_update_dir_entry_def dir_change_def)
next
  case (Some e)
  let ?f = "\<lambda>e. e\<lparr>first_cluster := ucast (inode node), file_size := nsize node\<rparr>" and ?n = "root_dir_sectors v"
  obtain k where k: "first_at (hit (name node)) (all_root_slots v) k" "all_root_slots v ! k = e" "\<not> entry_end e"
    using Some find_live by blast
  have "entry_wf e" using root_slots_wf k(1,2) by (metis all_root_slots_def first_at_def nth_mem)
  then have wf: "entry_wf (?f e)" by (simp add: entry_wf_def)
  have n: "0 + ?n \<le> 2 ^ 32" using root_dir_sectors_small [OF assms(1)] by simp
  obtain v1 where v1: "root_change (name node) ?f 0 ?n v = (True, v1)" "same_geometry v v1"
    "root_slots v1 0 ?n = (root_slots v 0 ?n)[k := ?f e]"
    using root_change_found [OF assms(1) n k(1) [unfolded all_root_slots_def], of ?f] k(2,3) wf
    by (auto simp: all_root_slots_def)
  have "all_root_slots v1 = (all_root_slots v)[k := ?f e]"
    using v1(3) geometry_dir(1) [OF v1(2)] by (simp add: all_root_slots_def)
  then show ?thesis using Some v1(1) k assms(2)
    by (auto simp: fat12_update_dir_entry_def dir_change_def first_at_def)
qed

text \<open>A volume with an empty root directory, for the concrete instances.\<close>

definition empty_volume :: fat12_fs where
  "empty_volume = demo_volume\<lparr>disk := (\<lambda>_ _. 0)\<rparr>"

lemma empty_volume_ok:
  "vol_ok empty_volume" "layout_ok empty_volume" "root_inode empty_volume = FAT12_ROOT_INODE"
  "slots_ok (all_root_slots empty_volume)" "live (all_root_slots empty_volume) = []"
  "\<exists>e\<in>set (all_root_slots empty_volume). slot_free e"
proof -
  have rd: "read_root empty_volume s = (\<lambda>_. 0)" for s
    by (simp add: read_root_def empty_volume_def disk_read_def)
  have n: "root_dir_sectors empty_volume = 1" "entries_per_sector empty_volume = 16"
    by (simp_all add: root_dir_sectors_def entries_per_sector_def empty_volume_def demo_volume_def)
  have sl: "all_root_slots empty_volume = replicate 16 (get_entry (\<lambda>_. 0) 0)"
    unfolding all_root_slots_def n(1) One_nat_def root_slots.simps rd n(2) block_def
    by (intro nth_equalityI) (simp_all add: get_entry_def)
  have e: "entry_end (get_entry (\<lambda>_. 0) 0)" by (simp add: entry_end_def get_entry_def)
  show "slots_ok (all_root_slots empty_volume)"
    using e unfolding sl slots_ok_def by (metis in_set_conv_decomp in_set_replicate in_set_conv_decomp_first append_Cons append_assoc)
  show "live (all_root_slots empty_volume) = []" using e unfolding sl by (intro live_ends) simp
  show "\<exists>e\<in>set (all_root_slots empty_volume). slot_free e" using e unfolding sl by (auto simp: slot_free_def)
  show "vol_ok empty_volume" "layout_ok empty_volume" "root_inode empty_volume = FAT12_ROOT_INODE"
    by (simp_all add: empty_volume_def demo_volume_def vol_ok_def layout_ok_def FAT12_ROOT_INODE_def)
qed

lemma fat12_root_dir: "root_inode v = FAT12_ROOT_INODE \<Longrightarrow> inode (fat12_root v) = FAT12_ROOT_INODE"
  "flags (fat12_root v) AND FS_DIRECTORY \<noteq> 0"
  by (simp_all add: fat12_root_def FS_DIRECTORY_def)


theorem fat12_unlink_correct_witness:
  "fat12_unlink (fat12_root empty_volume) [0x61] empty_volume = Some (- 1, empty_volume)"
  using fat12_unlink_correct [OF empty_volume_ok(1,2) fat12_root_dir(1) [OF empty_volume_ok(3)] empty_volume_ok(4), of "[0x61]"]
    empty_volume_ok(5) by simp

theorem update_goes_to_root_witness:
  "fat12_update_dir_entry (zero_node\<lparr>name := [0x61], nsize := 5\<rparr>) empty_volume = Some empty_volume"
  using update_goes_to_root [OF empty_volume_ok(1,3,4), of "zero_node\<lparr>name := [0x61], nsize := 5\<rparr>"] empty_volume_ok(5) by simp

end
