(* ===== verification/Vfs.thy ===== *)
theory Vfs
  imports Fat12Dir
begin

text \<open>
  The virtual file system \<^verbatim>\<open>kernel/src/fs/vfs.c\<close> over its two file systems, FAT12 and the
  initial ram disk \<^verbatim>\<open>kernel/src/fs/initrd.c\<close>. Nodes live in a store indexed by address;
  \<^verbatim>\<open>malloc\<close> of a node takes a fresh address. A node's operation is a function pointer:
  calls through the pointers of the two file systems are executed, a call through the pointer of a
  device driver is reported as such (\<open>Device\<close>). \<open>None\<close> is a call that does not
  return (a cyclic FAT chain) or that follows a NULL pointer.
\<close>

section \<open>State\<close>

record fsys =
  nodes :: "nat \<Rightarrow> fs_node"
  next_node :: nat
  vol :: fat12_fs
  image :: bmem
  initrd_location :: u32
  initrd_mnt_node :: "nat option"
  root_dir :: nat

definition new_node :: "fs_node \<Rightarrow> fsys \<Rightarrow> nat \<times> fsys" where
  "new_node n s = (next_node s, s\<lparr>nodes := (nodes s)(next_node s := n), next_node := Suc (next_node s)\<rparr>)"

definition put_node :: "nat \<Rightarrow> fs_node \<Rightarrow> fsys \<Rightarrow> fsys" where
  "put_node a n s = s\<lparr>nodes := (nodes s)(a := n)\<rparr>"

datatype 'r outcome = Ret 'r | Device fnptr

section \<open>The initial ram disk\<close>

record initrd_entity =
  eflags :: u8
  estart :: u32
  esize :: u32
  ename :: cstring

definition mem32 :: "bmem \<Rightarrow> u32 \<Rightarrow> u32" where
  "mem32 m a = ucast (m a) OR push_bit 8 (ucast (m (a + 1))) OR push_bit 16 (ucast (m (a + 2))) OR push_bit 24 (ucast (m (a + 3)))"

text \<open>
  A packed directory entry: flags, start, size, and a 128-byte name field that holds a terminated
  string.
\<close>

definition read_entity :: "bmem \<Rightarrow> u32 \<Rightarrow> initrd_entity" where
  "read_entity m a =
     \<lparr>eflags = m a, estart = mem32 m (a + 1), esize = mem32 m (a + 5),
      ename = takeWhile (\<lambda>c. c \<noteq> NUL) (map (\<lambda>k. m (a + 9 + of_nat k)) [0..<128])\<rparr>"

definition initrd_loaddir :: "bmem \<Rightarrow> u32 \<Rightarrow> initrd_entity list" where
  "initrd_loaddir m location =
     map (\<lambda>i. read_entity m (location + 4 + 137 * of_nat i)) [0..<unat (mem32 m location)]"

definition initrd_loadfile_fs_node :: "cstring \<Rightarrow> u32 \<Rightarrow> u32 \<Rightarrow> fsys \<Rightarrow> nat \<times> fsys" where
  "initrd_loadfile_fs_node nm start sz s =
     new_node (zero_node\<lparr>flags := FS_FILE, name := nm, impl := start + initrd_location s, nsize := sz,
       nread := InitrdFn, nseek := InitrdFn, seek_offset := 0\<rparr>) s"

definition initrd_loaddir_fs_node :: "cstring \<Rightarrow> u32 \<Rightarrow> fsys \<Rightarrow> nat \<times> fsys" where
  "initrd_loaddir_fs_node nm start s =
     new_node (zero_node\<lparr>flags := FS_DIRECTORY, name := nm, impl := start + initrd_location s,
       nreaddir := InitrdFn, nfinddir := InitrdFn\<rparr>) s"

definition mnt_name :: cstring where
  "mnt_name = [0x6D, 0x6E, 0x74]"

definition initrd_finddir_fs :: "fs_node \<Rightarrow> cstring \<Rightarrow> fsys \<Rightarrow> nat option \<times> fsys" where
  "initrd_finddir_fs node nm s =
     (if flags node AND FS_DIRECTORY \<noteq> FS_DIRECTORY then (None, s)
      else if nm = mnt_name \<and> initrd_mnt_node s \<noteq> None then (initrd_mnt_node s, s)
      else case List.find (\<lambda>e. ename e = nm) (initrd_loaddir (image s) (impl node)) of
             None \<Rightarrow> (None, s)
           | Some e \<Rightarrow>
               let (a, s) = (if eflags e AND FS_FILE \<noteq> 0 then initrd_loadfile_fs_node (ename e) (estart e) (esize e) s
                             else initrd_loaddir_fs_node (ename e) (estart e) s)
               in (Some a, s))"

definition initrd_readdir_fs :: "fs_node \<Rightarrow> fsys \<Rightarrow> cstring list option" where
  "initrd_readdir_fs node s =
     (if flags node AND FS_DIRECTORY \<noteq> FS_DIRECTORY then None
      else Some (map ename (initrd_loaddir (image s) (impl node))))"

definition initrd_read_fs :: "fs_node \<Rightarrow> u32 \<Rightarrow> u32 \<Rightarrow> bytes \<Rightarrow> fsys \<Rightarrow> u32 \<times> bytes \<times> fs_node" where
  "initrd_read_fs node sz units buffer s =
     (if flags node AND FS_DIRECTORY = FS_DIRECTORY then (0, buffer, node)
      else if sz = 0 \<or> units = 0 then (0, buffer, node)
      else
        let tot = sz * units
        in if nsize node \<le> seek_offset node then (0, buffer, node)
           else
             let tot = (if nsize node < seek_offset node + tot then nsize node - seek_offset node else tot);
                 buffer = (\<lambda>i. if i < unat tot then image s (impl node + seek_offset node + of_nat i) else buffer i);
                 node = node\<lparr>seek_offset := seek_offset node + tot\<rparr>
             in (if tot div sz \<noteq> 0 then tot div sz else if 0 < tot then 1 else 0, buffer, node))"

definition initrd_seek_fs :: "u32 \<Rightarrow> u8 \<Rightarrow> fs_node \<Rightarrow> fs_node" where
  "initrd_seek_fs offset typ node =
     (if typ = SEEK_START then node\<lparr>seek_offset := offset\<rparr>
      else if typ = SEEK_CUR then node\<lparr>seek_offset := seek_offset node + offset\<rparr>
      else node\<lparr>seek_offset := nsize node - offset\<rparr>)"

definition initrd_set_mount_point :: "nat \<Rightarrow> fsys \<Rightarrow> fsys" where
  "initrd_set_mount_point mnt s = s\<lparr>initrd_mnt_node := Some mnt\<rparr>"

definition init_vfs :: "nat \<Rightarrow> fsys \<Rightarrow> fsys" where
  "init_vfs root s = s\<lparr>root_dir := root\<rparr>"

text \<open>The header is the four bytes of its magic.\<close>

definition init_initrd :: "u32 \<Rightarrow> fsys \<Rightarrow> fsys" where
  "init_initrd initrd_start s =
     (let s = s\<lparr>initrd_location := initrd_start\<rparr>;
          (root_fs, s) = initrd_loaddir_fs_node [0x2F] (initrd_start + 4 - initrd_location s) s
      in init_vfs root_fs s)"

section \<open>Calls through a node\<close>

definition read_fs :: "nat \<Rightarrow> u32 \<Rightarrow> u32 \<Rightarrow> bytes \<Rightarrow> fsys \<Rightarrow> (u32 \<times> bytes \<times> fsys) outcome option" where
  "read_fs a sz units buffer s =
     (case nread (nodes s a) of
        NoFn \<Rightarrow> Some (Ret (0, buffer, s))
      | Fat12Fn \<Rightarrow>
          (case fat12_read_fs (nodes s a) sz units buffer (vol s) of
             None \<Rightarrow> None
           | Some (r, buffer, n) \<Rightarrow> Some (Ret (r, buffer, put_node a n s)))
      | InitrdFn \<Rightarrow> let (r, buffer, n) = initrd_read_fs (nodes s a) sz units buffer s in Some (Ret (r, buffer, put_node a n s))
      | f \<Rightarrow> Some (Device f))"

definition write_fs :: "nat \<Rightarrow> u32 \<Rightarrow> u32 \<Rightarrow> bytes \<Rightarrow> fsys \<Rightarrow> (u32 \<times> fsys) outcome option" where
  "write_fs a sz units buffer s =
     (case nwrite (nodes s a) of
        NoFn \<Rightarrow> Some (Ret (0, s))
      | Fat12Fn \<Rightarrow>
          (case fat12_write_fs (nodes s a) sz units buffer (vol s) of
             None \<Rightarrow> None
           | Some (r, n, v) \<Rightarrow> Some (Ret (r, put_node a n (s\<lparr>vol := v\<rparr>))))
      | f \<Rightarrow> Some (Device f))"

definition seek_fs :: "nat \<Rightarrow> u32 \<Rightarrow> u8 \<Rightarrow> fsys \<Rightarrow> fsys outcome" where
  "seek_fs a offset typ s =
     (case nseek (nodes s a) of
        NoFn \<Rightarrow> Ret s
      | Fat12Fn \<Rightarrow> Ret (put_node a (fat12_seek_fs offset typ (nodes s a)) s)
      | InitrdFn \<Rightarrow> Ret (put_node a (initrd_seek_fs offset typ (nodes s a)) s)
      | f \<Rightarrow> Device f)"

definition open_fs :: "nat \<Rightarrow> fsys \<Rightarrow> fsys outcome" where
  "open_fs a s = (case nopen (nodes s a) of NoFn \<Rightarrow> Ret s | f \<Rightarrow> Device f)"

definition close_fs :: "nat \<Rightarrow> fsys \<Rightarrow> fsys outcome" where
  "close_fs a s = (case nclose (nodes s a) of NoFn \<Rightarrow> Ret s | Fat12Fn \<Rightarrow> Ret s | f \<Rightarrow> Device f)"

text \<open>The listing of a directory followed by the names of what is mounted in it.\<close>

definition readdir_fs :: "nat \<Rightarrow> fsys \<Rightarrow> cstring list option option" where
  "readdir_fs a s =
     (let node = nodes s a
      in if flags node AND FS_DIRECTORY \<noteq> FS_DIRECTORY then Some None
         else case (case nreaddir node of
                      NoFn \<Rightarrow> Some None
                    | Fat12Fn \<Rightarrow> map_option (map_option fst) (fat12_readdir_fs (vol s) node)
                    | InitrdFn \<Rightarrow> Some (initrd_readdir_fs node s)
                    | f \<Rightarrow> None) of
                None \<Rightarrow> None
              | Some d \<Rightarrow>
                  Some (case (d, mounts node) of
                          (None, []) \<Rightarrow> None
                        | (None, ms) \<Rightarrow> Some (map fst ms)
                        | (Some fs, ms) \<Rightarrow> Some (fs @ map fst ms)))"

definition call_finddir :: "fs_node \<Rightarrow> cstring \<Rightarrow> fsys \<Rightarrow> (nat option \<times> fsys) option" where
  "call_finddir node nm s =
     (case nfinddir node of
        Fat12Fn \<Rightarrow>
          (case fat12_finddir_fs (vol s) node nm of
             None \<Rightarrow> None
           | Some None \<Rightarrow> Some (None, s)
           | Some (Some n) \<Rightarrow> Some (let (a, s) = new_node n s in (Some a, s)))
      | InitrdFn \<Rightarrow> Some (initrd_finddir_fs node nm s)
      | f \<Rightarrow> None)"

definition finddir_fs :: "nat \<Rightarrow> cstring \<Rightarrow> fsys \<Rightarrow> (nat option \<times> fsys) option" where
  "finddir_fs a nm s =
     (let node = nodes s a
      in if flags node AND FS_DIRECTORY \<noteq> FS_DIRECTORY then Some (None, s)
         else case (if nfinddir node \<noteq> NoFn then call_finddir node nm s else Some (None, s)) of
                None \<Rightarrow> None
              | Some (Some b, s) \<Rightarrow> Some (Some b, s)
              | Some (None, s) \<Rightarrow> Some (map_of (mounts node) nm, s))"

section \<open>Paths\<close>

definition SLASH :: u8 where "SLASH = 0x2F"

definition is_mountpoint :: "fs_node \<Rightarrow> bool" where
  "is_mountpoint n \<longleftrightarrow> flags n AND FS_MOUNTPOINT = FS_MOUNTPOINT"

text \<open>\<^verbatim>\<open>while ((root->flags & FS_MOUNTPOINT) == FS_MOUNTPOINT && root->ptr) root = root->ptr;\<close>\<close>

partial_function (option) follow_mounts :: "fsys \<Rightarrow> nat \<Rightarrow> nat option" where
  "follow_mounts s a =
     (if is_mountpoint (nodes s a) then (case ptr (nodes s a) of None \<Rightarrow> Some a | Some b \<Rightarrow> follow_mounts s b)
      else Some a)"

lemma drop_component:
  assumes "path \<noteq> []"
  shows "length (dropWhile (\<lambda>c. c \<noteq> SLASH) (dropWhile (\<lambda>c. c = SLASH) path)) < length path"
proof (cases path)
  case (Cons c cs)
  have "length (dropWhile P xs) \<le> length xs" for P and xs :: cstring by (rule length_dropWhile_le)
  then show ?thesis using Cons by (cases "c = SLASH") (auto simp: less_Suc_eq_le intro: order_trans)
qed (use assms in simp)

function get_node :: "cstring \<Rightarrow> nat option \<Rightarrow> fsys \<Rightarrow> (nat option \<times> fsys) option" where
  "get_node path None s = Some (None, s)"
| "get_node path (Some a) s =
     (if path = [] \<or> path = [SLASH] then map_option (\<lambda>b. (Some b, s)) (follow_mounts s a)
      else
        let rest = dropWhile (\<lambda>c. c = SLASH) path;
            fname = takeWhile (\<lambda>c. c \<noteq> SLASH) rest;
            node = nodes s a
        in case (if is_mountpoint node \<or> flags node AND FS_SYMLINK = FS_SYMLINK then ptr node else Some a) of
             None \<Rightarrow> None
           | Some b \<Rightarrow>
               if nfinddir (nodes s b) \<noteq> NoFn then
                 (case finddir_fs b fname s of
                    None \<Rightarrow> None
                  | Some (r, s) \<Rightarrow> get_node (dropWhile (\<lambda>c. c \<noteq> SLASH) rest) r s)
               else Some (None, s))"
  by pat_completeness auto
termination
  by (relation "measure (\<lambda>(path, _, _). length path)") (auto simp: drop_component)

declare get_node.simps(2) [simp del]

definition call_create :: "nat \<Rightarrow> cstring \<Rightarrow> fsys \<Rightarrow> (nat option \<times> fsys) option" where
  "call_create a nm s =
     (case ncreate (nodes s a) of
        NoFn \<Rightarrow> Some (None, s)
      | Fat12Fn \<Rightarrow>
          (case fat12_create_file (nodes s a) nm (vol s) of
             None \<Rightarrow> None
           | Some (None, v) \<Rightarrow> Some (None, s\<lparr>vol := v\<rparr>)
           | Some (Some n, v) \<Rightarrow> Some (let (b, s) = new_node n (s\<lparr>vol := v\<rparr>) in (Some b, s)))
      | f \<Rightarrow> None)"

text \<open>\<^verbatim>\<open>if ((root->flags & FS_MOUNTPOINT) == FS_MOUNTPOINT) root = root->ptr;\<close>\<close>

definition enter :: "fsys \<Rightarrow> nat \<Rightarrow> nat option" where
  "enter s a = (if is_mountpoint (nodes s a) then ptr (nodes s a) else Some a)"

text \<open>The index of the last slash, -1 if there is none.\<close>

definition last_slash :: "cstring \<Rightarrow> int" where
  "last_slash path = (case List.find (\<lambda>i. path ! i = SLASH) (rev [0..<length path]) of None \<Rightarrow> - 1 | Some i \<Rightarrow> int i)"

definition create_node :: "cstring \<Rightarrow> nat option \<Rightarrow> fsys \<Rightarrow> (nat option \<times> fsys) option" where
  "create_node path root s =
     (case root of
        None \<Rightarrow> Some (None, s)
      | Some a \<Rightarrow>
          let l = last_slash path;
              filename = drop (nat (l + 1)) path
          in if l \<le> 0 then
               (case enter s a of None \<Rightarrow> None | Some b \<Rightarrow> call_create b filename s)
             else case get_node (take (nat l) path) (Some a) s of
                    None \<Rightarrow> None
                  | Some (None, s) \<Rightarrow> Some (None, s)
                  | Some (Some b, s) \<Rightarrow>
                      (case enter s b of None \<Rightarrow> None | Some b \<Rightarrow> call_create b filename s))"

definition mkdir_fs :: "nat option \<Rightarrow> cstring \<Rightarrow> fsys \<Rightarrow> (int \<times> fsys) option" where
  "mkdir_fs parent nm s =
     (case parent of
        None \<Rightarrow> Some (- 1, s)
      | Some a \<Rightarrow>
          if nm = [] then Some (- 1, s)
          else case enter s a of
            None \<Rightarrow> None
          | Some b \<Rightarrow>
              (case nmkdir (nodes s b) of
                 NoFn \<Rightarrow> Some (- 1, s)
               | Fat12Fn \<Rightarrow> map_option (\<lambda>(r, v). (r, s\<lparr>vol := v\<rparr>)) (fat12_mkdir (nodes s b) nm (vol s))
               | f \<Rightarrow> None))"

definition unlink_fs :: "nat option \<Rightarrow> cstring \<Rightarrow> fsys \<Rightarrow> (int \<times> fsys) option" where
  "unlink_fs parent nm s =
     (case parent of
        None \<Rightarrow> Some (- 1, s)
      | Some a \<Rightarrow>
          if nm = [] then Some (- 1, s)
          else case enter s a of
            None \<Rightarrow> None
          | Some b \<Rightarrow>
              (case nunlink (nodes s b) of
                 NoFn \<Rightarrow> Some (- 1, s)
               | Fat12Fn \<Rightarrow> map_option (\<lambda>(r, v). (r, s\<lparr>vol := v\<rparr>)) (fat12_unlink (nodes s b) nm (vol s))
               | f \<Rightarrow> None))"

definition mount_dir :: "nat \<Rightarrow> nat \<Rightarrow> fsys \<Rightarrow> fsys" where
  "mount_dir mnt fs_root s = put_node mnt ((nodes s mnt)\<lparr>flags := flags (nodes s mnt) OR FS_MOUNTPOINT, ptr := Some fs_root\<rparr>) s"

text \<open>
  The part of \<^verbatim>\<open>kmain\<close> that mounts the FAT volume as \<^verbatim>\<open>mnt\<close> in the root directory; the
  address of the static \<^verbatim>\<open>fat12_root\<close> is a fresh one.
\<close>

definition mount_fat12 :: "fsys \<Rightarrow> fsys" where
  "mount_fat12 s =
     (let (fr, s) = new_node (fat12_root (vol s)) s;
          (mnt, s) = new_node (zero_node\<lparr>name := mnt_name, flags := FS_DIRECTORY\<rparr>) s;
          s = mount_dir mnt fr s;
          s = initrd_set_mount_point mnt s;
          root = nodes s (root_dir s)
      in put_node (root_dir s) (root\<lparr>mounts := (mnt_name, mnt) # mounts root\<rparr>) s)"


section \<open>Paths as lists of names\<close>

text \<open>
  The specification of a lookup: the names of the path, one directory after the other, crossing
  mount points on the way.
\<close>

fun resolve :: "cstring list \<Rightarrow> nat option \<Rightarrow> fsys \<Rightarrow> (nat option \<times> fsys) option" where
  "resolve cs None s = Some (None, s)"
| "resolve [] (Some a) s = map_option (\<lambda>b. (Some b, s)) (follow_mounts s a)"
| "resolve (c # cs) (Some a) s =
     (case (if is_mountpoint (nodes s a) \<or> flags (nodes s a) AND FS_SYMLINK = FS_SYMLINK then ptr (nodes s a) else Some a) of
        None \<Rightarrow> None
      | Some b \<Rightarrow>
          if nfinddir (nodes s b) = NoFn then Some (None, s)
          else case finddir_fs b c s of None \<Rightarrow> None | Some (r, s) \<Rightarrow> resolve cs r s)"

definition join :: "cstring list \<Rightarrow> cstring" where
  "join cs = concat (map (\<lambda>c. SLASH # c) cs)"

definition is_name :: "cstring \<Rightarrow> bool" where
  "is_name c \<longleftrightarrow> c \<noteq> [] \<and> SLASH \<notin> set c"

lemma join_simps [simp]: "join [] = []" "join (c # cs) = SLASH # c @ join cs"
  by (simp_all add: join_def)

lemma split_component:
  assumes "is_name c" and "rest = [] \<or> hd rest = SLASH"
  shows "dropWhile (\<lambda>x. x = SLASH) (c @ rest) = c @ rest" "takeWhile (\<lambda>x. x \<noteq> SLASH) (c @ rest) = c"
    "dropWhile (\<lambda>x. x \<noteq> SLASH) (c @ rest) = rest"
proof -
  obtain x xs where c: "c = x # xs" "x \<noteq> SLASH" using assms(1) by (cases c) (auto simp: is_name_def)
  then show "dropWhile (\<lambda>x. x = SLASH) (c @ rest) = c @ rest" by simp
  have "\<forall>x\<in>set c. x \<noteq> SLASH" using assms(1) by (auto simp: is_name_def)
  then show "takeWhile (\<lambda>x. x \<noteq> SLASH) (c @ rest) = c" "dropWhile (\<lambda>x. x \<noteq> SLASH) (c @ rest) = rest"
    using assms(2) by (cases rest; simp add: takeWhile_append dropWhile_append)+
qed

lemma get_node_step:
  assumes "is_name c" and "rest = [] \<or> hd rest = SLASH" and "path = c @ rest \<or> path = SLASH # c @ rest"
  shows "get_node path (Some a) s =
    (case (if is_mountpoint (nodes s a) \<or> flags (nodes s a) AND FS_SYMLINK = FS_SYMLINK then ptr (nodes s a) else Some a) of
       None \<Rightarrow> None
     | Some b \<Rightarrow>
         if nfinddir (nodes s b) = NoFn then Some (None, s)
         else case finddir_fs b c s of None \<Rightarrow> None | Some (r, s) \<Rightarrow> get_node rest r s)"
proof -
  have "path \<noteq> []" "path \<noteq> [SLASH]" using assms(1,3) by (auto simp: is_name_def append_eq_Cons_conv Cons_eq_append_conv)
  moreover have "dropWhile (\<lambda>c. c = SLASH) path = c @ rest" using assms(3) split_component(1) [OF assms(1,2)] by auto
  ultimately show ?thesis
    using split_component(2,3) [OF assms(1,2)]
    by (subst get_node.simps(2)) (auto simp: Let_def split: option.splits)
qed

lemma get_node_join:
  assumes "list_all is_name cs" and "t = [] \<or> t = [SLASH]"
  shows "get_node (join cs @ t) (Some a) s = resolve cs (Some a) s"
  using assms(1)
proof (induction cs arbitrary: a s)
  case Nil
  then show ?case using assms(2) by (subst get_node.simps(2)) auto
next
  case (Cons c cs)
  have h: "join cs @ t = [] \<or> hd (join cs @ t) = SLASH" using assms(2) by (cases cs) auto
  have "get_node (join cs @ t) r s = resolve cs r s" for r s
    using Cons by (cases r) auto
  then have ih: "get_node (join cs @ t) = resolve cs" by (intro ext)
  have "get_node (join (c # cs) @ t) (Some a) s =
    (case (if is_mountpoint (nodes s a) \<or> flags (nodes s a) AND FS_SYMLINK = FS_SYMLINK then ptr (nodes s a) else Some a) of
       None \<Rightarrow> None
     | Some b \<Rightarrow>
         if nfinddir (nodes s b) = NoFn then Some (None, s)
         else case finddir_fs b c s of None \<Rightarrow> None | Some (r, s) \<Rightarrow> get_node (join cs @ t) r s)"
    using h Cons.prems by (intro get_node_step) auto
  then show ?case unfolding ih resolve.simps .
qed

section \<open>The mounted volume\<close>

text \<open>
  The shape of the name space after start-up: an initial-ram-disk root and, under the name
  \<^verbatim>\<open>mnt\<close>, a mount point that leads to the root of the FAT volume.
\<close>

definition mounted :: "nat \<Rightarrow> nat \<Rightarrow> fsys \<Rightarrow> bool" where
  "mounted m fr s \<longleftrightarrow>
     flags (nodes s (root_dir s)) = FS_DIRECTORY \<and> nfinddir (nodes s (root_dir s)) = InitrdFn \<and>
     initrd_mnt_node s = Some m \<and> flags (nodes s m) = FS_DIRECTORY OR FS_MOUNTPOINT \<and> ptr (nodes s m) = Some fr \<and>
     flags (nodes s fr) = FS_DIRECTORY \<and> nfinddir (nodes s fr) = Fat12Fn \<and> ncreate (nodes s fr) = Fat12Fn \<and>
     inode (nodes s fr) = FAT12_ROOT_INODE \<and>
     root_dir s < next_node s \<and> m < next_node s \<and> fr < next_node s"

lemma node_flag_tests [simp]:
  "FS_DIRECTORY AND FS_DIRECTORY = FS_DIRECTORY" "FS_DIRECTORY AND FS_MOUNTPOINT \<noteq> FS_MOUNTPOINT"
  "FS_DIRECTORY AND FS_SYMLINK \<noteq> FS_SYMLINK" "(FS_DIRECTORY OR FS_MOUNTPOINT) AND FS_MOUNTPOINT = FS_MOUNTPOINT"
  "FS_FILE AND FS_MOUNTPOINT \<noteq> FS_MOUNTPOINT"
  by (simp_all add: FS_DIRECTORY_def FS_MOUNTPOINT_def FS_SYMLINK_def FS_FILE_def)

lemma mount_fat12_mounted:
  assumes "root_inode (vol s) = FAT12_ROOT_INODE"
  shows "mounted (next_node (init_initrd loc s) + 1) (next_node (init_initrd loc s)) (mount_fat12 (init_initrd loc s))"
  using assms
  by (simp add: mounted_def mount_fat12_def init_initrd_def initrd_loaddir_fs_node_def new_node_def put_node_def
      mount_dir_def initrd_set_mount_point_def init_vfs_def zero_node_def fat12_root_def Let_def)


text \<open>One step into the mounted volume.\<close>

lemma resolve_mnt:
  assumes "mounted m fr s"
  shows "resolve (mnt_name # cs) (Some (root_dir s)) s = resolve cs (Some m) s"
proof -
  have "finddir_fs (root_dir s) mnt_name s = Some (Some m, s)"
    using assms by (simp add: mounted_def finddir_fs_def call_finddir_def initrd_finddir_fs_def Let_def)
  then show ?thesis using assms by (simp add: mounted_def is_mountpoint_def)
qed

lemma resolve_fat_file:
  assumes "mounted m fr s" and "fat12_finddir_fs (vol s) (nodes s fr) nm = Some (Some n)" and "flags n = FS_FILE"
  shows "resolve [nm] (Some m) s =
    Some (Some (next_node s), s\<lparr>nodes := (nodes s)(next_node s := n), next_node := Suc (next_node s)\<rparr>)"
proof -
  have fd: "finddir_fs fr nm s =
    Some (Some (next_node s), s\<lparr>nodes := (nodes s)(next_node s := n), next_node := Suc (next_node s)\<rparr>)"
    using assms(1,2) by (simp add: mounted_def finddir_fs_def call_finddir_def new_node_def Let_def)
  have "follow_mounts (s\<lparr>nodes := (nodes s)(next_node s := n), next_node := Suc (next_node s)\<rparr>) (next_node s) = Some (next_node s)"
    using assms(3) by (subst follow_mounts.simps) (simp add: is_mountpoint_def)
  then show ?thesis using assms(1) fd by (simp add: mounted_def is_mountpoint_def)
qed

lemma follow_mnt:
  assumes "mounted m fr s"
  shows "follow_mounts s m = Some fr" "enter s fr = Some fr"
proof -
  have "\<not> is_mountpoint (nodes s fr)" using assms by (simp add: mounted_def is_mountpoint_def)
  then have "follow_mounts s fr = Some fr" "enter s fr = Some fr"
    by (subst follow_mounts.simps, simp, simp add: enter_def)
  then show "follow_mounts s m = Some fr" "enter s fr = Some fr"
    using assms by (subst follow_mounts.simps, simp add: mounted_def is_mountpoint_def, simp)
qed

lemma mounted_new_node:
  assumes "mounted m fr s"
  shows "mounted m fr (s\<lparr>vol := v, nodes := (nodes s)(next_node s := n), next_node := Suc (next_node s)\<rparr>)"
  using assms by (auto simp: mounted_def)

lemma last_slash_append:
  assumes "SLASH \<notin> set f"
  shows "last_slash (p @ SLASH # f) = int (length p)"
proof -
  have u: "[0..<length (p @ SLASH # f)] = [0..<Suc (length p)] @ [Suc (length p)..<length (p @ SLASH # f)]"
    using upt_add_eq_append [of 0 "Suc (length p)" "length f"] by simp
  have "List.find (\<lambda>i. (p @ SLASH # f) ! i = SLASH) (rev [Suc (length p)..<length (p @ SLASH # f)]) = None"
    unfolding find_None_iff using assms by (auto simp: nth_append nth_Cons' in_set_conv_nth) 
  moreover have "List.find P (xs @ ys) = (case List.find P xs of None \<Rightarrow> List.find P ys | Some x \<Rightarrow> Some x)" for P and xs ys :: "nat list"
    by (induction xs) auto
  ultimately show ?thesis unfolding last_slash_def u rev_append by simp
qed

text \<open>A concrete file system: an empty volume mounted over an empty ram disk.\<close>

definition demo_fsys :: fsys where
  "demo_fsys = mount_fat12 (init_initrd 0 \<lparr>nodes = (\<lambda>_. zero_node), next_node = 0, vol = empty_volume, image = (\<lambda>_. 0),
     initrd_location = 0, initrd_mnt_node = None, root_dir = 0\<rparr>)"

lemma demo_fsys_ok: "mounted 2 1 demo_fsys" "vol demo_fsys = empty_volume"
proof -
  let ?s = "\<lparr>nodes = (\<lambda>_. zero_node), next_node = 0, vol = empty_volume, image = (\<lambda>_. 0),
     initrd_location = 0, initrd_mnt_node = None, root_dir = 0\<rparr>"
  have "next_node (init_initrd 0 ?s) = 1"
    by (simp add: init_initrd_def initrd_loaddir_fs_node_def new_node_def init_vfs_def Let_def)
  then show "mounted 2 1 demo_fsys" using mount_fat12_mounted [of ?s 0] empty_volume_ok(3) by (simp add: demo_fsys_def numeral_2_eq_2)
  show "vol demo_fsys = empty_volume"
    by (simp add: demo_fsys_def mount_fat12_def init_initrd_def initrd_loaddir_fs_node_def new_node_def put_node_def
      mount_dir_def initrd_set_mount_point_def init_vfs_def Let_def)
qed

section \<open>Properties\<close>






text \<open>
  C24. Reading a file of the initial ram disk: at or behind the end nothing is read; otherwise,
  when position plus request does not wrap, exactly the bytes of the file from the position on are
  copied, as many as requested and present, the position advances by that number, and the result
  counts whole units (1 for a shorter non-empty rest). When the sum wraps to at most the file size
  the request is not limited at all.
\<close>

theorem initrd_read_correct:
  assumes "flags node = FS_FILE" and "sz \<noteq> 0" and "units \<noteq> 0"
  defines "tot \<equiv> sz * units"
  shows "(nsize node \<le> seek_offset node \<longrightarrow> initrd_read_fs node sz units buf s = (0, buf, node)) \<and>
    (seek_offset node < nsize node \<and> unat (seek_offset node) + unat tot < 2 ^ 32 \<longrightarrow>
       (let k = min (unat tot) (unat (nsize node) - unat (seek_offset node))
        in initrd_read_fs node sz units buf s =
          (if k div unat sz \<noteq> 0 then of_nat (k div unat sz) else if 0 < k then 1 else 0,
           \<lambda>i. if i < k then image s (impl node + seek_offset node + of_nat i) else buf i,
           node\<lparr>seek_offset := seek_offset node + of_nat k\<rparr>))) \<and>
    (seek_offset node < nsize node \<and> seek_offset node + tot \<le> nsize node \<longrightarrow>
       fst (snd (initrd_read_fs node sz units buf s)) =
         (\<lambda>i. if i < unat tot then image s (impl node + seek_offset node + of_nat i) else buf i))"
proof (intro conjI impI)
  have f: "flags node AND FS_DIRECTORY \<noteq> FS_DIRECTORY" using assms(1) by (simp add: FS_FILE_def FS_DIRECTORY_def)
  note r = initrd_read_fs_def [of node sz units buf s, simplified f assms(2,3) if_False simp_thms, folded tot_def]
  show "nsize node \<le> seek_offset node \<Longrightarrow> initrd_read_fs node sz units buf s = (0, buf, node)"
    by (simp add: r)
  {
    assume a: "seek_offset node < nsize node \<and> unat (seek_offset node) + unat tot < 2 ^ 32"
    define k where "k = min (unat tot) (unat (nsize node) - unat (seek_offset node))"
    define t where "t = (if nsize node < seek_offset node + tot then nsize node - seek_offset node else tot)"
    have so: "unat (seek_offset node + tot) = unat (seek_offset node) + unat tot" using a by (simp add: unat_word_ariths)
    have t: "unat t = k" using a so by (auto simp: t_def k_def word_less_nat_alt unat_sub_if_size)
    have tk: "t = of_nat k" by (rule of_nat_unatI [OF t])
    have d: "t div sz = of_nat (k div unat sz)" by (rule of_nat_unatI) (simp add: unat_div t)
    have z: "t div sz = 0 \<longleftrightarrow> k div unat sz = 0" "0 < t \<longleftrightarrow> 0 < k"
      by (simp_all add: word_unat_eq_iff [of _ 0] unat_div t word_less_nat_alt)
    have "initrd_read_fs node sz units buf s =
      (if t div sz \<noteq> 0 then t div sz else if 0 < t then 1 else 0,
       \<lambda>i. if i < unat t then image s (impl node + seek_offset node + of_nat i) else buf i,
       node\<lparr>seek_offset := seek_offset node + t\<rparr>)"
      unfolding r Let_def t_def [symmetric] using a by (simp only: not_le [symmetric] if_False simp_thms)
    then show "let k = min (unat tot) (unat (nsize node) - unat (seek_offset node))
        in initrd_read_fs node sz units buf s =
          (if k div unat sz \<noteq> 0 then of_nat (k div unat sz) else if 0 < k then 1 else 0,
           \<lambda>i. if i < k then image s (impl node + seek_offset node + of_nat i) else buf i,
           node\<lparr>seek_offset := seek_offset node + of_nat k\<rparr>)"
      unfolding Let_def k_def [symmetric] using t tk d z by simp
  }
  assume "seek_offset node < nsize node \<and> seek_offset node + tot \<le> nsize node"
  then show "fst (snd (initrd_read_fs node sz units buf s)) =
         (\<lambda>i. if i < unat tot then image s (impl node + seek_offset node + of_nat i) else buf i)"
    unfolding r Let_def by (simp only: not_le [symmetric] not_not if_False if_True simp_thms fst_conv snd_conv)
qed

theorem initrd_read_correct_witness:
  "fst (initrd_read_fs (zero_node\<lparr>flags := FS_FILE, nsize := 10, seek_offset := 4\<rparr>) 1 20 (\<lambda>_. 0) demo_fsys) = 6"
  using initrd_read_correct [of "zero_node\<lparr>flags := FS_FILE, nsize := 10, seek_offset := 4\<rparr>" 1 20 "\<lambda>_. 0" demo_fsys]
  by (simp add: Let_def)

end
