(* ===== verification/VirtMem.thy ===== *)
theory VirtMem
  imports PhysMem KString
begin

text \<open>
  Paging, \<^verbatim>\<open>kernel/src/mem/virt_mem.c\<close>.

  The kernel reaches physical memory through its linear window: the byte at physical address
  \<open>p\<close> is the byte at virtual address \<open>p + KERNEL_VIRTUAL_BASE\<close>, and the model's
  memory \<open>kmem\<close> is indexed by that window address. Page directories and page tables are
  the 32-bit cells the code reads and writes in it, so an aliased table is an aliased table in
  the model too. A user pointer is resolved through the current page tables
  (\<open>user_ref\<close>). \<^verbatim>\<open>tlb_flush\<close> reloads CR3 with its own value.
\<close>

section \<open>State\<close>

definition PAGE_PRESENT :: u32 where "PAGE_PRESENT = 1"
definition PAGE_RW :: u32 where "PAGE_RW = 2"
definition PAGE_USER :: u32 where "PAGE_USER = 4"
definition PAGE_ADDR :: u32 where "PAGE_ADDR = 0xFFFFF000"

record vm =
  phys_st :: phys
  kmem :: bmem
  cur_page_dir :: u32
  kernel_page_dir :: u32
  kernel_page_table :: u32
  cr3 :: u32
  paging_on :: bool

definition getw :: "vm \<Rightarrow> u32 \<Rightarrow> u32" where
  "getw s a = ld32 (kmem s) a"

definition setw :: "u32 \<Rightarrow> u32 \<Rightarrow> vm \<Rightarrow> vm" where
  "setw a v s = s\<lparr>kmem := st32 a v (kmem s)\<rparr>"

definition clear_page :: "u32 \<Rightarrow> vm \<Rightarrow> vm" where
  "clear_page a s = s\<lparr>kmem := memset a 0 4096 (kmem s)\<rparr>"

text \<open>\<open>cell t i\<close> is \<^verbatim>\<open>&t[i]\<close> for a table \<open>t\<close> of 32-bit entries.\<close>

definition cell :: "u32 \<Rightarrow> nat \<Rightarrow> u32" where
  "cell t i = t + 4 * of_nat i"

definition pd_index :: "u32 \<Rightarrow> nat" where
  "pd_index va = unat (drop_bit 22 va)"

definition pt_index :: "u32 \<Rightarrow> nat" where
  "pt_index va = unat (drop_bit 12 va AND 0x3FF)"

definition palloc :: "vm \<Rightarrow> u32 \<times> vm" where
  "palloc s = (let (a, ph) = alloc_blocks 1 (phys_st s) in (a, s\<lparr>phys_st := ph\<rparr>))"

definition pfree :: "u32 \<Rightarrow> vm \<Rightarrow> vm" where
  "pfree a s = s\<lparr>phys_st := free_blocks a 1 (phys_st s)\<rparr>"

section \<open>Operations\<close>

definition set_page_dir :: "u32 \<Rightarrow> vm \<Rightarrow> vm" where
  "set_page_dir page_dir s = s\<lparr>cur_page_dir := page_dir + KERNEL_VIRTUAL_BASE, cr3 := page_dir\<rparr>"

definition enable_paging :: "vm \<Rightarrow> vm" where
  "enable_paging s = s\<lparr>paging_on := True\<rparr>"

definition tlb_flush :: "vm \<Rightarrow> vm" where
  "tlb_flush s = s\<lparr>cr3 := cr3 s\<rparr>"

definition get_page :: "u32 \<Rightarrow> u32 \<Rightarrow> vm \<Rightarrow> u32 \<times> vm" where
  "get_page virt_address additional_flags s =
     (let pd_entry = pd_index virt_address;
          pt_entry = pt_index virt_address;
          table_entry = cell (cur_page_dir s) pd_entry;
          s = (if getw s table_entry AND PAGE_PRESENT = 0 then
                 let (table, s) = palloc s;
                     s = clear_page (table + KERNEL_VIRTUAL_BASE) s;
                     s = setw table_entry table s;
                     s = setw table_entry
                           (getw s table_entry OR (PAGE_PRESENT OR PAGE_RW OR additional_flags)) s
                 in if KERNEL_PAGE_NUMBER \<le> pd_entry
                    then setw (cell (kernel_page_dir s) pd_entry) (getw s table_entry) s else s
               else s);
          table = (getw s table_entry + KERNEL_VIRTUAL_BASE) AND PAGE_ADDR
      in (cell table pt_entry, s))"

definition allocate_page :: "u32 \<Rightarrow> vm \<Rightarrow> u32 \<times> vm" where
  "allocate_page page s =
     (let (phys_addr, s) = palloc s
      in (phys_addr,
          if phys_addr \<noteq> 0 then
            let s = setw page (getw s page OR (phys_addr AND PAGE_ADDR)) s
            in setw page (getw s page OR PAGE_PRESENT) s
          else s))"

definition free_page :: "u32 \<Rightarrow> vm \<Rightarrow> vm" where
  "free_page page s =
     (let address = getw s page AND PAGE_ADDR;
          s = (if address \<noteq> 0 then pfree address s else s)
      in setw page 0 s)"

text \<open>The common part of the two map functions: give the old frame back, store the new entry.\<close>

definition drop_old :: "u32 \<Rightarrow> u32 \<Rightarrow> vm \<Rightarrow> vm" where
  "drop_old page phys_address s =
     (if getw s page AND PAGE_PRESENT \<noteq> 0 then
        let old = getw s page AND PAGE_ADDR
        in if old \<noteq> 0 \<and> old \<noteq> phys_address then pfree old s else s
      else s)"

definition map_address :: "u32 \<Rightarrow> u32 \<Rightarrow> vm \<Rightarrow> vm" where
  "map_address virt_address phys_address s =
     (let (page, s) = get_page virt_address 0 s;
          s = drop_old page phys_address s;
          s = setw page ((phys_address AND PAGE_ADDR) OR PAGE_PRESENT OR PAGE_RW) s
      in tlb_flush s)"

definition map_address_user :: "u32 \<Rightarrow> u32 \<Rightarrow> vm \<Rightarrow> vm" where
  "map_address_user virt_address phys_address s =
     (let (page, s) = get_page virt_address PAGE_USER s;
          s = drop_old page phys_address s;
          s = setw page ((phys_address AND PAGE_ADDR) OR PAGE_PRESENT OR PAGE_RW OR PAGE_USER) s
      in tlb_flush s)"

definition unmap_address :: "u32 \<Rightarrow> vm \<Rightarrow> vm" where
  "unmap_address virt_address s =
     (let pd_entry = getw s (cell (cur_page_dir s) (pd_index virt_address))
      in if pd_entry AND PAGE_PRESENT = 0 then s
         else
           let table = (pd_entry AND PAGE_ADDR) + KERNEL_VIRTUAL_BASE;
               page = cell table (pt_index virt_address);
               s = (if getw s page AND PAGE_PRESENT \<noteq> 0 then
                      let phys = getw s page AND PAGE_ADDR
                      in if phys \<noteq> 0 then pfree phys s else s
                    else s);
               s = setw page 0 s
           in tlb_flush s)"

definition init_paging :: "vm \<Rightarrow> vm" where
  "init_paging s =
     (let (d, s) = palloc s;
          s = s\<lparr>kernel_page_dir := d + KERNEL_VIRTUAL_BASE\<rparr>;
          (t, s) = palloc s;
          s = s\<lparr>kernel_page_table := t + KERNEL_VIRTUAL_BASE\<rparr>;
          dir = kernel_page_dir s;
          table = kernel_page_table s;
          s = fold (\<lambda>i. setw (cell dir i) PAGE_RW) [0..<1024] s;
          s = setw (cell dir KERNEL_PAGE_NUMBER)
                ((table - KERNEL_VIRTUAL_BASE) OR PAGE_PRESENT OR PAGE_RW) s;
          s = setw (cell dir 0) (getw s (cell dir KERNEL_PAGE_NUMBER)) s;
          s = fold (\<lambda>i. setw (cell table i) (push_bit 12 (of_nat i) OR PAGE_PRESENT OR PAGE_RW))
                [0..<1024] s;
          s = set_page_dir (dir - KERNEL_VIRTUAL_BASE) s
      in enable_paging s)"

definition vmm_get_directory :: "vm \<Rightarrow> u32" where
  "vmm_get_directory s = cur_page_dir s - KERNEL_VIRTUAL_BASE"

definition clone_entry :: "u32 \<Rightarrow> nat \<Rightarrow> vm \<Rightarrow> vm" where
  "clone_entry new_dir i s =
     (if getw s (cell (cur_page_dir s) i) AND PAGE_PRESENT = 0 then s
      else if KERNEL_PAGE_NUMBER \<le> i then
        setw (cell new_dir i) (getw s (cell (cur_page_dir s) i)) s
      else
        let (t, s) = palloc s;
            new_table = t + KERNEL_VIRTUAL_BASE;
            s = clear_page new_table s
        in setw (cell new_dir i)
             ((new_table - KERNEL_VIRTUAL_BASE) OR (getw s (cell (cur_page_dir s) i) AND 0xFFF)) s)"

definition vmm_clone_directory :: "vm \<Rightarrow> u32 \<times> vm" where
  "vmm_clone_directory s =
     (let (d, s) = palloc s;
          new_dir = d + KERNEL_VIRTUAL_BASE;
          s = clear_page new_dir s;
          s = fold (clone_entry new_dir) [0..<1024] s
      in (new_dir - KERNEL_VIRTUAL_BASE, s))"

definition free_entry :: "u32 \<Rightarrow> nat \<Rightarrow> vm \<Rightarrow> vm" where
  "free_entry table j s =
     (if getw s (cell table j) AND PAGE_PRESENT \<noteq> 0 then free_page (cell table j) s else s)"

definition free_table :: "u32 \<Rightarrow> nat \<Rightarrow> vm \<Rightarrow> vm" where
  "free_table dir i s =
     (if getw s (cell dir i) AND PAGE_PRESENT = 0 then s
      else
        let table = (getw s (cell dir i) AND PAGE_ADDR) + KERNEL_VIRTUAL_BASE;
            s = fold (free_entry table) [0..<1024] s
        in pfree (getw s (cell dir i) AND PAGE_ADDR) s)"

definition vmm_free_directory :: "u32 \<Rightarrow> vm \<Rightarrow> vm" where
  "vmm_free_directory page_dir s =
     (let dir = page_dir + KERNEL_VIRTUAL_BASE;
          s = fold (free_table dir) [0..<KERNEL_PAGE_NUMBER] s;
          s = pfree page_dir s
      in tlb_flush s)"

definition switch_to_kernel_page_dir :: "vm \<Rightarrow> vm" where
  "switch_to_kernel_page_dir s =
     (if kernel_page_dir s \<noteq> 0 then set_page_dir (kernel_page_dir s - KERNEL_VIRTUAL_BASE) s else s)"

definition is_page_mapped :: "vm \<Rightarrow> u32 \<Rightarrow> bool" where
  "is_page_mapped s virt_addr =
     (if cur_page_dir s = 0 then False
      else
        let pd_entry = getw s (cell (cur_page_dir s) (pd_index virt_addr))
        in if pd_entry AND PAGE_PRESENT = 0 then False
           else
             let table = (pd_entry AND PAGE_ADDR) + KERNEL_VIRTUAL_BASE;
                 pt_entry = getw s (cell table (pt_index virt_addr))
             in pt_entry AND PAGE_PRESENT \<noteq> 0 \<and> pt_entry AND PAGE_USER \<noteq> 0)"

definition copy_page :: "u32 \<Rightarrow> nat \<Rightarrow> nat \<Rightarrow> vm \<Rightarrow> vm" where
  "copy_page src_table pd pt s =
     (let e = getw s (cell src_table pt)
      in if e AND PAGE_PRESENT = 0 then s
         else if e AND PAGE_USER = 0 then s
         else
           let virt = push_bit 22 (of_nat pd) OR push_bit 12 (of_nat pt);
               src_phys = e AND PAGE_ADDR;
               (new_phys, s) = palloc s
           in if new_phys = 0 then s
              else
                let s = s\<lparr>kmem := memcpy (new_phys + KERNEL_VIRTUAL_BASE)
                                    (src_phys + KERNEL_VIRTUAL_BASE) 4096 (kmem s)\<rparr>;
                    (page, s) = get_page virt PAGE_USER s
                in setw page ((new_phys AND PAGE_ADDR) OR PAGE_PRESENT OR PAGE_RW OR PAGE_USER) s)"

definition copy_table :: "u32 \<Rightarrow> nat \<Rightarrow> vm \<Rightarrow> vm" where
  "copy_table src pd s =
     (if getw s (cell src pd) AND PAGE_PRESENT = 0 then s
      else
        let src_table = (getw s (cell src pd) AND PAGE_ADDR) + KERNEL_VIRTUAL_BASE
        in fold (copy_page src_table pd) [0..<1024] s)"

definition vmm_copy_user_pages :: "u32 \<Rightarrow> vm \<Rightarrow> vm" where
  "vmm_copy_user_pages source_dir s =
     (let src = source_dir + KERNEL_VIRTUAL_BASE
      in tlb_flush (fold (copy_table src) [0..<KERNEL_PAGE_NUMBER] s))"

text \<open>
  The page checks of \<^verbatim>\<open>copy_to_user\<close> and \<^verbatim>\<open>copy_from_user\<close>. The loop
  variable wraps at the top of the address space and is then moved back to \<open>start\<close>, so the
  loop need not end: not returning is \<open>None\<close>.
\<close>

partial_function (option) check_pages :: "vm \<Rightarrow> u32 \<Rightarrow> u32 \<Rightarrow> u32 \<Rightarrow> bool option" where
  "check_pages s start end_addr addr =
     (if addr < end_addr then
        let addr = (if addr < start then start else addr)
        in if \<not> is_page_mapped s addr then Some False
           else check_pages s start end_addr (addr + 4096)
      else Some True)"

definition user_range_ok :: "vm \<Rightarrow> u32 \<Rightarrow> u32 \<Rightarrow> bool option" where
  "user_range_ok s start sz =
     (let end_addr = start + sz
      in case check_pages s start end_addr (start AND NOT 4095) of
           None \<Rightarrow> None
         | Some False \<Rightarrow> Some False
         | Some True \<Rightarrow>
             Some (\<not> (start < end_addr \<and> \<not> is_page_mapped s ((end_addr - 1) AND NOT 4095))))"

definition user_ref :: "vm \<Rightarrow> u32 \<Rightarrow> u32" where
  "user_ref s va =
     (let pd_entry = getw s (cell (cur_page_dir s) (pd_index va));
          table = (pd_entry AND PAGE_ADDR) + KERNEL_VIRTUAL_BASE
      in (getw s (cell table (pt_index va)) AND PAGE_ADDR) + KERNEL_VIRTUAL_BASE + (va AND 0xFFF))"

definition put_user_byte :: "u32 \<Rightarrow> u32 \<Rightarrow> nat \<Rightarrow> vm \<Rightarrow> vm" where
  "put_user_byte dst src i s =
     s\<lparr>kmem := (kmem s)(user_ref s (dst + of_nat i) := kmem s (src + of_nat i))\<rparr>"

definition get_user_byte :: "u32 \<Rightarrow> u32 \<Rightarrow> nat \<Rightarrow> vm \<Rightarrow> vm" where
  "get_user_byte dst src i s =
     s\<lparr>kmem := (kmem s)(dst + of_nat i := kmem s (user_ref s (src + of_nat i)))\<rparr>"

definition copy_to_user :: "u32 \<Rightarrow> u32 \<Rightarrow> u32 \<Rightarrow> vm \<Rightarrow> (int \<times> vm) option" where
  "copy_to_user dst src sz s =
     (case user_range_ok s dst sz of
        None \<Rightarrow> None
      | Some False \<Rightarrow> Some (- 1, s)
      | Some True \<Rightarrow> Some (0, fold (put_user_byte dst src) [0..<unat sz] s))"

definition copy_from_user :: "u32 \<Rightarrow> u32 \<Rightarrow> u32 \<Rightarrow> vm \<Rightarrow> (int \<times> vm) option" where
  "copy_from_user dst src sz s =
     (case user_range_ok s src sz of
        None \<Rightarrow> None
      | Some False \<Rightarrow> Some (- 1, s)
      | Some True \<Rightarrow> Some (0, fold (get_user_byte dst src) [0..<unat sz] s))"

section \<open>Page addresses, cells and flags\<close>

lemma page_addr_mask: "PAGE_ADDR = NOT (mask 12)"
  by (simp add: PAGE_ADDR_def mask_eq_exp_minus_1)

lemma bit_page_addr [simp]: "bit PAGE_ADDR n \<longleftrightarrow> 12 \<le> n \<and> n < 32"
  unfolding page_addr_mask by (auto simp: bit_simps)

lemma flag_exps: "PAGE_PRESENT = 2 ^ 0" "PAGE_RW = 2 ^ 1" "PAGE_USER = 2 ^ 2"
  by (simp_all add: PAGE_PRESENT_def PAGE_RW_def PAGE_USER_def)

lemma flag_tests [simp]:
  "w AND PAGE_PRESENT = 0 \<longleftrightarrow> \<not> bit w 0"
  "w AND PAGE_RW = 0 \<longleftrightarrow> \<not> bit w 1"
  "w AND PAGE_USER = 0 \<longleftrightarrow> \<not> bit w 2"
  unfolding flag_exps by (simp_all only: and_exp_eq_0)

lemma bit_flags [simp]:
  "bit PAGE_PRESENT n \<longleftrightarrow> n = 0" "bit PAGE_RW n \<longleftrightarrow> n = 1" "bit PAGE_USER n \<longleftrightarrow> n = 2"
  unfolding flag_exps by (auto simp only: bit_exp_iff possible_bit_word) simp_all

lemma unat_page_addr: "unat (x AND PAGE_ADDR) = 4096 * (unat x div 4096)"
proof -
  have "x AND PAGE_ADDR = push_bit 12 (drop_bit 12 x)"
    by (rule bit_word_eqI) (auto simp: bit_simps)
  moreover have "unat (push_bit 12 (drop_bit 12 x)) = take_bit 32 (push_bit 12 (drop_bit 12 (unat x)))"
    by (subst unsigned_push_bit_eq, subst unat_drop_bit_eq) simp
  moreover have "4096 * (unat x div 4096) < 2 ^ 32"
    using unsigned_less [of x, where 'a = nat] by (auto intro: le_less_trans [OF times_div_less_eq_dividend])
  ultimately show ?thesis
    by (simp add: push_bit_eq_mult drop_bit_eq_div take_bit_nat_eq_self mult.commute)
qed

definition page_aligned :: "u32 \<Rightarrow> bool" where
  "page_aligned a \<longleftrightarrow> 4096 dvd unat a"

lemma page_alignedE:
  assumes "page_aligned a"
  obtains p where "unat a = 4096 * p" "p < 1048576"
proof -
  obtain p where "unat a = 4096 * p" using assms by (auto simp: page_aligned_def)
  moreover have "unat a < 2 ^ 32" using unsigned_less [of a] by simp
  ultimately show thesis using that [of p] by simp
qed

lemma page_aligned_and [simp]: "page_aligned (x AND PAGE_ADDR)"
  by (simp add: page_aligned_def unat_page_addr)

lemma page_aligned_add: "page_aligned a \<Longrightarrow> page_aligned b \<Longrightarrow> page_aligned (a + b)"
  by (simp add: page_aligned_def unat_word_ariths dvd_mod)

lemma page_aligned_window [simp]: "page_aligned (a + KERNEL_VIRTUAL_BASE) = page_aligned a"
proof
  have "page_aligned (- KERNEL_VIRTUAL_BASE)" "page_aligned KERNEL_VIRTUAL_BASE"
    by (simp_all add: page_aligned_def KERNEL_VIRTUAL_BASE_def dvd_def)
  then show "page_aligned (a + KERNEL_VIRTUAL_BASE) \<Longrightarrow> page_aligned a"
    "page_aligned a \<Longrightarrow> page_aligned (a + KERNEL_VIRTUAL_BASE)"
    using page_aligned_add [of "a + KERNEL_VIRTUAL_BASE" "- KERNEL_VIRTUAL_BASE"] page_aligned_add
    by simp_all
qed

lemma unat_page_offset:
  assumes "page_aligned a" "i < 4096"
  shows "unat (a + of_nat i) = unat a + i"
proof -
  obtain p where "unat a = 4096 * p" "p < 1048576" using assms(1) by (rule page_alignedE)
  then show ?thesis using assms(2) unat_add_small [of a i] by simp
qed

lemma page_offset_and:
  assumes "page_aligned a" "unat l < 4096"
  shows "(a + l) AND PAGE_ADDR = a"
proof -
  obtain p where p: "unat a = 4096 * p" using assms(1) by (rule page_alignedE)
  then have "unat (a + l) = 4096 * p + unat l" using unat_page_offset [OF assms] by simp
  then have "unat (a + l) div 4096 = p" using assms(2) by simp
  then show ?thesis by (simp add: word_unat_eq_iff unat_page_addr p)
qed

lemma page_aligned_and_id: "page_aligned a \<Longrightarrow> a AND PAGE_ADDR = a"
  using page_offset_and [of a 0] by simp

lemma page_split:
  obtains l where "x = (x AND PAGE_ADDR) + l" "unat l < 4096"
proof -
  let ?l = "of_nat (unat x mod 4096) :: u32"
  have "unat ((x AND PAGE_ADDR) + ?l) = unat x"
    by (simp add: unat_page_offset unat_page_addr)
  moreover have "unat ?l < 4096" by (simp add: unat_of_nat_small less_trans [of _ 4096])
  ultimately show thesis using that [of ?l] by (simp add: word_unat_eq_iff)
qed

lemma window_and: "(x + KERNEL_VIRTUAL_BASE) AND PAGE_ADDR = (x AND PAGE_ADDR) + KERNEL_VIRTUAL_BASE"
proof -
  obtain l where l: "x = (x AND PAGE_ADDR) + l" "unat l < 4096" by (rule page_split)
  have "(((x AND PAGE_ADDR) + KERNEL_VIRTUAL_BASE) + l) AND PAGE_ADDR = (x AND PAGE_ADDR) + KERNEL_VIRTUAL_BASE"
    by (rule page_offset_and [OF _ l(2)]) simp
  moreover have "((x AND PAGE_ADDR) + KERNEL_VIRTUAL_BASE) + l = x + KERNEL_VIRTUAL_BASE"
    using l(1) by (simp add: ac_simps)
  ultimately show ?thesis by simp
qed

lemma unat_cell: "page_aligned t \<Longrightarrow> i < 1024 \<Longrightarrow> unat (cell t i) = unat t + 4 * i"
  using unat_page_offset [of t "4 * i"] by (simp add: cell_def)

lemma pages_apart:
  assumes "page_aligned t" "page_aligned t'" "i < 4096" "j < 4096" "unat t + i = unat t' + j"
  shows "t = t' \<and> i = j"
proof -
  obtain p q where "unat t = 4096 * p" "unat t' = 4096 * q" using assms(1,2) by (meson page_alignedE)
  moreover from this have "p = q" using assms(3-5) by (cases p q rule: linorder_cases) linarith+
  ultimately show ?thesis using assms(5) by (simp add: word_unat_eq_iff)
qed

lemma cell_eq_iff:
  assumes "page_aligned t" "page_aligned t'" "i < 1024" "j < 1024"
  shows "cell t i = cell t' j \<longleftrightarrow> t = t' \<and> i = j"
proof
  assume "cell t i = cell t' j"
  then have "unat t + 4 * i = unat t' + 4 * j" using unat_cell assms by metis
  then show "t = t' \<and> i = j" using pages_apart [of t t' "4 * i" "4 * j"] assms by simp
qed simp

lemma cell_aligned:
  assumes "page_aligned t" "i < 1024"
  shows "aligned4 (cell t i)"
proof -
  obtain p where "unat t = 4096 * p" using assms(1) by (rule page_alignedE)
  then have "unat (cell t i) = 4 * (1024 * p + i)" using unat_cell [OF assms] by simp
  then show ?thesis by (simp add: aligned4_def)
qed

lemma getw_setw:
  assumes "page_aligned t" "page_aligned t'" "i < 1024" "j < 1024"
  shows "getw (setw (cell t i) v s) (cell t' j) = (if t = t' \<and> i = j then v else getw s (cell t' j))"
  using cell_eq_iff [OF assms] ld32_st32_other [OF cell_aligned cell_aligned, of t i t' j] assms
  by (auto simp: getw_def setw_def)

lemma cell_bytes_in_page:
  assumes "page_aligned t" "page_aligned a" "j < 1024" "k < 4"
  shows "cell t j + of_nat k \<in> span a 4096 \<longleftrightarrow> t = a"
proof -
  have u: "unat (cell t j + of_nat k) = unat t + (4 * j + k)"
    using aligned4_unat [OF cell_aligned] assms by (simp add: unat_cell)
  show ?thesis
  proof
    assume "cell t j + of_nat k \<in> span a 4096"
    then obtain i where "i < 4096" "unat t + (4 * j + k) = unat a + i"
      using u unat_page_offset [OF assms(2)] by (metis span_mem)
    then show "t = a" using pages_apart [of t a "4 * j + k" i] assms by simp
  next
    assume "t = a"
    then have "cell t j + of_nat k = a + of_nat (4 * j + k)" by (simp add: cell_def)
    then show "cell t j + of_nat k \<in> span a 4096"
      using assms(3,4) unfolding span_mem by (intro exI [of _ "4 * j + k"]) simp
  qed
qed

lemma getw_clear_page:
  assumes "page_aligned a" "page_aligned t" "j < 1024"
  shows "getw (clear_page a s) (cell t j) = (if t = a then 0 else getw s (cell t j))"
  using memset_zero_ld32 [of "cell t j" a 4096] memset_frame_ld32 [of "cell t j" a 4096]
    cell_bytes_in_page [OF assms(2,1,3)]
  by (auto simp: getw_def clear_page_def)

lemma pd_index_eq: "pd_index va = unat va div 2 ^ 22"
  unfolding pd_index_def by (subst unat_drop_bit_eq) (simp add: drop_bit_eq_div)

lemma pt_index_eq: "pt_index va = unat va div 4096 mod 1024"
proof -
  have "drop_bit 12 va AND 0x3FF = take_bit 10 (drop_bit 12 va)"
    by (simp add: take_bit_eq_mask mask_eq_exp_minus_1 del: take_bit_eq_mod)
  moreover have "unat (take_bit 10 (drop_bit 12 va)) = take_bit 10 (drop_bit 12 (unat va))"
    by (subst unsigned_take_bit_eq, subst unat_drop_bit_eq) simp
  ultimately show ?thesis
    by (simp add: pt_index_def take_bit_eq_mod drop_bit_eq_div)
qed

lemma pd_index_less [simp]: "pd_index va < 1024"
proof -
  have "unat va < 1024 * 2 ^ 22" using unsigned_less [of va] by simp
  then show ?thesis unfolding pd_index_eq by (rule less_mult_imp_div_less)
qed

lemma pt_index_less [simp]: "pt_index va < 1024"
  by (simp add: pt_index_eq)

lemma same_page_iff:
  "pd_index va = pd_index va' \<and> pt_index va = pt_index va' \<longleftrightarrow> unat va div 4096 = unat va' div 4096"
proof -
  have "unat x div 2 ^ 22 = unat x div 4096 div 1024" for x :: u32
    by (simp add: div_mult2_eq [symmetric])
  then show ?thesis unfolding pd_index_eq pt_index_eq by (metis div_mult_mod_eq)
qed

section \<open>Address spaces\<close>

text \<open>
  The abstract view: the entries of the current directory, and the page-table walk that turns a
  virtual address into the present page entry for it.
\<close>

definition dir_entry :: "vm \<Rightarrow> nat \<Rightarrow> u32" where
  "dir_entry s i = getw s (cell (cur_page_dir s) i)"

definition table_of :: "vm \<Rightarrow> nat \<Rightarrow> u32" where
  "table_of s i = (dir_entry s i AND PAGE_ADDR) + KERNEL_VIRTUAL_BASE"

definition pte :: "vm \<Rightarrow> u32 \<Rightarrow> u32 option" where
  "pte s va = (if bit (dir_entry s (pd_index va)) 0
     then Some (getw s (cell (table_of s (pd_index va)) (pt_index va))) else None)"

definition walk :: "vm \<Rightarrow> u32 \<Rightarrow> u32 option" where
  "walk s va = (case pte s va of Some e \<Rightarrow> if bit e 0 then Some e else None | None \<Rightarrow> None)"

definition same_page :: "u32 \<Rightarrow> u32 \<Rightarrow> bool" where
  "same_page a b \<longleftrightarrow> pd_index a = pd_index b \<and> pt_index a = pt_index b"

text \<open>The frame behind a window address, and whether it is allocated.\<close>

definition held :: "vm \<Rightarrow> u32 \<Rightarrow> bool" where
  "held s w \<longleftrightarrow> \<not> test_block (phys_st s) (frame_of (w - KERNEL_VIRTUAL_BASE))"

definition vm_wf :: "vm \<Rightarrow> bool" where
  "vm_wf s \<longleftrightarrow> phys_ok (phys_st s) \<and> cur_page_dir s \<noteq> 0 \<and>
     page_aligned (cur_page_dir s) \<and> page_aligned (kernel_page_dir s) \<and>
     held s (cur_page_dir s) \<and> held s (kernel_page_dir s) \<and>
     (\<forall>i<1024. bit (dir_entry s i) 0 \<longrightarrow>
        held s (table_of s i) \<and> table_of s i \<noteq> cur_page_dir s \<and> table_of s i \<noteq> kernel_page_dir s)"

definition no_alias :: "vm \<Rightarrow> nat \<Rightarrow> bool" where
  "no_alias s i \<longleftrightarrow> bit (dir_entry s i) 0 \<longrightarrow>
     (\<forall>j<1024. j \<noteq> i \<and> bit (dir_entry s j) 0 \<longrightarrow> table_of s j \<noteq> table_of s i)"

lemma is_page_mapped_walk:
  "is_page_mapped s va \<longleftrightarrow> cur_page_dir s \<noteq> 0 \<and> (\<exists>e. walk s va = Some e \<and> bit e 2)"
  by (auto simp: is_page_mapped_def walk_def pte_def dir_entry_def table_of_def Let_def)

lemma vm_fields [simp]:
  "phys_st (setw a v s) = phys_st s" "cur_page_dir (setw a v s) = cur_page_dir s"
  "kernel_page_dir (setw a v s) = kernel_page_dir s"
  "phys_st (clear_page a s) = phys_st s" "cur_page_dir (clear_page a s) = cur_page_dir s"
  "kernel_page_dir (clear_page a s) = kernel_page_dir s"
  "cur_page_dir (pfree a s) = cur_page_dir s" "kernel_page_dir (pfree a s) = kernel_page_dir s"
  "getw (pfree a s) = getw s" "getw (s\<lparr>phys_st := ph\<rparr>) = getw s"
  by (auto simp: setw_def clear_page_def pfree_def getw_def fun_eq_iff)

lemma tlb_flush_id [simp]: "tlb_flush s = s"
  by (simp add: tlb_flush_def)

lemma page_aligned_block: "page_aligned (of_nat b * BLOCK_SIZE)"
proof -
  have "page_aligned (4096 * of_nat b)"
    by (simp add: page_aligned_def unat_word_ariths dvd_mod)
  then show ?thesis by (simp add: BLOCK_SIZE_def mult.commute)
qed

lemma palloc_cases:
  assumes "phys_ok (phys_st s)"
  obtains (none) "palloc s = (0, s)" "\<forall>b. \<not> test_block (phys_st s) b"
  | (some) t ph where "palloc s = (t, s\<lparr>phys_st := ph\<rparr>)" "t \<noteq> 0" "page_aligned t"
      "test_block (phys_st s) (frame_of t)" "phys_ok ph"
      "test_block ph = (test_block (phys_st s))(frame_of t := False)"
      "ref_counts ph = (ref_counts (phys_st s))(frame_of t := 1)"
proof (rule alloc_one_cases [OF assms])
  assume "alloc_blocks 1 (phys_st s) = (0, phys_st s)" "\<forall>b. \<not> test_block (phys_st s) b"
  then show thesis by (intro none) (simp_all add: palloc_def)
next
  fix b assume b: "alloc_blocks 1 (phys_st s) = (of_nat b * BLOCK_SIZE, take_frames b 1 (phys_st s))"
    "test_block (phys_st s) b" "frame_of (of_nat b * BLOCK_SIZE) = b" "of_nat b * BLOCK_SIZE \<noteq> 0"
    "b < MAX_BLOCK_ENTRIES"
  from b(1) have a: "fst (alloc_blocks 1 (phys_st s)) = of_nat b * BLOCK_SIZE"
    "snd (alloc_blocks 1 (phys_st s)) = take_frames b 1 (phys_st s)" by simp_all
  show thesis
  proof (rule some)
    show "palloc s = (of_nat b * BLOCK_SIZE, s\<lparr>phys_st := take_frames b 1 (phys_st s)\<rparr>)"
      by (simp add: palloc_def b(1))
    show "phys_ok (take_frames b 1 (phys_st s))"
      using fa.alloc_inv [OF assms] by (simp add: a)
    show "test_block (take_frames b 1 (phys_st s)) = (test_block (phys_st s))(frame_of (of_nat b * BLOCK_SIZE) := False)"
      using fa.alloc_takes [OF assms] b(4) by (simp only: a) blast
    show "ref_counts (take_frames b 1 (phys_st s)) =
        (ref_counts (phys_st s))(frame_of (of_nat b * BLOCK_SIZE) := 1)"
      using b(5) by (auto simp: b(3) fun_eq_iff take_frames_effect)
  qed (use b page_aligned_block in auto)
qed

lemma held_fresh:
  assumes "held s w" "test_block (phys_st s) (frame_of t)"
  shows "w \<noteq> t + KERNEL_VIRTUAL_BASE"
  using assms by (auto simp: held_def)

text \<open>The entry \<open>get_page\<close> and \<open>clone\<close> build: an aligned frame and flag bits below 12.\<close>

lemma entry_and_addr:
  assumes "page_aligned t" "fl AND PAGE_ADDR = 0"
  shows "(t OR fl) AND PAGE_ADDR = t"
  using page_aligned_and_id [OF assms(1)] assms(2) by (simp add: bit.conj_disj_distrib2)

lemma page_aligned_bits: "page_aligned t \<Longrightarrow> n < 12 \<Longrightarrow> \<not> bit t n"
proof -
  assume "page_aligned t" "n < 12"
  then have "bit t n = bit (t AND PAGE_ADDR) n" by (simp add: page_aligned_and_id)
  also have "\<dots> = False" using \<open>n < 12\<close> by (simp add: bit_and_iff)
  finally show ?thesis by simp
qed

lemma flags_and_addr:
  "(PAGE_PRESENT OR PAGE_RW OR PAGE_USER) AND PAGE_ADDR = 0" "(PAGE_PRESENT OR PAGE_RW) AND PAGE_ADDR = 0"
  "(PAGE_PRESENT OR PAGE_RW OR 0) AND PAGE_ADDR = 0"
  by (simp_all add: PAGE_PRESENT_def PAGE_RW_def PAGE_USER_def PAGE_ADDR_def)

section \<open>get\_page and the map operations\<close>

lemma get_page_present:
  assumes "bit (dir_entry s (pd_index va)) 0"
  shows "get_page va fl s = (cell (table_of s (pd_index va)) (pt_index va), s)"
  using assms by (simp add: get_page_def dir_entry_def table_of_def window_and Let_def)

text \<open>A missing table: a fresh zeroed frame is entered in the directory.\<close>

lemma get_page_absent:
  assumes wf: "vm_wf s" and ab: "\<not> bit (dir_entry s (pd_index va)) 0"
    and pa: "palloc s = (t, s\<lparr>phys_st := ph\<rparr>)" "page_aligned t" "test_block (phys_st s) (frame_of t)"
    and fl: "(PAGE_PRESENT OR PAGE_RW OR fl) AND PAGE_ADDR = 0"
  obtains s' where "get_page va fl s = (cell (t + KERNEL_VIRTUAL_BASE) (pt_index va), s')"
    "phys_st s' = ph" "cur_page_dir s' = cur_page_dir s" "kernel_page_dir s' = kernel_page_dir s"
    "\<forall>x j. page_aligned x \<and> j < 1024 \<longrightarrow> getw s' (cell x j) =
       (if x = cur_page_dir s \<and> j = pd_index va then t OR (PAGE_PRESENT OR PAGE_RW OR fl)
        else if x = kernel_page_dir s \<and> j = pd_index va \<and> KERNEL_PAGE_NUMBER \<le> j
          then t OR (PAGE_PRESENT OR PAGE_RW OR fl)
        else if x = t + KERNEL_VIRTUAL_BASE then 0 else getw s (cell x j))"
proof -
  let ?d = "cur_page_dir s" and ?k = "kernel_page_dir s" and ?i = "pd_index va"
  let ?T = "t + KERNEL_VIRTUAL_BASE" and ?E = "t OR (PAGE_PRESENT OR PAGE_RW OR fl)"
  have al: "page_aligned ?d" "page_aligned ?k" "page_aligned ?T"
    using wf pa(2) by (simp_all add: vm_wf_def)
  have ne: "?d \<noteq> ?T" "?k \<noteq> ?T"
    using held_fresh [OF _ pa(3)] wf by (auto simp: vm_wf_def)
  define s1 where "s1 = clear_page ?T (s\<lparr>phys_st := ph\<rparr>)"
  define s2 where "s2 = setw (cell ?d ?i) ?E (setw (cell ?d ?i) t s1)"
  define s' where "s' = (if KERNEL_PAGE_NUMBER \<le> ?i then setw (cell ?k ?i) ?E s2 else s2)"
  have g: "getw s' (cell x j) = (if x = ?d \<and> j = ?i then ?E
      else if x = ?k \<and> j = ?i \<and> KERNEL_PAGE_NUMBER \<le> j then ?E
      else if x = ?T then 0 else getw s (cell x j))" if "page_aligned x" "j < 1024" for x j
    using that al ne by (auto simp: s'_def s2_def s1_def getw_setw getw_clear_page)
  have k2: "kernel_page_dir s2 = ?k" by (simp add: s2_def s1_def)
  have e: "getw s2 (cell ?d ?i) = ?E" "getw s' (cell ?d ?i) = ?E"
    using al g [OF al(1)] by (simp_all add: s2_def getw_setw)
  have "get_page va fl s = (cell ?T (pt_index va), s')"
    using ab pa(1) al e [unfolded s'_def] entry_and_addr [OF pa(2) fl]
    by (auto simp: get_page_def dir_entry_def Let_def window_and getw_setw s'_def
        s1_def [symmetric] s2_def [symmetric] k2)
  then show thesis using that [of s'] g by (simp add: s'_def s2_def s1_def)
qed

text \<open>
  The state a map operation works in: either the table was there, or it is fresh; in both cases
  the walk of every address is as before, and storing an entry changes exactly one page.
\<close>

lemma get_page_ready:
  assumes wf: "vm_wf s" and na: "no_alias s (pd_index va)"
    and mem: "bit (dir_entry s (pd_index va)) 0 \<or> (\<exists>b. test_block (phys_st s) b)"
    and fl: "(PAGE_PRESENT OR PAGE_RW OR fl) AND PAGE_ADDR = 0"
  obtains s' where "get_page va fl s = (cell (table_of s' (pd_index va)) (pt_index va), s')"
    "bit (dir_entry s' (pd_index va)) 0" "no_alias s' (pd_index va)"
    "\<forall>va'. walk s' va' = walk s va'" "cur_page_dir s' = cur_page_dir s"
    "table_of s' (pd_index va) \<noteq> cur_page_dir s"
    "phys_st s' = (if bit (dir_entry s (pd_index va)) 0 then phys_st s
       else snd (alloc_blocks 1 (phys_st s)))"
proof (cases "bit (dir_entry s (pd_index va)) 0")
  case True
  then show thesis using that [of s] get_page_present [OF True] na wf by (simp add: vm_wf_def)
next
  case False
  let ?i = "pd_index va"
  obtain t ph where t: "palloc s = (t, s\<lparr>phys_st := ph\<rparr>)" "page_aligned t"
    "test_block (phys_st s) (frame_of t)"
    using palloc_cases [of s] wf mem False by (metis vm_wf_def)
  have ph: "ph = snd (alloc_blocks 1 (phys_st s))"
    using t(1) by (auto simp: palloc_def split: prod.splits dest: arg_cong [where f = phys_st])
  obtain s' where s': "get_page va fl s = (cell (t + KERNEL_VIRTUAL_BASE) (pt_index va), s')"
    "phys_st s' = ph" "cur_page_dir s' = cur_page_dir s" "kernel_page_dir s' = kernel_page_dir s"
    and g: "\<forall>x j. page_aligned x \<and> j < 1024 \<longrightarrow> getw s' (cell x j) =
       (if x = cur_page_dir s \<and> j = ?i then t OR (PAGE_PRESENT OR PAGE_RW OR fl)
        else if x = kernel_page_dir s \<and> j = ?i \<and> KERNEL_PAGE_NUMBER \<le> j
          then t OR (PAGE_PRESENT OR PAGE_RW OR fl)
        else if x = t + KERNEL_VIRTUAL_BASE then 0 else getw s (cell x j))"
    by (rule get_page_absent [OF wf False t fl], rule that)
  have dT: "cur_page_dir s \<noteq> t + KERNEL_VIRTUAL_BASE"
    using held_fresh [OF _ t(3)] wf by (auto simp: vm_wf_def)
  have de: "dir_entry s' j = (if j = ?i then t OR (PAGE_PRESENT OR PAGE_RW OR fl) else dir_entry s j)"
    if "j < 1024" for j
    using g [rule_format, of "cur_page_dir s" j] that wf dT by (auto simp: dir_entry_def s' vm_wf_def)
  have ti: "table_of s' ?i = t + KERNEL_VIRTUAL_BASE"
    using de [of ?i] entry_and_addr [OF t(2) fl] by (simp add: table_of_def)
  have tj: "table_of s' j = table_of s j" if "j < 1024" "j \<noteq> ?i" for j
    using de [of j] that by (simp add: table_of_def)
  have pres: "bit (dir_entry s' ?i) 0" using de [of ?i] by (simp add: bit_or_iff)
  have old: "table_of s j \<noteq> t + KERNEL_VIRTUAL_BASE \<and> table_of s j \<noteq> cur_page_dir s \<and>
      table_of s j \<noteq> kernel_page_dir s" if "j < 1024" "bit (dir_entry s j) 0" for j
    using held_fresh [OF _ t(3)] wf that by (auto simp: vm_wf_def)
  have "walk s' va' = walk s va'" for va'
  proof (cases "pd_index va' = ?i")
    case True
    have "kernel_page_dir s \<noteq> t + KERNEL_VIRTUAL_BASE"
      using held_fresh [OF _ t(3)] wf by (auto simp: vm_wf_def)
    then have "getw s' (cell (table_of s' ?i) (pt_index va')) = 0"
      using g [rule_format, of "t + KERNEL_VIRTUAL_BASE" "pt_index va'"] t(2) dT by (simp add: ti)
    then show ?thesis using True False by (simp add: walk_def pte_def)
  next
    case ne: False
    then show ?thesis
      using g [rule_format, of "table_of s (pd_index va')" "pt_index va'"] old [of "pd_index va'"]
        de [of "pd_index va'"] tj [of "pd_index va'"]
      by (auto simp: walk_def pte_def table_of_def)
  qed
  moreover have "no_alias s' ?i"
    using old de tj ti by (auto simp: no_alias_def)
  ultimately show thesis
    using that [of s'] s' ti pres dT False ph by auto
qed

lemma walk_setw:
  assumes "page_aligned (cur_page_dir s)" "bit (dir_entry s (pd_index va)) 0" "no_alias s (pd_index va)"
    "table_of s (pd_index va) \<noteq> cur_page_dir s"
  shows "walk (setw (cell (table_of s (pd_index va)) (pt_index va)) e s) va' =
    (if same_page va' va then (if bit e 0 then Some e else None) else walk s va')"
proof -
  let ?s = "setw (cell (table_of s (pd_index va)) (pt_index va)) e s"
  have al: "page_aligned (table_of s j)" for j by (simp add: table_of_def)
  have de: "dir_entry ?s j = dir_entry s j" if "j < 1024" for j
    using assms al that by (auto simp: dir_entry_def getw_setw)
  then have tb: "table_of ?s j = table_of s j" if "j < 1024" for j
    using that by (simp add: table_of_def)
  have "pd_index va' = pd_index va"
    if "bit (dir_entry s (pd_index va')) 0" "table_of s (pd_index va') = table_of s (pd_index va)"
    using assms(2,3) that unfolding no_alias_def by (metis pd_index_less)
  then show ?thesis
    using assms(2) al by (auto simp: walk_def pte_def de tb getw_setw same_page_def)
qed

text \<open>What the entry being replaced costs: one reference of the old frame.\<close>

definition release_old :: "vm \<Rightarrow> u32 \<Rightarrow> u32 \<Rightarrow> phys \<Rightarrow> phys" where
  "release_old s va pa ph =
     (case walk s va of
        Some e \<Rightarrow> if e AND PAGE_ADDR \<noteq> 0 \<and> e AND PAGE_ADDR \<noteq> pa
                  then free_blocks (e AND PAGE_ADDR) 1 ph else ph
      | None \<Rightarrow> ph)"

lemma drop_old_keeps [simp]:
  "getw (drop_old p pa s) = getw s" "cur_page_dir (drop_old p pa s) = cur_page_dir s"
  by (simp_all add: drop_old_def Let_def)

lemma views_keep:
  assumes "getw s' = getw s" "cur_page_dir s' = cur_page_dir s"
  shows "dir_entry s' = dir_entry s" "table_of s' = table_of s" "walk s' = walk s" "no_alias s' = no_alias s"
  using assms by (auto simp: dir_entry_def table_of_def walk_def pte_def no_alias_def fun_eq_iff)

lemma map_entry_effect:
  fixes pa :: u32
  assumes wf: "vm_wf s" and na: "no_alias s (pd_index va)"
    and mem: "bit (dir_entry s (pd_index va)) 0 \<or> (\<exists>b. test_block (phys_st s) b)"
    and fl: "(PAGE_PRESENT OR PAGE_RW OR fl) AND PAGE_ADDR = 0"
    and e: "bit e 0"
  defines "s' \<equiv> (case get_page va fl s of (page, t) \<Rightarrow> setw page e (drop_old page pa t))"
  shows "walk s' va' = (if same_page va' va then Some e else walk s va') \<and>
    cur_page_dir s' = cur_page_dir s \<and>
    phys_st s' = release_old s va pa (if bit (dir_entry s (pd_index va)) 0 then phys_st s
       else snd (alloc_blocks 1 (phys_st s)))"
proof -
  obtain t where t: "get_page va fl s = (cell (table_of t (pd_index va)) (pt_index va), t)"
    "bit (dir_entry t (pd_index va)) 0" "no_alias t (pd_index va)"
    "\<forall>va'. walk t va' = walk s va'" "cur_page_dir t = cur_page_dir s"
    "table_of t (pd_index va) \<noteq> cur_page_dir s"
    "phys_st t = (if bit (dir_entry s (pd_index va)) 0 then phys_st s
       else snd (alloc_blocks 1 (phys_st s)))"
    by (rule get_page_ready [OF wf na mem fl], rule that)
  let ?p = "cell (table_of t (pd_index va)) (pt_index va)"
  have s': "s' = setw ?p e (drop_old ?p pa t)" by (simp add: s'_def t(1))
  note v = views_keep [OF drop_old_keeps, of ?p pa t]
  have "walk s' va' = (if same_page va' va then Some e else walk t va')"
    using walk_setw [of "drop_old ?p pa t" va e va'] t e wf by (simp add: s' v vm_wf_def)
  moreover have "phys_st s' = release_old s va pa (phys_st t)"
    using t(2) t(4) [rule_format, of va] unfolding s' release_old_def
    by (auto simp: drop_old_def walk_def pte_def Let_def pfree_def split: if_splits option.splits)
  ultimately show ?thesis using t by (simp add: s')
qed

lemma walk_unmap:
  assumes "vm_wf s" "no_alias s (pd_index va)"
  shows "walk (unmap_address va s) va' = (if same_page va' va then None else walk s va')"
    and "phys_st (unmap_address va s) = release_old s va 0 (phys_st s)"
proof -
  let ?p = "cell (table_of s (pd_index va)) (pt_index va)"
  let ?t = "if bit (getw s ?p) 0 then (if getw s ?p AND PAGE_ADDR \<noteq> 0 then pfree (getw s ?p AND PAGE_ADDR) s else s) else s"
  have u: "unmap_address va s = (if bit (dir_entry s (pd_index va)) 0 then setw ?p 0 ?t else s)"
    by (simp add: unmap_address_def dir_entry_def table_of_def Let_def)
  have "getw ?t = getw s" "cur_page_dir ?t = cur_page_dir s" by simp_all
  note v = views_keep [OF this]
  show "walk (unmap_address va s) va' = (if same_page va' va then None else walk s va')"
  proof (cases "bit (dir_entry s (pd_index va)) 0")
    case True
    have "walk (setw (cell (table_of ?t (pd_index va)) (pt_index va)) 0 ?t) va' =
        (if same_page va' va then None else walk ?t va')"
      using walk_setw [of ?t va 0 va'] assms True unfolding v by (simp add: vm_wf_def)
    then show ?thesis using True unfolding u v by simp
  next
    case False
    then show ?thesis by (auto simp: u walk_def pte_def same_page_def)
  qed
  show "phys_st (unmap_address va s) = release_old s va 0 (phys_st s)"
    unfolding u by (auto simp: release_old_def walk_def pte_def pfree_def)
qed

section \<open>The user-range check\<close>

lemma pages_cover:
  fixes A n :: nat
  assumes "0 < n"
  shows "(\<forall>j. 4096 * j < n \<longrightarrow> P ((A + 4096 * j) div 4096)) \<and> P ((A + n - 1) div 4096) \<longleftrightarrow>
    (\<forall>i<n. P ((A + i) div 4096))" (is "?L \<longleftrightarrow> ?R")
proof
  assume L: ?L
  show ?R
  proof (intro allI impI)
    fix i assume i: "i < n"
    define j where "j = i div 4096"
    have d: "(A + 4096 * k) div 4096 = A div 4096 + k" for k by simp
    have j: "4096 * j \<le> i" "i < 4096 * j + 4096"
      unfolding j_def using div_times_less_eq_dividend [of i 4096] dividend_less_div_times [of 4096 i]
      by (simp_all add: mult.commute)
    have lo: "A div 4096 + j \<le> (A + i) div 4096"
      using div_le_mono [of "A + 4096 * j" "A + i" 4096] j(1) by simp
    have hi: "(A + i) div 4096 \<le> A div 4096 + Suc j"
      using div_le_mono [of "A + i" "A + 4096 * Suc j" 4096] j(2) d [of "Suc j"] by simp
    consider "(A + i) div 4096 = A div 4096 + j" | "(A + i) div 4096 = A div 4096 + Suc j"
      using lo hi by linarith
    then show "P ((A + i) div 4096)"
    proof cases
      case 1
      then show ?thesis using L j(1) i d [of j] by (metis le_less_trans)
    next
      case 2
      show ?thesis
      proof (cases "4096 * Suc j < n")
        case True
        then show ?thesis using L 2 d [of "Suc j"] by metis
      next
        case False
        then have "(A + n - 1) div 4096 \<le> A div 4096 + Suc j"
          using div_le_mono [of "A + n - 1" "A + 4096 * Suc j" 4096] d [of "Suc j"] by simp
        moreover have "(A + i) div 4096 \<le> (A + n - 1) div 4096" using i by (intro div_le_mono) simp
        ultimately show ?thesis using L 2 by simp
      qed
    qed
  qed
next
  assume R: ?R
  then have "P ((A + (n - 1)) div 4096)" using assms by (metis diff_less zero_less_one)
  then show ?L using R assms by (auto simp: Nat.add_diff_assoc)
qed

lemma is_page_mapped_page:
  "unat va div 4096 = unat va' div 4096 \<Longrightarrow> is_page_mapped s va = is_page_mapped s va'"
  using same_page_iff [of va va'] by (simp add: is_page_mapped_def)

lemma check_pages_ok:
  assumes "unat end_addr \<le> 2 ^ 32 - 4096" "unat start + 4096 * k < unat end_addr + 4096"
  shows "check_pages s start end_addr (start + of_nat (4096 * k)) =
    Some (\<forall>j\<ge>k. unat start + 4096 * j < unat end_addr \<longrightarrow> is_page_mapped s (start + of_nat (4096 * j)))"
  using assms(2)
proof (induction "unat end_addr - (unat start + 4096 * k)" arbitrary: k rule: less_induct)
  case less
  let ?a = "start + of_nat (4096 * k)"
  have u: "unat ?a = unat start + 4096 * k"
    using less.prems assms(1) by (intro unat_add_small) simp
  have nx: "?a + 4096 = start + of_nat (4096 * Suc k)" by simp
  show ?case
  proof (cases "unat start + 4096 * k < unat end_addr")
    case True
    then have lt: "?a < end_addr" "\<not> ?a < start" using u by (simp_all add: word_less_nat_alt)
    have split: "(\<forall>j\<ge>k. unat start + 4096 * j < unat end_addr \<longrightarrow> Q j) \<longleftrightarrow>
      Q k \<and> (\<forall>j\<ge>Suc k. unat start + 4096 * j < unat end_addr \<longrightarrow> Q j)" for Q
      using True by (metis Suc_leD le_antisym not_less_eq_eq order_refl)
    have "check_pages s start end_addr (start + of_nat (4096 * Suc k)) =
      Some (\<forall>j\<ge>Suc k. unat start + 4096 * j < unat end_addr \<longrightarrow> is_page_mapped s (start + of_nat (4096 * j)))"
      using True by (intro less.hyps) simp_all
    then show ?thesis
      using lt nx unfolding split [of "\<lambda>j. is_page_mapped s (start + of_nat (4096 * j))"]
      by (subst check_pages.simps) (simp add: Let_def nx add.assoc add.commute [of 4096])
  next
    case False
    then have "\<not> ?a < end_addr" using u by (simp add: word_less_nat_alt)
    moreover have "\<not> unat start + 4096 * j < unat end_addr" if "k \<le> j" for j using False that by simp
    ultimately show ?thesis by (subst check_pages.simps) simp
  qed
qed

lemma and_not_4095: "x AND NOT 4095 = x AND PAGE_ADDR"
proof -
  have "NOT 4095 = PAGE_ADDR" unfolding page_addr_mask by (simp add: mask_eq_exp_minus_1)
  then show ?thesis by simp
qed

lemma user_range_ok_iff:
  assumes "0 < sz" "unat start + unat sz \<le> 2 ^ 32 - 4096"
  shows "user_range_ok s start sz = Some (\<forall>i<unat sz. is_page_mapped s (start + of_nat i))"
proof -
  let ?e = "start + sz" and ?P = "\<lambda>p. is_page_mapped s (of_nat (4096 * p))"
  have n: "0 < unat sz" using assms(1) by (simp add: word_less_nat_alt)
  have e: "unat ?e = unat start + unat sz"
    using unat_add_small [of start "unat sz"] assms(2) by simp
  have P: "is_page_mapped s va = ?P (unat va div 4096)" for va
  proof (rule is_page_mapped_page)
    have "4096 * (unat va div 4096) < 2 ^ LENGTH(32)"
      by (rule le_less_trans [OF times_div_less_eq_dividend unsigned_less])
    then show "unat va div 4096 = unat (of_nat (4096 * (unat va div 4096)) :: u32) div 4096"
      by (simp only: unat_of_nat_small nonzero_mult_div_cancel_left)
  qed
  have le: "start AND PAGE_ADDR \<le> start" by (simp add: word_le_nat_alt unat_page_addr)
  have lt: "start < ?e" "start AND PAGE_ADDR < ?e" using n e le by (simp_all add: word_less_nat_alt word_le_nat_alt)
  have first: "check_pages s start ?e (start AND PAGE_ADDR) = check_pages s start ?e start"
    using lt le by (subst (1 2) check_pages.simps) (auto simp: Let_def)
  have chk: "check_pages s start ?e (start AND PAGE_ADDR) =
      Some (\<forall>j. 4096 * j < unat sz \<longrightarrow> ?P ((unat start + 4096 * j) div 4096))"
  proof -
    have "is_page_mapped s (start + of_nat (4096 * j)) = ?P ((unat start + 4096 * j) div 4096)"
      if "4096 * j < unat sz" for j
      using P [of "start + of_nat (4096 * j)"] unat_add_small [of start "4096 * j"] that assms(2) by simp
    then show ?thesis using check_pages_ok [of ?e start 0 s] assms(2) e unfolding first by auto
  qed
  have last: "is_page_mapped s ((?e - 1) AND PAGE_ADDR) = ?P ((unat start + unat sz - 1) div 4096)"
  proof -
    have "unat (?e - 1) = unat start + unat sz - 1"
      using e n by (subst unat_minus_one) auto
    then show ?thesis using P [of "(?e - 1) AND PAGE_ADDR"] by (simp add: unat_page_addr)
  qed
  have "is_page_mapped s (start + of_nat i) = ?P ((unat start + i) div 4096)" if "i < unat sz" for i
    using P [of "start + of_nat i"] unat_add_small [of start i] that assms(2) by simp
  then have "(\<forall>i<unat sz. is_page_mapped s (start + of_nat i)) \<longleftrightarrow> (\<forall>i<unat sz. ?P ((unat start + i) div 4096))"
    by simp
  then show ?thesis
    using pages_cover [OF n, of ?P "unat start"] lt
    unfolding user_range_ok_def and_not_4095 chk last Let_def by (auto split: bool.splits)
qed

section \<open>The byte loop of copy\_to\_user\<close>

text \<open>The bytes of the page directory and of the present page tables.\<close>

definition structure_bytes :: "vm \<Rightarrow> u32 set" where
  "structure_bytes s = span (cur_page_dir s) 4096 \<union>
     (\<Union>i\<in>{i. i < 1024 \<and> bit (dir_entry s i) 0}. span (table_of s i) 4096)"

lemma getw_agree:
  assumes "\<forall>x\<in>span t 4096. kmem s' x = kmem s x" "page_aligned t" "j < 1024"
  shows "getw s' (cell t j) = getw s (cell t j)"
proof -
  have "kmem s' (cell t j + of_nat k) = kmem s (cell t j + of_nat k)" if "k < 4" for k
    using assms cell_bytes_in_page [OF assms(2,2,3) that] by blast
  from this [of 0] this [of 1] this [of 2] this [of 3] show ?thesis
    by (simp add: getw_def ld32_def)
qed

lemma user_ref_agree:
  assumes "\<forall>x\<in>structure_bytes s. kmem s' x = kmem s x" "cur_page_dir s' = cur_page_dir s"
    "page_aligned (cur_page_dir s)" "bit (dir_entry s (pd_index va)) 0"
  shows "user_ref s' va = user_ref s va"
proof -
  have "getw s' (cell (cur_page_dir s) (pd_index va)) = dir_entry s (pd_index va)"
    using assms by (simp add: dir_entry_def) (rule getw_agree; simp add: structure_bytes_def)
  moreover have "getw s' (cell (table_of s (pd_index va)) (pt_index va)) =
      getw s (cell (table_of s (pd_index va)) (pt_index va))"
    using assms(1,4) by (intro getw_agree) (auto simp: structure_bytes_def table_of_def)
  ultimately show ?thesis
    by (simp add: user_ref_def Let_def assms(2) dir_entry_def table_of_def)
qed

lemma put_user_loop:
  assumes al: "page_aligned (cur_page_dir s)"
    and pres: "\<forall>i<n. bit (dir_entry s (pd_index (dst + of_nat i))) 0"
    and sep: "\<forall>i<n. user_ref s (dst + of_nat i) \<notin> structure_bytes s \<union> span src n"
    and inj: "\<forall>i<n. \<forall>j<n. user_ref s (dst + of_nat i) = user_ref s (dst + of_nat j) \<longrightarrow> i = j"
    and k: "k \<le> n"
  shows "cur_page_dir (fold (put_user_byte dst src) [0..<k] s) = cur_page_dir s \<and>
    (\<forall>i<k. kmem (fold (put_user_byte dst src) [0..<k] s) (user_ref s (dst + of_nat i)) = kmem s (src + of_nat i)) \<and>
    (\<forall>x. x \<notin> (\<lambda>i. user_ref s (dst + of_nat i)) ` {..<k} \<longrightarrow>
       kmem (fold (put_user_byte dst src) [0..<k] s) x = kmem s x)"
  using k
proof (induction k)
  case (Suc k)
  let ?r = "\<lambda>i. user_ref s (dst + of_nat i)"
  define t where "t = fold (put_user_byte dst src) [0..<k] s"
  have ih: "cur_page_dir t = cur_page_dir s" "\<forall>i<k. kmem t (?r i) = kmem s (src + of_nat i)"
    "\<forall>x. x \<notin> ?r ` {..<k} \<longrightarrow> kmem t x = kmem s x"
    using Suc by (simp_all add: t_def)
  have "kmem t x = kmem s x" if "x \<in> structure_bytes s" for x
  proof -
    have "x \<notin> ?r ` {..<k}" using sep that Suc.prems by fastforce
    then show ?thesis using ih(3) by simp
  qed
  then have "?r k = user_ref t (dst + of_nat k)"
    using ih(1) pres Suc.prems al by (intro user_ref_agree [symmetric]) auto
  moreover have "kmem t (src + of_nat k) = kmem s (src + of_nat k)"
  proof -
    have "src + of_nat k \<in> span src n" using Suc.prems by (simp add: span_def)
    then have "src + of_nat k \<notin> ?r ` {..<k}" using sep Suc.prems by fastforce
    then show ?thesis using ih(3) by simp
  qed
  moreover have "?r i \<noteq> ?r k" if "i < k" for i 
    using inj [rule_format, of i k] that Suc.prems by auto
  moreover have last: "fold (put_user_byte dst src) [0..<Suc k] s = put_user_byte dst src k t"
    by (simp add: t_def)
  ultimately show ?case
    unfolding last using ih by (auto simp: put_user_byte_def less_Suc_eq lessThan_Suc)
qed simp

lemma mapped_present: "is_page_mapped s va \<Longrightarrow> bit (dir_entry s (pd_index va)) 0"
  by (auto simp: is_page_mapped_walk walk_def pte_def split: if_splits)

section \<open>Cloning a directory\<close>

text \<open>
  What slot \<open>j\<close> of the new directory at \<open>N\<close> (a window address) must be: nothing
  for an absent slot, the same entry in the kernel half, and in the user half the old flags on a
  table of its own, taken from the free frames of \<open>s\<close>, with no page in it.
\<close>

definition own_table :: "vm \<Rightarrow> vm \<Rightarrow> u32 \<Rightarrow> bool" where
  "own_table s t a \<longleftrightarrow> a \<noteq> 0 \<and> test_block (phys_st s) (frame_of a) \<and>
     \<not> test_block (phys_st t) (frame_of a) \<and>
     (\<forall>k<1024. getw t (cell (a + KERNEL_VIRTUAL_BASE) k) = 0)"

definition slot_cloned :: "vm \<Rightarrow> vm \<Rightarrow> u32 \<Rightarrow> nat \<Rightarrow> bool" where
  "slot_cloned s t N j =
     (let old = dir_entry s j; new = getw t (cell N j)
      in if \<not> bit old 0 then new = 0
         else if KERNEL_PAGE_NUMBER \<le> j then new = old
         else new AND 0xFFF = old AND 0xFFF \<and> own_table s t (new AND PAGE_ADDR) \<and>
              (new AND PAGE_ADDR) + KERNEL_VIRTUAL_BASE \<noteq> N)"

definition user_slots :: "vm \<Rightarrow> nat \<Rightarrow> nat set" where
  "user_slots s i = {j. i \<le> j \<and> j < KERNEL_PAGE_NUMBER \<and> bit (dir_entry s j) 0}"

definition free_frames :: "vm \<Rightarrow> nat set" where
  "free_frames s = {b. test_block (phys_st s) b}"

definition clone_inv :: "vm \<Rightarrow> u32 \<Rightarrow> nat \<Rightarrow> vm \<Rightarrow> bool" where
  "clone_inv s N i t \<longleftrightarrow> phys_ok (phys_st t) \<and> cur_page_dir t = cur_page_dir s \<and>
     free_frames t \<subseteq> free_frames s \<and> held t N \<and> \<not> held s N \<and>
     (\<forall>x j. page_aligned x \<and> j < 1024 \<and> held s x \<longrightarrow> getw t (cell x j) = getw s (cell x j)) \<and>
     (\<forall>j<i. slot_cloned s t N j) \<and> (\<forall>j. i \<le> j \<and> j < 1024 \<longrightarrow> getw t (cell N j) = 0) \<and>
     (\<forall>j j'. j < i \<and> j' < i \<and> j \<noteq> j' \<and> j \<in> user_slots s 0 \<and> j' \<in> user_slots s 0 \<longrightarrow>
        getw t (cell N j) AND PAGE_ADDR \<noteq> getw t (cell N j') AND PAGE_ADDR)"

lemma finite_free_frames: "phys_ok (phys_st s) \<Longrightarrow> finite (free_frames s)"
  by (rule finite_subset [of _ "{..<MAX_BLOCK_ENTRIES}"]) (auto simp: free_frames_def phys_ok_def)

lemma finite_user_slots [simp]: "finite (user_slots s i)"
  by (rule finite_subset [of _ "{..<KERNEL_PAGE_NUMBER}"]) (auto simp: user_slots_def)

lemma user_slots_Suc:
  "user_slots s i = (if i < KERNEL_PAGE_NUMBER \<and> bit (dir_entry s i) 0
     then insert i (user_slots s (Suc i)) else user_slots s (Suc i))"
  by (auto simp: user_slots_def le_less Suc_le_eq)

lemma held_test_block: "held s (a + KERNEL_VIRTUAL_BASE) \<longleftrightarrow> \<not> test_block (phys_st s) (frame_of a)"
  by (simp add: held_def)

lemma clone_flags:
  assumes "page_aligned t"
  shows "(t OR (w AND 0xFFF)) AND PAGE_ADDR = t" "(t OR (w AND 0xFFF)) AND 0xFFF = w AND 0xFFF"
proof -
  have m: "(0xFFF::u32) = mask 12" by (simp add: mask_eq_exp_minus_1)
  have "(w AND 0xFFF) AND PAGE_ADDR = 0"
    unfolding m page_addr_mask by (rule bit_word_eqI) (auto simp: bit_simps)
  then show "(t OR (w AND 0xFFF)) AND PAGE_ADDR = t" by (rule entry_and_addr [OF assms])
  show "(t OR (w AND 0xFFF)) AND 0xFFF = w AND 0xFFF"
    unfolding m by (rule bit_word_eqI) (use page_aligned_bits [OF assms] in \<open>auto simp: bit_simps\<close>)
qed

lemma clone_inv_dir:
  assumes "vm_wf s" "clone_inv s N i t" "j < 1024"
  shows "getw t (cell (cur_page_dir t) j) = dir_entry s j"
  using assms by (simp add: clone_inv_def vm_wf_def dir_entry_def)

text \<open>Storing one slot of the new directory keeps the other slots and everything held before.\<close>

lemma clone_inv_setw:
  assumes inv: "clone_inv s N i t" and al: "page_aligned N" and i: "i < 1024"
    and new: "slot_cloned s (setw (cell N i) e t) N i"
    and dis: "\<forall>j<i. j \<in> user_slots s 0 \<and> i \<in> user_slots s 0 \<longrightarrow> getw t (cell N j) AND PAGE_ADDR \<noteq> e AND PAGE_ADDR"
  shows "clone_inv s N (Suc i) (setw (cell N i) e t)"
proof -
  let ?t = "setw (cell N i) e t"
  have g: "getw ?t (cell x j) = (if x = N \<and> j = i then e else getw t (cell x j))"
    if "page_aligned x" "j < 1024" for x j
    using getw_setw [OF al that(1) i that(2)] by auto
  have gN: "getw ?t (cell N j) = (if j = i then e else getw t (cell N j))" if "j < 1024" for j
    using g [OF al that] by simp
  have own: "own_table s ?t a = own_table s t a" if "a + KERNEL_VIRTUAL_BASE \<noteq> N" "page_aligned a" for a
    using that by (simp add: own_table_def g)
  have old: "slot_cloned s ?t N j" if "j < i" for j
    using inv that i unfolding clone_inv_def slot_cloned_def Let_def by (simp add: gN own)
  then have "\<forall>j<Suc i. slot_cloned s ?t N j" using new by (auto simp: less_Suc_eq)
  moreover have "held s x \<Longrightarrow> x \<noteq> N" for x using inv by (auto simp: clone_inv_def)
  moreover have "free_frames ?t = free_frames t" "held ?t N = held t N"
    by (simp_all add: free_frames_def held_def)
  ultimately show ?thesis
    using inv dis i unfolding clone_inv_def by (auto simp: g gN less_Suc_eq)
qed

lemma clone_inv_fresh:
  assumes inv: "clone_inv s N i t" and al: "page_aligned N" "i \<le> 1024"
    and a: "page_aligned a" "test_block (phys_st t) (frame_of a)" "phys_ok ph"
      "test_block ph = (test_block (phys_st t))(frame_of a := False)"
  defines "u \<equiv> clear_page (a + KERNEL_VIRTUAL_BASE) (t\<lparr>phys_st := ph\<rparr>)"
  shows "clone_inv s N i u" and "a + KERNEL_VIRTUAL_BASE \<noteq> N"
    and "\<forall>j<i. j \<in> user_slots s 0 \<longrightarrow> getw u (cell N j) AND PAGE_ADDR \<noteq> a"
proof -
  let ?A = "a + KERNEL_VIRTUAL_BASE"
  have g: "getw u (cell x j) = (if x = ?A then 0 else getw t (cell x j))"
    if "page_aligned x" "j < 1024" for x j
    using getw_clear_page [of ?A x j] that a(1) by (simp add: u_def)
  show N: "?A \<noteq> N" using inv a(2) by (auto simp: clone_inv_def held_test_block)
  have as: "test_block (phys_st s) (frame_of a)"
    using inv a(2) by (auto simp: clone_inv_def free_frames_def)
  then have hs: "held s x \<Longrightarrow> x \<noteq> ?A" for x by (auto simp: held_test_block)
  have ff: "free_frames u = free_frames t - {frame_of a}" "held u N"
    using inv a(4) by (auto simp: free_frames_def u_def clone_inv_def held_def)
  have own: "own_table s u b" "b \<noteq> a" if "own_table s t b" "page_aligned b" for b
    using that a(2,4) by (auto simp: own_table_def g) (auto simp: u_def split: if_splits)
  have sl: "slot_cloned s u N j" if "j < i" for j
    using inv that N al unfolding clone_inv_def slot_cloned_def Let_def by (simp add: g own)
  show "clone_inv s N i u"
    using inv N hs ff sl al a(3) unfolding clone_inv_def by (auto simp: g) (simp_all add: u_def)
  show "\<forall>j<i. j \<in> user_slots s 0 \<longrightarrow> getw u (cell N j) AND PAGE_ADDR \<noteq> a"
  proof (intro allI impI)
    fix j assume j: "j < i" "j \<in> user_slots s 0"
    then have "own_table s t (getw t (cell N j) AND PAGE_ADDR)"
      using inv unfolding clone_inv_def slot_cloned_def Let_def by (auto simp: user_slots_def)
    then show "getw u (cell N j) AND PAGE_ADDR \<noteq> a" using own(2) j al N by (auto simp: g)
  qed
qed

lemma clone_step:
  assumes wf: "vm_wf s" and inv: "clone_inv s N i t" and al: "page_aligned N" and i: "i < 1024"
    and cnt: "card (user_slots s i) \<le> card (free_frames t)"
  shows "clone_inv s N (Suc i) (clone_entry N i t) \<and>
    card (user_slots s (Suc i)) \<le> card (free_frames (clone_entry N i t))"
proof -
  have d: "getw t (cell (cur_page_dir t) i) = dir_entry s i" using clone_inv_dir [OF wf inv i] .
  have z: "getw t (cell N i) = 0" using inv i by (simp add: clone_inv_def)
  consider (absent) "\<not> bit (dir_entry s i) 0" | (kernel) "bit (dir_entry s i) 0" "KERNEL_PAGE_NUMBER \<le> i"
    | (user) "bit (dir_entry s i) 0" "i < KERNEL_PAGE_NUMBER" by linarith
  then show ?thesis
  proof cases
    case absent
    then have "clone_entry N i t = t" by (simp add: clone_entry_def d)
    then show ?thesis
      using inv absent z cnt user_slots_Suc [of s i] unfolding clone_inv_def
      by (auto simp: less_Suc_eq slot_cloned_def user_slots_def)
  next
    case kernel
    then have c: "clone_entry N i t = setw (cell N i) (dir_entry s i) t" by (simp add: clone_entry_def d)
    have "slot_cloned s (setw (cell N i) (dir_entry s i) t) N i"
      using kernel getw_setw [OF al al i i] by (simp add: slot_cloned_def)
    then show ?thesis
      using clone_inv_setw [OF inv al i] kernel cnt user_slots_Suc [of s i] unfolding c
      by (auto simp: user_slots_def free_frames_def)
  next
    case user
    have ok: "phys_ok (phys_st t)" using inv by (simp add: clone_inv_def)
    have sl: "card (user_slots s i) = Suc (card (user_slots s (Suc i)))"
      using user user_slots_Suc [of s i] by (simp add: user_slots_def)
    then have "free_frames t \<noteq> {}" using cnt by auto
    then obtain a ph where a: "palloc t = (a, t\<lparr>phys_st := ph\<rparr>)" "a \<noteq> 0" "page_aligned a"
      "test_block (phys_st t) (frame_of a)" "phys_ok ph"
      "test_block ph = (test_block (phys_st t))(frame_of a := False)"
      using palloc_cases [OF ok] by (metis free_frames_def Collect_empty_eq)
    define u where "u = clear_page (a + KERNEL_VIRTUAL_BASE) (t\<lparr>phys_st := ph\<rparr>)"
    define e where "e = a OR (dir_entry s i AND 0xFFF)"
    note fresh = clone_inv_fresh [OF inv al less_imp_le [OF i] a(3-6), folded u_def]
    have du: "getw u (cell (cur_page_dir u) i) = dir_entry s i"
      using clone_inv_dir [OF wf fresh(1) i] .
    have c: "clone_entry N i t = setw (cell N i) e u"
      using user a(1) du by (simp add: clone_entry_def d Let_def u_def [symmetric] e_def)
        (simp add: u_def)
    have ea: "e AND PAGE_ADDR = a" "e AND 0xFFF = dir_entry s i AND 0xFFF"
      unfolding e_def by (rule clone_flags [OF a(3)])+
    have gu: "getw u (cell (a + KERNEL_VIRTUAL_BASE) k) = 0" if "k < 1024" for k
      using getw_clear_page [of "a + KERNEL_VIRTUAL_BASE"] a(3) that by (simp add: u_def)
    have "own_table s (setw (cell N i) e u) a"
      using a fresh(2) inv i al gu
      by (auto simp: own_table_def getw_setw clone_inv_def free_frames_def) (simp add: u_def)
    then have "slot_cloned s (setw (cell N i) e u) N i"
      using user fresh(2) getw_setw [OF al al i i] ea by (simp add: slot_cloned_def)
    moreover have "card (free_frames u) = card (free_frames t) - 1"
    proof -
      have "free_frames u = free_frames t - {frame_of a}" "frame_of a \<in> free_frames t"
        using a(4,6) by (auto simp: free_frames_def u_def)
      then show ?thesis using finite_free_frames [OF ok] by simp
    qed
    moreover have "free_frames (setw (cell N i) e u) = free_frames u" by (simp add: free_frames_def)
    ultimately show ?thesis
      using clone_inv_setw [OF fresh(1) al i, of e] fresh(3) ea cnt sl unfolding c by simp
  qed
qed

lemma vmm_clone_directory_inv:
  assumes wf: "vm_wf s" and mem: "card (user_slots s 0) < card (free_frames s)"
  obtains nd s' where "vmm_clone_directory s = (nd, s')" "nd \<noteq> 0" "page_aligned nd"
    "test_block (phys_st s) (frame_of nd)" "clone_inv s (nd + KERNEL_VIRTUAL_BASE) 1024 s'"
proof -
  have ok: "phys_ok (phys_st s)" using wf by (simp add: vm_wf_def)
  have "free_frames s \<noteq> {}" using mem by auto
  then obtain d ph where d: "palloc s = (d, s\<lparr>phys_st := ph\<rparr>)" "d \<noteq> 0" "page_aligned d"
    "test_block (phys_st s) (frame_of d)" "phys_ok ph"
    "test_block ph = (test_block (phys_st s))(frame_of d := False)"
    using palloc_cases [OF ok] by (metis free_frames_def Collect_empty_eq)
  let ?N = "d + KERNEL_VIRTUAL_BASE"
  define u where "u = clear_page ?N (s\<lparr>phys_st := ph\<rparr>)"
  have ff: "free_frames u = free_frames s - {frame_of d}" "frame_of d \<in> free_frames s"
    using d by (auto simp: free_frames_def u_def)
  have g: "getw u (cell x j) = (if x = ?N then 0 else getw s (cell x j))"
    if "page_aligned x" "j < 1024" for x j
    using getw_clear_page [of ?N x j] that d(3) by (simp add: u_def)
  have hN: "held u ?N" "\<not> held s ?N" using d by (simp_all add: held_test_block u_def)
  have inv0: "clone_inv s ?N 0 u"
    unfolding clone_inv_def
  proof (intro conjI)
    show "\<forall>x j. page_aligned x \<and> j < 1024 \<and> held s x \<longrightarrow> getw u (cell x j) = getw s (cell x j)"
      using hN(2) by (auto simp: g)
    show "\<forall>j. 0 \<le> j \<and> j < 1024 \<longrightarrow> getw u (cell ?N j) = 0" using d(3) by (simp add: g)
  qed (use hN ff(1) d(5) in \<open>auto simp: u_def\<close>)
  have cnt0: "card (user_slots s 0) \<le> card (free_frames u)"
    using ff mem finite_free_frames [OF ok] by simp
  have "clone_inv s ?N 1024 (fold (clone_entry ?N) [0..<1024] u) \<and>
      card (user_slots s 1024) \<le> card (free_frames (fold (clone_entry ?N) [0..<1024] u))"
  proof (rule fold_upt_inv [where P = "\<lambda>i t. clone_inv s ?N i t \<and> card (user_slots s i) \<le> card (free_frames t)"])
    show "clone_inv s ?N 0 u \<and> card (user_slots s 0) \<le> card (free_frames u)" using inv0 cnt0 ..
    fix i t assume "i < 1024" "clone_inv s ?N i t \<and> card (user_slots s i) \<le> card (free_frames t)"
    then show "clone_inv s ?N (Suc i) (clone_entry ?N i t) \<and>
        card (user_slots s (Suc i)) \<le> card (free_frames (clone_entry ?N i t))"
      using clone_step [OF wf] d(3) by simp
  qed simp
  moreover have "vmm_clone_directory s = (d, fold (clone_entry ?N) [0..<1024] u)"
    by (simp only: vmm_clone_directory_def d(1) u_def Let_def prod.case add_diff_cancel_right')
  ultimately show thesis using that d by blast
qed

lemma clone_inv_walk:
  assumes wf: "vm_wf s" and inv: "clone_inv s N i t"
  shows "walk t va = walk s va"
proof -
  have de: "dir_entry t j = dir_entry s j" if "j < 1024" for j
    using clone_inv_dir [OF wf inv that] by (simp add: dir_entry_def)
  have tb: "table_of t j = table_of s j" if "j < 1024" for j
    using de [OF that] by (simp add: table_of_def)
  have "getw t (cell (table_of s (pd_index va)) (pt_index va)) =
      getw s (cell (table_of s (pd_index va)) (pt_index va))" if "bit (dir_entry s (pd_index va)) 0"
    using inv wf that by (simp add: clone_inv_def vm_wf_def table_of_def)
  then show ?thesis by (simp add: walk_def pte_def de tb)
qed

section \<open>Properties\<close>

text \<open>
  A small machine: frames 33 and 34 free, the page directory in frame 1, nothing mapped. Then
  the same machine after one user page has been mapped at 0x400000.
\<close>

definition demo_vm :: vm where
  "demo_vm = \<lparr>phys_st = demo_phys, kmem = (\<lambda>_. 0), cur_page_dir = 0xC0001000,
     kernel_page_dir = 0xC0001000, kernel_page_table = 0xC0002000, cr3 = 0x1000, paging_on = True\<rparr>"

lemma demo_vm_getw [simp]: "getw demo_vm a = 0"
  by (simp add: demo_vm_def getw_def ld32_def)

lemma demo_vm_entries [simp]: "dir_entry demo_vm i = 0" "no_alias demo_vm i"
  by (simp_all add: dir_entry_def no_alias_def)

lemma demo_vm_wf: "vm_wf demo_vm"
proof -
  have "page_aligned 0xC0001000" by (simp add: page_aligned_def dvd_def)
  moreover have "held demo_vm 0xC0001000"
    by (simp add: held_def demo_vm_def demo_test frame_of_def KERNEL_VIRTUAL_BASE_def BLOCK_SIZE_def)
  ultimately show ?thesis using demo_ok by (simp add: vm_wf_def) (simp add: demo_vm_def)
qed

lemma demo_vm_mem: "\<exists>b. test_block (phys_st demo_vm) b"
  by (auto simp: demo_vm_def demo_test)

text \<open>
  C4. \<^verbatim>\<open>map_address_user\<close>: in a well-formed address space whose table for the address
  is not shared with another slot, and with a frame left if a table is needed, the walk of every
  address of the page afterwards gives the new frame, present, writable and user; the walk of
  every other address is unchanged; and the frame that was mapped there before loses exactly one
  reference (none when it is the same frame, or when nothing was mapped).
\<close>

theorem map_address_user_correct:
  assumes "vm_wf s" and "no_alias s (pd_index va)"
    and "bit (dir_entry s (pd_index va)) 0 \<or> (\<exists>b. test_block (phys_st s) b)"
  shows "is_page_mapped (map_address_user va pa s) va \<and>
    walk (map_address_user va pa s) va' =
      (if same_page va' va then Some ((pa AND PAGE_ADDR) OR PAGE_PRESENT OR PAGE_RW OR PAGE_USER)
       else walk s va') \<and>
    phys_st (map_address_user va pa s) =
      release_old s va pa (if bit (dir_entry s (pd_index va)) 0 then phys_st s
        else snd (alloc_blocks 1 (phys_st s)))"
proof -
  let ?e = "(pa AND PAGE_ADDR) OR PAGE_PRESENT OR PAGE_RW OR PAGE_USER"
  have e: "bit ?e 0" "bit ?e 2" by (simp_all add: bit_or_iff)
  have m: "map_address_user va pa s =
      (case get_page va PAGE_USER s of (page, t) \<Rightarrow> setw page ?e (drop_old page pa t))"
    by (simp add: map_address_user_def Let_def)
  note eff = map_entry_effect [OF assms flags_and_addr(1) e(1), where pa = pa, folded m]
  have "is_page_mapped (map_address_user va pa s) va"
    using eff [of va] e(2) assms(1) by (auto simp: is_page_mapped_walk same_page_def vm_wf_def)
  then show ?thesis using eff [of va'] by blast
qed

theorem map_address_user_correct_witness:
  "is_page_mapped (map_address_user 0x400000 0x22000 demo_vm) 0x400000"
  using map_address_user_correct [OF demo_vm_wf demo_vm_entries(2), of "0x400000"] demo_vm_mem by blast

text \<open>
  \<^verbatim>\<open>unmap_address\<close>: afterwards no address of the page has a translation, every other
  address translates as before, and one reference of the frame that was mapped is given back.
\<close>

theorem unmap_address_correct:
  assumes "vm_wf s" and "no_alias s (pd_index va)"
  shows "\<not> is_page_mapped (unmap_address va s) va \<and>
    walk (unmap_address va s) va' = (if same_page va' va then None else walk s va') \<and>
    phys_st (unmap_address va s) = release_old s va 0 (phys_st s)"
  using walk_unmap(1) [OF assms, of va'] walk_unmap(1) [OF assms, of va] walk_unmap(2) [OF assms]
  by (simp add: is_page_mapped_walk same_page_def)

theorem unmap_address_correct_witness:
  "walk (unmap_address 0x400000 demo_vm) 0x400000 = None"
  using unmap_address_correct [of demo_vm "0x400000" "0x400000"] demo_vm_wf
  by (simp add: same_page_def)



text \<open>
  The sum of start and size wraps: when the wrapped end is not above the first page, no page
  is looked at and the check accepts the range, whatever is mapped.
\<close>

theorem user_range_wrap_unchecked:
  assumes "start + sz \<le> start AND PAGE_ADDR"
  shows "user_range_ok s start sz = Some True"
proof -
  have "start AND PAGE_ADDR \<le> start" by (simp add: word_le_nat_alt unat_page_addr)
  then have "\<not> start < start + sz" using assms by simp
  moreover have "check_pages s start (start + sz) (start AND PAGE_ADDR) = Some True"
    using assms by (subst check_pages.simps) (simp only: linorder_not_less [symmetric] if_False)
  ultimately show ?thesis unfolding user_range_ok_def and_not_4095 Let_def by simp
qed

theorem user_range_wrap_unchecked_witness:
  "user_range_ok demo_vm 0xC0000000 0x40000000 = Some True \<and> \<not> is_page_mapped demo_vm 0xC0000000"
  using user_range_wrap_unchecked [of "0xC0000000" "0x40000000" demo_vm]
  by (simp add: is_page_mapped_walk walk_def pte_def PAGE_ADDR_def)

text \<open>
  C6. \<^verbatim>\<open>vmm_clone_directory\<close>, with enough free frames for the directory and one table
  per present user slot: the new directory shares the kernel half entry by entry; each present
  user slot gets the same flags on an empty table of its own, taken from the free frames and
  different from every other new table and from the directory; absent slots stay absent; and the
  current address space translates exactly as before.
\<close>

theorem vmm_clone_directory_correct:
  assumes "vm_wf s" and "card (user_slots s 0) < card (free_frames s)"
  shows "\<exists>nd s'. vmm_clone_directory s = (nd, s') \<and> nd \<noteq> 0 \<and> test_block (phys_st s) (frame_of nd) \<and>
    (\<forall>j<1024. slot_cloned s s' (nd + KERNEL_VIRTUAL_BASE) j) \<and>
    (\<forall>j\<in>user_slots s 0. \<forall>j'\<in>user_slots s 0. j \<noteq> j' \<longrightarrow>
       getw s' (cell (nd + KERNEL_VIRTUAL_BASE) j) AND PAGE_ADDR \<noteq>
       getw s' (cell (nd + KERNEL_VIRTUAL_BASE) j') AND PAGE_ADDR) \<and>
    (\<forall>va. walk s' va = walk s va) \<and> phys_ok (phys_st s')"
proof -
  obtain nd s' where c: "vmm_clone_directory s = (nd, s')" "nd \<noteq> 0" "page_aligned nd"
    "test_block (phys_st s) (frame_of nd)" "clone_inv s (nd + KERNEL_VIRTUAL_BASE) 1024 s'"
    by (rule vmm_clone_directory_inv [OF assms])
  have "j < 1024" if "j \<in> user_slots s 0" for j
    using that by (simp add: user_slots_def KERNEL_PAGE_NUMBER_eq)
  moreover have "phys_ok (phys_st s')" "\<forall>j<1024. slot_cloned s s' (nd + KERNEL_VIRTUAL_BASE) j"
    "\<forall>j j'. j < 1024 \<and> j' < 1024 \<and> j \<noteq> j' \<and> j \<in> user_slots s 0 \<and> j' \<in> user_slots s 0 \<longrightarrow>
       getw s' (cell (nd + KERNEL_VIRTUAL_BASE) j) AND PAGE_ADDR \<noteq>
       getw s' (cell (nd + KERNEL_VIRTUAL_BASE) j') AND PAGE_ADDR"
    using c(5) unfolding clone_inv_def by auto
  ultimately show ?thesis
    using c(1,2,4) clone_inv_walk [OF assms(1) c(5)] by (intro exI [of _ nd] exI [of _ s']) simp
qed

theorem vmm_clone_directory_correct_witness:
  "\<exists>nd s'. vmm_clone_directory demo_vm = (nd, s') \<and> nd \<noteq> 0 \<and> (\<forall>va. walk s' va = walk demo_vm va)"
proof -
  have "free_frames demo_vm = {33, 34}" by (auto simp: free_frames_def demo_vm_def demo_test)
  then have "card (user_slots demo_vm 0) < card (free_frames demo_vm)" by (simp add: user_slots_def)
  then show ?thesis using vmm_clone_directory_correct [OF demo_vm_wf] by blast
qed

end
