(* ===== verification/KMalloc.thy ===== *)
theory KMalloc
  imports VirtMem
begin

text \<open>
  The kernel heap, \<^verbatim>\<open>kernel/src/mem/malloc.c\<close>: a singly linked list of block headers
  that tile one growing region above the first 4 MiB of the kernel half.

  Headers live in a typed store from addresses to header records; pointers are 32-bit words and
  all size arithmetic wraps as in C. \<^verbatim>\<open>irq_save\<close>/\<^verbatim>\<open>irq_restore\<close> only bracket
  the operations: each operation is one atomic step here. The list walks may run forever on a
  cyclic list, so they are \<open>partial_function (option)\<close>.
\<close>

section \<open>State and operations\<close>

record malloc_header =
  bsize :: u32
  bfree :: bool
  bnext :: u32

record heap =
  hvm :: vm
  hdrs :: "u32 \<Rightarrow> malloc_header"
  malloc_head :: u32
  malloc_reserved_blocks :: u32

definition HDR :: u32 where "HDR = 12"
definition MALLOC_INITIAL_SIZE :: u32 where "MALLOC_INITIAL_SIZE = 1024 * 1024"
definition malloc_virt_address :: u32 where
  "malloc_virt_address = 4 * 1024 * 1024 + KERNEL_VIRTUAL_BASE"

definition set_hdr :: "u32 \<Rightarrow> malloc_header \<Rightarrow> heap \<Rightarrow> heap" where
  "set_hdr p b s = s\<lparr>hdrs := (hdrs s)(p := b)\<rparr>"

text \<open>One iteration of the loops that back the region with frames; a failed allocation is mapped too.\<close>

definition map_heap_block :: "nat \<Rightarrow> heap \<Rightarrow> heap" where
  "map_heap_block i s =
     (let (phys_address, v) = palloc (hvm s)
      in s\<lparr>hvm := map_address (malloc_virt_address + of_nat i * BLOCK_SIZE) phys_address v\<rparr>)"

definition init_malloc :: "heap \<Rightarrow> heap" where
  "init_malloc s =
     (let reserved = (MALLOC_INITIAL_SIZE + HDR + BLOCK_SIZE - 1) div BLOCK_SIZE;
          s = s\<lparr>malloc_reserved_blocks := reserved\<rparr>;
          actual_reserved = reserved * BLOCK_SIZE - HDR;
          s = fold map_heap_block [0..<unat reserved] s;
          s = s\<lparr>malloc_head := malloc_virt_address\<rparr>
      in set_hdr malloc_virt_address \<lparr>bsize = actual_reserved, bfree = True, bnext = 0\<rparr> s)"

definition malloc_split :: "u32 \<Rightarrow> u32 \<Rightarrow> heap \<Rightarrow> heap" where
  "malloc_split node req_size s =
     (let b = hdrs s node
      in if bsize b \<le> req_size + HDR then s
         else
           let new_node = node + req_size + HDR;
               s = set_hdr new_node
                     \<lparr>bsize = bsize b - req_size - HDR, bfree = bfree b, bnext = bnext b\<rparr> s
           in set_hdr node (b\<lparr>bsize := req_size, bnext := new_node\<rparr>) s)"

partial_function (option) malloc_find :: "heap \<Rightarrow> u32 \<Rightarrow> u32 \<Rightarrow> u32 option" where
  "malloc_find s sz cur =
     (let b = hdrs s cur
      in if (bsize b < sz \<or> \<not> bfree b) \<and> bnext b \<noteq> 0 then malloc_find s sz (bnext b) else Some cur)"

text \<open>\<^verbatim>\<open>malloc_split(cur, size); cur->free = false; return cur + 1;\<close>\<close>

definition malloc_take :: "u32 \<Rightarrow> u32 \<Rightarrow> heap \<Rightarrow> u32 \<times> heap" where
  "malloc_take cur sz s =
     (let s = malloc_split cur sz s;
          s = set_hdr cur ((hdrs s cur)\<lparr>bfree := False\<rparr>) s
      in (cur + HDR, s))"

definition grow :: "u32 \<Rightarrow> heap \<Rightarrow> heap" where
  "grow needed_blocks s =
     fold map_heap_block
       [unat (malloc_reserved_blocks s)..<unat (malloc_reserved_blocks s + needed_blocks)] s"

definition malloc :: "u32 \<Rightarrow> heap \<Rightarrow> (u32 \<times> heap) option" where
  "malloc sz s =
     (case malloc_find s sz (malloc_head s) of
        None \<Rightarrow> None
      | Some cur \<Rightarrow>
          let b = hdrs s cur
          in if sz \<le> bsize b \<and> bfree b then Some (malloc_take cur sz s)
             else if \<not> bfree b then
               let needed_blocks = (sz + HDR + BLOCK_SIZE - 1) div BLOCK_SIZE;
                   s = grow needed_blocks s;
                   new_node = malloc_virt_address + malloc_reserved_blocks s * BLOCK_SIZE;
                   s = set_hdr new_node
                         \<lparr>bsize = needed_blocks * BLOCK_SIZE - HDR, bfree = True, bnext = 0\<rparr> s;
                   s = set_hdr cur ((hdrs s cur)\<lparr>bnext := new_node\<rparr>) s;
                   s = s\<lparr>malloc_reserved_blocks := malloc_reserved_blocks s + needed_blocks\<rparr>
               in Some (malloc_take new_node sz s)
             else
               let needed_blocks = (sz - bsize b + BLOCK_SIZE - 1) div BLOCK_SIZE;
                   s = grow needed_blocks s;
                   s = s\<lparr>malloc_reserved_blocks := malloc_reserved_blocks s + needed_blocks\<rparr>;
                   s = set_hdr cur ((hdrs s cur)\<lparr>bsize := bsize (hdrs s cur) + needed_blocks * BLOCK_SIZE\<rparr>) s
               in Some (malloc_take cur sz s))"

definition merge_prev :: "u32 \<Rightarrow> u32 \<Rightarrow> heap \<Rightarrow> u32 \<times> heap" where
  "merge_prev prev cur s =
     (if prev \<noteq> 0 \<and> bfree (hdrs s prev) then
        let s = set_hdr prev ((hdrs s prev)\<lparr>bsize := bsize (hdrs s prev) + (bsize (hdrs s cur) + HDR)\<rparr>) s;
            s = set_hdr prev ((hdrs s prev)\<lparr>bnext := bnext (hdrs s cur)\<rparr>) s
        in (prev, s)
      else (cur, s))"

definition merge_next :: "u32 \<Rightarrow> heap \<Rightarrow> heap" where
  "merge_next cur s =
     (let nx = bnext (hdrs s cur)
      in if nx \<noteq> 0 \<and> bfree (hdrs s nx) then
           let s = set_hdr cur ((hdrs s cur)\<lparr>bsize := bsize (hdrs s cur) + (bsize (hdrs s nx) + HDR)\<rparr>) s
           in set_hdr cur ((hdrs s cur)\<lparr>bnext := bnext (hdrs s nx)\<rparr>) s
         else s)"

definition free_at :: "u32 \<Rightarrow> u32 \<Rightarrow> heap \<Rightarrow> heap" where
  "free_at prev cur s =
     (let s = set_hdr cur ((hdrs s cur)\<lparr>bfree := True\<rparr>) s;
          (cur, s) = merge_prev prev cur s
      in merge_next cur s)"

partial_function (option) free_walk :: "u32 \<Rightarrow> u32 \<Rightarrow> u32 \<Rightarrow> heap \<Rightarrow> heap option" where
  "free_walk address prev cur s =
     (if cur = 0 then Some s
      else if cur + HDR = address then Some (free_at prev cur s)
      else free_walk address cur (bnext (hdrs s cur)) s)"

definition free :: "u32 \<Rightarrow> heap \<Rightarrow> heap option" where
  "free address s = free_walk address 0 (malloc_head s) s"

section \<open>Block lists\<close>

text \<open>
  \<open>seg h p bs e z\<close>: the headers from \<open>p\<close> on describe the blocks \<open>bs\<close> (size and
  free flag), which tile the addresses from \<open>p\<close> to \<open>e\<close> without gaps; the next pointer of
  the last one is NULL when \<open>z\<close>.
\<close>

fun seg :: "(u32 \<Rightarrow> malloc_header) \<Rightarrow> u32 \<Rightarrow> (u32 \<times> bool) list \<Rightarrow> u32 \<Rightarrow> bool \<Rightarrow> bool" where
  "seg h p [] e z \<longleftrightarrow> p = e"
| "seg h p ((n, f) # bs) e z \<longleftrightarrow>
     h p = \<lparr>bsize = n, bfree = f, bnext = (if bs = [] \<and> z then 0 else p + HDR + n)\<rparr> \<and>
     unat p + 12 + unat n < 2 ^ 32 \<and> p \<noteq> 0 \<and> seg h (p + HDR + n) bs e z"

text \<open>The allocated payloads: address and size of the blocks that are not free.\<close>

fun allocated :: "u32 \<Rightarrow> (u32 \<times> bool) list \<Rightarrow> (u32 \<times> u32) set" where
  "allocated p [] = {}"
| "allocated p ((n, f) # bs) = (if f then {} else {(p + HDR, n)}) \<union> allocated (p + HDR + n) bs"

text \<open>No two neighbouring free blocks.\<close>

fun coalesced :: "(u32 \<times> bool) list \<Rightarrow> bool" where
  "coalesced (x # y # bs) \<longleftrightarrow> \<not> (snd x \<and> snd y) \<and> coalesced (y # bs)"
| "coalesced bs \<longleftrightarrow> True"

lemma coalesced_Cons: "coalesced (x # ys) \<longleftrightarrow> coalesced ys \<and> (ys \<noteq> [] \<longrightarrow> \<not> (snd x \<and> snd (hd ys)))"
  by (cases ys) auto

lemma coalesced_append:
  "coalesced (xs @ ys) \<longleftrightarrow> coalesced xs \<and> coalesced ys \<and>
     (xs \<noteq> [] \<and> ys \<noteq> [] \<longrightarrow> \<not> (snd (last xs) \<and> snd (hd ys)))"
  by (induction xs) (auto simp: coalesced_Cons hd_append)

definition heap_end :: "heap \<Rightarrow> u32" where
  "heap_end s = malloc_virt_address + malloc_reserved_blocks s * BLOCK_SIZE"

definition heap_ok :: "heap \<Rightarrow> (u32 \<times> bool) list \<Rightarrow> bool" where
  "heap_ok s bs \<longleftrightarrow> bs \<noteq> [] \<and> coalesced bs \<and> malloc_head s = malloc_virt_address \<and>
     unat (malloc_reserved_blocks s) < 0x3FC00 \<and> seg (hdrs s) (malloc_head s) bs (heap_end s) True"

lemma unat_hdr: "unat p + 12 + unat n < 2 ^ 32 \<Longrightarrow> unat (p + HDR + n) = unat p + 12 + unat n"
  using unat_add_small [of p "12 + unat n"] by (simp add: HDR_def add.assoc)

lemma seg_le: "seg h p bs e z \<Longrightarrow> unat p + 12 * length bs \<le> unat e"
proof (induction bs arbitrary: p)
  case (Cons b bs)
  obtain n f where b: "b = (n, f)" by fastforce
  then have "unat (p + HDR + n) = unat p + 12 + unat n" using Cons.prems by (simp add: unat_hdr)
  moreover have "unat (p + HDR + n) + 12 * length bs \<le> unat e" using Cons b by simp
  ultimately show ?case by simp
qed simp

lemma seg_append:
  "seg h p (xs @ ys) e z \<longleftrightarrow> (\<exists>q. seg h p xs q (z \<and> ys = []) \<and> seg h q ys e z)"
  by (induction xs arbitrary: p) auto

lemma seg_frame:
  assumes "seg h p bs e z" "\<forall>a. unat p \<le> unat a \<and> unat a < unat e \<longrightarrow> h' a = h a"
  shows "seg h' p bs e z"
  using assms
proof (induction bs arbitrary: p)
  case (Cons b bs)
  obtain n f where b: "b = (n, f)" by fastforce
  have q: "unat (p + HDR + n) = unat p + 12 + unat n" using Cons.prems(1) b by (simp add: unat_hdr)
  have "seg h (p + HDR + n) bs e z" using Cons.prems(1) b by simp
  moreover from seg_le [OF this] q have "unat p < unat e" by simp
  ultimately show ?case using Cons.prems Cons.IH [of "p + HDR + n"] q b by simp
qed simp

lemma allocated_append:
  "seg h p xs q z \<Longrightarrow> allocated p (xs @ ys) = allocated p xs \<union> allocated q ys"
  by (induction xs arbitrary: p) (auto split: if_splits)

lemma allocated_bounds:
  "seg h p bs e z \<Longrightarrow> (a, n) \<in> allocated p bs \<Longrightarrow> unat p + 12 \<le> unat a \<and> unat a + unat n \<le> unat e"
proof (induction bs arbitrary: p)
  case (Cons b bs)
  obtain m f where b: "b = (m, f)" by fastforce
  have q: "unat (p + HDR + m) = unat p + 12 + unat m" "unat (p + HDR) = unat p + 12"
    using Cons.prems(1) b unat_hdr [of p m] unat_hdr [of p 0] by simp_all
  have sg: "seg h (p + HDR + m) bs e z" using Cons.prems(1) b by simp
  show ?case using Cons.prems(2) Cons.IH [OF sg] seg_le [OF sg] q b by (auto split: if_splits)
qed simp

lemma set_hdr_fields [simp]:
  "hdrs (set_hdr p b s) = (hdrs s)(p := b)" "malloc_head (set_hdr p b s) = malloc_head s"
  "malloc_reserved_blocks (set_hdr p b s) = malloc_reserved_blocks s" "hvm (set_hdr p b s) = hvm s"
  by (simp_all add: set_hdr_def)

lemma malloc_find_ok:
  assumes "seg (hdrs s) p bs e True" "bs \<noteq> []"
  shows "\<exists>pre n f post cur. malloc_find s sz p = Some cur \<and> bs = pre @ (n, f) # post \<and>
    seg (hdrs s) p pre cur False \<and> seg (hdrs s) cur ((n, f) # post) e True \<and>
    (\<forall>(m, g)\<in>set pre. m < sz \<or> \<not> g) \<and> (sz \<le> n \<and> f \<or> post = [])"
  using assms
proof (induction bs arbitrary: p)
  case (Cons b bs)
  obtain n f where b: "b = (n, f)" by fastforce
  let ?q = "p + HDR + n"
  have h: "hdrs s p = \<lparr>bsize = n, bfree = f, bnext = (if bs = [] then 0 else ?q)\<rparr>"
    using Cons.prems(1) b by simp
  show ?case
  proof (cases "sz \<le> n \<and> f \<or> bs = []")
    case True
    then have "malloc_find s sz p = Some p" by (subst malloc_find.simps) (auto simp: h Let_def)
    then show ?thesis using Cons.prems True b
      by (intro exI [of _ "[]"] exI [of _ n] exI [of _ f] exI [of _ bs] exI [of _ p]) simp
  next
    case False
    have "?q \<noteq> 0" using Cons.prems(1) b unat_hdr [of p n] False by (cases bs) auto
    then have r: "malloc_find s sz p = malloc_find s sz ?q"
      using False by (subst malloc_find.simps) (auto simp: h Let_def)
    have "seg (hdrs s) ?q bs e True" "bs \<noteq> []" using Cons.prems(1) b False by auto
    from Cons.IH [OF this] obtain pre n' f' post cur where c:
      "malloc_find s sz ?q = Some cur" "bs = pre @ (n', f') # post"
      "seg (hdrs s) ?q pre cur False" "seg (hdrs s) cur ((n', f') # post) e True"
      "\<forall>(m, g)\<in>set pre. m < sz \<or> \<not> g" "sz \<le> n' \<and> f' \<or> post = []" by blast
    have "seg (hdrs s) p (b # pre) cur False" using c(2,3) Cons.prems(1) b by auto
    moreover have "\<forall>(m, g)\<in>set (b # pre). m < sz \<or> \<not> g" using c(5) False b by auto
    moreover have "b # bs = (b # pre) @ (n', f') # post" using c(2) by simp
    ultimately show ?thesis using c(1,4,6) r by metis
  qed
qed simp

section \<open>Taking a block\<close>

definition payload_apart :: "u32 \<Rightarrow> u32 \<Rightarrow> (u32 \<times> u32) set \<Rightarrow> bool" where
  "payload_apart a n A \<longleftrightarrow>
     (\<forall>(b, m)\<in>A. unat b + unat m \<le> unat a \<or> unat a + unat n \<le> unat b)"

text \<open>A free block in the middle of the list, large enough, is split and handed out.\<close>

lemma malloc_take_seg:
  assumes pre: "seg (hdrs s) p pre cur False" and cur: "seg (hdrs s) cur ((n, True) # post) e True"
    and sz: "sz \<le> n"
  obtains s' k rest where "malloc_take cur sz s = (cur + HDR, s')" "sz \<le> k"
    "seg (hdrs s') p (pre @ (k, False) # rest) e True" "malloc_head s' = malloc_head s"
    "malloc_reserved_blocks s' = malloc_reserved_blocks s" "hvm s' = hvm s"
    "allocated (cur + HDR + k) rest = allocated (cur + HDR + n) post"
    "unat (cur + HDR + k) = unat cur + 12 + unat k" "unat k \<le> unat n"
    "rest = post \<or> (\<exists>r. rest = (r, True) # post)"
proof -
  let ?nx = "if post = [] then 0 else cur + HDR + n"
  have h: "hdrs s cur = \<lparr>bsize = n, bfree = True, bnext = ?nx\<rparr>"
    and bd: "unat cur + 12 + unat n < 2 ^ 32" "cur \<noteq> 0" and post: "seg (hdrs s) (cur + HDR + n) post e True"
    using cur by auto
  have cn: "unat (cur + HDR + n) = unat cur + 12 + unat n" using bd by (simp add: unat_hdr)
  have szn: "unat sz \<le> unat n" using sz by (simp add: word_le_nat_alt)
  have sH: "unat (sz + HDR) = unat sz + 12"
    using unat_add_small [of sz 12] szn bd by (simp add: HDR_def)
  have keep: "seg h' p pre cur False" if "\<forall>a. unat a < unat cur \<longrightarrow> h' a = hdrs s a" for h'
    using seg_frame [OF pre] that by blast
  show thesis
  proof (cases "n \<le> sz + HDR")
    case True
    define s' where "s' = set_hdr cur ((hdrs s cur)\<lparr>bfree := False\<rparr>) s"
    have t: "malloc_take cur sz s = (cur + HDR, s')"
      using True by (simp add: malloc_take_def malloc_split_def h Let_def s'_def)
    have "seg (hdrs s') (cur + HDR + n) post e True"
      by (rule seg_frame [OF post]) (use cn in \<open>auto simp: s'_def\<close>)
    moreover have "seg (hdrs s') p pre cur False" by (rule keep) (auto simp: s'_def)
    ultimately have "seg (hdrs s') p (pre @ (n, False) # post) e True"
      using bd by (auto simp: seg_append s'_def h)
    then show thesis using that [OF t sz] cn by (simp add: s'_def)
  next
    case False
    let ?m = "cur + HDR + sz" and ?r = "n - sz - HDR"
    have lt: "unat sz + 12 < unat n" using False sH by (simp add: word_le_nat_alt)
    have mn: "unat ?m = unat cur + 12 + unat sz" using lt bd by (intro unat_hdr) simp
    have "unat (n - (sz + HDR)) = unat n - unat (sz + HDR)"
      using lt sH by (intro unat_sub) (simp add: word_le_nat_alt)
    then have r: "unat ?r = unat n - unat sz - 12" using sH by (simp add: diff_diff_eq)
    have mr: "?m + HDR + ?r = cur + HDR + n" by simp
    define s' where "s' = snd (malloc_take cur sz s)"
    have hs: "hdrs s' = (hdrs s)(?m := \<lparr>bsize = ?r, bfree = True, bnext = ?nx\<rparr>,
        cur := \<lparr>bsize = sz, bfree = False, bnext = ?m\<rparr>)"
      using False by (simp add: s'_def malloc_take_def malloc_split_def h Let_def add.commute add.left_commute)
    have t: "malloc_take cur sz s = (cur + HDR, s')" "malloc_head s' = malloc_head s"
      "malloc_reserved_blocks s' = malloc_reserved_blocks s" "hvm s' = hvm s"
      by (simp_all add: s'_def malloc_take_def malloc_split_def Let_def)
    have post': "seg (hdrs s') (cur + HDR + n) post e True"
    proof (rule seg_frame [OF post], intro allI impI)
      fix a :: u32 assume "unat (cur + HDR + n) \<le> unat a \<and> unat a < unat e"
      then have "a \<noteq> ?m" "a \<noteq> cur" using cn mn lt by auto
      then show "hdrs s' a = hdrs s a" by (simp add: hs)
    qed
    have pre': "seg (hdrs s') p pre cur False" by (rule keep) (use mn in \<open>auto simp: hs\<close>)
    have "unat ?m \<noteq> 0" "unat ?m \<noteq> unat cur" using mn by linarith+
    then have m0: "?m \<noteq> 0" "?m \<noteq> cur" by (metis unat_0)+
    have "seg (hdrs s') ?m ((?r, True) # post) e True"
      using post' m0 mn r lt bd unfolding seg.simps mr by (auto simp: hs)
    then have "seg (hdrs s') cur ((sz, False) # (?r, True) # post) e True"
      using bd lt by (subst seg.simps) (simp add: hs)
    then have "seg (hdrs s') p (pre @ (sz, False) # (?r, True) # post) e True"
      using pre' by (auto simp: seg_append simp del: seg.simps)
    then show thesis
      using that [of s' sz "(?r, True) # post"] t mn szn by (simp del: seg.simps add: ac_simps)
  qed
qed

lemma malloc_take_ok:
  assumes ok: "heap_ok s (pre @ (n, True) # post)" and sz: "sz \<le> n"
    and pre: "seg (hdrs s) (malloc_head s) pre cur False"
    and cur: "seg (hdrs s) cur ((n, True) # post) (heap_end s) True"
  shows "\<exists>k s' bs'. malloc_take cur sz s = (cur + HDR, s') \<and> heap_ok s' bs' \<and> sz \<le> k \<and>
    allocated malloc_virt_address bs' =
      insert (cur + HDR, k) (allocated malloc_virt_address (pre @ (n, True) # post)) \<and>
    payload_apart (cur + HDR) k (allocated malloc_virt_address (pre @ (n, True) # post)) \<and>
    heap_end s' = heap_end s"
proof -
  obtain s' k rest where t: "malloc_take cur sz s = (cur + HDR, s')" "sz \<le> k"
    "seg (hdrs s') (malloc_head s) (pre @ (k, False) # rest) (heap_end s) True" "malloc_head s' = malloc_head s"
    "malloc_reserved_blocks s' = malloc_reserved_blocks s"
    "allocated (cur + HDR + k) rest = allocated (cur + HDR + n) post"
    "unat (cur + HDR + k) = unat cur + 12 + unat k" "unat k \<le> unat n"
    "rest = post \<or> (\<exists>r. rest = (r, True) # post)"
    using malloc_take_seg [OF pre cur sz] by metis
  have v: "malloc_head s = malloc_virt_address" using ok by (simp add: heap_ok_def)
  have e: "heap_end s' = heap_end s" using t(5) by (simp add: heap_end_def)
  have "coalesced (pre @ (k, False) # rest)"
    using ok t(9) by (auto simp: heap_ok_def coalesced_append coalesced_Cons)
  then have h': "heap_ok s' (pre @ (k, False) # rest)" using ok t e by (simp add: heap_ok_def)
  note al = allocated_append [OF pre, unfolded v]
  have "seg (hdrs s) (cur + HDR + n) post (heap_end s) True" "unat (cur + HDR + n) = unat cur + 12 + unat n"
    using cur unat_hdr [of cur n] by auto
  note pb = allocated_bounds [OF this(1)] this(2)
  have c12: "unat (cur + HDR) = unat cur + 12" using unat_hdr [of cur 0] cur by simp
  have "payload_apart (cur + HDR) k (allocated malloc_virt_address (pre @ (n, True) # post))"
    unfolding payload_apart_def
  proof clarify
    fix b m assume b: "(b, m) \<in> allocated malloc_virt_address (pre @ (n, True) # post)"
      and na: "\<not> unat (cur + HDR) + unat k \<le> unat b"
    then show "unat b + unat m \<le> unat (cur + HDR)"
      using allocated_bounds [OF pre, unfolded v, of b m] pb(1) [of b m] pb(2) t(8) c12 by (auto simp: al)
  qed
  then show ?thesis using t(1,2,6) h' e by (intro exI [of _ k] exI [of _ s'] exI [of _ "pre @ (k, False) # rest"]) (auto simp: al)
qed

section \<open>Growing the region\<close>

lemma grow_keeps [simp]:
  "hdrs (grow k s) = hdrs s" "malloc_head (grow k s) = malloc_head s"
  "malloc_reserved_blocks (grow k s) = malloc_reserved_blocks s"
  unfolding grow_def by (rule fold_keeps, simp add: map_heap_block_def split: prod.splits)+

lemma heap_end_unat:
  "unat (malloc_reserved_blocks s) < 0x3FC00 \<Longrightarrow>
     unat (heap_end s) = 0xC0400000 + 4096 * unat (malloc_reserved_blocks s)"
  using unat_add_small [of malloc_virt_address "4096 * unat (malloc_reserved_blocks s)"]
  by (simp add: heap_end_def malloc_virt_address_def KERNEL_VIRTUAL_BASE_def BLOCK_SIZE_def mult.commute)

text \<open>Rounding a byte count up to blocks, without overflow.\<close>

lemma blocks_needed:
  fixes w :: u32
  assumes "unat w + 4095 < 2 ^ 32"
  shows "unat ((w + BLOCK_SIZE - 1) div BLOCK_SIZE) = (unat w + 4095) div 4096"
    and "unat w \<le> 4096 * ((unat w + 4095) div 4096)"
proof -
  have "w + BLOCK_SIZE - 1 = w + of_nat 4095" by (simp add: BLOCK_SIZE_def)
  then have "unat (w + BLOCK_SIZE - 1) = unat w + 4095"
    using unat_add_small [of w 4095] assms by (simp only: len_num1 len_bit0) simp
  then show "unat ((w + BLOCK_SIZE - 1) div BLOCK_SIZE) = (unat w + 4095) div 4096"
    by (simp add: unat_div_distrib BLOCK_SIZE_def)
  show "unat w \<le> 4096 * ((unat w + 4095) div 4096)"
    using div_mult_mod_eq [of "unat w + 4095" 4096] mod_less_divisor [of 4096 "unat w + 4095"] by linarith
qed

lemma unat_blocks: "unat k < 0x100000 \<Longrightarrow> unat (k * BLOCK_SIZE) = 4096 * unat k"
  by (simp add: unat_word_ariths BLOCK_SIZE_def mult.commute)

text \<open>
  The block \<^verbatim>\<open>malloc\<close> settles on, possibly after growing the region: free, large
  enough, in a consistent list that has the same allocated payloads as before.
\<close>

definition ready :: "u32 \<Rightarrow> (u32 \<times> u32) set \<Rightarrow> heap \<Rightarrow> u32 \<Rightarrow> bool" where
  "ready sz A t cur \<longleftrightarrow> (\<exists>pre n post. heap_ok t (pre @ (n, True) # post) \<and> sz \<le> n \<and>
     seg (hdrs t) (malloc_head t) pre cur False \<and> seg (hdrs t) cur ((n, True) # post) (heap_end t) True \<and>
     allocated malloc_virt_address (pre @ (n, True) # post) = A)"

definition heap_room :: "heap \<Rightarrow> u32 \<Rightarrow> bool" where
  "heap_room s sz \<longleftrightarrow> unat (malloc_reserved_blocks s) + (unat sz + 12 + 4095) div 4096 < 0x3FC00"

lemma heap_room_grow:
  assumes "heap_room s sz" "unat k \<le> (unat sz + 12 + 4095) div 4096"
  shows "unat (malloc_reserved_blocks s + k) = unat (malloc_reserved_blocks s) + unat k"
    "unat (malloc_reserved_blocks s) + unat k < 0x3FC00" "unat (k * BLOCK_SIZE) = 4096 * unat k"
  using assms unat_add_small [of "malloc_reserved_blocks s" "unat k"] unat_blocks [of k]
  by (simp_all add: heap_room_def)

lemma heap_room_sz: "heap_room s sz \<Longrightarrow> unat sz < 0x3FC00 * 4096"
  by (simp add: heap_room_def div_less_iff_less_mult)

text \<open>The end of the region after reserving \<open>k\<close> more blocks.\<close>

lemma heap_end_grow:
  assumes "heap_room s sz" "unat k \<le> (unat sz + 12 + 4095) div 4096"
    and "malloc_reserved_blocks t = malloc_reserved_blocks s + k"
  shows "unat (heap_end t) = unat (heap_end s) + 4096 * unat k" "unat (heap_end t) < 2 ^ 32"
    "heap_end t = heap_end s + k * BLOCK_SIZE" "heap_end s \<noteq> 0"
proof -
  have e: "unat (heap_end s) = 0xC0400000 + 4096 * unat (malloc_reserved_blocks s)"
    using heap_room_grow [OF assms(1,2)] by (intro heap_end_unat) simp
  then show "unat (heap_end t) = unat (heap_end s) + 4096 * unat k"
    using heap_end_unat [of t] heap_room_grow [OF assms(1,2)] assms(3) by simp
  show "unat (heap_end t) < 2 ^ 32" using unsigned_less [of "heap_end t"] by simp
  show "heap_end t = heap_end s + k * BLOCK_SIZE" by (simp add: heap_end_def assms(3) ring_distribs)
  show "heap_end s \<noteq> 0" using e by auto
qed

lemma malloc_new:
  assumes ok: "heap_ok s (pre @ [(n, False)])" and room: "heap_room s sz"
    and pre: "seg (hdrs s) (malloc_head s) pre cur False"
    and cur: "seg (hdrs s) cur [(n, False)] (heap_end s) True"
    and fd: "malloc_find s sz (malloc_head s) = Some cur"
  shows "\<exists>t c. malloc sz s = Some (malloc_take c sz t) \<and>
    ready sz (allocated malloc_virt_address (pre @ [(n, False)])) t c"
proof -
  let ?v = malloc_virt_address and ?r = "malloc_reserved_blocks s" and ?nn = "heap_end s"
  let ?k = "(sz + HDR + BLOCK_SIZE - 1) div BLOCK_SIZE"
  have h: "hdrs s cur = \<lparr>bsize = n, bfree = False, bnext = 0\<rparr>" using cur by simp
  have szH: "unat (sz + HDR) = unat sz + 12"
    using heap_room_sz [OF room] unat_add_small [of sz 12] by (simp add: HDR_def)
  have k: "unat ?k = (unat sz + 12 + 4095) div 4096" "unat sz + 12 \<le> 4096 * unat ?k"
    using blocks_needed [of "sz + HDR"] szH heap_room_sz [OF room] by simp_all
  note rg = heap_room_grow [OF room, of ?k] heap_end_grow [OF room, of ?k]
  define N where "N = ?k * BLOCK_SIZE - HDR"
  have N: "unat N = 4096 * unat ?k - 12"
    unfolding N_def using k rg(3) by (subst unat_sub) (simp_all add: word_le_nat_alt HDR_def)
  define t where "t = (set_hdr cur ((hdrs s cur)\<lparr>bnext := ?nn\<rparr>)
      (set_hdr ?nn \<lparr>bsize = N, bfree = True, bnext = 0\<rparr> (grow ?k s)))
      \<lparr>malloc_reserved_blocks := ?r + ?k\<rparr>"
  have cn: "unat (cur + HDR + n) = unat cur + 12 + unat n" "cur + HDR + n = ?nn" "cur \<noteq> 0"
    using cur unat_hdr [of cur n] by auto
  then have ltc: "unat cur < unat ?nn" by simp
  then have ne: "cur \<noteq> ?nn" by auto
  have m: "malloc sz s = Some (malloc_take ?nn sz t)"
    using ne by (simp add: malloc_def fd h Let_def t_def N_def heap_end_def)
  have ht: "hdrs t = (hdrs s)(?nn := \<lparr>bsize = N, bfree = True, bnext = 0\<rparr>,
      cur := \<lparr>bsize = n, bfree = False, bnext = ?nn\<rparr>)" using h by (simp add: t_def)
  have fld: "malloc_head t = malloc_head s" "malloc_reserved_blocks t = ?r + ?k" by (simp_all add: t_def)
  have end': "unat (heap_end t) = unat ?nn + 4096 * unat ?k" "unat (heap_end t) < 2 ^ 32"
    "?nn + HDR + N = heap_end t" "?nn \<noteq> 0"
    using rg(4-7) fld(2) k(1) by (simp_all add: N_def)
  have preT: "seg (hdrs t) (malloc_head t) pre cur False"
    using ltc unfolding fld by (rule_tac seg_frame [OF pre]) (auto simp: ht)
  have "seg (hdrs t) cur [(n, False)] ?nn False" using cn ltc cur by (simp add: ht)
  then have lst: "seg (hdrs t) (malloc_head t) (pre @ [(n, False)]) ?nn False"
    using preT by (auto simp: seg_append simp del: seg.simps)
  have newT: "seg (hdrs t) ?nn [(N, True)] (heap_end t) True"
    using N end' k(2) ne by (auto simp: ht)
  have "seg (hdrs t) (malloc_head t) ((pre @ [(n, False)]) @ [(N, True)]) (heap_end t) True"
    unfolding seg_append [of _ _ "pre @ [(n, False)]"] using lst newT by auto
  then have "heap_ok t ((pre @ [(n, False)]) @ [(N, True)])"
    using ok rg(1,2) k(1) fld by (simp add: heap_ok_def coalesced_append)
  moreover have "allocated ?v ((pre @ [(n, False)]) @ [(N, True)]) = allocated ?v (pre @ [(n, False)])"
    using allocated_append [OF lst, of "[(N, True)]"] fld ok by (simp add: heap_ok_def)
  moreover have "sz \<le> N" using k(2) N by (simp add: word_le_nat_alt)
  ultimately show ?thesis using m lst newT unfolding ready_def by metis
qed

lemma malloc_extend:
  assumes ok: "heap_ok s (pre @ [(n, True)])" and room: "heap_room s sz" and lt: "n < sz"
    and pre: "seg (hdrs s) (malloc_head s) pre cur False"
    and cur: "seg (hdrs s) cur [(n, True)] (heap_end s) True"
    and fd: "malloc_find s sz (malloc_head s) = Some cur"
  shows "\<exists>t c. malloc sz s = Some (malloc_take c sz t) \<and>
    ready sz (allocated malloc_virt_address (pre @ [(n, True)])) t c"
proof -
  let ?v = malloc_virt_address and ?r = "malloc_reserved_blocks s"
  let ?k = "(sz - n + BLOCK_SIZE - 1) div BLOCK_SIZE"
  have h: "hdrs s cur = \<lparr>bsize = n, bfree = True, bnext = 0\<rparr>" using cur by simp
  have d: "unat (sz - n) = unat sz - unat n" "unat n < unat sz"
    using lt by (simp_all add: unat_sub word_less_nat_alt less_imp_le)
  have k: "unat ?k = (unat sz - unat n + 4095) div 4096" "unat sz \<le> unat n + 4096 * unat ?k"
    using blocks_needed [of "sz - n"] d heap_room_sz [OF room] by simp_all
  have kle: "unat ?k \<le> (unat sz + 12 + 4095) div 4096" unfolding k(1) by (intro div_le_mono) simp
  note rg = heap_room_grow [OF room kle] heap_end_grow [OF room kle]
  define N where "N = n + ?k * BLOCK_SIZE"
  define t where "t = set_hdr cur ((hdrs s cur)\<lparr>bsize := N\<rparr>)
      ((grow ?k s)\<lparr>malloc_reserved_blocks := ?r + ?k\<rparr>)"
  have m: "malloc sz s = Some (malloc_take cur sz t)"
    using lt linorder_not_le [of sz n] by (auto simp: malloc_def fd h Let_def t_def N_def)
  have ht: "hdrs t = (hdrs s)(cur := \<lparr>bsize = N, bfree = True, bnext = 0\<rparr>)" using h by (simp add: t_def)
  have fld: "malloc_head t = malloc_head s" "malloc_reserved_blocks t = ?r + ?k" by (simp_all add: t_def)
  have cn: "unat (cur + HDR + n) = unat cur + 12 + unat n" "cur + HDR + n = heap_end s" "cur \<noteq> 0"
    using cur unat_hdr [of cur n] by auto
  have end': "unat (heap_end t) = unat (heap_end s) + 4096 * unat ?k" "unat (heap_end t) < 2 ^ 32"
    using rg(4,5) fld(2) by simp_all
  have e3: "cur + HDR + N = heap_end t" using rg(6) [OF fld(2)] cn(2) by (metis N_def add.assoc)
  have N: "unat N = unat n + 4096 * unat ?k"
    unfolding N_def using rg(3) end'(1,2) cn(1,2) by (simp add: unat_word_ariths)
  have preT: "seg (hdrs t) (malloc_head t) pre cur False"
    unfolding fld by (rule seg_frame [OF pre]) (auto simp: ht)
  have newT: "seg (hdrs t) cur [(N, True)] (heap_end t) True"
    using N end' e3 cn by (auto simp: ht)
  have "seg (hdrs t) (malloc_head t) (pre @ [(N, True)]) (heap_end t) True"
    unfolding seg_append using preT newT by auto
  then have "heap_ok t (pre @ [(N, True)])"
    using ok rg(1,2) fld by (simp add: heap_ok_def coalesced_append)
  moreover have "allocated ?v (pre @ [(N, True)]) = allocated ?v (pre @ [(n, True)])"
    using allocated_append [OF pre] ok by (simp add: heap_ok_def)
  moreover have "sz \<le> N" using k(2) N by (simp add: word_le_nat_alt)
  ultimately show ?thesis using m preT newT unfolding ready_def by metis
qed

lemma malloc_ready:
  assumes ok: "heap_ok s bs" and room: "heap_room s sz"
  shows "\<exists>t c. malloc sz s = Some (malloc_take c sz t) \<and> ready sz (allocated malloc_virt_address bs) t c"
proof -
  have sg: "seg (hdrs s) (malloc_head s) bs (heap_end s) True" and ne: "bs \<noteq> []"
    using ok by (auto simp: heap_ok_def)
  obtain pre n f post cur where c: "malloc_find s sz (malloc_head s) = Some cur" "bs = pre @ (n, f) # post"
    "seg (hdrs s) (malloc_head s) pre cur False" "seg (hdrs s) cur ((n, f) # post) (heap_end s) True"
    "sz \<le> n \<and> f \<or> post = []"
    using malloc_find_ok [OF sg ne, of sz] by blast
  consider (fit) "sz \<le> n \<and> f" | (new) "\<not> f" "post = []" | (extend) "f" "n < sz" "post = []"
    using c(5) not_le by blast
  then show ?thesis
  proof cases
    case fit
    have "hdrs s cur = \<lparr>bsize = n, bfree = f, bnext = (if post = [] then 0 else cur + HDR + n)\<rparr>"
      using c(4) by simp
    with fit have "malloc sz s = Some (malloc_take cur sz s)" by (simp add: malloc_def c(1) Let_def)
    moreover have "ready sz (allocated malloc_virt_address bs) s cur"
      unfolding ready_def using ok c(2-4) fit by (intro exI [of _ pre] exI [of _ n] exI [of _ post]) simp
    ultimately show ?thesis by blast
  next
    case new
    then show ?thesis using malloc_new [of s pre n sz cur] ok room c by simp
  next
    case extend
    then show ?thesis using malloc_extend [of s pre n sz cur] ok room c by simp
  qed
qed

section \<open>Releasing a block\<close>

fun prev_addr :: "u32 \<Rightarrow> u32 \<Rightarrow> (u32 \<times> bool) list \<Rightarrow> u32" where
  "prev_addr prev p [] = prev"
| "prev_addr prev p ((n, f) # bs) = prev_addr p (p + HDR + n) bs"

lemma free_walk_found:
  assumes "seg (hdrs s) p pre cur False" "cur \<noteq> 0" "unat cur + 12 < 2 ^ 32"
  shows "free_walk (cur + HDR) prev p s = Some (free_at (prev_addr prev p pre) cur s)"
  using assms
proof (induction pre arbitrary: p prev)
  case Nil
  then show ?case by (subst free_walk.simps) simp
next
  case (Cons b pre)
  obtain n f where b: "b = (n, f)" by fastforce
  have q: "unat (p + HDR + n) = unat p + 12 + unat n" "p \<noteq> 0" "bnext (hdrs s p) = p + HDR + n"
    "seg (hdrs s) (p + HDR + n) pre cur False"
    using Cons.prems(1) b by (auto simp: unat_hdr)
  then have "p \<noteq> cur" using seg_le [OF q(4)] by auto
  then show ?case using Cons.IH [OF q(4) Cons.prems(2,3)] q b by (subst free_walk.simps) simp
qed

lemma allocated_split:
  assumes "seg h p bs e True" "(a, n) \<in> allocated p bs"
  obtains pre post cur where "bs = pre @ (n, False) # post" "seg h p pre cur False"
    "seg h cur ((n, False) # post) e True" "a = cur + HDR"
  using assms
proof (induction bs arbitrary: p thesis)
  case (Cons b bs)
  obtain m f where b: "b = (m, f)" by fastforce
  show ?case
  proof (cases "\<not> f \<and> (a, n) = (p + HDR, m)")
    case True
    then show ?thesis using Cons.prems b by (intro Cons.prems(1) [of "[]"]) auto
  next
    case False
    then have mem: "(a, n) \<in> allocated (p + HDR + m) bs" using Cons.prems(3) b by (auto split: if_splits)
    have sg: "seg h (p + HDR + m) bs e True" using Cons.prems(2) b by simp
    obtain pre post cur where c: "bs = pre @ (n, False) # post" "seg h (p + HDR + m) pre cur False"
      "seg h cur ((n, False) # post) e True" "a = cur + HDR"
      using Cons.IH [OF _ sg mem] by metis
    then have "seg h p (b # pre) cur False" using Cons.prems(2) b by auto
    then show ?thesis using c by (intro Cons.prems(1) [of "b # pre"]) auto
  qed
qed simp

text \<open>Marking a block free, and merging two free neighbours.\<close>

lemma seg_mark_free:
  assumes "seg h p pre cur False" "seg h cur ((n, f) # post) e True"
  defines "h' \<equiv> h(cur := (h cur)\<lparr>bfree := True\<rparr>)"
  shows "seg h' p pre cur False" "seg h' cur ((n, True) # post) e True"
proof -
  have cn: "unat (cur + HDR + n) = unat cur + 12 + unat n" using assms(2) by (auto simp: unat_hdr)
  show "seg h' p pre cur False" by (rule seg_frame [OF assms(1)]) (auto simp: h'_def)
  have "seg h' (cur + HDR + n) post e True"
    by (rule seg_frame [of h]) (use assms(2) cn in \<open>auto simp: h'_def\<close>)
  then show "seg h' cur ((n, True) # post) e True" using assms(2) by (auto simp: h'_def)
qed

lemma seg_merge:
  assumes "seg h p pre a False" "seg h a ((m, f) # (n, g) # post) e True"
  defines "h' \<equiv> h(a := (h a)\<lparr>bsize := m + n + HDR, bnext := bnext (h (a + HDR + m))\<rparr>)"
  shows "seg h' p pre a False" "seg h' a ((m + n + HDR, f) # post) e True"
    "a + HDR + (m + n + HDR) = a + HDR + m + HDR + n"
proof -
  let ?b = "a + HDR + m"
  have bn: "unat ?b = unat a + 12 + unat m" "unat (?b + HDR + n) = unat ?b + 12 + unat n"
    "unat ?b + 12 + unat n < 2 ^ 32"
    using assms(2) unat_hdr [of a m] unat_hdr [of ?b n] by simp_all
  have "unat (m + n + HDR) = unat m + unat n + 12"
    using unat_add_small [of "m + n" 12] unat_add_small [of m "unat n"] bn by (simp add: HDR_def)
  moreover show eq: "a + HDR + (m + n + HDR) = ?b + HDR + n" by simp
  moreover have "seg h' (?b + HDR + n) post e True"
    by (rule seg_frame [of h]) (use assms(2) bn in \<open>auto simp: h'_def\<close>)
  ultimately show "seg h' a ((m + n + HDR, f) # post) e True"
    using assms(2) bn by (auto simp: h'_def ac_simps)
  show "seg h' p pre a False" by (rule seg_frame [OF assms(1)]) (auto simp: h'_def)
qed

lemma prev_addr_snoc:
  "seg h p (pre @ [(m, g)]) cur False \<Longrightarrow>
     seg h p pre (prev_addr q p (pre @ [(m, g)])) False \<and>
     seg h (prev_addr q p (pre @ [(m, g)])) [(m, g)] cur False"
  by (induction pre arbitrary: p q) auto

lemma merge_fields [simp]:
  "malloc_head (merge_next c s) = malloc_head s" "malloc_head (snd (merge_prev q c s)) = malloc_head s"
  "malloc_reserved_blocks (merge_next c s) = malloc_reserved_blocks s"
  "malloc_reserved_blocks (snd (merge_prev q c s)) = malloc_reserved_blocks s"
  by (simp_all add: merge_next_def merge_prev_def Let_def)

lemma merge_prev_ok:
  assumes pre: "seg (hdrs s) p pre cur False" and cur: "seg (hdrs s) cur ((n, True) # post) e True"
    and co: "coalesced pre"
  obtains c t pre' n' where "merge_prev (prev_addr 0 p pre) cur s = (c, t)"
    "seg (hdrs t) p pre' c False" "seg (hdrs t) c ((n', True) # post) e True"
    "allocated p pre' = allocated p pre" "c + HDR + n' = cur + HDR + n" "coalesced pre'"
    "pre' \<noteq> [] \<longrightarrow> \<not> snd (last pre')"
proof (cases pre rule: rev_cases)
  case Nil
  then show thesis using that [of cur s "[]" n] assms by (simp add: merge_prev_def)
next
  case (snoc pre1 b)
  obtain m g where b: "b = (m, g)" by fastforce
  let ?a = "prev_addr 0 p pre"
  have a: "seg (hdrs s) p pre1 ?a False" "seg (hdrs s) ?a [(m, g)] cur False"
    using prev_addr_snoc [of "hdrs s" p pre1 m g cur 0] pre unfolding snoc b by blast+
  have h: "hdrs s ?a = \<lparr>bsize = m, bfree = g, bnext = cur\<rparr>" "?a \<noteq> 0" "?a + HDR + m = cur"
    "unat cur = unat ?a + 12 + unat m"
    using a(2) unat_hdr [of ?a m] by auto
  have ne: "cur \<noteq> ?a" using h(4) by auto
  show thesis
  proof (cases g)
    case False
    then show thesis
      using that [of cur s pre n] assms h snoc b by (simp add: merge_prev_def)
  next
    case True
    let ?h = "(hdrs s)(?a := (hdrs s ?a)\<lparr>bsize := m + n + HDR, bnext := bnext (hdrs s (?a + HDR + m))\<rparr>)"
    have two: "seg (hdrs s) ?a ((m, True) # (n, True) # post) e True"
      using a(2) cur True by (subst seg.simps) auto
    note mg = seg_merge [OF a(1) two]
    have cb: "bsize (hdrs s cur) = n" using cur by simp
    obtain t where t: "merge_prev ?a cur s = (?a, t)" "hdrs t = ?h"
      using h ne True cb by (simp add: merge_prev_def Let_def ac_simps)
    have "allocated p pre = allocated p pre1"
      using allocated_append [OF a(1), of "[b]"] snoc b True by simp
    then show thesis
      using that [of ?a t pre1 "m + n + HDR"] t mg h(3) co True snoc b
      by (auto simp: coalesced_append simp del: seg.simps)
  qed
qed

lemma merge_next_ok:
  assumes pre: "seg (hdrs s) p pre cur False" and cur: "seg (hdrs s) cur ((n, True) # post) e True"
    and co: "coalesced post"
  obtains n' post' where "seg (hdrs (merge_next cur s)) p (pre @ (n', True) # post') e True"
    "allocated (cur + HDR + n') post' = allocated (cur + HDR + n) post" "coalesced post'"
    "post' \<noteq> [] \<longrightarrow> \<not> snd (hd post')"
proof (cases "post \<noteq> [] \<and> snd (hd post)")
  case False
  have "merge_next cur s = s"
    using cur False by (cases post) (auto simp: merge_next_def Let_def)
  then show thesis using that [of n post] pre cur co False by (auto simp: seg_append simp del: seg.simps)
next
  case True
  then obtain m post1 where post: "post = (m, True) # post1" by (cases post) auto
  have h: "hdrs s cur = \<lparr>bsize = n, bfree = True, bnext = cur + HDR + n\<rparr>"
    "bsize (hdrs s (cur + HDR + n)) = m" "bfree (hdrs s (cur + HDR + n))" "cur + HDR + n \<noteq> 0"
    "unat (cur + HDR + n) = unat cur + 12 + unat n"
    using cur post unat_hdr [of cur n] by auto
  have ne: "cur + HDR + n \<noteq> cur"
  proof
    assume eq: "cur + HDR + n = cur"
    show False using h(5) unfolding eq by simp
  qed
  note mg = seg_merge [OF pre cur [unfolded post]]
  have "hdrs (merge_next cur s) = (hdrs s)(cur := (hdrs s cur)\<lparr>bsize := n + m + HDR,
      bnext := bnext (hdrs s (cur + HDR + n))\<rparr>)"
    using h(1-4) ne by (simp add: merge_next_def Let_def ac_simps)
  then show thesis
    using that [of "n + m + HDR" post1] mg co post
    by (auto simp: seg_append coalesced_Cons simp del: seg.simps)
qed

lemma free_ok:
  assumes ok: "heap_ok s bs" and mem: "(a, n) \<in> allocated malloc_virt_address bs"
  shows "\<exists>s' bs'. free a s = Some s' \<and> heap_ok s' bs' \<and>
    allocated malloc_virt_address bs' = allocated malloc_virt_address bs - {(a, n)} \<and>
    heap_end s' = heap_end s"
proof -
  let ?v = malloc_virt_address
  have v: "malloc_head s = ?v" and sg: "seg (hdrs s) ?v bs (heap_end s) True"
    using ok by (auto simp: heap_ok_def)
  obtain pre post cur where c: "bs = pre @ (n, False) # post" "seg (hdrs s) ?v pre cur False"
    "seg (hdrs s) cur ((n, False) # post) (heap_end s) True" "a = cur + HDR"
    by (rule allocated_split [OF sg mem])
  have co: "coalesced pre" "coalesced post"
    using ok c(1) by (auto simp: heap_ok_def coalesced_append coalesced_Cons)
  have cb: "cur \<noteq> 0" "unat cur + 12 < 2 ^ 32" "unat (cur + HDR + n) = unat cur + 12 + unat n"
    "seg (hdrs s) (cur + HDR + n) post (heap_end s) True"
    using c(3) unat_hdr [of cur n] by auto
  define s1 where "s1 = set_hdr cur ((hdrs s cur)\<lparr>bfree := True\<rparr>) s"
  have m1: "seg (hdrs s1) ?v pre cur False" "seg (hdrs s1) cur ((n, True) # post) (heap_end s) True"
    using seg_mark_free [OF c(2,3)] by (simp_all add: s1_def del: seg.simps)
  obtain cc t pre' n' where t: "merge_prev (prev_addr 0 ?v pre) cur s1 = (cc, t)"
    "seg (hdrs t) ?v pre' cc False" "seg (hdrs t) cc ((n', True) # post) (heap_end s) True"
    "allocated ?v pre' = allocated ?v pre" "cc + HDR + n' = cur + HDR + n" "coalesced pre'"
    "pre' \<noteq> [] \<longrightarrow> \<not> snd (last pre')"
    by (rule merge_prev_ok [OF m1 co(1)])
  obtain n2 post' where u: "seg (hdrs (merge_next cc t)) ?v (pre' @ (n2, True) # post') (heap_end s) True"
    "allocated (cc + HDR + n2) post' = allocated (cc + HDR + n') post" "coalesced post'"
    "post' \<noteq> [] \<longrightarrow> \<not> snd (hd post')"
    by (rule merge_next_ok [OF t(2,3) co(2)])
  let ?s = "merge_next cc t" and ?bs = "pre' @ (n2, True) # post'"
  have f: "free a s = Some ?s"
    using free_walk_found [OF c(2) cb(1,2), of 0] t(1) c(4) v
    by (simp add: free_def free_at_def s1_def [symmetric])
  have fl: "malloc_head ?s = malloc_head s" "malloc_reserved_blocks ?s = malloc_reserved_blocks s"
    using arg_cong [OF t(1), of "\<lambda>x. malloc_head (snd x)"]
      arg_cong [OF t(1), of "\<lambda>x. malloc_reserved_blocks (snd x)"] by (simp_all add: s1_def)
  have "heap_ok ?s ?bs"
    using ok u(1,3,4) t(6,7) fl v
    by (auto simp: heap_ok_def heap_end_def coalesced_append coalesced_Cons simp del: seg.simps)
  moreover have "allocated ?v ?bs = allocated ?v pre \<union> allocated (cur + HDR + n) post"
    using allocated_append [OF t(2)] u(2) t(4,5) by simp
  moreover have "(a, n) \<notin> allocated ?v pre" "(a, n) \<notin> allocated (cur + HDR + n) post"
    using allocated_bounds [OF c(2), of a n] allocated_bounds [OF cb(4), of a n] cb(2,3) c(4)
      unat_hdr [of cur 0] by auto
  ultimately show ?thesis
    using f fl c(1,4) allocated_append [OF c(2), of "(n, False) # post"]
    by (intro exI [of _ ?s] exI [of _ ?bs]) (auto simp: heap_end_def)
qed

lemma ready_fresh: "ready sz A t c \<Longrightarrow> (c + HDR, m) \<notin> A"
proof
  assume "ready sz A t c" and m: "(c + HDR, m) \<in> A"
  then obtain pre n post where ok: "heap_ok t (pre @ (n, True) # post)"
    and sg: "seg (hdrs t) malloc_virt_address pre c False" "seg (hdrs t) c ((n, True) # post) (heap_end t) True"
    and A: "allocated malloc_virt_address (pre @ (n, True) # post) = A"
    unfolding ready_def heap_ok_def by metis
  have c: "unat (c + HDR) = unat c + 12" "unat (c + HDR + n) = unat c + 12 + unat n"
    "seg (hdrs t) (c + HDR + n) post (heap_end t) True"
    using sg(2) unat_hdr [of c 0] unat_hdr [of c n] by simp_all
  have "(c + HDR, m) \<in> allocated malloc_virt_address pre \<union> allocated (c + HDR + n) post"
    using m A allocated_append [OF sg(1), of "(n, True) # post"] by auto
  then show False
    using allocated_bounds [OF sg(1), of "c + HDR" m] allocated_bounds [OF c(3), of "c + HDR" m] c(1,2)
    by auto
qed

lemma malloc_ok:
  assumes "heap_ok s bs" and "heap_room s sz"
  shows "\<exists>a n s' bs'. malloc sz s = Some (a, s') \<and> heap_ok s' bs' \<and> sz \<le> n \<and>
    allocated malloc_virt_address bs' = insert (a, n) (allocated malloc_virt_address bs) \<and>
    payload_apart a n (allocated malloc_virt_address bs) \<and>
    unat malloc_virt_address + 12 \<le> unat a \<and> unat a + unat n \<le> unat (heap_end s')"
proof -
  obtain t c where m: "malloc sz s = Some (malloc_take c sz t)"
    and r: "ready sz (allocated malloc_virt_address bs) t c" using malloc_ready [OF assms] by blast
  then obtain k s' bs' where t: "malloc_take c sz t = (c + HDR, s')" "heap_ok s' bs'" "sz \<le> k"
    "allocated malloc_virt_address bs' = insert (c + HDR, k) (allocated malloc_virt_address bs)"
    "payload_apart (c + HDR) k (allocated malloc_virt_address bs)"
    unfolding ready_def using malloc_take_ok by (metis (no_types, lifting))
  have "seg (hdrs s') malloc_virt_address bs' (heap_end s') True" using t(2) by (auto simp: heap_ok_def)
  from allocated_bounds [OF this, of "c + HDR" k] t m show ?thesis by auto
qed

section \<open>The heap as an interface\<close>

text \<open>
  What the users of the heap rely on, with \<open>live\<close> the set of blocks in use: an allocation adds
  one block that is apart from all live ones, a release removes exactly its block.
\<close>

locale block_heap =
  fixes live :: "'s \<Rightarrow> ('p \<times> 'n) set \<Rightarrow> bool"
    and alloc :: "'n \<Rightarrow> 's \<Rightarrow> ('p \<times> 's) option"
    and release :: "'p \<Rightarrow> 's \<Rightarrow> 's option"
    and room :: "'s \<Rightarrow> 'n \<Rightarrow> bool"
    and fits :: "'n \<Rightarrow> 'n \<Rightarrow> bool"
    and apart :: "'p \<Rightarrow> 'n \<Rightarrow> ('p \<times> 'n) set \<Rightarrow> bool"
  assumes alloc_live: "live s A \<Longrightarrow> room s k \<Longrightarrow>
      \<exists>a n s'. alloc k s = Some (a, s') \<and> live s' (insert (a, n) A) \<and> fits k n \<and> apart a n A"
    and release_live: "live s A \<Longrightarrow> (a, n) \<in> A \<Longrightarrow> \<exists>s'. release a s = Some s' \<and> live s' (A - {(a, n)})"
    and apart_fresh: "live s A \<Longrightarrow> room s k \<Longrightarrow> alloc k s = Some (a, s') \<Longrightarrow> \<forall>n. (a, n) \<notin> A"
begin

primrec release_all :: "'p list \<Rightarrow> 's \<Rightarrow> 's option" where
  "release_all [] s = Some s"
| "release_all (a # as) s = (case release a s of None \<Rightarrow> None | Some s' \<Rightarrow> release_all as s')"

lemma release_all_live:
  assumes "live s A" and "distinct xs" and "set xs \<subseteq> A"
  shows "\<exists>s'. release_all (map fst xs) s = Some s' \<and> live s' (A - set xs)"
  using assms
proof (induction xs arbitrary: s A)
  case (Cons x xs)
  obtain a n where x: "x = (a, n)" by fastforce
  obtain s1 where s1: "release a s = Some s1" "live s1 (A - {(a, n)})"
    using release_live [of s A a n] Cons.prems x by auto
  obtain s2 where "release_all (map fst xs) s1 = Some s2" "live s2 (A - {(a, n)} - set xs)"
    using Cons.IH [OF s1(2)] Cons.prems x by auto
  then show ?case using s1 x by (auto simp: set_diff_eq insert_Collect)
qed simp

lemma alloc_release_live:
  assumes "live s A" and "room s k"
  shows "\<exists>a s' s''. alloc k s = Some (a, s') \<and> release a s' = Some s'' \<and> live s'' A"
proof -
  obtain a n s' where a: "alloc k s = Some (a, s')" "live s' (insert (a, n) A)"
    using alloc_live [OF assms] by blast
  then obtain s'' where "release a s' = Some s''" "live s'' (insert (a, n) A - {(a, n)})"
    using release_live by blast
  moreover have "(a, n) \<notin> A" using apart_fresh [OF assms a(1)] by blast
  ultimately show ?thesis using a(1) by auto
qed

end

definition heap_live :: "heap \<Rightarrow> (u32 \<times> u32) set \<Rightarrow> bool" where
  "heap_live s A \<longleftrightarrow> (\<exists>bs. heap_ok s bs \<and> allocated malloc_virt_address bs = A)"

interpretation kh: block_heap heap_live malloc free heap_room "(\<le>)" payload_apart
proof (unfold_locales, goal_cases)
  case (1 s A k)
  then show ?case using malloc_ok unfolding heap_live_def by (metis (no_types, lifting))
next
  case (2 s A a n)
  then show ?case using free_ok unfolding heap_live_def by (metis (no_types, lifting))
next
  case (3 s A k a s')
  then obtain t c where "Some (a, s') = Some (malloc_take c k t)" "ready k A t c"
    unfolding heap_live_def using malloc_ready by metis
  then show ?case using ready_fresh by (auto simp: malloc_take_def Let_def)
qed

primrec free_all :: "u32 list \<Rightarrow> heap \<Rightarrow> heap option" where
  "free_all [] s = Some s"
| "free_all (a # as) s = (case free a s of None \<Rightarrow> None | Some s' \<Rightarrow> free_all as s')"

section \<open>Properties\<close>

text \<open>A heap of two blocks: 100 bytes in use and the rest of a two-page region free.\<close>

definition demo_heap :: heap where
  "demo_heap = \<lparr>hvm = demo_vm,
     hdrs = (\<lambda>_. \<lparr>bsize = 0, bfree = False, bnext = 0\<rparr>)
       (0xC0400000 := \<lparr>bsize = 100, bfree = False, bnext = 0xC0400070\<rparr>,
        0xC0400070 := \<lparr>bsize = 8068, bfree = True, bnext = 0\<rparr>),
     malloc_head = 0xC0400000, malloc_reserved_blocks = 2\<rparr>"

lemma demo_heap_ok: "heap_ok demo_heap [(100, False), (8068, True)]"
  by (simp add: heap_ok_def demo_heap_def malloc_virt_address_def KERNEL_VIRTUAL_BASE_def HDR_def
      heap_end_def BLOCK_SIZE_def)



text \<open>
  C8. \<^verbatim>\<open>free\<close> of a block that is in use returns, takes exactly that block out of the
  allocated ones, merges it with its free neighbours and leaves a heap that tiles the same
  region.
\<close>

theorem free_correct:
  assumes "heap_ok s bs" and "(a, n) \<in> allocated malloc_virt_address bs"
  shows "\<exists>s' bs'. free a s = Some s' \<and> heap_ok s' bs' \<and>
    allocated malloc_virt_address bs' = allocated malloc_virt_address bs - {(a, n)} \<and>
    heap_end s' = heap_end s"
  by (rule free_ok [OF assms])

theorem free_correct_witness:
  "\<exists>s' bs'. free 0xC040000C demo_heap = Some s' \<and> heap_ok s' bs' \<and> allocated malloc_virt_address bs' = {}"
proof -
  have a: "allocated malloc_virt_address [(100, False), (8068, True)] = {(0xC040000C, 100)}"
    by (simp add: malloc_virt_address_def KERNEL_VIRTUAL_BASE_def HDR_def)
  then show ?thesis using free_correct [OF demo_heap_ok, of "0xC040000C" 100] by auto
qed

lemma free_all_eq: "free_all as s = kh.release_all as s"
  by (induction as arbitrary: s) (auto split: option.splits)

lemma init_malloc_ok: "heap_ok (init_malloc s) [(257 * 4096 - 12, True)]"
proof -
  have r: "(MALLOC_INITIAL_SIZE + HDR + BLOCK_SIZE - 1) div BLOCK_SIZE = 257"
    by (simp add: MALLOC_INITIAL_SIZE_def HDR_def BLOCK_SIZE_def)
  have k: "malloc_reserved_blocks (fold map_heap_block xs t) = malloc_reserved_blocks t" for xs t
    by (rule fold_keeps) (simp add: map_heap_block_def split: prod.splits)
  show ?thesis
    unfolding init_malloc_def Let_def r heap_ok_def heap_end_def
    by (simp add: k del: upt_conv_Cons_Cons upt_rec_numeral)
      (simp add: malloc_virt_address_def KERNEL_VIRTUAL_BASE_def HDR_def BLOCK_SIZE_def)
qed

text \<open>
  C9. From the initial heap on, blocks in use can be freed in any order: every call returns, and
  exactly the blocks freed leave the set of blocks in use.
\<close>

theorem free_any_order:
  assumes "heap_live s A" and "distinct xs" and "set xs \<subseteq> A"
  shows "(\<exists>s'. free_all (map fst xs) s = Some s' \<and> heap_live s' (A - set xs)) \<and>
    heap_live (init_malloc t) {}"
proof
  show "\<exists>s'. free_all (map fst xs) s = Some s' \<and> heap_live s' (A - set xs)"
    unfolding free_all_eq by (rule kh.release_all_live [OF assms])
  show "heap_live (init_malloc t) {}"
    unfolding heap_live_def using init_malloc_ok by force
qed

theorem free_any_order_witness:
  "\<exists>s'. free_all [0xC040000C] demo_heap = Some s' \<and> heap_live s' {}"
proof -
  have "heap_live demo_heap {(0xC040000C, 100)}"
    unfolding heap_live_def using demo_heap_ok
    by (intro exI [of _ "[(100, False), (8068, True)]"])
      (simp add: malloc_virt_address_def KERNEL_VIRTUAL_BASE_def HDR_def)
  then show ?thesis
    using free_any_order [of demo_heap "{(0xC040000C, 100)}" "[(0xC040000C, 100)]"] by simp
qed

end
