(* ===== verification/Ring.thy ===== *)
theory Ring
  imports Prelude
begin

text \<open>
  Bounded byte queues. The pipe, the keyboard buffer and the mouse buffer are three rings over an
  array, written three times in the code with different counters; this theory states once what a
  ring promises (\<open>bounded_fifo\<close>) and what its users get from it, and proves the arithmetic of
  an array ring that the three providers share.
\<close>

section \<open>The contract\<close>

locale bounded_fifo =
  fixes inv :: "'s \<Rightarrow> bool"
    and contents :: "'s \<Rightarrow> 'b list"
    and put :: "'b \<Rightarrow> 's \<Rightarrow> 's"
    and get :: "'s \<Rightarrow> 'b \<times> 's"
    and cap :: nat
  assumes bounded: "inv s \<Longrightarrow> length (contents s) \<le> cap"
    and put_inv: "inv s \<Longrightarrow> length (contents s) < cap \<Longrightarrow> inv (put b s)"
    and put_contents: "inv s \<Longrightarrow> length (contents s) < cap \<Longrightarrow> contents (put b s) = contents s @ [b]"
    and get_inv: "inv s \<Longrightarrow> contents s \<noteq> [] \<Longrightarrow> inv (snd (get s))"
    and get_hd: "inv s \<Longrightarrow> contents s \<noteq> [] \<Longrightarrow> fst (get s) = hd (contents s)"
    and get_tl: "inv s \<Longrightarrow> contents s \<noteq> [] \<Longrightarrow> contents (snd (get s)) = tl (contents s)"
begin

text \<open>Reading up to \<open>n\<close> bytes, and writing bytes until the queue is full.\<close>

fun drain :: "nat \<Rightarrow> 's \<Rightarrow> 'b list \<times> 's" where
  "drain 0 s = ([], s)"
| "drain (Suc n) s =
     (if contents s = [] then ([], s)
      else let (b, s') = get s; (bs, s'') = drain n s' in (b # bs, s''))"

fun fill :: "'b list \<Rightarrow> 's \<Rightarrow> nat \<times> 's" where
  "fill [] s = (0, s)"
| "fill (b # bs) s =
     (if length (contents s) < cap then let (n, s') = fill bs (put b s) in (Suc n, s') else (0, s))"

lemma drain_ok:
  assumes "inv s"
  shows "fst (drain n s) = take n (contents s) \<and> contents (snd (drain n s)) = drop n (contents s) \<and>
    inv (snd (drain n s))"
  using assms
proof (induction n arbitrary: s)
  case (Suc n)
  show ?case
  proof (cases "contents s")
    case (Cons x xs)
    then have g: "fst (get s) = x" "contents (snd (get s)) = xs" "inv (snd (get s))"
      using Suc.prems by (simp_all add: get_hd get_tl get_inv)
    then show ?thesis using Suc.IH [OF g(3)] Cons by (simp add: case_prod_beta Let_def)
  qed (use Suc.prems in simp)
qed simp

lemma fill_ok:
  assumes "inv s"
  shows "fst (fill bs s) = min (length bs) (cap - length (contents s)) \<and>
    contents (snd (fill bs s)) = contents s @ take (cap - length (contents s)) bs \<and> inv (snd (fill bs s))"
  using assms
proof (induction bs arbitrary: s)
  case (Cons b bs)
  show ?case
  proof (cases "length (contents s) < cap")
    case True
    then have p: "inv (put b s)" "contents (put b s) = contents s @ [b]"
      using Cons.prems by (simp_all add: put_inv put_contents)
    obtain k where k: "cap - length (contents s) = Suc k" using True by (metis Suc_diff_Suc)
    then have "cap - length (contents (put b s)) = k" using p(2) by simp
    then show ?thesis using Cons.IH [OF p(1)] True p(2) k by (simp add: case_prod_beta Let_def)
  next
    case False
    then show ?thesis using Cons.prems by simp
  qed
qed simp

lemma fill_drain:
  assumes "inv s" and "contents s = []" and "length bs \<le> cap"
  shows "fst (drain (length bs) (snd (fill bs s))) = bs"
  using fill_ok [OF assms(1), of bs] drain_ok [of "snd (fill bs s)" "length bs"] assms by simp

end

section \<open>Array rings\<close>

text \<open>
  The bytes of a ring of \<open>c\<close> slots that holds \<open>n\<close> bytes from index \<open>r\<close> on.
\<close>

definition ring_bytes :: "(nat \<Rightarrow> 'b) \<Rightarrow> nat \<Rightarrow> nat \<Rightarrow> nat \<Rightarrow> 'b list" where
  "ring_bytes a c r n = map (\<lambda>i. a ((r + i) mod c)) [0..<n]"

lemma length_ring_bytes [simp]: "length (ring_bytes a c r n) = n"
  by (simp add: ring_bytes_def)

lemma ring_index_inj:
  assumes "i < c" "j < c" "(r + i) mod c = (r + j) mod (c::nat)"
  shows "i = j"
proof -
  have le: "i' = j'" if "i' \<le> j'" "j' < c" "(r + j') mod c = (r + i') mod c" for i' j'
  proof -
    have "c dvd (r + j') - (r + i')" using that by (subst mod_eq_dvd_iff_nat [symmetric]) auto
    then have "c dvd j' - i'" by simp
    moreover have "j' - i' < c" using that by simp
    ultimately have "j' - i' = 0" by (metis dvd_imp_le not_less zero_less_iff_neq_zero)
    then show ?thesis using that by simp
  qed
  show ?thesis using le [of i j] le [of j i] assms by (cases "i \<le> j") auto
qed

lemma ring_put:
  assumes "n < c"
  shows "ring_bytes (a((r + n) mod c := b)) c r (Suc n) = ring_bytes a c r n @ [b]"
proof -
  have "(r + i) mod c \<noteq> (r + n) mod c" if "i < n" for i
    using ring_index_inj [of i c n r] that assms by auto
  then show ?thesis by (auto simp: ring_bytes_def)
qed

lemma ring_get:
  "ring_bytes a c r (Suc n) = a (r mod c) # ring_bytes a c (Suc r) n"
  by (simp add: ring_bytes_def upt_conv_Cons map_Suc_upt [symmetric] del: upt_Suc)

lemma ring_start_mod: "ring_bytes a c (r mod c) n = ring_bytes a c r n"
  by (simp add: ring_bytes_def mod_simps)

end
