(* ===== verification/Pipe.thy ===== *)
theory Pipe
  imports Ring
begin

text \<open>
  Pipes, \<^verbatim>\<open>kernel/src/fs/pipe.c\<close>: a ring of 4096 bytes shared by a reader and a writer.

  A read or write loop that finds no data (no room) while the other side is open executes
  \<^verbatim>\<open>sti; hlt\<close> and tries again, and other processes run in between. One iteration of each
  loop is a function on the shared buffer; the interleaving of a reader's and a writer's
  iterations is the step relation \<open>pipe_step\<close>.
\<close>

section \<open>State and operations\<close>

definition PIPE_BUF_SIZE :: nat where "PIPE_BUF_SIZE = 4096"

record pipe_buf =
  pbuf :: "nat \<Rightarrow> u8"
  read_pos :: u32
  write_pos :: u32
  pcount :: u32
  prefcount :: u32
  readers :: u32
  writers :: u32

record pipe_node =
  pn_open :: bool
  pn_impl :: bool

definition pipe_put :: "u8 \<Rightarrow> pipe_buf \<Rightarrow> pipe_buf" where
  "pipe_put b pb =
     pb\<lparr>pbuf := (pbuf pb)(unat (write_pos pb) := b),
        write_pos := (write_pos pb + 1) mod of_nat PIPE_BUF_SIZE,
        pcount := pcount pb + 1\<rparr>"

definition pipe_get :: "pipe_buf \<Rightarrow> u8 \<times> pipe_buf" where
  "pipe_get pb =
     (pbuf pb (unat (read_pos pb)),
      pb\<lparr>read_pos := (read_pos pb + 1) mod of_nat PIPE_BUF_SIZE, pcount := pcount pb - 1\<rparr>)"

text \<open>One iteration of a loop: a byte moved, wait for the other side, or stop.\<close>

datatype 'a iter = Moved 'a | Wait | Stop

definition pipe_read_iter :: "pipe_buf \<Rightarrow> (u8 \<times> pipe_buf) iter" where
  "pipe_read_iter pb =
     (if 0 < pcount pb then Moved (pipe_get pb)
      else if 0 < writers pb then Wait
      else Stop)"

definition pipe_write_iter :: "u8 \<Rightarrow> pipe_buf \<Rightarrow> pipe_buf iter" where
  "pipe_write_iter b pb =
     (if pcount pb < of_nat PIPE_BUF_SIZE then Moved (pipe_put b pb)
      else if 0 < readers pb then Wait
      else Stop)"

text \<open>
  A call runs its loop until it is done or has to wait. The result says whether it is blocked;
  the requested total is the 32-bit product of size and units.
\<close>

fun pipe_read_loop :: "nat \<Rightarrow> pipe_buf \<Rightarrow> bool \<times> u8 list \<times> pipe_buf" where
  "pipe_read_loop 0 pb = (False, [], pb)"
| "pipe_read_loop (Suc n) pb =
     (case pipe_read_iter pb of
        Moved (b, pb') \<Rightarrow> (case pipe_read_loop n pb' of (w, bs, pb'') \<Rightarrow> (w, b # bs, pb''))
      | Wait \<Rightarrow> (True, [], pb)
      | Stop \<Rightarrow> (False, [], pb))"

definition pipe_read_fn :: "u32 \<Rightarrow> u32 \<Rightarrow> pipe_buf \<Rightarrow> bool \<times> u8 list \<times> pipe_buf" where
  "pipe_read_fn sz units pb = pipe_read_loop (unat (sz * units)) pb"

fun pipe_write_loop :: "u8 list \<Rightarrow> pipe_buf \<Rightarrow> bool \<times> nat \<times> pipe_buf" where
  "pipe_write_loop [] pb = (False, 0, pb)"
| "pipe_write_loop (b # bs) pb =
     (case pipe_write_iter b pb of
        Moved pb' \<Rightarrow> (case pipe_write_loop bs pb' of (w, n, pb'') \<Rightarrow> (w, Suc n, pb''))
      | Wait \<Rightarrow> (True, 0, pb)
      | Stop \<Rightarrow> (False, 0, pb))"

definition pipe_write_fn :: "u32 \<Rightarrow> u32 \<Rightarrow> (nat \<Rightarrow> u8) \<Rightarrow> pipe_buf \<Rightarrow> bool \<times> nat \<times> pipe_buf" where
  "pipe_write_fn sz units buffer pb = pipe_write_loop (map buffer [0..<unat (sz * units)]) pb"

text \<open>
  Closing an endpoint. The last component tells whether the buffer is given back to the heap;
  \<open>pn_open\<close> is \<^verbatim>\<open>node->ptr != 0\<close>.
\<close>

definition pipe_close_fn :: "pipe_node \<Rightarrow> pipe_buf \<Rightarrow> pipe_node \<times> pipe_buf \<times> bool" where
  "pipe_close_fn node pb =
     (if pn_open node then
        let pb = (if pn_impl node then pb\<lparr>readers := readers pb - 1\<rparr>
                  else pb\<lparr>writers := writers pb - 1\<rparr>);
            pb = (if 0 < prefcount pb then pb\<lparr>prefcount := prefcount pb - 1\<rparr> else pb)
        in (node\<lparr>pn_open := False\<rparr>, pb, prefcount pb = 0)
      else (node, pb, False))"

text \<open>The shared buffer and the two endpoints a successful \<^verbatim>\<open>pipe_create\<close> sets up.\<close>

definition pipe_init :: "pipe_buf \<Rightarrow> pipe_buf" where
  "pipe_init garbage =
     garbage\<lparr>read_pos := 0, write_pos := 0, pcount := 0, prefcount := 2, readers := 1, writers := 1\<rparr>"

definition pipe_create :: "pipe_buf \<Rightarrow> pipe_buf \<times> pipe_node \<times> pipe_node" where
  "pipe_create garbage =
     (pipe_init garbage, \<lparr>pn_open = True, pn_impl = True\<rparr>, \<lparr>pn_open = True, pn_impl = False\<rparr>)"

section \<open>The pipe is a bounded queue\<close>

definition pipe_inv :: "pipe_buf \<Rightarrow> bool" where
  "pipe_inv pb \<longleftrightarrow> unat (read_pos pb) < PIPE_BUF_SIZE \<and> unat (pcount pb) \<le> PIPE_BUF_SIZE \<and>
     unat (write_pos pb) = (unat (read_pos pb) + unat (pcount pb)) mod PIPE_BUF_SIZE"

definition pipe_contents :: "pipe_buf \<Rightarrow> u8 list" where
  "pipe_contents pb = ring_bytes (pbuf pb) PIPE_BUF_SIZE (unat (read_pos pb)) (unat (pcount pb))"

lemma unat_succ_mod:
  "unat (w :: u32) < PIPE_BUF_SIZE \<Longrightarrow>
     unat ((w + 1) mod of_nat PIPE_BUF_SIZE) = Suc (unat w) mod PIPE_BUF_SIZE"
  using unat_add_small [of w 1] by (simp add: PIPE_BUF_SIZE_def unat_mod_distrib)

lemma write_pos_less: "pipe_inv pb \<Longrightarrow> unat (write_pos pb) < PIPE_BUF_SIZE"
  by (simp add: pipe_inv_def PIPE_BUF_SIZE_def)

lemma pipe_put_ok:
  assumes "pipe_inv pb" "unat (pcount pb) < PIPE_BUF_SIZE"
  shows "pipe_inv (pipe_put b pb)" "pipe_contents (pipe_put b pb) = pipe_contents pb @ [b]"
proof -
  have c: "unat (pcount pb + 1) = Suc (unat (pcount pb))"
    using assms(2) unat_add_small [of "pcount pb" 1] by (simp add: PIPE_BUF_SIZE_def)
  show "pipe_inv (pipe_put b pb)"
    using assms c write_pos_less [OF assms(1)] unat_succ_mod [of "write_pos pb"]
    by (simp add: pipe_inv_def pipe_put_def mod_Suc_eq)
  show "pipe_contents (pipe_put b pb) = pipe_contents pb @ [b]"
    using assms c ring_put [of "unat (pcount pb)" PIPE_BUF_SIZE "pbuf pb" "unat (read_pos pb)" b]
    by (simp add: pipe_contents_def pipe_put_def pipe_inv_def)
qed

lemma pipe_get_ok:
  assumes "pipe_inv pb" "0 < unat (pcount pb)"
  shows "pipe_inv (snd (pipe_get pb))" "fst (pipe_get pb) # pipe_contents (snd (pipe_get pb)) = pipe_contents pb"
proof -
  let ?r = "unat (read_pos pb)"
  obtain n where n: "unat (pcount pb) = Suc n" using assms(2) by (cases "unat (pcount pb)") auto
  then have c: "unat (pcount pb - 1) = n" by (subst unat_minus_one) auto
  have r: "?r < PIPE_BUF_SIZE" "unat ((read_pos pb + 1) mod of_nat PIPE_BUF_SIZE) = Suc ?r mod PIPE_BUF_SIZE"
    using assms(1) unat_succ_mod by (auto simp: pipe_inv_def)
  have m: "Suc ?r mod PIPE_BUF_SIZE < PIPE_BUF_SIZE" by (simp add: PIPE_BUF_SIZE_def)
  show "pipe_inv (snd (pipe_get pb))"
    using assms(1) n c r m by (simp add: pipe_inv_def pipe_get_def mod_simps)
  show "fst (pipe_get pb) # pipe_contents (snd (pipe_get pb)) = pipe_contents pb"
    using n c r ring_get [of "pbuf pb" PIPE_BUF_SIZE ?r n]
    by (simp add: pipe_contents_def pipe_get_def ring_start_mod)
qed

interpretation pq: bounded_fifo pipe_inv pipe_contents pipe_put pipe_get PIPE_BUF_SIZE
proof (unfold_locales, goal_cases)
  case (1 s) then show ?case by (simp add: pipe_inv_def pipe_contents_def)
next
  case (2 s b) then show ?case by (simp add: pipe_put_ok pipe_contents_def)
next
  case (3 s b) then show ?case by (intro pipe_put_ok) (simp_all add: pipe_contents_def)
next
  case (4 s) then show ?case by (intro pipe_get_ok) (auto simp: pipe_contents_def ring_bytes_def)
next
  case (5 s)
  then have "0 < unat (pcount s)" by (auto simp: pipe_contents_def ring_bytes_def)
  from pipe_get_ok(2) [OF 5(1) this] show ?case by (metis list.sel(1))
next
  case (6 s)
  then have "0 < unat (pcount s)" by (auto simp: pipe_contents_def ring_bytes_def)
  from pipe_get_ok(2) [OF 6(1) this] show ?case by (metis list.sel(3))
qed

lemma contents_empty: "pipe_contents pb = [] \<longleftrightarrow> pcount pb = 0"
  by (simp add: pipe_contents_def ring_bytes_def unat_eq_zero)

lemma contents_full:
  assumes "pipe_inv pb"
  shows "length (pipe_contents pb) < PIPE_BUF_SIZE \<longleftrightarrow> pcount pb < of_nat PIPE_BUF_SIZE"
  by (simp add: pipe_contents_def word_less_nat_alt PIPE_BUF_SIZE_def)

lemma other_fields [simp]:
  "writers (snd (pipe_get pb)) = writers pb" "readers (snd (pipe_get pb)) = readers pb"
  "writers (pipe_put b pb) = writers pb" "readers (pipe_put b pb) = readers pb"
  by (simp_all add: pipe_get_def pipe_put_def)

lemma read_loop_drain:
  assumes "pipe_inv pb"
  shows "pipe_read_loop n pb =
    (length (pipe_contents pb) < n \<and> 0 < writers pb, fst (pq.drain n pb), snd (pq.drain n pb))"
  using assms
proof (induction n arbitrary: pb)
  case (Suc n)
  show ?case
  proof (cases "pipe_contents pb = []")
    case True
    then show ?thesis using contents_empty [of pb] by (simp add: pipe_read_iter_def)
  next
    case False
    then have "pipe_read_iter pb = Moved (pipe_get pb)"
      by (simp add: pipe_read_iter_def contents_empty word_gt_0)
    then show ?thesis
      using Suc.IH [OF pq.get_inv [OF Suc.prems False]] False Suc.prems
      by (cases "pipe_contents pb") (simp_all add: case_prod_beta Let_def pq.get_tl split: prod.splits)
  qed
qed simp

lemma write_loop_fill:
  assumes "pipe_inv pb"
  shows "pipe_write_loop bs pb =
    (PIPE_BUF_SIZE - length (pipe_contents pb) < length bs \<and> 0 < readers pb,
     fst (pq.fill bs pb), snd (pq.fill bs pb))"
  using assms
proof (induction bs arbitrary: pb)
  case (Cons b bs)
  show ?case
  proof (cases "length (pipe_contents pb) < PIPE_BUF_SIZE")
    case True
    then have w: "pipe_write_iter b pb = Moved (pipe_put b pb)"
      using contents_full [OF Cons.prems] by (simp add: pipe_write_iter_def)
    have "PIPE_BUF_SIZE - length (pipe_contents (pipe_put b pb)) < length bs \<longleftrightarrow>
        PIPE_BUF_SIZE - length (pipe_contents pb) < Suc (length bs)"
      using pq.put_contents [OF Cons.prems True, of b] True by auto
    then show ?thesis
      using Cons.IH [OF pq.put_inv [OF Cons.prems True]] True w
      by (simp add: case_prod_beta Let_def split: prod.splits)
  next
    case False
    then show ?thesis
      using contents_full [OF Cons.prems] pq.bounded [OF Cons.prems] by (simp add: pipe_write_iter_def)
  qed
qed simp

section \<open>A reader and a writer\<close>

text \<open>
  The reader still wants \<open>pc_want\<close> bytes and has \<open>pc_got\<close>; the writer has sent
  \<open>pc_sent\<close> and still has \<open>pc_todo\<close>. Each step is one successful iteration of one of
  the two loops, in any order; a writer that is done may close its endpoint.
\<close>

record pipe_conf =
  pc_buf :: pipe_buf
  pc_want :: nat
  pc_got :: "u8 list"
  pc_sent :: "u8 list"
  pc_todo :: "u8 list"

inductive pipe_step :: "pipe_conf \<Rightarrow> pipe_conf \<Rightarrow> bool" where
  reader: "pc_want c = Suc n \<Longrightarrow> pipe_read_iter (pc_buf c) = Moved (b, pb) \<Longrightarrow>
    pipe_step c (c\<lparr>pc_buf := pb, pc_want := n, pc_got := pc_got c @ [b]\<rparr>)"
| writer: "pc_todo c = b # bs \<Longrightarrow> pipe_write_iter b (pc_buf c) = Moved pb \<Longrightarrow>
    pipe_step c (c\<lparr>pc_buf := pb, pc_sent := pc_sent c @ [b], pc_todo := bs\<rparr>)"

definition conf_inv :: "u8 list \<Rightarrow> u8 list \<Rightarrow> nat \<Rightarrow> pipe_conf \<Rightarrow> bool" where
  "conf_inv old msg want c \<longleftrightarrow> pipe_inv (pc_buf c) \<and>
     pc_got c @ pipe_contents (pc_buf c) = old @ pc_sent c \<and> pc_sent c @ pc_todo c = msg \<and>
     length (pc_got c) + pc_want c = want \<and> 0 < readers (pc_buf c) \<and> 0 < writers (pc_buf c)"

lemma conf_inv_step:
  assumes "conf_inv old msg want c" "pipe_step c c'"
  shows "conf_inv old msg want c'"
  using assms(2)
proof (cases rule: pipe_step.cases)
  case (reader n b pb)
  then have g: "pipe_get (pc_buf c) = (b, pb)" "pcount (pc_buf c) \<noteq> 0"
    by (auto simp: pipe_read_iter_def word_gt_0 split: if_splits)
  then have "pipe_contents (pc_buf c) \<noteq> []" by (simp add: contents_empty)
  moreover have "writers pb = writers (pc_buf c)" "readers pb = readers (pc_buf c)"
    using other_fields(1,2) [of "pc_buf c"] g(1) by simp_all
  ultimately show ?thesis
    using assms(1) reader g pq.get_inv [of "pc_buf c"] pq.get_hd [of "pc_buf c"] pq.get_tl [of "pc_buf c"]
    unfolding conf_inv_def by (cases "pipe_contents (pc_buf c)") auto
next
  case (writer b bs pb)
  then have p: "pb = pipe_put b (pc_buf c)" "pcount (pc_buf c) < of_nat PIPE_BUF_SIZE"
    by (auto simp: pipe_write_iter_def split: if_splits)
  have i: "pipe_inv (pc_buf c)" using assms(1) by (simp add: conf_inv_def)
  have f: "length (pipe_contents (pc_buf c)) < PIPE_BUF_SIZE" using contents_full [OF i] p by simp
  show ?thesis
    using assms(1) writer p pq.put_inv [OF i f] pq.put_contents [OF i f] unfolding conf_inv_def
    by (auto simp flip: append_assoc)
qed

lemma conf_inv_reach:
  assumes "pipe_step\<^sup>*\<^sup>* c c'" "conf_inv old msg want c"
  shows "conf_inv old msg want c'"
  using assms by (induction rule: rtranclp_induct) (auto intro: conf_inv_step)

lemma step_possible:
  assumes "conf_inv old msg want c" "pc_want c \<noteq> 0" "pc_todo c \<noteq> [] \<or> pipe_contents (pc_buf c) \<noteq> []"
  shows "\<exists>c'. pipe_step c c'"
proof (cases "pcount (pc_buf c) = 0")
  case True
  then obtain b bs where t: "pc_todo c = b # bs"
    using assms(3) by (cases "pc_todo c") (auto simp: contents_empty)
  have "pipe_write_iter b (pc_buf c) = Moved (pipe_put b (pc_buf c))"
    using True by (simp add: pipe_write_iter_def PIPE_BUF_SIZE_def)
  with t show ?thesis by (blast intro: pipe_step.writer)
next
  case False
  obtain n where "pc_want c = Suc n" using assms(2) by (cases "pc_want c") auto
  moreover obtain b pb where "pipe_get (pc_buf c) = (b, pb)" by fastforce
  then have "pipe_read_iter (pc_buf c) = Moved (b, pb)"
    using False by (simp add: pipe_read_iter_def word_gt_0)
  ultimately show ?thesis by (blast intro: pipe_step.reader)
qed

lemma step_decreases:
  "pipe_step c c' \<Longrightarrow> pc_want c' + length (pc_todo c') < pc_want c + length (pc_todo c)"
  by (induction rule: pipe_step.induct) auto

section \<open>Properties\<close>

definition fresh_pipe :: pipe_buf where
  "fresh_pipe = fst (pipe_create \<lparr>pbuf = (\<lambda>_. 0), read_pos = 7, write_pos = 7, pcount = 7,
     prefcount = 7, readers = 7, writers = 7\<rparr>)"

lemma fresh_pipe_ok: "pipe_inv fresh_pipe" "pipe_contents fresh_pipe = []" "readers fresh_pipe = 1"
  "writers fresh_pipe = 1"
  by (simp_all add: fresh_pipe_def pipe_create_def pipe_init_def pipe_inv_def pipe_contents_def
      ring_bytes_def PIPE_BUF_SIZE_def)

text \<open>
  C10. \<^verbatim>\<open>pipe_read_fn\<close> and \<^verbatim>\<open>pipe_write_fn\<close> on a consistent pipe: a read hands out
  the oldest bytes in order, as many as requested and available, and blocks exactly when it wants
  more and a writer is left; a write appends its bytes in order up to the free room and blocks
  exactly when bytes remain and a reader is left. Both keep the ring consistent.
\<close>

theorem pipe_read_write_correct:
  fixes sz units :: u32
  assumes "pipe_inv pb"
  defines "tot \<equiv> unat (sz * units)" and "q \<equiv> pipe_contents pb"
    and "room \<equiv> PIPE_BUF_SIZE - length (pipe_contents pb)"
  shows "(\<exists>pb'. pipe_read_fn sz units pb = (length q < tot \<and> 0 < writers pb, take tot q, pb') \<and>
      pipe_contents pb' = drop tot q \<and> pipe_inv pb') \<and>
    (\<exists>pb'. pipe_write_fn sz units buffer pb = (room < tot \<and> 0 < readers pb, min tot room, pb') \<and>
      pipe_contents pb' = q @ map buffer [0..<min tot room] \<and> pipe_inv pb')"
proof
  show "\<exists>pb'. pipe_read_fn sz units pb = (length q < tot \<and> 0 < writers pb, take tot q, pb') \<and>
      pipe_contents pb' = drop tot q \<and> pipe_inv pb'"
    using pq.drain_ok [OF assms(1), of tot]
    by (auto simp: pipe_read_fn_def read_loop_drain [OF assms(1)] tot_def q_def)
  have t: "take room (map buffer [0..<tot]) = map buffer [0..<min tot room]"
    by (cases "room \<le> tot") (simp_all add: take_map min_def)
  show "\<exists>pb'. pipe_write_fn sz units buffer pb = (room < tot \<and> 0 < readers pb, min tot room, pb') \<and>
      pipe_contents pb' = q @ map buffer [0..<min tot room] \<and> pipe_inv pb'"
    using pq.fill_ok [OF assms(1), of "map buffer [0..<tot]"] t
    by (auto simp: pipe_write_fn_def write_loop_fill [OF assms(1)] tot_def q_def room_def)
qed

theorem pipe_read_write_correct_witness:
  "pipe_inv fresh_pipe \<and> (\<exists>pb'. pipe_write_fn 1 3 (\<lambda>i. of_nat i) fresh_pipe = (False, 3, pb'))"
  using pipe_read_write_correct [OF fresh_pipe_ok(1), of 1 3 "\<lambda>i. of_nat i"] fresh_pipe_ok
  by (auto simp: PIPE_BUF_SIZE_def)



text \<open>
  The life of a pipe: the buffer made by \<^verbatim>\<open>pipe_create\<close> is consistent and empty;
  closing the two endpoints in either order gives the buffer back exactly at the second close; a
  second close of the same endpoint changes nothing and frees nothing.
\<close>

theorem pipe_close_frees_once:
  fixes garbage :: pipe_buf
  defines "pb \<equiv> fst (pipe_create garbage)" and "rd \<equiv> fst (snd (pipe_create garbage))"
    and "wr \<equiv> snd (snd (pipe_create garbage))"
  shows "pipe_inv pb \<and> pipe_contents pb = [] \<and>
    (\<exists>pb1 rd1. pipe_close_fn rd pb = (rd1, pb1, False) \<and> pipe_close_fn rd1 pb1 = (rd1, pb1, False) \<and>
       (\<exists>pb2 wr1. pipe_close_fn wr pb1 = (wr1, pb2, True) \<and> readers pb2 = 0 \<and> writers pb2 = 0)) \<and>
    (\<exists>pb1 wr1. pipe_close_fn wr pb = (wr1, pb1, False) \<and> pipe_read_iter pb1 = Stop \<and>
       (\<exists>pb2 rd1. pipe_close_fn rd pb1 = (rd1, pb2, True) \<and> readers pb2 = 0 \<and> writers pb2 = 0))"
  by (simp add: pb_def rd_def wr_def pipe_create_def pipe_init_def pipe_close_fn_def pipe_inv_def
      pipe_contents_def ring_bytes_def PIPE_BUF_SIZE_def pipe_read_iter_def)

end
