(* ===== verification/Input.thy ===== *)
theory Input
  imports Ring
begin

text \<open>
  The PS/2 drivers, \<^verbatim>\<open>kernel/src/drivers/kbd.c\<close> and
  \<^verbatim>\<open>kernel/src/drivers/mouse.c\<close>: interrupt handlers that turn controller bytes into
  ring buffers, and the read functions behind their device nodes.

  What a handler reads from the ports 0x64 and 0x60 is its input here; what it writes to the
  interrupt controllers, the signals it raises and the call of the scheduler are its output.
\<close>

section \<open>Keyboard\<close>

definition KBD_BUFFER_SZ :: nat where "KBD_BUFFER_SZ = 128"

definition SCANCODE_CTRL_L :: u8 where "SCANCODE_CTRL_L = 0x1D"
definition SCANCODE_SHIFT_L :: u8 where "SCANCODE_SHIFT_L = 0x2A"
definition SCANCODE_SHIFT_R :: u8 where "SCANCODE_SHIFT_R = 0x36"
definition SCANCODE_CAPSLOCK :: u8 where "SCANCODE_CAPSLOCK = 0x3A"
definition SCANCODE_KEY_C :: u8 where "SCANCODE_KEY_C = 0x2E"
definition SCANCODE_KEY_Z :: u8 where "SCANCODE_KEY_Z = 0x2C"

text \<open>The two rows of \<^verbatim>\<open>kbdus\<close>; the entries after the last one listed are 0.\<close>

definition kbdus_plain :: "u8 list" where
  "kbdus_plain =
     [0, 27, 49, 50, 51, 52, 53, 54, 55, 56,
      57, 48, 45, 61, 8,
      9,
      113, 119, 101, 114,
      116, 121, 117, 105, 111, 112, 91, 93, 10,
      0,
      97, 115, 100, 102, 103, 104, 106, 107, 108, 59,
      39, 96, 0,
      92, 122, 120, 99, 118, 98, 110,
      109, 44, 46, 47, 0,
      42,
      0,
      32,
      0,
      0, 0, 0, 0, 0, 0, 0, 0, 0,
      0,
      0,
      0,
      0, 0, 0,
      45,
      0, 0, 0,
      43]"

definition kbdus_shift :: "u8 list" where
  "kbdus_shift =
     [0, 27, 33, 64, 35, 36, 37, 94, 38, 42,
      40, 41, 95, 43, 8,
      9,
      81, 87, 69, 82,
      84, 89, 85, 73, 79, 80, 123, 125, 10,
      0,
      65, 83, 68, 70, 71, 72, 74, 75, 76, 58,
      34, 126, 0,
      124, 90, 88, 67, 86, 66, 78,
      77, 60, 62, 63, 0,
      42,
      0,
      32,
      0,
      0, 0, 0, 0, 0, 0, 0, 0, 0,
      0,
      0,
      0,
      0, 0, 0,
      45,
      0, 0, 0,
      43]"

definition kbdus :: "bool \<Rightarrow> nat \<Rightarrow> u8" where
  "kbdus shift i =
     (let row = (if shift then kbdus_shift else kbdus_plain)
      in if i < length row then row ! i else 0)"

record kbd =
  shift :: bool
  caps_lock :: bool
  ctrl :: bool
  kbd_buf :: "nat \<Rightarrow> u8"
  buf_start :: u32
  buf_size :: u32

datatype dev_out = Outportb u16 u8 | Signal_foreground nat | Schedule

definition SIGINT :: nat where "SIGINT = 2"
definition SIGTSTP :: nat where "SIGTSTP = 20"

text \<open>The case change that Caps Lock makes on a letter.\<close>

definition caps_char :: "bool \<Rightarrow> u8 \<Rightarrow> u8" where
  "caps_char caps ret =
     (if 97 \<le> ret \<and> ret \<le> 122 then (if caps then ret - 97 + 65 else ret)
      else if 65 \<le> ret \<and> ret \<le> 90 then (if caps then ret - 65 + 97 else ret)
      else ret)"

definition kbd_put :: "u8 \<Rightarrow> kbd \<Rightarrow> kbd" where
  "kbd_put b k =
     k\<lparr>kbd_buf := (kbd_buf k)(unat ((buf_start k + buf_size k) AND (of_nat KBD_BUFFER_SZ - 1)) := b),
       buf_size := buf_size k + 1\<rparr>"

definition kbd_get :: "kbd \<Rightarrow> u8 \<times> kbd" where
  "kbd_get k =
     (kbd_buf k (unat (buf_start k)),
      k\<lparr>buf_start := (buf_start k + 1) AND (of_nat KBD_BUFFER_SZ - 1), buf_size := buf_size k - 1\<rparr>)"

definition kbd_modifiers :: "u8 \<Rightarrow> kbd \<Rightarrow> kbd" where
  "kbd_modifiers scancode k =
     (let k = (if scancode = SCANCODE_SHIFT_L \<or> scancode = SCANCODE_SHIFT_R then k\<lparr>shift := True\<rparr> else k);
          k = (if scancode = SCANCODE_CTRL_L then k\<lparr>ctrl := True\<rparr> else k)
      in if scancode = SCANCODE_CAPSLOCK then k\<lparr>caps_lock := \<not> caps_lock k\<rparr> else k)"

definition keyboard_handler :: "u8 \<Rightarrow> u8 \<Rightarrow> kbd \<Rightarrow> kbd \<times> dev_out list" where
  "keyboard_handler status scancode k =
     (if status AND 0x20 \<noteq> 0 then (k, [Outportb 0x20 0x20])
      else if scancode AND 0x80 \<noteq> 0 then
        let release = scancode AND 0x7F
        in (if release = SCANCODE_SHIFT_L \<or> release = SCANCODE_SHIFT_R then k\<lparr>shift := False\<rparr>
            else if release = SCANCODE_CTRL_L then k\<lparr>ctrl := False\<rparr> else k, [])
      else
        let k = kbd_modifiers scancode k
        in if ctrl k \<and> scancode = SCANCODE_KEY_C then
             (k, [Signal_foreground SIGINT, Outportb 0x20 0x20, Schedule])
           else if ctrl k \<and> scancode = SCANCODE_KEY_Z then
             (k, [Signal_foreground SIGTSTP, Outportb 0x20 0x20, Schedule])
           else
             let ret = kbdus (shift k) (unat scancode)
             in if ret = 0 then (k, [])
                else
                  let ret = caps_char (caps_lock k) ret
                  in if of_nat KBD_BUFFER_SZ \<le> buf_size k then (k, [])
                     else (kbd_put ret k, []))"

fun kbd_read_loop :: "nat \<Rightarrow> kbd \<Rightarrow> u8 list \<times> kbd" where
  "kbd_read_loop 0 k = ([], k)"
| "kbd_read_loop (Suc n) k =
     (if buf_size k = 0 then ([], k)
      else case kbd_get k of (b, k') \<Rightarrow> (case kbd_read_loop n k' of (bs, k'') \<Rightarrow> (b # bs, k'')))"

text \<open>The bytes read and the new seek offset of the node.\<close>

definition keyboard_read_fs :: "u32 \<Rightarrow> u32 \<Rightarrow> u32 \<Rightarrow> kbd \<Rightarrow> u8 list \<times> u32 \<times> kbd" where
  "keyboard_read_fs seek_offset sz units k =
     (case kbd_read_loop (unat (sz * units)) k of
        (bs, k') \<Rightarrow> (bs, seek_offset + of_nat (length bs), k'))"

section \<open>Mouse\<close>

definition MOUSE_BUFFER_SZ :: nat where "MOUSE_BUFFER_SZ = 256"

record mouse =
  mouse_buf :: "nat \<Rightarrow> u8"
  mouse_start :: u32
  mouse_size :: u32
  mouse_cycle :: u8
  mouse_packet :: "nat \<Rightarrow> u8"

definition mouse_put :: "u8 \<Rightarrow> mouse \<Rightarrow> mouse" where
  "mouse_put b m =
     m\<lparr>mouse_buf := (mouse_buf m)(unat ((mouse_start m + mouse_size m) AND (of_nat MOUSE_BUFFER_SZ - 1)) := b),
       mouse_size := mouse_size m + 1\<rparr>"

definition mouse_get :: "mouse \<Rightarrow> u8 \<times> mouse" where
  "mouse_get m =
     (mouse_buf m (unat (mouse_start m)),
      m\<lparr>mouse_start := (mouse_start m + 1) AND (of_nat MOUSE_BUFFER_SZ - 1), mouse_size := mouse_size m - 1\<rparr>)"

definition mouse_store :: "nat \<Rightarrow> mouse \<Rightarrow> mouse" where
  "mouse_store i m =
     (if mouse_size m < of_nat MOUSE_BUFFER_SZ then mouse_put (mouse_packet m i) m else m)"

definition mouse_byte :: "u8 \<Rightarrow> mouse \<Rightarrow> mouse" where
  "mouse_byte byte m =
     (if mouse_cycle m = 0 then
        (if byte AND 0x08 \<noteq> 0
         then m\<lparr>mouse_packet := (mouse_packet m)(0 := byte), mouse_cycle := 1\<rparr> else m)
      else if mouse_cycle m = 1 then
        m\<lparr>mouse_packet := (mouse_packet m)(1 := byte), mouse_cycle := 2\<rparr>
      else if mouse_cycle m = 2 then
        fold mouse_store [0, 1, 2]
          (m\<lparr>mouse_packet := (mouse_packet m)(2 := byte), mouse_cycle := 0\<rparr>)
      else m)"

definition mouse_handler :: "u8 \<Rightarrow> u8 \<Rightarrow> mouse \<Rightarrow> mouse \<times> dev_out list" where
  "mouse_handler status byte m =
     (if status AND 0x01 = 0 \<or> status AND 0x20 = 0 then m else mouse_byte byte m,
      [Outportb 0xA0 0x20, Outportb 0x20 0x20])"

text \<open>The inner loop of \<^verbatim>\<open>mouse_read_fs\<close> moves \<open>min 3 requested\<close> bytes.\<close>

fun mouse_take :: "nat \<Rightarrow> mouse \<Rightarrow> u8 list \<times> mouse" where
  "mouse_take 0 m = ([], m)"
| "mouse_take (Suc n) m =
     (case mouse_get m of (b, m') \<Rightarrow> (case mouse_take n m' of (bs, m'') \<Rightarrow> (b # bs, m'')))"

function mouse_read_loop :: "nat \<Rightarrow> mouse \<Rightarrow> u8 list \<times> mouse" where
  "mouse_read_loop requested m =
     (if 0 < requested \<and> 3 \<le> mouse_size m then
        (case mouse_take (min 3 requested) m of
           (bs, m') \<Rightarrow> (case mouse_read_loop (requested - 3) m' of (bs', m'') \<Rightarrow> (bs @ bs', m'')))
      else ([], m))"
  by pat_completeness auto
termination
  by (relation "measure fst") auto

declare mouse_read_loop.simps [simp del]

definition mouse_read_fs :: "u32 \<Rightarrow> u32 \<Rightarrow> mouse \<Rightarrow> u8 list \<times> u32 \<times> mouse" where
  "mouse_read_fs seek_offset units m =
     (case mouse_read_loop (unat units) m of
        (bs, m') \<Rightarrow> (bs, seek_offset + of_nat (length bs), m'))"

section \<open>Rings with a power-of-two mask\<close>

lemma unat_and_mask:
  fixes w :: u32
  assumes "n < 32"
  shows "unat (w AND (2 ^ n - 1)) = unat w mod 2 ^ n"
  using take_bit_eq_mask [of n w, symmetric] unsigned_take_bit_eq [of n w]
  by (simp add: mask_eq_exp_minus_1 take_bit_eq_mod)

lemma kbd_mask: "unat ((w :: u32) AND (of_nat KBD_BUFFER_SZ - 1)) = unat w mod KBD_BUFFER_SZ"
  using unat_and_mask [of 7 w] by (simp add: KBD_BUFFER_SZ_def)

lemma mouse_mask: "unat ((w :: u32) AND (of_nat MOUSE_BUFFER_SZ - 1)) = unat w mod MOUSE_BUFFER_SZ"
  using unat_and_mask [of 8 w] by (simp add: MOUSE_BUFFER_SZ_def)

definition kbd_inv :: "kbd \<Rightarrow> bool" where
  "kbd_inv k \<longleftrightarrow> unat (buf_start k) < KBD_BUFFER_SZ \<and> unat (buf_size k) \<le> KBD_BUFFER_SZ"

definition kbd_contents :: "kbd \<Rightarrow> u8 list" where
  "kbd_contents k = ring_bytes (kbd_buf k) KBD_BUFFER_SZ (unat (buf_start k)) (unat (buf_size k))"

definition mouse_inv :: "mouse \<Rightarrow> bool" where
  "mouse_inv m \<longleftrightarrow> unat (mouse_start m) < MOUSE_BUFFER_SZ \<and> unat (mouse_size m) \<le> MOUSE_BUFFER_SZ"

definition mouse_contents :: "mouse \<Rightarrow> u8 list" where
  "mouse_contents m = ring_bytes (mouse_buf m) MOUSE_BUFFER_SZ (unat (mouse_start m)) (unat (mouse_size m))"

text \<open>The four facts of a masked ring, for any capacity that fits the counters.\<close>

lemma masked_put:
  fixes st n :: u32
  assumes "unat st < c" "unat n < c" "c \<le> 2 ^ 30"
  shows "unat (n + 1) = Suc (unat n)" "unat (st + n) = unat st + unat n"
  using assms unat_add_small [of n 1] unat_add_small [of st "unat n"] by simp_all

lemma masked_get:
  fixes st n :: u32
  assumes "unat st < c" "0 < unat n" "c \<le> 2 ^ 30"
  shows "unat (n - 1) = unat n - 1" "unat (st + 1) = Suc (unat st)"
proof -
  have "n \<noteq> 0" using assms(2) by auto
  then show "unat (n - 1) = unat n - 1" by (rule unat_minus_one)
  show "unat (st + 1) = Suc (unat st)" using assms unat_add_small [of st 1] by simp
qed

lemma ring_get_at:
  assumes "0 < n" "r < c"
  shows "ring_bytes a c r n = a r # ring_bytes a c (Suc r mod c) (n - 1)"
  using assms ring_get [of a c r "n - 1"] by (simp add: ring_start_mod)

interpretation kq: bounded_fifo kbd_inv kbd_contents kbd_put kbd_get KBD_BUFFER_SZ
proof (unfold_locales, goal_cases)
  case (1 s) then show ?case by (simp add: kbd_inv_def kbd_contents_def)
next
  case (2 s b)
  then show ?case
    using masked_put [of "buf_start s" KBD_BUFFER_SZ "buf_size s"]
    by (simp add: kbd_inv_def kbd_contents_def kbd_put_def KBD_BUFFER_SZ_def)
next
  case (3 s b)
  then show ?case
    using masked_put [of "buf_start s" KBD_BUFFER_SZ "buf_size s"]
      ring_put [of "unat (buf_size s)" KBD_BUFFER_SZ "kbd_buf s" "unat (buf_start s)" b]
    by (simp add: kbd_inv_def kbd_contents_def kbd_put_def kbd_mask) (simp add: KBD_BUFFER_SZ_def)
next
  case (4 s)
  then have n: "0 < unat (buf_size s)" by (auto simp: kbd_contents_def ring_bytes_def)
  then show ?case
    using 4 masked_get [of "buf_start s" KBD_BUFFER_SZ "buf_size s"]
    by (simp add: kbd_inv_def kbd_get_def kbd_mask) (auto simp: KBD_BUFFER_SZ_def)
next
  case (5 s)
  then have n: "0 < unat (buf_size s)" by (auto simp: kbd_contents_def ring_bytes_def)
  then show ?case
    using 5 ring_get_at [OF n, of "unat (buf_start s)" KBD_BUFFER_SZ "kbd_buf s"]
    by (simp add: kbd_contents_def kbd_get_def kbd_inv_def)
next
  case (6 s)
  then have n: "0 < unat (buf_size s)" by (auto simp: kbd_contents_def ring_bytes_def)
  then show ?case
    using 6 ring_get_at [OF n, of "unat (buf_start s)" KBD_BUFFER_SZ "kbd_buf s"]
      masked_get [of "buf_start s" KBD_BUFFER_SZ "buf_size s"]
    by (simp add: kbd_contents_def kbd_get_def kbd_inv_def kbd_mask) (simp add: KBD_BUFFER_SZ_def)
qed

interpretation mq: bounded_fifo mouse_inv mouse_contents mouse_put mouse_get MOUSE_BUFFER_SZ
proof (unfold_locales, goal_cases)
  case (1 s) then show ?case by (simp add: mouse_inv_def mouse_contents_def)
next
  case (2 s b)
  then show ?case
    using masked_put [of "mouse_start s" MOUSE_BUFFER_SZ "mouse_size s"]
    by (simp add: mouse_inv_def mouse_contents_def mouse_put_def MOUSE_BUFFER_SZ_def)
next
  case (3 s b)
  then show ?case
    using masked_put [of "mouse_start s" MOUSE_BUFFER_SZ "mouse_size s"]
      ring_put [of "unat (mouse_size s)" MOUSE_BUFFER_SZ "mouse_buf s" "unat (mouse_start s)" b]
    by (simp add: mouse_inv_def mouse_contents_def mouse_put_def mouse_mask) (simp add: MOUSE_BUFFER_SZ_def)
next
  case (4 s)
  then have n: "0 < unat (mouse_size s)" by (auto simp: mouse_contents_def ring_bytes_def)
  then show ?case
    using 4 masked_get [of "mouse_start s" MOUSE_BUFFER_SZ "mouse_size s"]
    by (simp add: mouse_inv_def mouse_get_def mouse_mask) (auto simp: MOUSE_BUFFER_SZ_def)
next
  case (5 s)
  then have n: "0 < unat (mouse_size s)" by (auto simp: mouse_contents_def ring_bytes_def)
  then show ?case
    using 5 ring_get_at [OF n, of "unat (mouse_start s)" MOUSE_BUFFER_SZ "mouse_buf s"]
    by (simp add: mouse_contents_def mouse_get_def mouse_inv_def)
next
  case (6 s)
  then have n: "0 < unat (mouse_size s)" by (auto simp: mouse_contents_def ring_bytes_def)
  then show ?case
    using 6 ring_get_at [OF n, of "unat (mouse_start s)" MOUSE_BUFFER_SZ "mouse_buf s"]
      masked_get [of "mouse_start s" MOUSE_BUFFER_SZ "mouse_size s"]
    by (simp add: mouse_contents_def mouse_get_def mouse_inv_def mouse_mask) (simp add: MOUSE_BUFFER_SZ_def)
qed

section \<open>What is typed\<close>

text \<open>
  The text a sequence of scancodes stands for, from a given state of Shift, Caps Lock and Ctrl.
\<close>

fun decode :: "bool \<Rightarrow> bool \<Rightarrow> bool \<Rightarrow> u8 list \<Rightarrow> u8 list" where
  "decode sh ca ct [] = []"
| "decode sh ca ct (x # xs) =
     (if x AND 0x80 \<noteq> 0 then
        let r = x AND 0x7F; is_shift = (r = SCANCODE_SHIFT_L \<or> r = SCANCODE_SHIFT_R)
        in decode (sh \<and> \<not> is_shift) ca (ct \<and> (is_shift \<or> r \<noteq> SCANCODE_CTRL_L)) xs
      else
        let sh = (sh \<or> x = SCANCODE_SHIFT_L \<or> x = SCANCODE_SHIFT_R);
            ct = (ct \<or> x = SCANCODE_CTRL_L);
            ca = (ca \<noteq> (x = SCANCODE_CAPSLOCK));
            c = kbdus sh (unat x)
        in (if ct \<and> (x = SCANCODE_KEY_C \<or> x = SCANCODE_KEY_Z) \<or> c = 0 then [] else [caps_char ca c])
           @ decode sh ca ct xs)"

definition type_keys :: "u8 list \<Rightarrow> kbd \<Rightarrow> kbd" where
  "type_keys xs k = fold (\<lambda>x k. fst (keyboard_handler 0x1D x k)) xs k"

lemma kbd_contents_mods [simp]:
  "kbd_contents (k\<lparr>shift := a\<rparr>) = kbd_contents k" "kbd_contents (k\<lparr>ctrl := a\<rparr>) = kbd_contents k"
  "kbd_contents (k\<lparr>caps_lock := a\<rparr>) = kbd_contents k"
  "kbd_inv (k\<lparr>shift := a\<rparr>) = kbd_inv k" "kbd_inv (k\<lparr>ctrl := a\<rparr>) = kbd_inv k"
  "kbd_inv (k\<lparr>caps_lock := a\<rparr>) = kbd_inv k"
  by (simp_all add: kbd_contents_def kbd_inv_def)

lemma kbd_put_mods [simp]:
  "shift (kbd_put b k) = shift k" "ctrl (kbd_put b k) = ctrl k" "caps_lock (kbd_put b k) = caps_lock k"
  by (simp_all add: kbd_put_def)

lemma kbd_modifiers_eq:
  "shift (kbd_modifiers x k) = (shift k \<or> x = SCANCODE_SHIFT_L \<or> x = SCANCODE_SHIFT_R)"
  "ctrl (kbd_modifiers x k) = (ctrl k \<or> x = SCANCODE_CTRL_L)"
  "caps_lock (kbd_modifiers x k) = (caps_lock k \<noteq> (x = SCANCODE_CAPSLOCK))"
  "kbd_contents (kbd_modifiers x k) = kbd_contents k" "kbd_inv (kbd_modifiers x k) = kbd_inv k"
  by (auto simp: kbd_modifiers_def Let_def)

lemma kbd_full: "kbd_inv k \<Longrightarrow> of_nat KBD_BUFFER_SZ \<le> buf_size k \<longleftrightarrow> length (kbd_contents k) = KBD_BUFFER_SZ"
  by (auto simp: kbd_contents_def kbd_inv_def word_le_nat_alt KBD_BUFFER_SZ_def)

text \<open>One interrupt: the ring gains the character if there is one and there is room.\<close>

lemma handler_step:
  assumes "kbd_inv k"
  shows "kbd_inv (fst (keyboard_handler 0x1D x k)) \<and>
    (\<exists>cs. decode (shift k) (caps_lock k) (ctrl k) (x # xs) = cs @
        decode (shift (fst (keyboard_handler 0x1D x k))) (caps_lock (fst (keyboard_handler 0x1D x k)))
          (ctrl (fst (keyboard_handler 0x1D x k))) xs \<and>
      (length (kbd_contents k) + length cs \<le> KBD_BUFFER_SZ \<longrightarrow>
        kbd_contents (fst (keyboard_handler 0x1D x k)) = kbd_contents k @ cs))"
proof (cases "x AND 0x80 = 0")
  case False
  then show ?thesis using assms by (auto simp: keyboard_handler_def Let_def)
next
  case True
  let ?k = "kbd_modifiers x k"
  have h: "fst (keyboard_handler 0x1D x k) =
      (if ctrl ?k \<and> (x = SCANCODE_KEY_C \<or> x = SCANCODE_KEY_Z) \<or> kbdus (shift ?k) (unat x) = 0 then ?k
       else if of_nat KBD_BUFFER_SZ \<le> buf_size ?k then ?k
       else kbd_put (caps_char (caps_lock ?k) (kbdus (shift ?k) (unat x))) ?k)"
    using True by (auto simp: keyboard_handler_def Let_def)
  have i: "kbd_inv ?k" using assms by (simp add: kbd_modifiers_eq)
  have room: "length (kbd_contents ?k) < KBD_BUFFER_SZ" if "\<not> of_nat KBD_BUFFER_SZ \<le> buf_size ?k"
    using that kbd_full [OF i] kq.bounded [OF i] by simp
  show ?thesis
    unfolding h using True i room kq.put_inv [OF i] kq.put_contents [OF i] kbd_full [OF i]
    by (auto simp: Let_def kbd_modifiers_eq)
qed

lemma type_keys_ok:
  assumes "kbd_inv k"
    and "length (kbd_contents k) + length (decode (shift k) (caps_lock k) (ctrl k) xs) \<le> KBD_BUFFER_SZ"
  shows "kbd_inv (type_keys xs k) \<and>
    kbd_contents (type_keys xs k) = kbd_contents k @ decode (shift k) (caps_lock k) (ctrl k) xs"
  using assms
proof (induction xs arbitrary: k)
  case (Cons x xs)
  let ?k = "fst (keyboard_handler 0x1D x k)"
  obtain cs where cs: "kbd_inv ?k"
    "decode (shift k) (caps_lock k) (ctrl k) (x # xs) = cs @ decode (shift ?k) (caps_lock ?k) (ctrl ?k) xs"
    "length (kbd_contents k) + length cs \<le> KBD_BUFFER_SZ \<longrightarrow> kbd_contents ?k = kbd_contents k @ cs"
    using handler_step [OF Cons.prems(1), of x xs] by blast
  then have c: "kbd_contents ?k = kbd_contents k @ cs" using Cons.prems(2) by simp
  then show ?case using Cons.IH [OF cs(1)] Cons.prems(2) cs(2) by (simp add: type_keys_def del: decode.simps)
qed (simp add: type_keys_def)

lemma kbd_read_drain: "kbd_inv k \<Longrightarrow> kbd_read_loop n k = kq.drain n k"
proof (induction n arbitrary: k)
  case (Suc n)
  have e: "kbd_contents k = [] \<longleftrightarrow> buf_size k = 0" by (simp add: kbd_contents_def ring_bytes_def unat_eq_zero)
  show ?case
  proof (cases "kbd_contents k = []")
    case False
    then show ?thesis using Suc.IH [OF kq.get_inv [OF Suc.prems False]] e
      by (simp add: case_prod_beta Let_def)
  qed (use e in simp)
qed simp

section \<open>Mouse packets\<close>

lemma mouse_mods [simp]:
  "mouse_contents (m\<lparr>mouse_cycle := c\<rparr>) = mouse_contents m" "mouse_inv (m\<lparr>mouse_cycle := c\<rparr>) = mouse_inv m"
  "mouse_contents (m\<lparr>mouse_packet := q\<rparr>) = mouse_contents m" "mouse_inv (m\<lparr>mouse_packet := q\<rparr>) = mouse_inv m"
  "mouse_packet (mouse_put b m) = mouse_packet m" "mouse_cycle (mouse_put b m) = mouse_cycle m"
  by (simp_all add: mouse_contents_def mouse_inv_def mouse_put_def)

lemma mouse_room:
  "mouse_size m < of_nat MOUSE_BUFFER_SZ \<longleftrightarrow> length (mouse_contents m) < MOUSE_BUFFER_SZ"
  by (simp add: mouse_contents_def word_less_nat_alt MOUSE_BUFFER_SZ_def)

lemma mouse_store_ok:
  assumes "mouse_inv m"
  shows "mouse_inv (mouse_store i m)" "mouse_packet (mouse_store i m) = mouse_packet m"
    "mouse_cycle (mouse_store i m) = mouse_cycle m"
    "mouse_contents (mouse_store i m) = mouse_contents m @
       (if length (mouse_contents m) < MOUSE_BUFFER_SZ then [mouse_packet m i] else [])"
  using assms mq.put_inv [OF assms] mq.put_contents [OF assms] by (simp_all add: mouse_store_def mouse_room)

text \<open>The three interrupts of one packet; the ring takes as many of its bytes as fit.\<close>

definition send_packet :: "u8 \<times> u8 \<times> u8 \<Rightarrow> mouse \<Rightarrow> mouse" where
  "send_packet q m =
     (case q of (b0, b1, b2) \<Rightarrow>
        fst (mouse_handler 0x21 b2 (fst (mouse_handler 0x21 b1 (fst (mouse_handler 0x21 b0 m))))))"

lemma send_packet_ok:
  assumes "mouse_inv m" "mouse_cycle m = 0" "b0 AND 8 \<noteq> 0"
  shows "mouse_inv (send_packet (b0, b1, b2) m) \<and> mouse_cycle (send_packet (b0, b1, b2) m) = 0 \<and>
    mouse_contents (send_packet (b0, b1, b2) m) =
      mouse_contents m @ take (MOUSE_BUFFER_SZ - length (mouse_contents m)) [b0, b1, b2]"
proof -
  define m0 where "m0 = m\<lparr>mouse_packet := (mouse_packet m)(0 := b0, 1 := b1, 2 := b2), mouse_cycle := 0\<rparr>"
  have s: "send_packet (b0, b1, b2) m = mouse_store 2 (mouse_store 1 (mouse_store 0 m0))"
    using assms(2,3) by (simp add: send_packet_def mouse_handler_def mouse_byte_def m0_def)
  have i0: "mouse_inv m0" "mouse_contents m0 = mouse_contents m" "mouse_cycle m0 = 0"
    "mouse_packet m0 0 = b0" "mouse_packet m0 1 = b1" "mouse_packet m0 2 = b2"
    using assms(1) by (simp_all add: m0_def)
  note st = mouse_store_ok
  note i1 = st [OF i0(1), of 0] and i2 = st [OF st(1) [OF i0(1), of 0], of 1]
  note i3 = st [OF st(1) [OF st(1) [OF i0(1), of 0], of 1], of 2]
  have "take (MOUSE_BUFFER_SZ - n) [b0, b1, b2] =
      (if n < MOUSE_BUFFER_SZ then [b0] else []) @ (if Suc n < MOUSE_BUFFER_SZ then [b1] else []) @
      (if Suc (Suc n) < MOUSE_BUFFER_SZ then [b2] else [])" for n
    by (cases "MOUSE_BUFFER_SZ - n" rule: nat.exhaust; cases "MOUSE_BUFFER_SZ - n - 1" rule: nat.exhaust;
        cases "MOUSE_BUFFER_SZ - n - 2" rule: nat.exhaust) auto
  then show ?thesis unfolding s using i0 i1 i2 i3 by auto
qed

lemma mouse_take_drain:
  "mouse_inv m \<Longrightarrow> n \<le> length (mouse_contents m) \<Longrightarrow> mouse_take n m = mq.drain n m"
proof (induction n arbitrary: m)
  case (Suc n)
  then have ne: "mouse_contents m \<noteq> []" by auto
  then show ?case
    using Suc.IH [OF mq.get_inv [OF Suc.prems(1) ne]] Suc.prems mq.get_tl [OF Suc.prems(1) ne]
    by (simp add: case_prod_beta Let_def)
qed simp

lemma mouse_read_loop_ok:
  assumes "mouse_inv m"
  shows "\<exists>k. k \<le> requested \<and> fst (mouse_read_loop requested m) = take k (mouse_contents m) \<and>
    mouse_contents (snd (mouse_read_loop requested m)) = drop k (mouse_contents m) \<and>
    mouse_inv (snd (mouse_read_loop requested m)) \<and>
    (3 dvd requested \<and> requested \<le> length (mouse_contents m) \<longrightarrow> k = requested)"
  using assms
proof (induction requested arbitrary: m rule: less_induct)
  case (less requested)
  have sz: "3 \<le> mouse_size m \<longleftrightarrow> 3 \<le> length (mouse_contents m)"
    by (simp add: mouse_contents_def word_le_nat_alt)
  show ?case
  proof (cases "0 < requested \<and> 3 \<le> mouse_size m")
    case True
    let ?n = "min 3 requested" and ?m = "snd (mq.drain (min 3 requested) m)"
    have d: "fst (mq.drain ?n m) = take ?n (mouse_contents m)" "mouse_contents ?m = drop ?n (mouse_contents m)"
      "mouse_inv ?m" using mq.drain_ok [OF less.prems, of ?n] by auto
    obtain k where k: "k \<le> requested - 3" "fst (mouse_read_loop (requested - 3) ?m) = take k (mouse_contents ?m)"
      "mouse_contents (snd (mouse_read_loop (requested - 3) ?m)) = drop k (mouse_contents ?m)"
      "mouse_inv (snd (mouse_read_loop (requested - 3) ?m))"
      "3 dvd requested - 3 \<and> requested - 3 \<le> length (mouse_contents ?m) \<longrightarrow> k = requested - 3"
      using less.IH [OF _ d(3), of "requested - 3"] True by auto
    have r: "mouse_read_loop requested m =
        (take ?n (mouse_contents m) @ fst (mouse_read_loop (requested - 3) ?m),
         snd (mouse_read_loop (requested - 3) ?m))"
      using True sz mouse_take_drain [OF less.prems, of ?n] d(1)
      by (subst mouse_read_loop.simps) (simp add: case_prod_beta min.coboundedI1)
    have len: "3 \<le> length (mouse_contents m)" using True sz by simp
    have "?n + k = requested" if "3 dvd requested" "requested \<le> length (mouse_contents m)"
    proof -
      have "3 \<le> requested" using that True by (auto dest: dvd_imp_le)
      then show ?thesis using k(5) that d(2) by (simp add: dvd_diff_nat min_def)
    qed
    then show ?thesis
      using k(1-4) d len True
      by (intro exI [of _ "?n + k"]) (auto simp: r take_add drop_drop add.commute [of k "?n"])
  next
    case False
    have "requested = 0" if "3 dvd requested" "requested \<le> length (mouse_contents m)"
    proof (rule ccontr)
      assume "requested \<noteq> 0"
      then have "3 \<le> requested" using that(1) by (auto dest: dvd_imp_le)
      then show False using False sz that(2) \<open>requested \<noteq> 0\<close> by auto
    qed
    then show ?thesis using False less.prems
      by (intro exI [of _ 0]) (subst (1 2 3) mouse_read_loop.simps, auto)
  qed
qed

section \<open>Properties\<close>

definition idle_kbd :: kbd where
  "idle_kbd = \<lparr>shift = False, caps_lock = False, ctrl = False, kbd_buf = (\<lambda>_. 0),
     buf_start = 127, buf_size = 0\<rparr>"

lemma idle_kbd_ok: "kbd_inv idle_kbd" "kbd_contents idle_kbd = []"
  by (simp_all add: idle_kbd_def kbd_inv_def kbd_contents_def ring_bytes_def KBD_BUFFER_SZ_def)

text \<open>
  C12. Typing and reading: after any sequence of keyboard interrupts whose text fits the 128-byte
  buffer, \<^verbatim>\<open>keyboard_read_fs\<close> returns the oldest bytes of the text that was there
  followed by the text the scancodes stand for (Shift, Caps Lock and Ctrl applied), as many as
  requested, in order, and advances the node's offset by that number.
\<close>

theorem keyboard_types_text:
  assumes "kbd_inv k"
    and "length (kbd_contents k) + length (decode (shift k) (caps_lock k) (ctrl k) xs) \<le> KBD_BUFFER_SZ"
  shows "\<exists>k'. keyboard_read_fs off sz units (type_keys xs k) =
      (let txt = kbd_contents k @ decode (shift k) (caps_lock k) (ctrl k) xs; n = unat (sz * units)
       in (take n txt, off + of_nat (min n (length txt)), k')) \<and>
    kbd_contents k' = drop (unat (sz * units)) (kbd_contents k @ decode (shift k) (caps_lock k) (ctrl k) xs) \<and>
    kbd_inv k'"
proof -
  let ?txt = "kbd_contents k @ decode (shift k) (caps_lock k) (ctrl k) xs"
  have t: "kbd_inv (type_keys xs k)" "kbd_contents (type_keys xs k) = ?txt"
    using type_keys_ok [OF assms] by auto
  have r: "keyboard_read_fs off sz units (type_keys xs k) =
      (take n ?txt, off + of_nat (length (take n ?txt)), snd (kq.drain n (type_keys xs k)))"
    if "n = unat (sz * units)" for n
    using kq.drain_ok [OF t(1), of n] t(2) that
    by (simp add: keyboard_read_fs_def kbd_read_drain [OF t(1)] case_prod_beta del: take_append)
  show ?thesis
    using kq.drain_ok [OF t(1), of "unat (sz * units)"] t(2) r [OF refl]
    by (simp add: Let_def min.commute length_take del: take_append length_append drop_append)
qed

theorem keyboard_types_text_witness:
  "\<exists>k'. keyboard_read_fs 0 1 9 (type_keys [0x2A, 0x23, 0xAA, 0x17] idle_kbd) = ([72, 105], 2, k')"
proof -
  have d: "decode (shift idle_kbd) (caps_lock idle_kbd) (ctrl idle_kbd) [0x2A, 0x23, 0xAA, 0x17] = [72, 105]"
    by (simp add: idle_kbd_def SCANCODE_SHIFT_L_def SCANCODE_SHIFT_R_def SCANCODE_CTRL_L_def
        SCANCODE_CAPSLOCK_def SCANCODE_KEY_C_def SCANCODE_KEY_Z_def kbdus_def kbdus_plain_def
        kbdus_shift_def caps_char_def Let_def)
  show ?thesis
    using keyboard_types_text [OF idle_kbd_ok(1), of "[0x2A, 0x23, 0xAA, 0x17]" 0 1 9]
    unfolding d idle_kbd_ok(2) by (auto simp: KBD_BUFFER_SZ_def Let_def)
qed

definition idle_mouse :: mouse where
  "idle_mouse = \<lparr>mouse_buf = (\<lambda>_. 0), mouse_start = 250, mouse_size = 0, mouse_cycle = 0,
     mouse_packet = (\<lambda>_. 0)\<rparr>"

definition packet_bytes :: "u8 \<times> u8 \<times> u8 \<Rightarrow> u8 list" where
  "packet_bytes q = (case q of (b0, b1, b2) \<Rightarrow> [b0, b1, b2])"

lemma send_packets:
  assumes "mouse_inv m" "mouse_cycle m = 0" "\<forall>(b0, _)\<in>set ps. b0 AND 8 \<noteq> 0"
    "length (mouse_contents m) + 3 * length ps \<le> MOUSE_BUFFER_SZ"
  shows "mouse_inv (fold send_packet ps m) \<and> mouse_cycle (fold send_packet ps m) = 0 \<and>
    mouse_contents (fold send_packet ps m) = mouse_contents m @ concat (map packet_bytes ps)"
  using assms
proof (induction ps arbitrary: m)
  case (Cons q ps)
  obtain b0 b1 b2 where q: "q = (b0, b1, b2)" by (cases q) auto
  have "take (MOUSE_BUFFER_SZ - length (mouse_contents m)) [b0, b1, b2] = [b0, b1, b2]"
    using Cons.prems(4) by simp
  then show ?case
    using send_packet_ok [OF Cons.prems(1,2), of b0 b1 b2] Cons q by (auto simp: packet_bytes_def)
qed simp

lemma length_packets: "length (concat (map packet_bytes ps)) = 3 * length ps"
  by (induction ps) (auto simp: packet_bytes_def)

text \<open>
  Mouse packets arrive whole: after interrupts for a list of packets (each first byte with its
  sync bit) that fit the buffer, reading three bytes per packet returns exactly the bytes of
  these packets in order and leaves the driver between packets with an empty buffer.
\<close>

theorem mouse_packets_in_order:
  assumes "mouse_inv m" and "mouse_cycle m = 0" and "mouse_contents m = []"
    and "\<forall>(b0, _)\<in>set ps. b0 AND 8 \<noteq> 0" and "3 * length ps \<le> MOUSE_BUFFER_SZ"
  shows "\<exists>m'. mouse_read_fs off (of_nat (3 * length ps)) (fold send_packet ps m) =
      (concat (map packet_bytes ps), off + of_nat (3 * length ps), m') \<and>
    mouse_contents m' = [] \<and> mouse_inv m'"
proof -
  let ?m = "fold send_packet ps m" and ?r = "3 * length ps"
  have m: "mouse_inv ?m" "mouse_contents ?m = concat (map packet_bytes ps)"
    using send_packets [OF assms(1,2,4)] assms(3,5) by auto
  have "unat (of_nat ?r :: u32) = ?r" using assms(5) by (intro unat_of_nat_small) (simp add: MOUSE_BUFFER_SZ_def)
  moreover have "fst (mouse_read_loop ?r ?m) = concat (map packet_bytes ps) \<and>
      mouse_contents (snd (mouse_read_loop ?r ?m)) = [] \<and> mouse_inv (snd (mouse_read_loop ?r ?m))"
    using mouse_read_loop_ok [OF m(1), of ?r] m(2) length_packets [of ps] by auto
  ultimately show ?thesis by (simp add: mouse_read_fs_def case_prod_beta length_packets)
qed

lemma idle_mouse_ok: "mouse_inv idle_mouse" "mouse_cycle idle_mouse = 0" "mouse_contents idle_mouse = []"
  by (simp_all add: idle_mouse_def mouse_inv_def mouse_contents_def ring_bytes_def MOUSE_BUFFER_SZ_def)

theorem mouse_packets_in_order_witness:
  "\<exists>m'. mouse_read_fs 0 6 (fold send_packet [(9, 1, 2), (8, 3, 4)] idle_mouse) = ([9, 1, 2, 8, 3, 4], 6, m')"
  using mouse_packets_in_order [OF idle_mouse_ok, of "[(9, 1, 2), (8, 3, 4)]" 0]
  by (auto simp: MOUSE_BUFFER_SZ_def packet_bytes_def)

text \<open>
  The buffer holds 256 bytes, which is not a multiple of three, and the handler checks the room
  byte by byte: a packet that arrives when 255 bytes are waiting leaves only its first byte in the
  buffer. The reader, which takes three bytes at a time, gets the 85 whole packets and then that
  byte glued to the next packet.
\<close>

theorem mouse_overflow_splits_packet:
  assumes "mouse_inv m" and "mouse_cycle m = 0" and "length (mouse_contents m) = 255" and "b0 AND 8 \<noteq> 0"
  shows "mouse_contents (send_packet (b0, b1, b2) m) = mouse_contents m @ [b0]"
  using send_packet_ok [OF assms(1,2,4), of b1 b2] assms(3) by (simp add: MOUSE_BUFFER_SZ_def)

theorem mouse_overflow_splits_packet_witness:
  "\<exists>m. length (mouse_contents m) = 255 \<and> mouse_contents (send_packet (8, 1, 2) m) = mouse_contents m @ [8]"
proof -
  let ?m = "idle_mouse\<lparr>mouse_size := 255\<rparr>"
  have "mouse_inv ?m" "mouse_cycle ?m = 0" "length (mouse_contents ?m) = 255"
    by (simp_all add: idle_mouse_def mouse_inv_def mouse_contents_def MOUSE_BUFFER_SZ_def)
  then show ?thesis using mouse_overflow_splits_packet [of ?m 8 1 2] by (intro exI [of _ ?m]) simp
qed

end
