(* ===== verification/Process.thy ===== *)
theory Process
  imports Vfs KMalloc Pipe Input "HOL-Library.Monad_Syntax"
begin

text \<open>
  Processes, \<^verbatim>\<open>kernel/src/proc/process.c\<close>: the process table, the state of a process,
  children, open files and reaping. Signals, the scheduler with the sleep queue, and fork have
  theories of their own.

  A pointer into the process table is an index. A trap frame (\<^verbatim>\<open>struct regs\<close>) and the
  frame of a first run lie on a kernel stack; they are kept in two stores by address. Kernel stacks
  come from the kernel heap; file records, regions and nodes are values, as in the file systems, and
  a node that is given back is marked. \<open>None\<close> is a call that does not return: an endless
  walk of a heap list, a store through an unmapped user address, or a call through a pointer no
  driver installs.
\<close>

section \<open>State\<close>

definition MAX_PROCESSES :: nat where "MAX_PROCESSES = 10"
definition MAX_FILES :: nat where "MAX_FILES = 32"
definition NSIG :: nat where "NSIG = 32"
definition KERNEL_STACK_SIZE :: u32 where "KERNEL_STACK_SIZE = 2 * 4096"
definition USER_CODE_BASE :: u32 where "USER_CODE_BASE = 0x08048000"
definition USER_STACK_TOP :: u32 where "USER_STACK_TOP = 0xA0000000"
definition SIGNAL_TRAMPOLINE_VADDR :: u32 where "SIGNAL_TRAMPOLINE_VADDR = 0x7FFFE000"

definition SIG_DFL :: u32 where "SIG_DFL = 0"
definition SIG_IGN :: u32 where "SIG_IGN = 1"
definition SIGKILL :: nat where "SIGKILL = 9"
definition SIGSTOP :: nat where "SIGSTOP = 17"
definition SIGCONT :: nat where "SIGCONT = 18"
definition SIGCHLD :: nat where "SIGCHLD = 19"
definition SIGTTIN :: nat where "SIGTTIN = 21"
definition SIGTTOU :: nat where "SIGTTOU = 22"

definition SIG_BIT :: "nat \<Rightarrow> u32" where "SIG_BIT sig = push_bit sig 1"

datatype process_state = NEW | READY | RUNNING | BLOCKED | TERMINATED | STOPPED

record regs =
  t_gs :: u32
  t_fs :: u32
  t_es :: u32
  t_ds :: u32
  t_edi :: u32
  t_esi :: u32
  t_ebp :: u32
  t_esp :: u32
  t_ebx :: u32
  t_edx :: u32
  t_ecx :: u32
  t_eax :: u32
  t_int_no :: u32
  t_err_code :: u32
  t_eip :: u32
  t_cs :: u32
  t_eflags :: u32
  t_useresp :: u32
  t_ss :: u32

record iret_frame =
  i_eip :: u32
  i_cs :: u32
  i_eflags :: u32
  i_esp :: u32
  i_ss :: u32

record registers =
  r_eax :: u32
  r_ebx :: u32
  r_ecx :: u32
  r_edx :: u32
  r_esi :: u32
  r_edi :: u32
  r_ebp :: u32
  r_esp :: u32
  r_eip :: u32
  r_eflags :: u32
  r_cr3 :: u32
  r_cs :: u32
  r_ds :: u32
  r_es :: u32
  r_fs :: u32
  r_gs :: u32
  r_ss :: u32

record signal_state =
  pending :: u32
  disposition :: "nat \<Rightarrow> u32"
  sigmask :: u32
  saved_mask :: u32
  stopped_by :: u32
  in_handler :: bool
  sigframe :: regs

record vma =
  vstart :: u32
  vend :: u32
  vflags :: u32

record kfile =
  fflags :: u8
  fnode :: "nat option"

record pcb =
  pid :: u32
  pstate :: process_state
  kernel_stack_top :: u32
  pregs :: registers
  memory_regions :: "vma list"
  files_open :: "nat \<Rightarrow> kfile option"
  children_id :: "nat \<Rightarrow> u32"
  parent_id :: u32
  sig :: signal_state
  waiting_on_pid :: u32
  pgid :: u32
  num_children :: u32
  proc_name :: "nat \<Rightarrow> u8"
  kernel_stack_alloc :: u32
  kernel_stack_bottom :: u32
  cwd :: cstring
  has_framebuffer :: bool
  wake_tick :: u32
  sleep_next :: "nat option"

text \<open>What the processor continues with after a switch: a trap frame or the frame of a first run.\<close>

datatype cpu_context = Trap regs | First iret_frame

record kern =
  procs :: "nat \<Rightarrow> pcb"
  next_pid :: u32
  num_processes :: u32
  cur_proccess_id :: u32
  current_process :: "nat option"
  foreground_pgid :: u32
  sleep_queue :: "nat option"
  ticks :: u32
  frames :: "u32 \<Rightarrow> regs"
  iframes :: "u32 \<Rightarrow> iret_frame"
  cpu :: cpu_context
  tss_esp0 :: u32
  tss_ss0 :: u32
  kheap :: heap
  kfs :: fsys
  freed_nodes :: "nat set"
  pipes :: "nat \<Rightarrow> pipe_buf"
  next_pipe :: nat
  freed_pipes :: "nat set"
  text_restored :: nat
  children_oob :: bool
  signal_trampoline_phys :: u32
  kbd_state :: kbd
  mouse_state :: mouse

definition upd :: "nat \<Rightarrow> (pcb \<Rightarrow> pcb) \<Rightarrow> kern \<Rightarrow> kern" where
  "upd i f k = k\<lparr>procs := (procs k)(i := f (procs k i))\<rparr>"

definition set_state :: "nat \<Rightarrow> process_state \<Rightarrow> kern \<Rightarrow> kern" where
  "set_state i st = upd i (\<lambda>p. p\<lparr>pstate := st\<rparr>)"

definition upd_sig :: "nat \<Rightarrow> (signal_state \<Rightarrow> signal_state) \<Rightarrow> kern \<Rightarrow> kern" where
  "upd_sig i f = upd i (\<lambda>p. p\<lparr>sig := f (sig p)\<rparr>)"

definition upd_vm :: "(vm \<Rightarrow> vm) \<Rightarrow> kern \<Rightarrow> kern" where
  "upd_vm f k = k\<lparr>kheap := (kheap k)\<lparr>hvm := f (hvm (kheap k))\<rparr>\<rparr>"

definition upd_frame :: "u32 \<Rightarrow> (regs \<Rightarrow> regs) \<Rightarrow> kern \<Rightarrow> kern" where
  "upd_frame a f k = k\<lparr>frames := (frames k)(a := f (frames k a))\<rparr>"

section \<open>Processes and their signals\<close>

definition init_process_signals :: "pcb option \<Rightarrow> pcb \<Rightarrow> pcb" where
  "init_process_signals parent p =
     (let p = p\<lparr>sig := (sig p)\<lparr>pending := 0, stopped_by := 0, saved_mask := 0, in_handler := False\<rparr>, waiting_on_pid := 0\<rparr>
      in case parent of
           Some q \<Rightarrow>
             p\<lparr>pgid := pgid q,
               sig := (sig p)\<lparr>sigmask := sigmask (sig q),
                 disposition := (\<lambda>i. if i < NSIG then disposition (sig q) i else disposition (sig p) i)\<rparr>\<rparr>
         | None \<Rightarrow>
             p\<lparr>pgid := pid p,
               sig := (sig p)\<lparr>sigmask := 0,
                 disposition := (\<lambda>i. if i < NSIG then SIG_DFL else disposition (sig p) i)(SIGCHLD := SIG_IGN)\<rparr>\<rparr>)"

definition alloc_kernel_stack :: "nat \<Rightarrow> kern \<Rightarrow> (bool \<times> kern) option" where
  "alloc_kernel_stack i k =
     do {
       (kstack_virt, h) \<leftarrow> malloc KERNEL_STACK_SIZE (kheap k);
       let k = k\<lparr>kheap := h\<rparr>;
       if kstack_virt = 0 then Some (False, k)
       else
         let kstack_base = kstack_virt + KERNEL_STACK_SIZE
         in Some (True, upd i (\<lambda>p. p\<lparr>kernel_stack_alloc := kstack_virt, kernel_stack_bottom := kstack_virt,
                                     kernel_stack_top := (kstack_base - 32) AND NOT 0xF\<rparr>) k)
     }"

definition get_process_by_pid :: "kern \<Rightarrow> u32 \<Rightarrow> nat option" where
  "get_process_by_pid k p = List.find (\<lambda>i. pid (procs k i) = p) [0..<unat (num_processes k)]"

definition zero_registers :: registers where
  "zero_registers = \<lparr>r_eax = 0, r_ebx = 0, r_ecx = 0, r_edx = 0, r_esi = 0, r_edi = 0, r_ebp = 0, r_esp = 0, r_eip = 0,
     r_eflags = 0, r_cr3 = 0, r_cs = 0, r_ds = 0, r_es = 0, r_fs = 0, r_gs = 0, r_ss = 0\<rparr>"

definition zero_regs :: regs where
  "zero_regs = \<lparr>t_gs = 0, t_fs = 0, t_es = 0, t_ds = 0, t_edi = 0, t_esi = 0, t_ebp = 0, t_esp = 0, t_ebx = 0, t_edx = 0,
     t_ecx = 0, t_eax = 0, t_int_no = 0, t_err_code = 0, t_eip = 0, t_cs = 0, t_eflags = 0, t_useresp = 0, t_ss = 0\<rparr>"

text \<open>An entry of the process table after \<^verbatim>\<open>memset(process_table, 0, ...)\<close>.\<close>

definition zero_pcb :: pcb where
  "zero_pcb = \<lparr>pid = 0, pstate = NEW, kernel_stack_top = 0, pregs = zero_registers, memory_regions = [],
     files_open = (\<lambda>_. None), children_id = (\<lambda>_. 0), parent_id = 0,
     sig = \<lparr>pending = 0, disposition = (\<lambda>_. 0), sigmask = 0, saved_mask = 0, stopped_by = 0, in_handler = False,
            sigframe = zero_regs\<rparr>,
     waiting_on_pid = 0, pgid = 0, num_children = 0, proc_name = (\<lambda>_. 0), kernel_stack_alloc = 0,
     kernel_stack_bottom = 0, cwd = [], has_framebuffer = False, wake_tick = 0, sleep_next = None\<rparr>"

text \<open>The idle process. The address of \<^verbatim>\<open>idle_loop\<close> is a parameter.\<close>

definition init_multitasking :: "u32 \<Rightarrow> kern \<Rightarrow> kern option" where
  "init_multitasking idle_loop k =
     do {
       let k = k\<lparr>procs := (\<lambda>_. zero_pcb), current_process := None, next_pid := 1, num_processes := 0\<rparr>;
       let k = upd 0 (\<lambda>p. init_process_signals None (p\<lparr>pid := 0, pstate := NEW, parent_id := 0, num_children := 0\<rparr>)) k;
       let k = upd 0 (\<lambda>p. p\<lparr>proc_name := (proc_name p)(0 := 0x69, 1 := 0x64, 2 := 0x6C, 3 := 0x65, 4 := 0), cwd := [SLASH]\<rparr>) k;
       (_, k) \<leftarrow> alloc_kernel_stack 0 k;
       let top = kernel_stack_top (procs k 0);
       let k = k\<lparr>iframes := (iframes k)(top := \<lparr>i_eip = idle_loop, i_cs = 0x08, i_eflags = 0x202, i_esp = top, i_ss = 0x10\<rparr>)\<rparr>;
       let k = upd 0 (\<lambda>p. p\<lparr>pregs := (pregs p)\<lparr>r_cs := 0x08, r_ds := 0x10, r_es := 0x10, r_fs := 0x10, r_gs := 0x10,
                                   r_ss := 0x10, r_eflags := 0x202, r_cr3 := vmm_get_directory (hvm (kheap k))\<rparr>\<rparr>) k;
       Some (k\<lparr>num_processes := 1\<rparr>)
     }"

text \<open>
  The page with the code that ends a signal handler. The code itself
  (\<^verbatim>\<open>signal_trampoline.asm\<close>) is a parameter.
\<close>

definition init_signal_trampoline :: "u8 list \<Rightarrow> kern \<Rightarrow> kern" where
  "init_signal_trampoline code k =
     (let (a, v) = palloc (hvm (kheap k));
          k = (upd_vm (\<lambda>_. v) k)\<lparr>signal_trampoline_phys := a\<rparr>
      in if a = 0 then k
         else upd_vm (\<lambda>s. fold (\<lambda>i s. s\<lparr>kmem := (kmem s)(a + KERNEL_VIRTUAL_BASE + of_nat i := code ! i)\<rparr>) [0..<length code]
                             (clear_page (a + KERNEL_VIRTUAL_BASE) s)) k)"

definition map_signal_trampoline :: "u32 \<Rightarrow> kern \<Rightarrow> kern" where
  "map_signal_trampoline page_dir k =
     (if signal_trampoline_phys k = 0 then k
      else
        let old_cr3 = cr3 (hvm (kheap k));
            k = upd_vm (set_page_dir page_dir) k;
            k = upd_vm (map_address_user SIGNAL_TRAMPOLINE_VADDR (signal_trampoline_phys k)) k
        in upd_vm (set_page_dir old_cr3) k)"

section \<open>Children\<close>

definition remove_child_from_parent :: "u32 \<Rightarrow> pcb \<Rightarrow> pcb" where
  "remove_child_from_parent child_pid p =
     (case List.find (\<lambda>i. children_id p i = child_pid) [0..<unat (num_children p)] of
        None \<Rightarrow> p
      | Some i \<Rightarrow>
          p\<lparr>children_id := (children_id p)(i := children_id p (unat (num_children p - 1))), num_children := num_children p - 1\<rparr>)"

definition kill_children_of :: "u32 \<Rightarrow> kern \<Rightarrow> kern" where
  "kill_children_of parent_pid k =
     fold (\<lambda>i k. if parent_id (procs k i) = parent_pid \<and> pstate (procs k i) \<noteq> TERMINATED
                 then set_state i TERMINATED k else k) [0..<MAX_PROCESSES] k"

text \<open>The loop that the three searches share: the first listed child that exists and satisfies a test.\<close>

definition find_child :: "(process_state \<Rightarrow> bool) \<Rightarrow> kern \<Rightarrow> u32 \<Rightarrow> nat option" where
  "find_child Q k parent_pid =
     (case get_process_by_pid k parent_pid of
        None \<Rightarrow> None
      | Some i \<Rightarrow>
          (let p = procs k i;
               test = (\<lambda>c. case get_process_by_pid k (children_id p c) of None \<Rightarrow> False | Some j \<Rightarrow> Q (pstate (procs k j)))
           in case List.find test [0..<unat (num_children p)] of
                None \<Rightarrow> None
              | Some c \<Rightarrow> get_process_by_pid k (children_id p c)))"

definition find_terminated_child :: "kern \<Rightarrow> u32 \<Rightarrow> u32" where
  "find_terminated_child k parent_pid =
     (case find_child (\<lambda>st. st = TERMINATED) k parent_pid of None \<Rightarrow> 0 | Some j \<Rightarrow> pid (procs k j))"

definition find_stopped_child :: "kern \<Rightarrow> u32 \<Rightarrow> u32" where
  "find_stopped_child k parent_pid =
     (case find_child (\<lambda>st. st = STOPPED) k parent_pid of None \<Rightarrow> 0 | Some j \<Rightarrow> pid (procs k j))"

definition has_live_children :: "kern \<Rightarrow> u32 \<Rightarrow> bool" where
  "has_live_children k parent_pid = (find_child (\<lambda>st. st \<noteq> TERMINATED \<and> st \<noteq> STOPPED) k parent_pid \<noteq> None)"

section \<open>Open files and reaping\<close>

definition set_refcount :: "nat \<Rightarrow> u32 \<Rightarrow> kern \<Rightarrow> kern" where
  "set_refcount n c k = k\<lparr>kfs := put_node n ((nodes (kfs k) n)\<lparr>refcount := c\<rparr>) (kfs k)\<rparr>"

text \<open>\<^verbatim>\<open>pipe_close_fn\<close> on the endpoint \<open>n\<close>; its \<^verbatim>\<open>ptr\<close> is the number of the buffer.\<close>

definition close_pipe_end :: "nat \<Rightarrow> kern \<Rightarrow> kern" where
  "close_pipe_end n k =
     (let node = nodes (kfs k) n
      in case ptr node of
           None \<Rightarrow> k
         | Some b \<Rightarrow>
             (let (_, pb, gone) = pipe_close_fn \<lparr>pn_open = True, pn_impl = (impl node \<noteq> 0)\<rparr> (pipes k b)
              in k\<lparr>pipes := (pipes k)(b := pb), freed_pipes := (if gone then insert b (freed_pipes k) else freed_pipes k),
                   kfs := put_node n (node\<lparr>ptr := None\<rparr>) (kfs k)\<rparr>))"

definition close_node :: "nat \<Rightarrow> kern \<Rightarrow> kern option" where
  "close_node n k =
     (case close_fs n (kfs k) of
        Ret s \<Rightarrow> Some (k\<lparr>kfs := s\<rparr>)
      | Device PipeFn \<Rightarrow> Some (close_pipe_end n k)
      | Device _ \<Rightarrow> None)"

text \<open>
  The steps that close one descriptor in \<^verbatim>\<open>process_cleanup_child\<close>, \<^verbatim>\<open>syscall_exit\<close>,
  \<^verbatim>\<open>syscall_exec\<close> and \<^verbatim>\<open>syscall_close\<close>: drop the reference and close and free the
  node with the last one, then empty the slot.
\<close>

definition drop_node :: "nat \<Rightarrow> kern \<Rightarrow> kern option" where
  "drop_node n k =
     (let k = (if 0 < refcount (nodes (kfs k) n) then set_refcount n (refcount (nodes (kfs k) n) - 1) k else k)
      in if refcount (nodes (kfs k) n) = 0
         then map_option (\<lambda>k. k\<lparr>freed_nodes := insert n (freed_nodes k)\<rparr>) (close_node n k)
         else Some k)"

definition close_slot :: "nat \<Rightarrow> nat \<Rightarrow> kern \<Rightarrow> kern option" where
  "close_slot i fd k =
     (case files_open (procs k i) fd of
        None \<Rightarrow> Some k
      | Some fp \<Rightarrow>
          do {
            k \<leftarrow> (case fnode fp of None \<Rightarrow> Some k | Some n \<Rightarrow> drop_node n k);
            Some (upd i (\<lambda>p. p\<lparr>files_open := (files_open p)(fd := None)\<rparr>) k)
          })"

fun close_slots :: "nat \<Rightarrow> nat list \<Rightarrow> kern \<Rightarrow> kern option" where
  "close_slots i [] k = Some k"
| "close_slots i (fd # fds) k = Option.bind (close_slot i fd k) (close_slots i fds)"

definition free_kernel_stack :: "nat \<Rightarrow> kern \<Rightarrow> kern option" where
  "free_kernel_stack i k =
     (if kernel_stack_alloc (procs k i) \<noteq> 0 then
        do {
          h \<leftarrow> free (kernel_stack_alloc (procs k i)) (kheap k);
          Some (upd i (\<lambda>p. p\<lparr>kernel_stack_alloc := 0\<rparr>) (k\<lparr>kheap := h\<rparr>))
        }
      else Some k)"

definition free_address_space :: "nat \<Rightarrow> kern \<Rightarrow> kern" where
  "free_address_space i k =
     (if r_cr3 (pregs (procs k i)) \<noteq> 0 then
        let saved_dir = vmm_get_directory (hvm (kheap k));
            k = upd_vm switch_to_kernel_page_dir k;
            k = upd_vm (vmm_free_directory (r_cr3 (pregs (procs k i)))) k;
            k = upd_vm (set_page_dir saved_dir) k
        in upd i (\<lambda>p. p\<lparr>pregs := (pregs p)\<lparr>r_cr3 := 0\<rparr>\<rparr>) k
      else k)"

definition process_cleanup_child :: "nat \<Rightarrow> kern \<Rightarrow> kern option" where
  "process_cleanup_child i k =
     do {
       let k = upd_sig i (\<lambda>g. g\<lparr>pending := 0, stopped_by := 0\<rparr>) k;
       k \<leftarrow> free_kernel_stack i k;
       let k = free_address_space i k;
       k \<leftarrow> close_slots i [0..<MAX_FILES] k;
       Some (upd i (\<lambda>p. p\<lparr>memory_regions := []\<rparr>) k)
     }"

text \<open>
  \<^verbatim>\<open>tf[11]\<close> is the saved EAX of the parent. \<open>current_process\<close> is compared as a pointer.
\<close>

definition wake_parent :: "u32 \<Rightarrow> bool \<Rightarrow> nat \<Rightarrow> kern \<Rightarrow> kern" where
  "wake_parent child_pid cleanup parent k =
     (let k = (if cleanup then upd parent (remove_child_from_parent child_pid) k else k);
          k = upd_frame (r_esp (pregs (procs k parent))) (\<lambda>t. t\<lparr>t_eax := child_pid\<rparr>) k
      in set_state parent READY k)"

definition waits_for :: "pcb \<Rightarrow> u32 \<Rightarrow> bool" where
  "waits_for p child_pid \<longleftrightarrow> pstate p = BLOCKED \<and> (waiting_on_pid p = 0 \<or> waiting_on_pid p = child_pid)"

definition unblock_parent :: "u32 \<Rightarrow> bool \<Rightarrow> kern \<Rightarrow> kern option" where
  "unblock_parent child_pid cleanup k =
     (case get_process_by_pid k child_pid of
        None \<Rightarrow> Some k
      | Some child \<Rightarrow>
          (case get_process_by_pid k (parent_id (procs k child)) of
             None \<Rightarrow> Some k
           | Some parent \<Rightarrow>
               if waits_for (procs k parent) child_pid then
                 let k = wake_parent child_pid cleanup parent k
                 in if cleanup \<and> current_process k \<noteq> Some child then process_cleanup_child child k else Some k
               else Some k))"

section \<open>Fields after an update\<close>

lemmas kern_defs = upd_def set_state_def upd_sig_def upd_vm_def upd_frame_def set_refcount_def

end
