(* ===== verification/UserMem.thy ===== *)
theory UserMem
  imports Process
begin

text \<open>
  Access of the kernel to the memory of the current process: single words through a user pointer,
  and \<^verbatim>\<open>copy_to_user\<close> and \<^verbatim>\<open>copy_from_user\<close> with a local buffer of the kernel at the
  other end, which is a list of bytes here.
\<close>

definition put_user_bytes :: "u32 \<Rightarrow> u8 list \<Rightarrow> vm \<Rightarrow> vm" where
  "put_user_bytes dst bs s =
     fold (\<lambda>i s. s\<lparr>kmem := (kmem s)(user_ref s (dst + of_nat i) := bs ! i)\<rparr>) [0..<length bs] s"

definition get_user_bytes :: "u32 \<Rightarrow> nat \<Rightarrow> vm \<Rightarrow> u8 list" where
  "get_user_bytes src n s = map (\<lambda>i. kmem s (user_ref s (src + of_nat i))) [0..<n]"

definition copy_out :: "u32 \<Rightarrow> u8 list \<Rightarrow> vm \<Rightarrow> (bool \<times> vm) option" where
  "copy_out dst bs s =
     (case user_range_ok s dst (of_nat (length bs)) of
        None \<Rightarrow> None
      | Some False \<Rightarrow> Some (False, s)
      | Some True \<Rightarrow> Some (True, put_user_bytes dst bs s))"

definition copy_in :: "u32 \<Rightarrow> nat \<Rightarrow> vm \<Rightarrow> u8 list option option" where
  "copy_in src n s =
     (case user_range_ok s src (of_nat n) of
        None \<Rightarrow> None
      | Some False \<Rightarrow> Some None
      | Some True \<Rightarrow> Some (Some (get_user_bytes src n s)))"

text \<open>A 32-bit access through a user pointer; an unmapped page is a fault in the kernel.\<close>

definition le_bytes :: "u32 \<Rightarrow> u8 list" where
  "le_bytes w = [ucast w, ucast (drop_bit 8 w), ucast (drop_bit 16 w), ucast (drop_bit 24 w)]"

definition put_user_word :: "u32 \<Rightarrow> u32 \<Rightarrow> vm \<Rightarrow> vm option" where
  "put_user_word a w s =
     (if is_page_mapped s a \<and> is_page_mapped s (a + 3) then Some (put_user_bytes a (le_bytes w) s) else None)"

definition get_user_word :: "u32 \<Rightarrow> vm \<Rightarrow> u32 option" where
  "get_user_word a s =
     (if is_page_mapped s a \<and> is_page_mapped s (a + 3) then
        Some (ucast (kmem s (user_ref s a)) OR push_bit 8 (ucast (kmem s (user_ref s (a + 1)))) OR
              push_bit 16 (ucast (kmem s (user_ref s (a + 2)))) OR push_bit 24 (ucast (kmem s (user_ref s (a + 3)))))
      else None)"

section \<open>Stores to user memory\<close>

text \<open>
  A range of user memory in pages of its own: mapped, apart from the paging structures, and no byte
  reached by two addresses.
\<close>

definition user_area :: "vm \<Rightarrow> u32 \<Rightarrow> nat \<Rightarrow> bool" where
  "user_area s dst n \<longleftrightarrow> page_aligned (cur_page_dir s) \<and>
     (\<forall>i<n. is_page_mapped s (dst + of_nat i) \<and> user_ref s (dst + of_nat i) \<notin> structure_bytes s) \<and>
     (\<forall>i<n. \<forall>j<n. user_ref s (dst + of_nat i) = user_ref s (dst + of_nat j) \<longrightarrow> i = j)"

lemma user_areaD:
  assumes "user_area s dst n" and "i < n"
  shows "page_aligned (cur_page_dir s)" "is_page_mapped s (dst + of_nat i)" "user_ref s (dst + of_nat i) \<notin> structure_bytes s"
    "j < n \<Longrightarrow> user_ref s (dst + of_nat i) = user_ref s (dst + of_nat j) \<Longrightarrow> i = j"
  using assms unfolding user_area_def by blast+

text \<open>Two states with the same paging structures.\<close>

definition same_paging :: "vm \<Rightarrow> vm \<Rightarrow> bool" where
  "same_paging s s' \<longleftrightarrow> cur_page_dir s' = cur_page_dir s \<and> (\<forall>x\<in>structure_bytes s. kmem s' x = kmem s x)"

lemma same_paging_walk:
  assumes "same_paging s s'" and "page_aligned (cur_page_dir s)" and "is_page_mapped s va"
  shows "user_ref s' va = user_ref s va" "is_page_mapped s' va"
proof -
  have b: "bit (dir_entry s (pd_index va)) 0" using assms(3) by (rule mapped_present)
  then show "user_ref s' va = user_ref s va"
    using assms by (intro user_ref_agree) (auto simp: same_paging_def)
  have "getw s' (cell (cur_page_dir s) (pd_index va)) = dir_entry s (pd_index va)"
    using assms by (simp add: dir_entry_def same_paging_def) (rule getw_agree; simp add: structure_bytes_def)
  moreover have "getw s' (cell (table_of s (pd_index va)) (pt_index va)) = getw s (cell (table_of s (pd_index va)) (pt_index va))"
    using assms(1) b by (intro getw_agree) (auto simp: structure_bytes_def table_of_def same_paging_def)
  ultimately show "is_page_mapped s' va"
    using assms by (simp add: is_page_mapped_def Let_def same_paging_def dir_entry_def table_of_def split: if_splits)
qed

lemma put_user_bytes_effect:
  assumes "user_area s dst n" and "length bs = n"
  shows "same_paging s (put_user_bytes dst bs s)"
    "i < n \<Longrightarrow> kmem (put_user_bytes dst bs s) (user_ref s (dst + of_nat i)) = bs ! i"
    "x \<notin> (\<lambda>i. user_ref s (dst + of_nat i)) ` {..<n} \<Longrightarrow> kmem (put_user_bytes dst bs s) x = kmem s x"
proof -
  let ?r = "\<lambda>i. user_ref s (dst + of_nat i)"
  define st where "st = (\<lambda>i s. s\<lparr>kmem := (kmem s)(user_ref s (dst + of_nat i) := bs ! i)\<rparr> :: vm)"
  have *: "same_paging s (fold st [0..<m] s) \<and> (\<forall>i<m. kmem (fold st [0..<m] s) (?r i) = bs ! i) \<and>
    (\<forall>x. x \<notin> ?r ` {..<m} \<longrightarrow> kmem (fold st [0..<m] s) x = kmem s x)" if "m \<le> n" for m
    using that
  proof (induction m)
    case (Suc m)
    define t where "t = fold st [0..<m] s"
    have ih: "same_paging s t" "\<forall>i<m. kmem t (?r i) = bs ! i" "\<forall>x. x \<notin> ?r ` {..<m} \<longrightarrow> kmem t x = kmem s x"
      using Suc by (simp_all add: t_def)
    have "user_ref t (dst + of_nat m) = ?r m"
      using same_paging_walk(1) [OF ih(1)] user_areaD [OF assms(1), of m] Suc.prems by simp
    then have "st m t = t\<lparr>kmem := (kmem t)(?r m := bs ! m)\<rparr>" by (simp add: st_def)
    then have t: "fold st [0..<Suc m] s = t\<lparr>kmem := (kmem t)(?r m := bs ! m)\<rparr>" by (simp add: t_def)
    have "?r m \<notin> structure_bytes s" using user_areaD(3) [OF assms(1)] Suc.prems by simp
    moreover have "?r i \<noteq> ?r m" if "i < m" for i using user_areaD(4) [OF assms(1), of i m] that Suc.prems by auto
    ultimately show ?case unfolding t using ih by (auto simp: same_paging_def less_Suc_eq lessThan_Suc)
  qed (simp add: same_paging_def)
  then show "same_paging s (put_user_bytes dst bs s)"
    "i < n \<Longrightarrow> kmem (put_user_bytes dst bs s) (?r i) = bs ! i"
    "x \<notin> ?r ` {..<n} \<Longrightarrow> kmem (put_user_bytes dst bs s) x = kmem s x"
    using * [of n] assms(2) by (simp_all add: put_user_bytes_def st_def)
qed

lemma user_area_part:
  assumes "user_area s dst n" and "k + m \<le> n"
  shows "user_area s (dst + of_nat k) m"
proof -
  have e: "dst + of_nat k + of_nat i = dst + of_nat (k + i)" for i by simp
  have "k + i < n" if "i < m" for i using that assms(2) by simp
  then show ?thesis
    using assms(1) unfolding user_area_def e by (metis add_left_cancel)
qed

lemma user_area_same_paging:
  assumes "user_area s dst n" and "same_paging s s'"
  shows "user_area s' dst n"
proof -
  have a: "page_aligned (cur_page_dir s)" using assms(1) by (simp add: user_area_def)
  have w: "user_ref s' (dst + of_nat i) = user_ref s (dst + of_nat i)" "is_page_mapped s' (dst + of_nat i)" if "i < n" for i
    using same_paging_walk [OF assms(2) a] user_areaD(2) [OF assms(1) that] by auto
  have "dir_entry s' i = dir_entry s i" if "i < 1024" for i
    using assms(2) that a by (simp add: dir_entry_def same_paging_def) (rule getw_agree; simp add: structure_bytes_def)
  then have "structure_bytes s' = structure_bytes s"
    using assms(2) by (auto simp: structure_bytes_def same_paging_def table_of_def)
  then show ?thesis using assms w unfolding user_area_def same_paging_def by auto
qed

lemma put_user_word_ok:
  assumes "user_area s a 4"
  shows "put_user_word a w s = Some (put_user_bytes a (le_bytes w) s)" "same_paging s (put_user_bytes a (le_bytes w) s)"
    "get_user_word a (put_user_bytes a (le_bytes w) s) = Some w"
proof -
  let ?s = "put_user_bytes a (le_bytes w) s"
  have l: "length (le_bytes w) = 4" by (simp add: le_bytes_def)
  have m: "is_page_mapped s (a + of_nat i)" if "i < 4" for i using user_areaD(2) [OF assms that] .
  show "put_user_word a w s = Some ?s" using m [of 0] m [of 3] by (simp add: put_user_word_def)
  show sp: "same_paging s ?s" using put_user_bytes_effect(1) [OF assms l] .
  have al: "page_aligned (cur_page_dir s)" using assms by (simp add: user_area_def)
  have b: "kmem ?s (user_ref ?s (a + of_nat i)) = le_bytes w ! i" "is_page_mapped ?s (a + of_nat i)" if "i < 4" for i
    using put_user_bytes_effect(2) [OF assms l that] same_paging_walk [OF sp al m [OF that]] by simp_all
  show "get_user_word a ?s = Some w"
    using b [of 0] b [of 1] b [of 2] b [of 3] bytes32 [of w] by (simp add: get_user_word_def le_bytes_def numeral_3_eq_3 numeral_2_eq_2)
qed

text \<open>A machine with one user page: directory entry \<open>d\<close>, table in frame 2, its entry \<open>t\<close>, page in frame 3.\<close>

definition page_vm :: "nat \<Rightarrow> nat \<Rightarrow> vm" where
  "page_vm d t = setw (cell 0xC0001000 d) 0x2007 (setw (cell 0xC0002000 t) 0x3007 demo_vm)"

lemma page_vm_cells:
  assumes "d < 1024" and "t < 1024"
  shows "i < 1024 \<Longrightarrow> getw (page_vm d t) (cell 0xC0001000 i) = (if i = d then 0x2007 else 0)"
    "getw (page_vm d t) (cell 0xC0002000 t) = 0x3007" "cur_page_dir (page_vm d t) = 0xC0001000"
proof -
  have a: "page_aligned 0xC0001000" "page_aligned 0xC0002000" by (simp_all add: page_aligned_def)
  show "i < 1024 \<Longrightarrow> getw (page_vm d t) (cell 0xC0001000 i) = (if i = d then 0x2007 else 0)"
    "getw (page_vm d t) (cell 0xC0002000 t) = 0x3007"
    unfolding page_vm_def using assms by (simp_all add: getw_setw a)
  show "cur_page_dir (page_vm d t) = 0xC0001000" by (simp add: page_vm_def) (simp add: demo_vm_def)
qed

lemma offset_and_mask: "unat ((x :: u32) AND 0xFFF) = unat x mod 4096"
proof -
  have "(0xFFF :: u32) = mask 12" by (simp add: mask_eq_exp_minus_1)
  then have "unat (x AND 0xFFF) = take_bit 12 (unat x)" by (simp only: take_bit_eq_mask [symmetric] unsigned_take_bit_eq)
  then show ?thesis by (simp add: take_bit_eq_mod)
qed

lemma page_vm_walk:
  assumes "d < 1024" and "t < 1024" and "unat va = 4194304 * d + 4096 * t + i" and "i < 4096"
  shows "user_ref (page_vm d t) va = 0xC0003000 + of_nat i" "is_page_mapped (page_vm d t) va"
proof -
  note c = page_vm_cells [OF assms(1,2)]
  have "unat va div 2 ^ 22 = d" unfolding assms(3) by (rule div_nat_eqI) (use assms(2,4) in simp_all)
  moreover have "unat va div 4096 = 1024 * d + t" unfolding assms(3) by (rule div_nat_eqI) (use assms(4) in simp_all)
  ultimately have p: "pd_index va = d" "pt_index va = t" unfolding pd_index_eq pt_index_eq using assms(2) by simp_all
  have "unat va mod 4096 = i" unfolding assms(3) using mod_mult_self2 [of i 4096 "1024 * d + t"] assms(4) by (simp add: add_ac algebra_simps)
  then have "va AND 0xFFF = of_nat i"
    using offset_and_mask [of va] unat_add_small [of "0 :: u32" i] assms(4) by (simp add: word_unat_eq_iff)
  then show "user_ref (page_vm d t) va = 0xC0003000 + of_nat i"
    unfolding user_ref_def p Let_def using c assms(1) by (simp add: PAGE_ADDR_def KERNEL_VIRTUAL_BASE_def)
  show "is_page_mapped (page_vm d t) va"
    unfolding is_page_mapped_def p Let_def
    using c assms(1) by (simp add: PAGE_ADDR_def KERNEL_VIRTUAL_BASE_def PAGE_PRESENT_def PAGE_USER_def)
qed

lemma page_vm_structures:
  assumes "d < 1024" and "t < 1024" and "x \<in> structure_bytes (page_vm d t)"
  shows "x < 0xC0003000"
proof -
  note c = page_vm_cells [OF assms(1,2)]
  have dir: "dir_entry (page_vm d t) i = (if i = d then 0x2007 else 0)" if "i < 1024" for i using that by (simp add: dir_entry_def c)
  have "table_of (page_vm d t) d = 0xC0002000" using dir [of d] assms(1) by (simp add: table_of_def PAGE_ADDR_def KERNEL_VIRTUAL_BASE_def)
  then have "x \<in> span 0xC0001000 4096 \<union> span 0xC0002000 4096"
    using assms(3) by (auto simp: structure_bytes_def dir c split: if_splits)
  then obtain j where "j < 4096" "x = 0xC0001000 + of_nat j \<or> x = 0xC0002000 + of_nat j" by (auto simp: span_mem)
  then show ?thesis
    using unat_add_small [of "0xC0001000 :: u32" j] unat_add_small [of "0xC0002000 :: u32" j] by (auto simp: word_less_nat_alt)
qed

lemma page_vm_area:
  assumes "d < 1024" and "t < 1024" and "unat a = 4194304 * d + 4096 * t + off" and "off + n \<le> 4096" and "unat a + n < 2 ^ 32"
  shows "user_area (page_vm d t) a n"
proof -
  have w: "user_ref (page_vm d t) (a + of_nat i) = 0xC0003000 + of_nat (off + i)" "is_page_mapped (page_vm d t) (a + of_nat i)" if "i < n" for i
  proof -
    have "unat (a + of_nat i) = 4194304 * d + 4096 * t + (off + i)" using unat_add_small [of a i] that assms(3,5) by simp
    then show "user_ref (page_vm d t) (a + of_nat i) = 0xC0003000 + of_nat (off + i)" "is_page_mapped (page_vm d t) (a + of_nat i)"
      using page_vm_walk [OF assms(1,2), of "a + of_nat i" "off + i"] that assms(4) by auto
  qed
  have u: "unat (0xC0003000 + of_nat (off + i) :: u32) = 0xC0003000 + off + i" if "i < n" for i
    using unat_add_small [of "0xC0003000 :: u32" "off + i"] that assms(4) by simp
  have "0xC0003000 + of_nat (off + i) \<notin> structure_bytes (page_vm d t)" if "i < n" for i
    using page_vm_structures [OF assms(1,2)] u [OF that] by (fastforce simp: word_less_nat_alt)
  moreover have "i = j" if "0xC0003000 + of_nat (off + i) = (0xC0003000 + of_nat (off + j) :: u32)" "i < n" "j < n" for i j
    using arg_cong [OF that(1), of unat] unfolding u [OF that(2)] u [OF that(3)] by simp
  moreover have "page_aligned (cur_page_dir (page_vm d t))" by (simp add: page_vm_cells(3) [OF assms(1,2)] page_aligned_def)
  ultimately show ?thesis unfolding user_area_def by (intro conjI allI impI) (simp_all only: w not_False_eq_True)
qed

definition demo_user_vm :: vm where
  "demo_user_vm = page_vm 36 0"

lemma demo_user_area: "user_area demo_user_vm 0x09000FF0 8"
  unfolding demo_user_vm_def by (rule page_vm_area [of 36 0 _ "0xFF0"]) simp_all

end
