(* ===== verification/Signals.thy ===== *)
theory Signals
  imports UserMem
begin

text \<open>
  Delivery of pending signals, the first part of \<^verbatim>\<open>schedule\<close> in \<^verbatim>\<open>kernel/src/proc/process.c\<close>.
\<close>

section \<open>Delivery of signals\<close>

definition clear_pending :: "nat \<Rightarrow> nat \<Rightarrow> kern \<Rightarrow> kern" where
  "clear_pending i sg = upd_sig i (\<lambda>g. g\<lparr>pending := pending g AND NOT (SIG_BIT sg)\<rparr>)"

definition restore_text :: "nat \<Rightarrow> kern \<Rightarrow> kern" where
  "restore_text i k = (if has_framebuffer (procs k i) then k\<lparr>text_restored := Suc (text_restored k)\<rparr> else k)"

definition stop_process :: "nat \<Rightarrow> nat \<Rightarrow> kern \<Rightarrow> kern option" where
  "stop_process i sg k =
     (let k = clear_pending i sg k;
          k = upd_sig i (\<lambda>g. g\<lparr>stopped_by := of_nat sg\<rparr>) k;
          k = set_state i STOPPED k
      in unblock_parent (pid (procs k i)) False k)"

definition terminate_process :: "nat \<Rightarrow> kern \<Rightarrow> kern option" where
  "terminate_process i k = unblock_parent (pid (procs k i)) True (set_state i TERMINATED k)"

text \<open>The registers that the signal frame keeps.\<close>

definition save_context :: "regs \<Rightarrow> regs \<Rightarrow> regs" where
  "save_context r f =
     f\<lparr>t_eip := t_eip r, t_useresp := t_useresp r, t_eax := t_eax r, t_ebx := t_ebx r, t_ecx := t_ecx r, t_edx := t_edx r,
       t_esi := t_esi r, t_edi := t_edi r, t_ebp := t_ebp r, t_eflags := t_eflags r\<rparr>"

definition call_handler :: "nat \<Rightarrow> nat \<Rightarrow> u32 \<Rightarrow> kern \<Rightarrow> kern option" where
  "call_handler i sg r k =
     (let disp = disposition (sig (procs k i)) sg;
          k = upd_sig i (\<lambda>g. g\<lparr>sigframe := save_context (frames k r) (sigframe g), in_handler := True,
                                saved_mask := sigmask g, sigmask := sigmask g OR SIG_BIT sg\<rparr>) k;
          new_esp = t_useresp (frames k r) - 4
      in if new_esp < USER_CODE_BASE \<or> USER_STACK_TOP < new_esp + 8 then
           terminate_process i (upd_sig i (\<lambda>g. g\<lparr>sigmask := saved_mask g\<rparr>) k)
         else
           do {
             v \<leftarrow> put_user_word new_esp (of_nat sg) (hvm (kheap k));
             v \<leftarrow> put_user_word (new_esp - 4) SIGNAL_TRAMPOLINE_VADDR v;
             let k = upd_vm (\<lambda>_. v) k;
             let k = upd_frame r (\<lambda>t. t\<lparr>t_useresp := new_esp - 4, t_eip := disp, t_ebx := of_nat sg\<rparr>) k;
             Some (clear_pending i sg k)
           })"

text \<open>The body of the loop over the signals; the flag says whether the loop goes on.\<close>

definition deliver_one :: "nat \<Rightarrow> u32 \<Rightarrow> nat \<Rightarrow> kern \<Rightarrow> (bool \<times> kern) option" where
  "deliver_one i r sg k =
     (let g = sig (procs k i);
          disp = disposition g sg;
          stop = map_option (Pair False)
      in if sigmask g AND SIG_BIT sg \<noteq> 0 then Some (True, k)
         else if sg = SIGCONT then
           let k = clear_pending i sg k
           in Some (True, if stopped_by g \<noteq> 0 then set_state i READY (upd_sig i (\<lambda>g. g\<lparr>stopped_by := 0\<rparr>) k) else k)
         else if sg = SIGSTOP then stop (stop_process i sg k)
         else if disp = SIG_IGN then Some (True, clear_pending i sg k)
         else if disp = SIG_DFL then
           if sg = SIGTSTP \<or> sg = SIGTTIN \<or> sg = SIGTTOU then stop (stop_process i sg k)
           else if sg = SIGCHLD then Some (True, clear_pending i sg k)
           else stop (terminate_process i (clear_pending i sg (restore_text i k)))
         else stop (call_handler i sg r k))"

fun deliver_loop :: "nat \<Rightarrow> u32 \<Rightarrow> u32 \<Rightarrow> nat list \<Rightarrow> kern \<Rightarrow> kern option" where
  "deliver_loop i r pend [] k = Some k"
| "deliver_loop i r pend (sg # sgs) k =
     (if pend AND SIG_BIT sg = 0 then deliver_loop i r pend sgs k
      else case deliver_one i r sg k of
             None \<Rightarrow> None
           | Some (True, k) \<Rightarrow> deliver_loop i r pend sgs k
           | Some (False, k) \<Rightarrow> Some k)"

definition deliver_signals :: "nat \<Rightarrow> u32 \<Rightarrow> kern \<Rightarrow> kern option" where
  "deliver_signals i r k =
     (let g = sig (procs k i)
      in if pending g \<noteq> 0 \<and> pstate (procs k i) = RUNNING \<and> \<not> in_handler g then
           if pending g AND SIG_BIT SIGKILL \<noteq> 0 then
             let k = restore_text i k;
                 k = set_state i TERMINATED k;
                 k = upd_sig i (\<lambda>g. g\<lparr>pending := 0\<rparr>) k
             in unblock_parent (pid (procs k i)) True k
           else deliver_loop i r (pending g) [1..<NSIG] k
         else Some k)"

section \<open>The signal system calls\<close>

text \<open>
  A system call gets the address \<open>r\<close> of the trap frame and returns the value for EAX. The
  calls below need a current process where they do not test for one; \<open>None\<close> is the store
  through a NULL pointer otherwise.
\<close>

definition is_user_ptr :: "u32 \<Rightarrow> bool" where
  "is_user_ptr p \<longleftrightarrow> p < KERNEL_VIRTUAL_BASE \<and> p \<noteq> 0"

definition syscall_kill :: "u32 \<Rightarrow> kern \<Rightarrow> u32 \<times> kern" where
  "syscall_kill r k =
     (let target_pid = t_ebx (frames k r); signal = t_ecx (frames k r)
      in if target_pid = 0 \<or> of_nat NSIG \<le> signal then (- 1, k)
         else case get_process_by_pid k target_pid of
                None \<Rightarrow> (- 1, k)
              | Some i \<Rightarrow>
                  if pstate (procs k i) = TERMINATED then (- 1, k)
                  else if signal = 0 then (0, k)
                  else
                    let k = upd_sig i (\<lambda>g. g\<lparr>pending := pending g OR SIG_BIT (unat signal)\<rparr>) k
                    in (0, if signal = of_nat SIGCONT \<and> pstate (procs k i) = STOPPED
                           then set_state i READY (upd_sig i (\<lambda>g. g\<lparr>stopped_by := 0\<rparr>) k) else k))"

text \<open>The registers that \<^verbatim>\<open>syscall_sigreturn\<close> restores.\<close>

definition restore_context :: "regs \<Rightarrow> regs \<Rightarrow> regs" where
  "restore_context f t =
     t\<lparr>t_eip := t_eip f, t_useresp := t_useresp f, t_eax := t_eax f, t_ebx := t_ebx f, t_ecx := t_ecx f, t_edx := t_edx f,
       t_esi := t_esi f, t_edi := t_edi f, t_ebp := t_ebp f, t_eflags := t_eflags f\<rparr>"

definition syscall_sigreturn :: "u32 \<Rightarrow> kern \<Rightarrow> u32 \<times> kern" where
  "syscall_sigreturn r k =
     (case current_process k of
        None \<Rightarrow> (- 1, k)
      | Some i \<Rightarrow>
          let g = sig (procs k i)
          in if \<not> in_handler g then (- 1, k)
             else
               let k = upd_frame r (restore_context (sigframe g)) k
               in (t_eax (sigframe g), upd_sig i (\<lambda>g. g\<lparr>in_handler := False, sigmask := saved_mask g\<rparr>) k))"

definition syscall_signal :: "u32 \<Rightarrow> kern \<Rightarrow> u32 \<times> kern" where
  "syscall_signal r k =
     (let signum = t_ebx (frames k r); handler = t_ecx (frames k r)
      in case current_process k of
           None \<Rightarrow> (- 1, k)
         | Some i \<Rightarrow>
             if of_nat NSIG \<le> signum \<or> signum = 0 then (- 1, k)
             else if signum = of_nat SIGKILL \<or> signum = of_nat SIGSTOP then (- 1, k)
             else if handler \<noteq> SIG_DFL \<and> handler \<noteq> SIG_IGN \<and> \<not> is_user_ptr handler then (- 1, k)
             else (0, upd_sig i (\<lambda>g. g\<lparr>disposition := (disposition g)(unat signum := handler)\<rparr>) k))"

definition syscall_setpgid :: "u32 \<Rightarrow> kern \<Rightarrow> u32 \<times> kern" where
  "syscall_setpgid r k =
     (let p = t_ebx (frames k r); g = t_ecx (frames k r)
      in if p = 0 \<and> g = 0 then (0, k\<lparr>foreground_pgid := 0\<rparr>)
         else if p = 0 then (0, k\<lparr>foreground_pgid := g\<rparr>)
         else case get_process_by_pid k p of
                None \<Rightarrow> (- 1, k)
              | Some i \<Rightarrow>
                  let g = (if g = 0 then p else g)
                  in (0, (upd i (\<lambda>q. q\<lparr>pgid := g\<rparr>) k)\<lparr>foreground_pgid := g\<rparr>))"

definition new_mask :: "u32 \<Rightarrow> u32 \<Rightarrow> u32 \<Rightarrow> u32" where
  "new_mask how new_set old =
     (let new_set = new_set AND NOT (SIG_BIT SIGKILL OR SIG_BIT SIGSTOP)
      in if how = 0 then old OR new_set else if how = 1 then old AND NOT new_set else if how = 2 then new_set else old)"

definition syscall_sigprocmask :: "u32 \<Rightarrow> kern \<Rightarrow> (u32 \<times> kern) option" where
  "syscall_sigprocmask r k =
     (case current_process k of
        None \<Rightarrow> Some (- 1, k)
      | Some i \<Rightarrow>
          let how = t_ebx (frames k r); user_set = t_ecx (frames k r); user_oldset = t_edx (frames k r)
          in if 2 < how then Some (- 1, k)
             else if user_oldset \<noteq> 0 \<and> \<not> is_user_ptr user_oldset then Some (- 1, k)
             else
               do {
                 k \<leftarrow> (if user_oldset \<noteq> 0
                       then map_option (\<lambda>v. upd_vm (\<lambda>_. v) k) (put_user_word user_oldset (sigmask (sig (procs k i))) (hvm (kheap k)))
                       else Some k);
                 if user_set \<noteq> 0 then
                   if \<not> is_user_ptr user_set then Some (- 1, k)
                   else do {
                     new_set \<leftarrow> get_user_word user_set (hvm (kheap k));
                     Some (0, upd_sig i (\<lambda>g. g\<lparr>sigmask := new_mask how new_set (sigmask g)\<rparr>) k)
                   }
                 else Some (0, k)
               })"

section \<open>What reaping keeps\<close>

text \<open>
  Reaping a child and waking its parent change neither the masks nor the handlers of any process.
\<close>

definition sig_core :: "pcb \<Rightarrow> u32 \<times> u32 \<times> (nat \<Rightarrow> u32)" where
  "sig_core p = (sigmask (sig p), saved_mask (sig p), disposition (sig p))"

definition keeps_sig :: "kern \<Rightarrow> kern \<Rightarrow> bool" where
  "keeps_sig k k' \<longleftrightarrow> (\<forall>i. sig_core (procs k' i) = sig_core (procs k i))"

lemma keeps_sig_refl [simp]: "keeps_sig k k" by (simp add: keeps_sig_def)

lemma keeps_sig_trans [trans]: "keeps_sig k k1 \<Longrightarrow> keeps_sig k1 k2 \<Longrightarrow> keeps_sig k k2"
  by (simp add: keeps_sig_def)

lemma keeps_sig_procs: "procs k' = procs k \<Longrightarrow> keeps_sig k k'" by (simp add: keeps_sig_def)

lemma keeps_sig_upd: "sig_core (f (procs k i)) = sig_core (procs k i) \<Longrightarrow> keeps_sig k (upd i f k)"
  by (simp add: keeps_sig_def upd_def)

lemma close_node_procs: "close_node n k = Some k' \<Longrightarrow> procs k' = procs k"
  by (auto simp: close_node_def close_pipe_end_def Let_def split: outcome.splits fnptr.splits option.splits prod.splits)

lemma drop_node_procs: "drop_node n k = Some k' \<Longrightarrow> procs k' = procs k"
  by (auto simp: drop_node_def Let_def set_refcount_def dest!: close_node_procs split: if_splits)

lemma close_slot_sig: "close_slot i fd k = Some k' \<Longrightarrow> keeps_sig k k'"
  by (auto simp: close_slot_def bind_eq_Some_conv keeps_sig_def upd_def sig_core_def dest!: drop_node_procs split: option.splits)

lemma close_slots_sig: "close_slots i fds k = Some k' \<Longrightarrow> keeps_sig k k'"
  by (induction fds arbitrary: k) (auto simp: bind_eq_Some_conv intro: keeps_sig_trans dest: close_slot_sig)

lemma cleanup_sig: "process_cleanup_child i k = Some k' \<Longrightarrow> keeps_sig k k'"
proof -
  assume "process_cleanup_child i k = Some k'"
  then obtain k1 k2 where k: "free_kernel_stack i (upd_sig i (\<lambda>g. g\<lparr>pending := 0, stopped_by := 0\<rparr>) k) = Some k1"
    "close_slots i [0..<MAX_FILES] (free_address_space i k1) = Some k2" "k' = upd i (\<lambda>p. p\<lparr>memory_regions := []\<rparr>) k2"
    by (auto simp: process_cleanup_child_def bind_eq_Some_conv)
  have "keeps_sig k (upd_sig i (\<lambda>g. g\<lparr>pending := 0, stopped_by := 0\<rparr>) k)"
    unfolding upd_sig_def by (rule keeps_sig_upd) (simp add: sig_core_def)
  also have "keeps_sig \<dots> k1"
    using k(1) by (auto simp: free_kernel_stack_def bind_eq_Some_conv keeps_sig_def upd_def sig_core_def split: if_splits)
  also have "keeps_sig k1 (free_address_space i k1)"
    by (simp add: free_address_space_def Let_def keeps_sig_def upd_def upd_vm_def sig_core_def)
  also have "keeps_sig \<dots> k2" using k(2) by (rule close_slots_sig)
  also have "keeps_sig k2 k'" unfolding k(3) by (rule keeps_sig_upd) (simp add: sig_core_def)
  finally show ?thesis .
qed

lemma wake_parent_sig: "keeps_sig k (wake_parent c b i k)"
  by (auto simp: wake_parent_def Let_def keeps_sig_def kern_defs sig_core_def remove_child_from_parent_def split: option.splits)

lemma unblock_parent_sig: "unblock_parent c b k = Some k' \<Longrightarrow> keeps_sig k k'"
  by (auto simp: unblock_parent_def Let_def intro: wake_parent_sig keeps_sig_trans cleanup_sig split: option.splits if_splits)

section \<open>Which signals can be held back\<close>

text \<open>
  SIGKILL and SIGSTOP are neither in a mask nor have they a handler; the saved mask counts too, as
  \<^verbatim>\<open>sigreturn\<close> puts it back.
\<close>

definition unblockable :: u32 where
  "unblockable = SIG_BIT SIGKILL OR SIG_BIT SIGSTOP"

definition sig_ok :: "pcb \<Rightarrow> bool" where
  "sig_ok p \<longleftrightarrow> sigmask (sig p) AND unblockable = 0 \<and> saved_mask (sig p) AND unblockable = 0 \<and>
     disposition (sig p) SIGKILL = SIG_DFL \<and> disposition (sig p) SIGSTOP = SIG_DFL"

definition all_sig_ok :: "kern \<Rightarrow> bool" where
  "all_sig_ok k \<longleftrightarrow> (\<forall>i. sig_ok (procs k i))"

lemma all_sig_ok_keeps: "keeps_sig k k' \<Longrightarrow> all_sig_ok k \<Longrightarrow> all_sig_ok k'"
  by (simp add: all_sig_ok_def sig_ok_def keeps_sig_def sig_core_def)

lemma all_sig_ok_upd: "all_sig_ok k \<Longrightarrow> sig_ok (f (procs k i)) \<Longrightarrow> all_sig_ok (upd i f k)"
  by (simp add: all_sig_ok_def upd_def)

lemma bit_sig_bit [simp]: "bit (SIG_BIT sg) n \<longleftrightarrow> n = sg \<and> sg < 32"
  by (auto simp: SIG_BIT_def bit_simps)

lemma mask_disjoint: "(m :: u32) AND unblockable = 0 \<longleftrightarrow> \<not> bit m SIGKILL \<and> \<not> bit m SIGSTOP"
proof -
  have "SIGKILL < 32" "SIGSTOP < 32" by (simp_all add: SIGKILL_def SIGSTOP_def)
  then show ?thesis by (auto simp: unblockable_def word_eq_0_iff_bits bit_and_iff bit_or_iff)
qed

text \<open>Everything that changes the signal state of processes.\<close>

inductive sig_step :: "kern \<Rightarrow> kern \<Rightarrow> bool" where
  kill: "syscall_kill r k = (v, k') \<Longrightarrow> sig_step k k'"
| signal: "syscall_signal r k = (v, k') \<Longrightarrow> sig_step k k'"
| sigprocmask: "syscall_sigprocmask r k = Some (v, k') \<Longrightarrow> sig_step k k'"
| sigreturn: "syscall_sigreturn r k = (v, k') \<Longrightarrow> sig_step k k'"
| setpgid: "syscall_setpgid r k = (v, k') \<Longrightarrow> sig_step k k'"
| deliver: "deliver_signals i r k = Some k' \<Longrightarrow> sig_step k k'"
| created: "sig_step k (upd i (init_process_signals None) k)"
| forked: "sig_step k (upd i (init_process_signals (Some (procs k j))) k)"
| reaped: "process_cleanup_child i k = Some k' \<Longrightarrow> sig_step k k'"
| other: "keeps_sig k k' \<Longrightarrow> sig_step k k'"

lemma upd_sig_keeps:
  "(\<And>g. sigmask (f g) = sigmask g \<and> saved_mask (f g) = saved_mask g \<and> disposition (f g) = disposition g) \<Longrightarrow>
   keeps_sig k (upd_sig i f k)"
  by (simp add: keeps_sig_def kern_defs sig_core_def)

lemma clear_pending_keeps: "keeps_sig k (clear_pending i sg k)"
  unfolding clear_pending_def by (rule upd_sig_keeps) simp

lemma set_state_keeps: "keeps_sig k (set_state i st k)"
  by (simp add: keeps_sig_def kern_defs sig_core_def)

lemma stop_keeps: "stop_process i sg k = Some k' \<Longrightarrow> keeps_sig k k'"
proof -
  assume "stop_process i sg k = Some k'"
  then have "keeps_sig (set_state i STOPPED (upd_sig i (\<lambda>g. g\<lparr>stopped_by := of_nat sg\<rparr>) (clear_pending i sg k))) k'"
    by (simp add: stop_process_def Let_def unblock_parent_sig)
  moreover have "keeps_sig k (set_state i STOPPED (upd_sig i (\<lambda>g. g\<lparr>stopped_by := of_nat sg\<rparr>) (clear_pending i sg k)))"
    by (rule keeps_sig_trans [OF clear_pending_keeps], rule keeps_sig_trans [OF _ set_state_keeps], rule upd_sig_keeps) simp
  ultimately show ?thesis by (metis keeps_sig_trans)
qed

lemma terminate_keeps: "terminate_process i k = Some k' \<Longrightarrow> keeps_sig k k'"
  unfolding terminate_process_def by (metis keeps_sig_trans set_state_keeps unblock_parent_sig)

lemma restore_text_keeps: "keeps_sig k (restore_text i k)"
  by (simp add: restore_text_def keeps_sig_procs)

lemma call_handler_ok:
  assumes "call_handler i sg r k = Some k'" and "all_sig_ok k" and "sg \<noteq> SIGKILL" and "sg \<noteq> SIGSTOP"
  shows "all_sig_ok k'"
proof -
  define k1 where "k1 = upd_sig i (\<lambda>g. g\<lparr>sigframe := save_context (frames k r) (sigframe g), in_handler := True,
    saved_mask := sigmask g, sigmask := sigmask g OR SIG_BIT sg\<rparr>) k"
  have ok: "sig_ok (procs k i)" using assms(2) by (simp add: all_sig_ok_def)
  have k1: "all_sig_ok k1"
    unfolding k1_def upd_sig_def using assms(2-4) ok
    by (intro all_sig_ok_upd) (auto simp: sig_ok_def mask_disjoint bit_or_iff)
  let ?e = "t_useresp (frames k1 r) - 4"
  show ?thesis
  proof (cases "?e < USER_CODE_BASE \<or> USER_STACK_TOP < ?e + 8")
    case True
    then have "terminate_process i (upd_sig i (\<lambda>g. g\<lparr>sigmask := saved_mask g\<rparr>) k1) = Some k'"
      using assms(1) by (simp add: call_handler_def Let_def k1_def)
    moreover have "all_sig_ok (upd_sig i (\<lambda>g. g\<lparr>sigmask := saved_mask g\<rparr>) k1)"
      unfolding upd_sig_def using k1 by (intro all_sig_ok_upd) (auto simp: all_sig_ok_def sig_ok_def)
    ultimately show ?thesis using terminate_keeps all_sig_ok_keeps by blast
  next
    case False
    then obtain v where "k' = clear_pending i sg (upd_frame r (\<lambda>t. t\<lparr>t_useresp := ?e - 4,
        t_eip := disposition (sig (procs k i)) sg, t_ebx := of_nat sg\<rparr>) (upd_vm (\<lambda>_. v) k1))"
      using assms(1) by (auto simp: call_handler_def Let_def k1_def bind_eq_Some_conv)
    then have "keeps_sig k1 k'" by (simp add: clear_pending_def keeps_sig_def kern_defs sig_core_def)
    then show ?thesis using k1 all_sig_ok_keeps by blast
  qed
qed

lemma deliver_one_ok:
  assumes "deliver_one i r sg k = Some (b, k')" and "all_sig_ok k" and "sg \<noteq> SIGKILL"
  shows "all_sig_ok k'"
proof -
  have c: "all_sig_ok (clear_pending i n k)" for n using clear_pending_keeps assms(2) all_sig_ok_keeps by blast
  have resume: "all_sig_ok (set_state i READY (upd_sig i (\<lambda>g. g\<lparr>stopped_by := 0\<rparr>) (clear_pending i n k)))" for n
    by (rule all_sig_ok_keeps [OF set_state_keeps], rule all_sig_ok_keeps [OF upd_sig_keeps c]) simp
  have stop: "all_sig_ok k'" if "stop_process i n k = Some k'" for n using that stop_keeps assms(2) all_sig_ok_keeps by blast
  have die: "all_sig_ok k'" if "terminate_process i (clear_pending i sg (restore_text i k)) = Some k'"
  proof -
    have "keeps_sig k k'"
      using restore_text_keeps clear_pending_keeps terminate_keeps [OF that] by (metis keeps_sig_trans)
    then show ?thesis using assms(2) all_sig_ok_keeps by blast
  qed
  have call: "all_sig_ok k'" if "call_handler i sg r k = Some k'" "sg \<noteq> SIGSTOP"
    using call_handler_ok [OF that(1) assms(2,3) that(2)] .
  show ?thesis
    using assms(1,2) unfolding deliver_one_def Let_def
    by (auto simp: c resume split: if_splits dest: stop die call)
qed

lemma deliver_loop_ok:
  assumes "deliver_loop i r pend sgs k = Some k'" and "all_sig_ok k" and "pend AND SIG_BIT SIGKILL = 0"
  shows "all_sig_ok k'"
  using assms(1,2)
proof (induction sgs arbitrary: k)
  case (Cons sg sgs)
  show ?case
  proof (cases "pend AND SIG_BIT sg = 0")
    case False
    then obtain b k1 where o: "deliver_one i r sg k = Some (b, k1)" "(if b then deliver_loop i r pend sgs k1 else Some k1) = Some k'"
      using Cons.prems(1) by (auto split: option.splits bool.splits)
    have "all_sig_ok k1" using deliver_one_ok [OF o(1) Cons.prems(2)] False assms(3) by auto
    then show ?thesis using o(2) Cons.IH [of k1] by (cases b) auto
  qed (use Cons in auto)
qed simp

lemma deliver_signals_ok:
  assumes "deliver_signals i r k = Some k'" and "all_sig_ok k"
  shows "all_sig_ok k'"
proof -
  define k1 where "k1 = upd_sig i (\<lambda>g. g\<lparr>pending := 0\<rparr>) (set_state i TERMINATED (restore_text i k))"
  have "keeps_sig k k1"
    unfolding k1_def by (rule keeps_sig_trans [OF restore_text_keeps], rule keeps_sig_trans [OF set_state_keeps], rule upd_sig_keeps) simp
  then have "all_sig_ok k1" using assms(2) all_sig_ok_keeps by blast
  then have kill: "all_sig_ok k'" if "unblock_parent (pid (procs k1 i)) True k1 = Some k'"
    using unblock_parent_sig [OF that] all_sig_ok_keeps by blast
  show ?thesis
    using assms unfolding deliver_signals_def Let_def k1_def [symmetric]
    by (auto split: if_splits dest: kill intro: deliver_loop_ok)
qed

lemma new_mask_ok: "m AND unblockable = 0 \<Longrightarrow> new_mask how new_set m AND unblockable = 0"
  unfolding mask_disjoint by (auto simp: new_mask_def Let_def bit_simps SIGKILL_def SIGSTOP_def)

lemma sig_step_ok:
  assumes "sig_step k k'" and "all_sig_ok k"
  shows "all_sig_ok k'"
  using assms
proof (induction rule: sig_step.induct)
  case (kill r k v k')
  then have "keeps_sig k k'"
    by (auto simp: syscall_kill_def Let_def keeps_sig_def kern_defs sig_core_def split: if_splits option.splits)
  then show ?case using kill all_sig_ok_keeps by blast
next
  case (signal r k v k')
  have n: "unat w = 9 \<longleftrightarrow> w = 9" "unat w = 17 \<longleftrightarrow> w = 17" for w :: u32 by (auto dest: of_nat_unatI)
  from signal show ?case
    by (auto simp: n syscall_signal_def Let_def all_sig_ok_def sig_ok_def kern_defs SIGKILL_def SIGSTOP_def split: if_splits option.splits)
next
  case (sigprocmask r k v k')
  then show ?case
    unfolding syscall_sigprocmask_def Let_def
    by (auto simp: all_sig_ok_def sig_ok_def kern_defs new_mask_ok bind_eq_Some_conv split: if_splits option.splits)
next
  case (sigreturn r k v k')
  then show ?case
    by (auto simp: syscall_sigreturn_def Let_def all_sig_ok_def sig_ok_def kern_defs split: if_splits option.splits)
next
  case (setpgid r k v k')
  then have "keeps_sig k k'"
    by (auto simp: syscall_setpgid_def Let_def keeps_sig_def kern_defs sig_core_def split: if_splits option.splits)
  then show ?case using setpgid all_sig_ok_keeps by blast
next
  case (created k i)
  then show ?case
    by (intro all_sig_ok_upd) (auto simp: init_process_signals_def Let_def sig_ok_def NSIG_def SIGKILL_def SIGSTOP_def SIGCHLD_def)
next
  case (forked k i j)
  then have "sig_ok (procs k j)" by (simp add: all_sig_ok_def)
  with forked show ?case
    by (intro all_sig_ok_upd) (auto simp: init_process_signals_def Let_def sig_ok_def NSIG_def SIGKILL_def SIGSTOP_def)
qed (auto intro: deliver_signals_ok all_sig_ok_keeps cleanup_sig)

lemma sig_reach_ok: "sig_step\<^sup>*\<^sup>* k k' \<Longrightarrow> all_sig_ok k \<Longrightarrow> all_sig_ok k'"
  by (induction rule: rtranclp_induct) (auto intro: sig_step_ok)

lemma stop_only:
  assumes "sig_ok (procs k i)"
  shows "deliver_loop i r (SIG_BIT SIGSTOP) [1..<NSIG] k = stop_process i SIGSTOP k"
proof -
  have skip: "deliver_loop i r p (xs @ ys) k = deliver_loop i r p ys k" if "\<forall>x\<in>set xs. p AND SIG_BIT x = 0" for p xs ys
    using that by (induction xs) auto
  have u: "[1..<NSIG] = [1..<SIGSTOP] @ SIGSTOP # [Suc SIGSTOP..<NSIG]"
    by code_simp
  have z: "(SIG_BIT SIGSTOP AND SIG_BIT x = 0) \<longleftrightarrow> x \<noteq> SIGSTOP" if "x < 32" for x
    using that by (auto simp: word_eq_0_iff_bits bit_and_iff)
  have "\<forall>x\<in>set [1..<SIGSTOP]. SIG_BIT SIGSTOP AND SIG_BIT x = 0" using z by (auto simp: SIGSTOP_def)
  then have "deliver_loop i r (SIG_BIT SIGSTOP) [1..<NSIG] k = deliver_loop i r (SIG_BIT SIGSTOP) (SIGSTOP # [Suc SIGSTOP..<NSIG]) k"
    unfolding u by (rule skip)
  moreover have "sigmask (sig (procs k i)) AND SIG_BIT SIGSTOP = 0"
    using assms unfolding sig_ok_def mask_disjoint by (auto simp: word_eq_0_iff_bits bit_and_iff)
  then have "deliver_one i r SIGSTOP k = map_option (Pair False) (stop_process i SIGSTOP k)"
    by (simp add: deliver_one_def Let_def SIGSTOP_def SIGCONT_def)
  ultimately show ?thesis using z [of SIGSTOP] by (simp add: SIGSTOP_def split: option.splits)
qed

text \<open>A machine with the idle process running and two more, one ready and one asleep until tick 50.\<close>

definition demo_kern :: kern where
  "demo_kern =
     \<lparr>procs = (\<lambda>_. zero_pcb)
        (0 := zero_pcb\<lparr>pstate := RUNNING\<rparr>,
         1 := zero_pcb\<lparr>pid := 1, pstate := READY, kernel_stack_top := 0xC0500000\<rparr>,
         2 := zero_pcb\<lparr>pid := 2, pstate := BLOCKED, wake_tick := 50\<rparr>),
      next_pid = 3, num_processes = 3, cur_proccess_id = 0, current_process = Some 0, foreground_pgid = 0,
      sleep_queue = Some 2, ticks = 0, frames = (\<lambda>_. zero_regs),
      iframes = (\<lambda>_. \<lparr>i_eip = 0, i_cs = 0, i_eflags = 0, i_esp = 0, i_ss = 0\<rparr>), cpu = Trap zero_regs,
      tss_esp0 = 0, tss_ss0 = 0, kheap = demo_heap, kfs = demo_fsys, freed_nodes = {}, pipes = (\<lambda>_. fresh_pipe),
      next_pipe = 0, freed_pipes = {}, text_restored = 0, children_oob = False,
      signal_trampoline_phys = 0, kbd_state = idle_kbd, mouse_state = idle_mouse\<rparr>"

lemma demo_sig_ok: "all_sig_ok demo_kern"
  by (simp add: all_sig_ok_def sig_ok_def demo_kern_def zero_pcb_def SIG_DFL_def)

section \<open>Properties\<close>



text \<open>
  C31. A handler is entered and left without a trace: delivery of a signal to a process whose stack
  has room makes it continue in its handler with the signal blocked, the number of the signal and
  the return address of the trampoline on its stack; when the handler returns, whatever it did with
  the registers and whatever signals came meanwhile, \<^verbatim>\<open>sigreturn\<close> restores the ten user
  registers and the mask of the moment of delivery.
\<close>

theorem signal_handler_roundtrip:
  assumes "USER_CODE_BASE \<le> t_useresp (frames k r) - 4" and "t_useresp (frames k r) - 4 + 8 \<le> USER_STACK_TOP"
    and "user_area (hvm (kheap k)) (t_useresp (frames k r) - 8) 8"
  shows "\<exists>k1. call_handler i sg r k = Some k1 \<and>
    t_eip (frames k1 r) = disposition (sig (procs k i)) sg \<and> t_useresp (frames k1 r) = t_useresp (frames k r) - 8 \<and>
    get_user_word (t_useresp (frames k1 r)) (hvm (kheap k1)) = Some SIGNAL_TRAMPOLINE_VADDR \<and>
    get_user_word (t_useresp (frames k1 r) + 4) (hvm (kheap k1)) = Some (of_nat sg) \<and>
    sigmask (sig (procs k1 i)) = sigmask (sig (procs k i)) OR SIG_BIT sg \<and>
    (\<forall>k2 p r'. current_process k2 = Some i \<and> sig (procs k2 i) = (sig (procs k1 i))\<lparr>pending := p\<rparr> \<longrightarrow>
      (\<exists>k3. syscall_sigreturn r' k2 = (t_eax (frames k r), k3) \<and>
        frames k3 r' = restore_context (frames k r) (frames k2 r') \<and>
        sigmask (sig (procs k3 i)) = sigmask (sig (procs k i)) \<and> \<not> in_handler (sig (procs k3 i)) \<and>
        disposition (sig (procs k3 i)) = disposition (sig (procs k i)) \<and> pending (sig (procs k3 i)) = p))"
proof -
  let ?e = "t_useresp (frames k r)" and ?v = "hvm (kheap k)"
  have a: "user_area ?v (?e - 8 + of_nat 0) 4" "user_area ?v (?e - 8 + of_nat 4) 4"
    using user_area_part [OF assms(3), of 0 4] user_area_part [OF assms(3), of 4 4] by simp_all
  have w4: "?e - 8 + of_nat 4 = ?e - 4" by simp
  define v1 where "v1 = put_user_bytes (?e - 4) (le_bytes (of_nat sg)) ?v"
  define v2 where "v2 = put_user_bytes (?e - 8) (le_bytes SIGNAL_TRAMPOLINE_VADDR) v1"
  have v1: "put_user_word (?e - 4) (of_nat sg) ?v = Some v1" "same_paging ?v v1" "get_user_word (?e - 4) v1 = Some (of_nat sg)"
    using put_user_word_ok [OF a(2)] unfolding w4 v1_def by auto
  have a1: "user_area v1 (?e - 8) 4" using user_area_same_paging [OF a(1) v1(2)] by simp
  have v2: "put_user_word (?e - 8) SIGNAL_TRAMPOLINE_VADDR v1 = Some v2" "same_paging v1 v2"
    "get_user_word (?e - 8) v2 = Some SIGNAL_TRAMPOLINE_VADDR"
    using put_user_word_ok [OF a1] unfolding v2_def by auto
  have "get_user_word (?e - 4) v2 = Some (of_nat sg)"
  proof -
    have b8: "user_area v1 (?e - 8) 8" using user_area_same_paging [OF assms(3) v1(2)] .
    have l: "length (le_bytes SIGNAL_TRAMPOLINE_VADDR) = 4" by (simp add: le_bytes_def)
    have e: "?e - 4 + of_nat j = ?e - 8 + of_nat (4 + j)" for j by simp
    have m: "is_page_mapped v1 (?e - 4 + of_nat j)" if "j < 4" for j using user_areaD(2) [OF b8, of "4 + j"] that unfolding e by simp
    have s: "user_ref v2 (?e - 4 + of_nat j) = user_ref v1 (?e - 4 + of_nat j)" "is_page_mapped v2 (?e - 4 + of_nat j)" if "j < 4" for j
      using same_paging_walk [OF v2(2) user_areaD(1) [OF b8, of 0] m [OF that]] by simp_all
    have "user_ref v1 (?e - 4 + of_nat j) \<noteq> user_ref v1 (?e - 8 + of_nat n)" if "j < 4" "n < 4" for j n
      using user_areaD(4) [OF b8, of "4 + j" n] that unfolding e by auto
    then have "user_ref v1 (?e - 4 + of_nat j) \<notin> (\<lambda>i. user_ref v1 (?e - 8 + of_nat i)) ` {..<4}" if "j < 4" for j
      using that by blast
    then have "kmem v2 (user_ref v1 (?e - 4 + of_nat j)) = kmem v1 (user_ref v1 (?e - 4 + of_nat j))" if "j < 4" for j
      using put_user_bytes_effect(3) [OF a1 l] that by (simp add: v2_def)
    from this [of 0] this [of 1] this [of 2] this [of 3] s [of 0] s [of 1] s [of 2] s [of 3] m [of 0] m [of 3]
    show ?thesis using v1(3) by (simp add: get_user_word_def)
  qed
  moreover have "\<not> (?e - 4 < USER_CODE_BASE \<or> USER_STACK_TOP < ?e - 4 + 8)" using assms(1,2) by (simp add: not_less)
  ultimately show ?thesis
    using v1 v2 by (simp add: call_handler_def Let_def kern_defs clear_pending_def syscall_sigreturn_def save_context_def restore_context_def)
qed

text \<open>The idle process with a user page as its stack.\<close>

definition demo_user_kern :: kern where
  "demo_user_kern = demo_kern\<lparr>kheap := demo_heap\<lparr>hvm := demo_user_vm\<rparr>, frames := (\<lambda>_. zero_regs\<lparr>t_useresp := 0x09000FF8\<rparr>)\<rparr>"

theorem signal_handler_roundtrip_witness:
  "\<exists>k1. call_handler 0 10 0xC04FFFB4 demo_user_kern = Some k1 \<and>
     get_user_word (t_useresp (frames k1 0xC04FFFB4)) (hvm (kheap k1)) = Some SIGNAL_TRAMPOLINE_VADDR"
proof -
  have "t_useresp (frames demo_user_kern 0xC04FFFB4) = 0x09000FF8" "hvm (kheap demo_user_kern) = demo_user_vm"
    by (simp_all add: demo_user_kern_def)
  then show ?thesis
    using signal_handler_roundtrip [of demo_user_kern "0xC04FFFB4" 0 10] demo_user_area
    by (auto simp: USER_CODE_BASE_def USER_STACK_TOP_def)
qed

end
