(* ===== verification/Sched.thy ===== *)
theory Sched
  imports Signals
begin

text \<open>
  The scheduler and the sleep queue of \<^verbatim>\<open>kernel/src/proc/process.c\<close>, the context switch
  of \<^verbatim>\<open>process_asm.asm\<close>, the timer interrupt, and the signals the keyboard sends.
\<close>

section \<open>Scheduling\<close>

definition runnable :: "kern \<Rightarrow> nat \<Rightarrow> bool" where
  "runnable k i \<longleftrightarrow> pstate (procs k i) = READY \<or> pstate (procs k i) = NEW"

partial_function (option) pick_next :: "kern \<Rightarrow> u32 \<Rightarrow> u32 \<Rightarrow> u32 option" where
  "pick_next k original c =
     (let c = (c + 1) mod num_processes k
      in if runnable k (unat c) then Some c
         else if c \<noteq> original then pick_next k original c
         else Some c)"

definition tss_set_stack :: "u32 \<Rightarrow> u32 \<Rightarrow> kern \<Rightarrow> kern" where
  "tss_set_stack kernel_ss kernel_esp k = k\<lparr>tss_ss0 := kernel_ss, tss_esp0 := kernel_esp\<rparr>"

text \<open>
  The assembly routine: remember where the trap frame of the process that was running lies, switch
  the address space, and continue with the next process from its trap frame or, on its first run,
  from the frame at the top of its kernel stack.
\<close>

definition switch_to_process :: "nat \<Rightarrow> u32 \<Rightarrow> kern \<Rightarrow> kern" where
  "switch_to_process i r k =
     (let k = (case current_process k of
                 None \<Rightarrow> k
               | Some c \<Rightarrow> if pstate (procs k c) = NEW then k else upd c (\<lambda>p. p\<lparr>pregs := (pregs p)\<lparr>r_esp := r\<rparr>\<rparr>) k);
          k = k\<lparr>current_process := Some i\<rparr>;
          k = upd_vm (set_page_dir (r_cr3 (pregs (procs k i)))) k;
          first = (pstate (procs k i) = NEW);
          k = set_state i RUNNING k
      in k\<lparr>cpu := (if first then First (iframes k (kernel_stack_top (procs k i)))
                   else Trap (frames k (r_esp (pregs (procs k i)))))\<rparr>)"

text \<open>\<open>Halted\<close>: the processor waits for an interrupt with no current process.\<close>

datatype sched = Returned kern | Switched kern | Halted kern

definition no_process :: u32 where "no_process = - 1"

text \<open>Signals are delivered to the current process, and it is put back to READY if it still runs.\<close>

definition before_pick :: "u32 \<Rightarrow> kern \<Rightarrow> kern option" where
  "before_pick r k =
     do {
       k \<leftarrow> (if cur_proccess_id k \<noteq> no_process then deliver_signals (unat (cur_proccess_id k)) r k else Some k);
       let c = unat (cur_proccess_id k);
       Some (if cur_proccess_id k \<noteq> no_process \<and> pstate (procs k c) = RUNNING then set_state c READY k else k)
     }"

definition schedule :: "u32 \<Rightarrow> kern \<Rightarrow> sched option" where
  "schedule r k =
     (if num_processes k = 0 then Some (Returned k)
      else
        do {
          k \<leftarrow> before_pick r k;
          n \<leftarrow> pick_next k (cur_proccess_id k) (cur_proccess_id k);
          let k = k\<lparr>cur_proccess_id := n\<rparr>;
          let i = unat n;
          if pstate (procs k i) = TERMINATED then Some (Halted (k\<lparr>current_process := None\<rparr>))
          else Some (Switched (switch_to_process i r (tss_set_stack 0x10 (kernel_stack_top (procs k i)) k)))
        })"

section \<open>Sleeping\<close>

text \<open>The last element whose successor is absent or wakes later.\<close>

partial_function (option) sleep_position :: "kern \<Rightarrow> u32 \<Rightarrow> nat \<Rightarrow> nat option" where
  "sleep_position k t cur =
     (case sleep_next (procs k cur) of
        None \<Rightarrow> Some cur
      | Some n \<Rightarrow> if wake_tick (procs k n) \<le> t then sleep_position k t n else Some cur)"

definition sleep_enqueue :: "nat \<Rightarrow> u32 \<Rightarrow> kern \<Rightarrow> kern option" where
  "sleep_enqueue i t k =
     (let k = upd i (\<lambda>p. p\<lparr>wake_tick := t, sleep_next := None\<rparr>) k
      in case sleep_queue k of
           None \<Rightarrow> Some ((upd i (\<lambda>p. p\<lparr>sleep_next := None\<rparr>) k)\<lparr>sleep_queue := Some i\<rparr>)
         | Some h \<Rightarrow>
             if t < wake_tick (procs k h) then Some ((upd i (\<lambda>p. p\<lparr>sleep_next := Some h\<rparr>) k)\<lparr>sleep_queue := Some i\<rparr>)
             else
               do {
                 cur \<leftarrow> sleep_position k t h;
                 let k = upd i (\<lambda>p. p\<lparr>sleep_next := sleep_next (procs k cur)\<rparr>) k;
                 Some (upd cur (\<lambda>p. p\<lparr>sleep_next := Some i\<rparr>) k)
               })"

text \<open>The head of the queue is taken out and made ready if it is still blocked.\<close>

definition wake_first :: "nat \<Rightarrow> kern \<Rightarrow> kern" where
  "wake_first i k =
     (let k = k\<lparr>sleep_queue := sleep_next (procs k i)\<rparr>;
          k = upd i (\<lambda>p. p\<lparr>sleep_next := None\<rparr>) k
      in if pstate (procs k i) = BLOCKED then set_state i READY k else k)"

partial_function (option) sleep_check_wakeup :: "u32 \<Rightarrow> kern \<Rightarrow> kern option" where
  "sleep_check_wakeup current_ticks k =
     (case sleep_queue k of
        None \<Rightarrow> Some k
      | Some i \<Rightarrow>
          if wake_tick (procs k i) \<le> current_ticks then sleep_check_wakeup current_ticks (wake_first i k) else Some k)"

section \<open>Interrupts\<close>

definition timer_handler :: "u32 \<Rightarrow> kern \<Rightarrow> sched option" where
  "timer_handler r k =
     do {
       let k = k\<lparr>ticks := ticks k + 1\<rparr>;
       k \<leftarrow> sleep_check_wakeup (ticks k) k;
       schedule r k
     }"

definition send_signal_to_foreground :: "nat \<Rightarrow> kern \<Rightarrow> kern" where
  "send_signal_to_foreground sg k =
     (if foreground_pgid k \<noteq> 0 then
        fold (\<lambda>i k. if pgid (procs k i) = foreground_pgid k \<and> pstate (procs k i) \<noteq> TERMINATED
                    then upd_sig i (\<lambda>g. g\<lparr>pending := pending g OR SIG_BIT sg\<rparr>) k else k) [0..<MAX_PROCESSES] k
      else k)"

section \<open>Round robin\<close>

text \<open>The slot the search looks at \<open>d\<close> steps after slot \<open>c\<close>.\<close>

definition slot_after :: "kern \<Rightarrow> u32 \<Rightarrow> nat \<Rightarrow> nat" where
  "slot_after k c d = (unat (c + 1) + d) mod unat (num_processes k)"

definition cur_ok :: "kern \<Rightarrow> bool" where
  "cur_ok k \<longleftrightarrow> 0 < num_processes k \<and> (cur_proccess_id k = no_process \<or> cur_proccess_id k < num_processes k)"

lemma slot_after_0: "unat ((c + 1) mod num_processes k) = slot_after k c 0"
  by (simp add: slot_after_def unat_mod)

lemma slot_after_less: "0 < num_processes k \<Longrightarrow> slot_after k c d < unat (num_processes k)"
  by (simp add: slot_after_def word_less_nat_alt)

lemma unat_succ_u32: "unat (w :: u32) < n \<Longrightarrow> n < 2 ^ 32 \<Longrightarrow> unat (w + 1) = Suc (unat w)"
  using unat_add_small [of w 1] by simp

lemma slot_after_Suc:
  assumes "0 < num_processes k"
  shows "slot_after k ((c + 1) mod num_processes k) d = slot_after k c (Suc d)"
proof -
  define n where "n = unat (num_processes k)"
  have n: "0 < n" using assms by (simp add: n_def word_less_nat_alt)
  have u: "unat ((c + 1) mod num_processes k) = unat (c + 1) mod n" by (simp add: unat_mod n_def)
  then have "unat ((c + 1) mod num_processes k) < n" using n by simp
  then have "unat ((c + 1) mod num_processes k + 1) = Suc (unat (c + 1) mod n)"
    using u unsigned_less [of "num_processes k", where 'a = nat] unat_succ_u32 [of "(c + 1) mod num_processes k" n] by (simp add: n_def)
  then show ?thesis
    using mod_add_left_eq [of "unat (c + 1)" n "Suc d"] by (simp add: slot_after_def n_def [symmetric])
qed

lemma slot_after_inj:
  assumes "slot_after k c d = slot_after k c e" and "d < unat (num_processes k)" and "e < unat (num_processes k)"
  shows "d = e"
proof -
  show ?thesis using assms ring_index_inj [of d "unat (num_processes k)" e "unat (c + 1)"] by (simp add: slot_after_def)
qed

lemma slot_after_onto:
  assumes "j < unat (num_processes k)"
  shows "\<exists>d<unat (num_processes k). slot_after k c d = j"
proof -
  let ?n = "unat (num_processes k)"
  have "inj_on (slot_after k c) {..<?n}" using slot_after_inj by (auto simp: inj_on_def)
  moreover have "slot_after k c ` {..<?n} \<subseteq> {..<?n}" using assms by (auto simp: slot_after_def)
  ultimately have "slot_after k c ` {..<?n} = {..<?n}" by (intro endo_inj_surj) auto
  then show ?thesis using assms by (metis imageE lessThan_iff)
qed

lemma pick_next_first:
  assumes "0 < num_processes k" and "runnable k (slot_after k c d)" and "\<forall>e<d. \<not> runnable k (slot_after k c e)"
    and "\<forall>e<d. of_nat (slot_after k c e) \<noteq> original"
  shows "pick_next k original c = Some (of_nat (slot_after k c d))"
  using assms(2-4)
proof (induction d arbitrary: c)
  case 0
  then show ?case by (subst pick_next.simps) (simp add: Let_def slot_after_0 [symmetric])
next
  case (Suc d)
  let ?c = "(c + 1) mod num_processes k"
  have "\<not> runnable k (unat ?c)" using Suc.prems(2) [THEN spec, of 0] by (simp add: slot_after_0)
  moreover have "?c \<noteq> original" using Suc.prems(3) [THEN spec, of 0] by (simp add: slot_after_0 [symmetric])
  ultimately have "pick_next k original c = pick_next k original ?c"
    by (subst pick_next.simps) (simp add: Let_def)
  also have "\<dots> = Some (of_nat (slot_after k c (Suc d)))"
    using Suc.IH [of ?c] Suc.prems by (auto simp: slot_after_Suc [OF assms(1)])
  finally show ?case .
qed

text \<open>The search from the current slot comes back to it after all the others.\<close>

lemma slot_after_last:
  assumes "cur_ok k" and "of_nat (slot_after k (cur_proccess_id k) e) = cur_proccess_id k" and "e < unat (num_processes k)"
  shows "Suc e = unat (num_processes k)"
proof -
  define n where "n = unat (num_processes k)"
  let ?c = "cur_proccess_id k"
  have n: "0 < n" "n < 2 ^ 32" using assms(1) unsigned_less [of "num_processes k", where 'a = nat] by (auto simp: n_def cur_ok_def word_less_nat_alt)
  have s: "slot_after k ?c e < n" using slot_after_less [of k] assms(1) by (simp add: cur_ok_def n_def)
  have "unat (of_nat (slot_after k ?c e) :: u32) = slot_after k ?c e" using s n by (intro unat_of_nat_small) simp
  then have c: "unat ?c = slot_after k ?c e" using assms(2) by simp
  then have "unat (?c + 1) = Suc (slot_after k ?c e)" using s n unat_succ_u32 [of ?c n] by simp
  then have "unat ?c = (Suc (unat ?c) + e) mod n" using c by (simp add: slot_after_def n_def)
  moreover have "unat ?c < n" using c s by simp
  moreover have "x mod n = (if x < n then x else x - n)" if "x < 2 * n" for x
    using that by (simp add: le_mod_geq)
  ultimately show ?thesis using assms(3) by (auto simp: n_def [symmetric] split: if_splits)
qed

lemma pick_next_round_robin:
  assumes "cur_ok k" and "\<exists>j<unat (num_processes k). runnable k j"
  obtains d where "d < unat (num_processes k)"
    and "pick_next k (cur_proccess_id k) (cur_proccess_id k) = Some (of_nat (slot_after k (cur_proccess_id k) d))"
    and "runnable k (slot_after k (cur_proccess_id k) d)" and "\<forall>e<d. \<not> runnable k (slot_after k (cur_proccess_id k) e)"
proof -
  let ?n = "unat (num_processes k)" and ?c = "cur_proccess_id k"
  have pos: "0 < num_processes k" "0 < ?n" using assms(1) by (auto simp: cur_ok_def word_less_nat_alt)
  have "\<exists>d<?n. runnable k (slot_after k ?c d)" using assms(2) slot_after_onto [of _ k ?c] by metis
  then obtain d where d: "d < ?n" "runnable k (slot_after k ?c d)" "\<forall>e<d. \<not> runnable k (slot_after k ?c e)"
    using exists_least_iff [of "\<lambda>d. d < ?n \<and> runnable k (slot_after k ?c d)"] by (meson order.strict_trans)
  have "of_nat (slot_after k ?c e) \<noteq> ?c" if "e < d" for e
    using slot_after_last [OF assms(1), of e] that d(1) by auto
  then show thesis using that [of d] d pick_next_first [OF pos(1) d(2,3), of ?c] by blast
qed

section \<open>The sleep queue as a list\<close>

fun chain_of :: "kern \<Rightarrow> nat option \<Rightarrow> nat list \<Rightarrow> bool" where
  "chain_of k a [] = (a = None)"
| "chain_of k a (i # xs) = (a = Some i \<and> chain_of k (sleep_next (procs k i)) xs)"

definition wake_at :: "kern \<Rightarrow> nat \<Rightarrow> u32" where
  "wake_at k i = wake_tick (procs k i)"

definition sleepers :: "kern \<Rightarrow> nat list \<Rightarrow> bool" where
  "sleepers k xs \<longleftrightarrow> chain_of k (sleep_queue k) xs \<and> distinct xs \<and> sorted (map (wake_at k) xs)"

lemma chain_of_cong:
  "\<forall>i\<in>set xs. sleep_next (procs k' i) = sleep_next (procs k i) \<Longrightarrow> chain_of k' a xs = chain_of k a xs"
  by (induction xs arbitrary: a) auto

lemma chain_of_append:
  "chain_of k a (ys @ x # zs) \<longleftrightarrow>
     chain_of (upd x (\<lambda>p. p\<lparr>sleep_next := None\<rparr>) k) a (ys @ [x]) \<and> chain_of k (sleep_next (procs k x)) zs"
  if "x \<notin> set ys"
  using that by (induction ys arbitrary: a) (auto simp: upd_def)

text \<open>The walk to the place of a new sleeper stops at the last one that wakes no later.\<close>

lemma sleep_position_stops:
  assumes "chain_of k (Some h) (h # ys @ zs)" and "\<forall>y\<in>set ys. wake_at k y \<le> t" and "zs = [] \<or> t < wake_at k (hd zs)"
  shows "sleep_position k t h = Some (last (h # ys))"
  using assms
proof (induction ys arbitrary: h)
  case Nil
  then show ?case by (subst sleep_position.simps, cases zs) (auto simp: wake_at_def)
next
  case (Cons y ys)
  then have "sleep_next (procs k h) = Some y" "wake_tick (procs k y) \<le> t" by (auto simp: wake_at_def)
  then have "sleep_position k t h = sleep_position k t y" by (subst sleep_position.simps) simp
  then show ?case using Cons.IH [of y] Cons.prems by auto
qed

lemma sorted_split:
  fixes f :: "'a \<Rightarrow> 'b::linorder"
  assumes "sorted (map f xs)"
  shows "\<forall>y\<in>set (takeWhile (\<lambda>x. f x \<le> t) xs). f y \<le> t" "\<forall>z\<in>set (dropWhile (\<lambda>x. f x \<le> t) xs). t < f z"
proof -
  show "\<forall>y\<in>set (takeWhile (\<lambda>x. f x \<le> t) xs). f y \<le> t" by (auto dest: set_takeWhileD)
  show "\<forall>z\<in>set (dropWhile (\<lambda>x. f x \<le> t) xs). t < f z"
    using assms by (induction xs) (auto intro: less_le_trans)
qed

lemma sorted_filters:
  fixes f :: "'a \<Rightarrow> 'b::linorder"
  assumes "sorted (map f xs)"
  shows "dropWhile (\<lambda>x. f x \<le> t) xs = filter (\<lambda>x. t < f x) xs"
    and "set (takeWhile (\<lambda>x. f x \<le> t) xs) = {x \<in> set xs. f x \<le> t}"
proof -
  let ?ys = "takeWhile (\<lambda>x. f x \<le> t) xs" and ?zs = "dropWhile (\<lambda>x. f x \<le> t) xs"
  have xs: "xs = ?ys @ ?zs" by simp
  have "filter (\<lambda>x. t < f x) ?ys = []" "filter (\<lambda>x. t < f x) ?zs = ?zs"
    using sorted_split [OF assms, of t] by (auto simp: filter_empty_conv filter_id_conv not_less)
  then have "filter (\<lambda>x. t < f x) (?ys @ ?zs) = ?zs" by (simp only: filter_append append_Nil)
  then show "?zs = filter (\<lambda>x. t < f x) xs" by simp
  have "set xs = set ?ys \<union> set ?zs" by (metis set_append xs)
  then show "set ?ys = {x \<in> set xs. f x \<le> t}" using sorted_split [OF assms, of t] by auto
qed

lemma sleep_enqueue_ok:
  fixes t :: u32
  assumes "sleepers k xs" and "i \<notin> set xs"
  defines "ys \<equiv> takeWhile (\<lambda>x. wake_at k x \<le> t) xs" and "zs \<equiv> dropWhile (\<lambda>x. wake_at k x \<le> t) xs"
  shows "\<exists>k'. sleep_enqueue i t k = Some k' \<and> sleepers k' (ys @ i # zs) \<and>
    (\<forall>j. wake_at k' j = (if j = i then t else wake_at k j)) \<and> (\<forall>j. pstate (procs k' j) = pstate (procs k j))"
proof -
  have xs: "xs = ys @ zs" by (simp add: ys_def zs_def)
  have le: "\<forall>y\<in>set ys. wake_at k y \<le> t" and gt: "\<forall>z\<in>set zs. t < wake_at k z"
    using sorted_split [of "wake_at k" xs t] assms(1) by (auto simp: ys_def zs_def sleepers_def)
  have ch: "chain_of k (sleep_queue k) (ys @ zs)" and dist: "distinct (ys @ zs)" and srt: "sorted (map (wake_at k) (ys @ zs))"
    and new: "i \<notin> set ys" "i \<notin> set zs"
    using assms(1,2) unfolding sleepers_def xs by auto
  have sorted': "sorted (map f (ys @ i # zs))" if "\<forall>j. f j = (if j = i then t else wake_at k j)" for f
  proof -
    have m: "map f (ys @ i # zs) = map (wake_at k) ys @ t # map (wake_at k) zs" using that new by auto
    show ?thesis unfolding m using le gt srt by (auto simp: sorted_append intro: less_imp_le)
  qed
  define k0 where "k0 = upd i (\<lambda>p. p\<lparr>wake_tick := t, sleep_next := None\<rparr>) k"
  show ?thesis
  proof (cases ys rule: rev_cases)
    case Nil
    define k' where "k' = (upd i (\<lambda>p. p\<lparr>sleep_next := sleep_queue k\<rparr>) k0)\<lparr>sleep_queue := Some i\<rparr>"
    have "sleep_enqueue i t k = Some k'"
      using ch gt Nil new by (cases zs) (auto simp: sleep_enqueue_def k'_def k0_def upd_def wake_at_def Let_def)
    moreover have "chain_of k' (sleep_queue k') (ys @ i # zs)"
      using ch new Nil chain_of_cong [of zs k' k] by (auto simp: k'_def k0_def upd_def)
    moreover have "wake_at k' j = (if j = i then t else wake_at k j)" "pstate (procs k' j) = pstate (procs k j)" for j
      by (simp_all add: k'_def k0_def upd_def wake_at_def)
    ultimately show ?thesis using sorted' [of "wake_at k'"] dist new unfolding sleepers_def by (intro exI [of _ k']) auto
  next
    case (snoc us c)
    define k' where "k' = upd c (\<lambda>p. p\<lparr>sleep_next := Some i\<rparr>) (upd i (\<lambda>p. p\<lparr>sleep_next := sleep_next (procs k0 c)\<rparr>) k0)"
    have c: "c \<noteq> i" "c \<notin> set us" "c \<notin> set zs" using snoc dist new by auto
    obtain h ys' where h: "ys = h # ys'" using snoc by (metis append_is_Nil_conv list.exhaust not_Cons_self2)
    have k0: "chain_of k0 (sleep_queue k0) (ys @ zs)"
      using ch new chain_of_cong [of "ys @ zs" k0 k] by (auto simp: k0_def upd_def)
    have "sleep_position k0 t h = Some (last (h # ys'))"
    proof (rule sleep_position_stops)
      show "chain_of k0 (Some h) (h # ys' @ zs)" using k0 h by auto
      show "\<forall>y\<in>set ys'. wake_at k0 y \<le> t" using le new h by (auto simp: k0_def upd_def wake_at_def)
      show "zs = [] \<or> t < wake_at k0 (hd zs)" using gt new by (cases zs) (auto simp: k0_def upd_def wake_at_def)
    qed
    then have "sleep_position k0 t h = Some c" using h snoc by (metis last_snoc)
    moreover have "sleep_queue k0 = Some h" "\<not> t < wake_tick (procs k0 h)"
      using k0 le new h by (auto simp: k0_def upd_def wake_at_def)
    ultimately have "sleep_enqueue i t k = Some k'" by (simp add: sleep_enqueue_def k0_def [symmetric] k'_def Let_def)
    moreover have "chain_of k' (sleep_queue k') (ys @ i # zs)"
    proof -
      have "chain_of (upd c (\<lambda>p. p\<lparr>sleep_next := None\<rparr>) k0) (sleep_queue k0) (us @ [c])" "chain_of k0 (sleep_next (procs k0 c)) zs"
        using k0 chain_of_append [OF c(2), of k0 "sleep_queue k0" zs] by (simp_all add: snoc)
      moreover have "chain_of (upd c (\<lambda>p. p\<lparr>sleep_next := None\<rparr>) k') a (us @ [c]) = chain_of (upd c (\<lambda>p. p\<lparr>sleep_next := None\<rparr>) k0) a (us @ [c])" for a
        using new snoc by (intro chain_of_cong) (auto simp: k'_def upd_def)
      moreover have "chain_of k' a zs = chain_of k0 a zs" for a
        using new c by (intro chain_of_cong) (auto simp: k'_def upd_def)
      ultimately show ?thesis
        using chain_of_append [OF c(2), of k' "sleep_queue k'" "i # zs"] c by (simp add: snoc) (simp add: k'_def upd_def)
    qed
    moreover have "wake_at k' j = (if j = i then t else wake_at k j)" "pstate (procs k' j) = pstate (procs k j)" for j
      using c by (simp_all add: k'_def k0_def upd_def wake_at_def)
    ultimately show ?thesis using sorted' [of "wake_at k'"] dist new unfolding sleepers_def by (intro exI [of _ k']) auto
  qed
qed

lemma sleep_check_wakeup_ok:
  assumes "sleepers k xs"
  shows "\<exists>k'. sleep_check_wakeup t k = Some k' \<and> sleepers k' (dropWhile (\<lambda>x. wake_at k x \<le> t) xs) \<and>
    (\<forall>j. wake_at k' j = wake_at k j) \<and>
    (\<forall>j. pstate (procs k' j) =
      (if j \<in> set (takeWhile (\<lambda>x. wake_at k x \<le> t) xs) \<and> pstate (procs k j) = BLOCKED then READY else pstate (procs k j)))"
  using assms
proof (induction xs arbitrary: k)
  case Nil
  then show ?case by (subst sleep_check_wakeup.simps) (auto simp: sleepers_def)
next
  case (Cons x xs)
  have q: "sleep_queue k = Some x" "chain_of k (sleep_next (procs k x)) xs" "x \<notin> set xs" "distinct xs"
    "sorted (map (wake_at k) xs)"
    using Cons.prems by (auto simp: sleepers_def)
  show ?case
  proof (cases "wake_at k x \<le> t")
    case False
    then show ?thesis using Cons.prems q(1) by (subst sleep_check_wakeup.simps) (auto simp: wake_at_def)
  next
    case True
    define k2 where "k2 = wake_first x k"
    have rec: "sleep_check_wakeup t k = sleep_check_wakeup t k2"
      using q(1) True by (subst sleep_check_wakeup.simps) (simp add: wake_at_def k2_def)
    have w: "wake_at k2 = wake_at k" by (auto simp: k2_def wake_first_def Let_def kern_defs wake_at_def)
    have st: "pstate (procs k2 j) = (if j = x \<and> pstate (procs k j) = BLOCKED then READY else pstate (procs k j))" for j
      by (auto simp: k2_def wake_first_def Let_def kern_defs)
    have "chain_of k2 (sleep_queue k2) xs"
      using q(2,3) chain_of_cong [of xs k2 k] by (auto simp: k2_def wake_first_def Let_def kern_defs)
    then have "sleepers k2 xs" using q w by (simp add: sleepers_def)
    from Cons.IH [OF this] obtain k' where k': "sleep_check_wakeup t k2 = Some k'"
      "sleepers k' (dropWhile (\<lambda>x. wake_at k x \<le> t) xs)" "\<forall>j. wake_at k' j = wake_at k j"
      "\<forall>j. pstate (procs k' j) =
        (if j \<in> set (takeWhile (\<lambda>x. wake_at k x \<le> t) xs) \<and> pstate (procs k2 j) = BLOCKED then READY else pstate (procs k2 j))"
      unfolding w by blast
    show ?thesis using k' True rec by (intro exI [of _ k']) (auto simp: st)
  qed
qed

lemma demo_kern_ok:
  "before_pick r demo_kern = Some (set_state 0 READY demo_kern)" "cur_ok (set_state 0 READY demo_kern)"
  "runnable (set_state 0 READY demo_kern) 1" "sleepers demo_kern [2]"
  by (simp_all add: before_pick_def deliver_signals_def demo_kern_def no_process_def zero_pcb_def Let_def cur_ok_def
      kern_defs runnable_def sleepers_def)

section \<open>Properties\<close>

text \<open>What a switch to process \<open>i\<close> leaves.\<close>

lemma switch_to_process_effect:
  fixes k :: kern and i :: nat and r :: u32
  defines "k' \<equiv> switch_to_process i r k"
  shows "current_process k' = Some i" "cur_proccess_id k' = cur_proccess_id k" "num_processes k' = num_processes k"
    "pstate (procs k' i) = RUNNING" "j \<noteq> i \<Longrightarrow> pstate (procs k' j) = pstate (procs k j)"
    "vmm_get_directory (hvm (kheap k')) = r_cr3 (pregs (procs k i))" "tss_esp0 k' = tss_esp0 k"
    "cpu k' = (if pstate (procs k i) = NEW then First (iframes k (kernel_stack_top (procs k i)))
      else Trap (frames k (if current_process k = Some i then r else r_esp (pregs (procs k i)))))"
    "current_process k = Some c \<Longrightarrow> pstate (procs k c) \<noteq> NEW \<Longrightarrow> r_esp (pregs (procs k' c)) = r"
  by (auto simp: k'_def switch_to_process_def Let_def kern_defs vmm_get_directory_def set_page_dir_def split: option.splits)

lemma schedule_search:
  assumes "num_processes k \<noteq> 0" and "before_pick r k = Some k2" and "cur_ok k2" and "\<exists>j<unat (num_processes k2). runnable k2 j"
  obtains d where "d < unat (num_processes k2)" and "runnable k2 (slot_after k2 (cur_proccess_id k2) d)"
    and "\<forall>e<d. \<not> runnable k2 (slot_after k2 (cur_proccess_id k2) e)"
    and "schedule r k = Some (Switched (switch_to_process (slot_after k2 (cur_proccess_id k2) d) r
      (tss_set_stack 0x10 (kernel_stack_top (procs k2 (slot_after k2 (cur_proccess_id k2) d)))
        (k2\<lparr>cur_proccess_id := of_nat (slot_after k2 (cur_proccess_id k2) d)\<rparr>))))"
proof -
  obtain d where d: "d < unat (num_processes k2)"
    "pick_next k2 (cur_proccess_id k2) (cur_proccess_id k2) = Some (of_nat (slot_after k2 (cur_proccess_id k2) d))"
    "runnable k2 (slot_after k2 (cur_proccess_id k2) d)" "\<forall>e<d. \<not> runnable k2 (slot_after k2 (cur_proccess_id k2) e)"
    using pick_next_round_robin [OF assms(3,4)] .
  define i where "i = slot_after k2 (cur_proccess_id k2) d"
  have "i < unat (num_processes k2)" using slot_after_less assms(3) by (simp add: i_def cur_ok_def)
  then have "unat (of_nat i :: u32) = i"
    using unsigned_less [of "num_processes k2", where 'a = nat] by (intro unat_of_nat_small) simp
  moreover have "pstate (procs k2 i) \<noteq> TERMINATED" using d(3) by (auto simp: runnable_def i_def)
  ultimately have "schedule r k = Some (Switched (switch_to_process i r
      (tss_set_stack 0x10 (kernel_stack_top (procs k2 i)) (k2\<lparr>cur_proccess_id := of_nat i\<rparr>))))"
    using assms(1,2) d(2) by (simp add: schedule_def Let_def i_def)
  then show thesis using that [of d] d by (simp add: i_def)
qed

text \<open>
  C26. The scheduler is round robin: after the delivery of signals, the first runnable slot after the
  current one, in cyclic order, runs. It becomes the current process in state RUNNING with its own
  address space and kernel stack, no other process changes its state, and the processor continues
  with the frame prepared for its first run or with the trap frame it was interrupted at; the
  process that gives up the processor will continue from the present trap frame.
\<close>

theorem schedule_round_robin:
  assumes "num_processes k \<noteq> 0" and "before_pick r k = Some k2" and "cur_ok k2" and "\<exists>j<unat (num_processes k2). runnable k2 j"
  shows "\<exists>d<unat (num_processes k2). \<exists>i k'. i = slot_after k2 (cur_proccess_id k2) d \<and> i < unat (num_processes k2) \<and>
    runnable k2 i \<and> (\<forall>e<d. \<not> runnable k2 (slot_after k2 (cur_proccess_id k2) e)) \<and>
    schedule r k = Some (Switched k') \<and> current_process k' = Some i \<and> unat (cur_proccess_id k') = i \<and>
    pstate (procs k' i) = RUNNING \<and> (\<forall>j. j \<noteq> i \<longrightarrow> pstate (procs k' j) = pstate (procs k2 j)) \<and>
    vmm_get_directory (hvm (kheap k')) = r_cr3 (pregs (procs k2 i)) \<and> tss_esp0 k' = kernel_stack_top (procs k2 i) \<and>
    cpu k' = (if pstate (procs k2 i) = NEW then First (iframes k2 (kernel_stack_top (procs k2 i)))
      else Trap (frames k2 (if current_process k2 = Some i then r else r_esp (pregs (procs k2 i))))) \<and>
    (\<forall>c. current_process k2 = Some c \<and> pstate (procs k2 c) \<noteq> NEW \<longrightarrow> r_esp (pregs (procs k' c)) = r)"
proof -
  obtain d where d: "d < unat (num_processes k2)" "runnable k2 (slot_after k2 (cur_proccess_id k2) d)"
    "\<forall>e<d. \<not> runnable k2 (slot_after k2 (cur_proccess_id k2) e)"
    "schedule r k = Some (Switched (switch_to_process (slot_after k2 (cur_proccess_id k2) d) r
      (tss_set_stack 0x10 (kernel_stack_top (procs k2 (slot_after k2 (cur_proccess_id k2) d)))
        (k2\<lparr>cur_proccess_id := of_nat (slot_after k2 (cur_proccess_id k2) d)\<rparr>))))"
    using schedule_search [OF assms] .
  define i where "i = slot_after k2 (cur_proccess_id k2) d"
  have i: "i < unat (num_processes k2)" using slot_after_less assms(3) by (simp add: i_def cur_ok_def)
  then have "unat (of_nat i :: u32) = i"
    using unsigned_less [of "num_processes k2", where 'a = nat] by (intro unat_of_nat_small) simp
  then show ?thesis
    using d i by (intro exI [of _ d] exI [of _ i] exI conjI; (fold i_def)?)
      (assumption | simp add: switch_to_process_effect i_def [symmetric] tss_set_stack_def)+
qed

theorem schedule_round_robin_witness:
  "\<exists>k'. schedule 0xC04FFFB4 demo_kern = Some (Switched k') \<and> current_process k' \<noteq> None"
  using schedule_round_robin [of demo_kern "0xC04FFFB4", OF _ demo_kern_ok(1,2)] demo_kern_ok(3)
  by (fastforce simp: kern_defs demo_kern_def)

text \<open>One turn of the scheduler brings a waiting process closer or lets it run.\<close>

lemma waiting_distance:
  assumes "num_processes k \<noteq> 0" and "before_pick r k = Some k2" and "cur_ok k2" and "runnable k2 (slot_after k2 (cur_proccess_id k2) m)"
    and "m < unat (num_processes k2)" and "schedule r k = Some (Switched k')"
  shows "current_process k' = Some (slot_after k2 (cur_proccess_id k2) m) \<or>
    (\<exists>m'<m. \<forall>k3. num_processes k3 = num_processes k2 \<and> cur_proccess_id k3 = cur_proccess_id k' \<longrightarrow>
       slot_after k3 (cur_proccess_id k3) m' = slot_after k2 (cur_proccess_id k2) m)"
proof -
  let ?c = "cur_proccess_id k2" and ?n = "unat (num_processes k2)"
  have pos: "0 < num_processes k2" using assms(3) by (simp add: cur_ok_def)
  then have "\<exists>j<?n. runnable k2 j" using assms(4) slot_after_less by blast
  then obtain d where d: "d < ?n" "runnable k2 (slot_after k2 ?c d)" "\<forall>e<d. \<not> runnable k2 (slot_after k2 ?c e)"
    "schedule r k = Some (Switched (switch_to_process (slot_after k2 ?c d) r
      (tss_set_stack 0x10 (kernel_stack_top (procs k2 (slot_after k2 ?c d))) (k2\<lparr>cur_proccess_id := of_nat (slot_after k2 ?c d)\<rparr>))))"
    using schedule_search [OF assms(1-3)] by blast
  have k': "current_process k' = Some (slot_after k2 ?c d)" "cur_proccess_id k' = of_nat (slot_after k2 ?c d)"
    using d(4) assms(6) by (auto simp: switch_to_process_effect tss_set_stack_def)
  have "d \<le> m" using d(3) assms(4) by (meson not_le)
  show ?thesis
  proof (cases "d = m")
    case False
    have "slot_after k2 ?c d < ?n" using slot_after_less [OF pos] .
    then have "unat (of_nat (slot_after k2 ?c d) + 1 :: u32) = Suc (slot_after k2 ?c d)"
      using unsigned_less [of "num_processes k2", where 'a = nat] unat_of_nat_small [of "slot_after k2 ?c d", where 'a = 32]
      by (simp add: unat_succ_u32 [of _ ?n])
    then have "slot_after k3 (cur_proccess_id k') (m - Suc d) = slot_after k2 ?c m" if "num_processes k3 = num_processes k2" for k3
      using that False \<open>d \<le> m\<close> mod_add_left_eq [of "unat (?c + 1) + d" ?n "m - d"]
      by (simp add: slot_after_def k'(2) Suc_diff_Suc)
    then show ?thesis using False \<open>d \<le> m\<close> by (intro disjI2 exI [of _ "m - Suc d"]) auto
  qed (use k'(1) in simp)
qed

text \<open>
  C27. No process starves: when the scheduler is entered again and again over an unchanged number of
  processes, between the turns of which anything may happen to the table but the current slot, a
  process that is runnable at every turn runs after at most as many turns as there are processes.
\<close>

theorem no_starvation:
  fixes before after :: "nat \<Rightarrow> kern"
  assumes "\<forall>t. schedule (r t) (before t) = Some (Switched (after t)) \<and> num_processes (before t) \<noteq> 0"
    and "\<forall>t. before_pick (r t) (before t) = Some (search t) \<and> cur_ok (search t) \<and> num_processes (search t) = n"
    and "\<forall>t. cur_proccess_id (search (Suc t)) = cur_proccess_id (after t)"
    and "i < unat n" and "\<forall>t. runnable (search t) i"
  shows "\<exists>t<unat n. current_process (after t) = Some i"
proof -
  have *: "\<exists>u\<le>m. current_process (after (t + u)) = Some i"
    if "slot_after (search t) (cur_proccess_id (search t)) m = i" "m < unat n" for m t
    using that
  proof (induction m arbitrary: t rule: less_induct)
    case (less m)
    have "current_process (after t) = Some i \<or>
      (\<exists>m'<m. \<forall>k3. num_processes k3 = n \<and> cur_proccess_id k3 = cur_proccess_id (after t) \<longrightarrow>
         slot_after k3 (cur_proccess_id k3) m' = i)"
      using waiting_distance [of "before t" "r t" "search t" m "after t"] assms(1,2,5) less.prems by auto
    then show ?case
    proof
      assume "\<exists>m'<m. \<forall>k3. num_processes k3 = n \<and> cur_proccess_id k3 = cur_proccess_id (after t) \<longrightarrow>
         slot_after k3 (cur_proccess_id k3) m' = i"
      then obtain m' where m': "m' < m" "slot_after (search (Suc t)) (cur_proccess_id (search (Suc t))) m' = i"
        using assms(2,3) by auto
      then obtain u where "u \<le> m'" "current_process (after (Suc t + u)) = Some i" using less.IH [of m' "Suc t"] less.prems(2) by auto
      then show ?thesis using m'(1) by (intro exI [of _ "Suc u"]) auto
    qed auto
  qed
  have "\<exists>m<unat n. slot_after (search 0) (cur_proccess_id (search 0)) m = i"
    using slot_after_onto [of i "search 0"] assms(2,4) by auto
  then show ?thesis using * [of 0] by (metis add_0 le_less_trans)
qed

text \<open>A machine with only the idle process: every turn of the scheduler runs it.\<close>

definition idle_kern :: kern where
  "idle_kern = demo_kern\<lparr>num_processes := 1\<rparr>"

theorem no_starvation_witness:
  "\<exists>k'. schedule 0 idle_kern = Some (Switched k') \<and> current_process k' = Some 0"
proof -
  let ?k2 = "set_state 0 READY idle_kern"
  have b: "before_pick 0 idle_kern = Some ?k2" "cur_ok ?k2" "runnable ?k2 0" "num_processes ?k2 = 1" "cur_proccess_id ?k2 = 0"
    by (simp_all add: before_pick_def deliver_signals_def idle_kern_def demo_kern_def no_process_def zero_pcb_def Let_def
        cur_ok_def kern_defs runnable_def)
  have n: "num_processes idle_kern \<noteq> 0" by (simp add: idle_kern_def)
  have s0: "slot_after ?k2 (cur_proccess_id ?k2) d = 0" for d using b(4) by (simp add: slot_after_def)
  obtain k' where k': "schedule 0 idle_kern = Some (Switched k')" "cur_proccess_id k' = 0"
    by (rule schedule_search [OF n b(1,2)]) (use b(3,4) in \<open>auto simp: s0 switch_to_process_effect tss_set_stack_def\<close>)
  show ?thesis
    using no_starvation [of "\<lambda>_. 0" "\<lambda>_. idle_kern" "\<lambda>_. k'" "\<lambda>_. ?k2" 1 0] k' b n by simp
qed

text \<open>
  C28. The sleep queue is a list sorted by wake-up time: a process that goes to sleep is put behind
  all that wake no later and before all that wake later, and the timer wakes exactly the sleepers
  whose time has come, making those still blocked ready, and leaves the rest queued.
\<close>

theorem sleep_queue_correct:
  assumes "sleepers k xs" and "i \<notin> set xs"
  shows "(\<exists>k'. sleep_enqueue i t k = Some k' \<and>
      sleepers k' (takeWhile (\<lambda>x. wake_at k x \<le> t) xs @ i # dropWhile (\<lambda>x. wake_at k x \<le> t) xs) \<and>
      (\<forall>j. wake_at k' j = (if j = i then t else wake_at k j)) \<and> (\<forall>j. pstate (procs k' j) = pstate (procs k j))) \<and>
    (\<exists>k'. sleep_check_wakeup t k = Some k' \<and> sleepers k' (filter (\<lambda>x. t < wake_at k x) xs) \<and>
      (\<forall>j. pstate (procs k' j) =
        (if j \<in> set xs \<and> wake_at k j \<le> t \<and> pstate (procs k j) = BLOCKED then READY else pstate (procs k j))))"
proof (intro conjI)
  have "dropWhile (\<lambda>x. wake_at k x \<le> t) xs = filter (\<lambda>x. t < wake_at k x) xs"
    "set (takeWhile (\<lambda>x. wake_at k x \<le> t) xs) = {j \<in> set xs. wake_at k j \<le> t}"
    using sorted_filters [of "wake_at k" xs t] assms(1) by (simp_all add: sleepers_def)
  then show "\<exists>k'. sleep_check_wakeup t k = Some k' \<and> sleepers k' (filter (\<lambda>x. t < wake_at k x) xs) \<and>
      (\<forall>j. pstate (procs k' j) =
        (if j \<in> set xs \<and> wake_at k j \<le> t \<and> pstate (procs k j) = BLOCKED then READY else pstate (procs k j)))"
    using sleep_check_wakeup_ok [OF assms(1), of t] by auto
qed (rule sleep_enqueue_ok [OF assms])

theorem sleep_queue_correct_witness:
  "\<exists>k'. sleep_enqueue 1 40 demo_kern = Some k' \<and> sleepers k' [1, 2]"
  using sleep_queue_correct [OF demo_kern_ok(4), of 1 40] by (auto simp: demo_kern_def wake_at_def)

text \<open>
  A process at the head of the queue that goes to sleep again before it was taken out (a child
  that ends makes a sleeping parent ready and leaves it queued) turns the queue into a cycle of
  itself: the next wake-up empties the queue, and all other sleepers are never woken.
\<close>

theorem sleep_twice_loses_sleepers:
  assumes "sleepers k (i # xs)" and "t \<le> t'"
  shows "\<exists>k1 k2. sleep_enqueue i t k = Some k1 \<and> sleep_queue k1 = Some i \<and> sleep_next (procs k1 i) = Some i \<and>
    sleep_check_wakeup t' k1 = Some k2 \<and> sleepers k2 [] \<and> (\<forall>x\<in>set xs. pstate (procs k2 x) = pstate (procs k x))"
proof -
  have q: "sleep_queue k = Some i" "i \<notin> set xs" using assms(1) by (auto simp: sleepers_def)
  define k0 where "k0 = upd i (\<lambda>p. p\<lparr>wake_tick := t, sleep_next := None\<rparr>) k"
  define k1 where "k1 = upd i (\<lambda>p. p\<lparr>sleep_next := Some i\<rparr>) (upd i (\<lambda>p. p\<lparr>sleep_next := None\<rparr>) k0)"
  have "sleep_position k0 t i = Some i" by (subst sleep_position.simps) (simp add: k0_def upd_def)
  then have enq: "sleep_enqueue i t k = Some k1"
    using q(1) by (simp add: sleep_enqueue_def k0_def [symmetric] Let_def) (simp add: k1_def k0_def upd_def)
  define k2 where "k2 = wake_first i (wake_first i k1)"
  have "sleep_check_wakeup t' k1 = sleep_check_wakeup t' (wake_first i k1)"
    using q(1) assms(2) by (subst sleep_check_wakeup.simps) (simp add: k1_def k0_def upd_def)
  also have "\<dots> = sleep_check_wakeup t' k2"
    using q(1) assms(2) by (subst sleep_check_wakeup.simps) (simp add: k2_def wake_first_def k1_def k0_def kern_defs Let_def)
  also have "\<dots> = Some k2"
    by (subst sleep_check_wakeup.simps) (simp add: k2_def wake_first_def k1_def k0_def kern_defs Let_def)
  finally have "sleep_check_wakeup t' k1 = Some k2" .
  note enq this
  moreover have "sleepers k2 []" by (simp add: k2_def sleepers_def wake_first_def k1_def kern_defs Let_def)
  moreover have "\<forall>x\<in>set xs. pstate (procs k2 x) = pstate (procs k x)"
    using q(2) by (auto simp: k2_def wake_first_def k1_def k0_def kern_defs Let_def)
  ultimately show ?thesis using q(1) by (intro exI [of _ k1] exI [of _ k2]) (simp add: k1_def k0_def upd_def)
qed

theorem sleep_twice_loses_sleepers_witness:
  "\<exists>k k1 k2. sleepers k [1, 2] \<and> sleep_enqueue 1 60 k = Some k1 \<and> sleep_check_wakeup 99 k1 = Some k2 \<and>
     pstate (procs k2 2) = pstate (procs k 2)"
proof -
  define k where "k = demo_kern\<lparr>sleep_queue := Some 1, procs := (procs demo_kern)(1 := (procs demo_kern 1)\<lparr>sleep_next := Some 2\<rparr>)\<rparr>"
  have "sleepers k [1, 2]" by (simp add: k_def demo_kern_def sleepers_def wake_at_def zero_pcb_def)
  then show ?thesis using sleep_twice_loses_sleepers [of k 1 "[2]" 60 99] by auto
qed

end
