(* ===== verification/Fork.thy ===== *)
theory Fork
  imports Sched
begin

text \<open>
  \<^verbatim>\<open>fork_process\<close> of \<^verbatim>\<open>kernel/src/proc/process.c\<close>.
\<close>

section \<open>Fork\<close>

definition fork_slot :: "kern \<Rightarrow> nat option" where
  "fork_slot k =
     (case List.find (\<lambda>i. pstate (procs k i) = TERMINATED \<and> pid (procs k i) \<noteq> 0) [0..<unat (num_processes k)] of
        Some i \<Rightarrow> Some i
      | None \<Rightarrow> if MAX_PROCESSES \<le> unat (num_processes k) then None else Some (unat (num_processes k)))"

text \<open>\<^verbatim>\<open>parent->children_id[parent->num_children] = pid; parent->num_children++\<close>\<close>

definition add_child :: "nat \<Rightarrow> u32 \<Rightarrow> kern \<Rightarrow> kern" where
  "add_child parent c k =
     (let n = unat (num_children (procs k parent));
          k = (if n < MAX_PROCESSES then upd parent (\<lambda>p. p\<lparr>children_id := (children_id p)(n := c)\<rparr>) k
               else k\<lparr>children_oob := True\<rparr>)
      in upd parent (\<lambda>p. p\<lparr>num_children := num_children p + 1\<rparr>) k)"

definition clone_fields :: "nat \<Rightarrow> nat \<Rightarrow> kern \<Rightarrow> kern" where
  "clone_fields parent slot k =
     (let q = procs k parent;
          k' = upd slot (\<lambda>p. init_process_signals (Some q)
                 (p\<lparr>pid := next_pid k, pstate := BLOCKED, parent_id := pid q, num_children := 0\<rparr>)) k;
          k' = k'\<lparr>next_pid := next_pid k + 1\<rparr>
      in upd slot (\<lambda>p. p\<lparr>proc_name := (\<lambda>i. if i < 19 then proc_name q i else if i = 19 then 0 else proc_name p i),
                         cwd := take 254 (cwd q)\<rparr>) k')"

definition clone_address_space :: "u32 \<Rightarrow> vm \<Rightarrow> u32 \<times> vm" where
  "clone_address_space parent_dir s =
     (let saved_dir = vmm_get_directory s;
          s = set_page_dir parent_dir s;
          (child_dir, s) = vmm_clone_directory s;
          s = set_page_dir child_dir s;
          s = vmm_copy_user_pages parent_dir s
      in (child_dir, set_page_dir saved_dir s))"

definition share_file :: "nat \<Rightarrow> nat \<Rightarrow> nat \<Rightarrow> kern \<Rightarrow> kern" where
  "share_file parent slot fd k =
     (let f = files_open (procs k parent) fd;
          k = (case f of
                 Some fp \<Rightarrow> (case fnode fp of None \<Rightarrow> k | Some n \<Rightarrow> set_refcount n (refcount (nodes (kfs k) n) + 1) k)
               | None \<Rightarrow> k)
      in upd slot (\<lambda>p. p\<lparr>files_open := (files_open p)(fd := f)\<rparr>) k)"

text \<open>\<^verbatim>\<open>sizeof(struct regs)\<close> is 76.\<close>

definition fork_process :: "nat \<Rightarrow> u32 \<Rightarrow> kern \<Rightarrow> (nat option \<times> kern) option" where
  "fork_process parent r k =
     (case fork_slot k of
        None \<Rightarrow> Some (None, k)
      | Some slot \<Rightarrow>
          do {
            let k = clone_fields parent slot k;
            (ok, k) \<leftarrow> alloc_kernel_stack slot k;
            if \<not> ok then Some (None, set_state slot TERMINATED k)
            else do {
              let k = add_child parent (pid (procs k slot)) k;
              let (child_dir, v) = clone_address_space (r_cr3 (pregs (procs k parent))) (hvm (kheap k));
              let k = upd_vm (\<lambda>_. v) k;
              let tf = kernel_stack_top (procs k slot) - 76;
              let k = upd_frame tf (\<lambda>_. (frames k r)\<lparr>t_eax := 0\<rparr>) k;
              let k = upd slot (\<lambda>p. p\<lparr>pregs := (pregs (procs k parent))\<lparr>r_esp := tf, r_eax := 0, r_cr3 := child_dir\<rparr>,
                                       memory_regions := memory_regions (procs k parent)\<rparr>) k;
              let k = fold (share_file parent slot) [0..<MAX_FILES] k;
              let k = (if slot = unat (num_processes k) then k\<lparr>num_processes := num_processes k + 1\<rparr> else k);
              Some (Some slot, set_state slot READY k)
            }
          })"

section \<open>Sharing the open files\<close>

text \<open>How many of the descriptors \<open>fds\<close> of a process lead to node \<open>n\<close>.\<close>

definition leads_to :: "pcb \<Rightarrow> nat \<Rightarrow> nat \<Rightarrow> bool" where
  "leads_to p n fd \<longleftrightarrow> (case files_open p fd of None \<Rightarrow> False | Some f \<Rightarrow> fnode f = Some n)"

definition refs_in :: "pcb \<Rightarrow> nat \<Rightarrow> nat list \<Rightarrow> nat" where
  "refs_in p n fds = length (filter (leads_to p n) fds)"

lemma share_file_fields:
  "procs (share_file i j fd k) = (procs k)(j := (procs k j)\<lparr>files_open := (files_open (procs k j))(fd := files_open (procs k i) fd)\<rparr>)"
  "refcount (nodes (kfs (share_file i j fd k)) n) =
     (if leads_to (procs k i) n fd then refcount (nodes (kfs k) n) + 1 else refcount (nodes (kfs k) n))"
  "frames (share_file i j fd k) = frames k" "num_processes (share_file i j fd k) = num_processes k"
  "next_pid (share_file i j fd k) = next_pid k" "children_oob (share_file i j fd k) = children_oob k"
  by (auto simp: share_file_def Let_def leads_to_def kern_defs put_node_def split: option.splits)

lemma share_files:
  assumes "i \<noteq> j"
  defines "f \<equiv> \<lambda>fds k. fold (share_file i j) fds k"
  shows "procs (f fds k) = (procs k)(j := (procs k j)\<lparr>files_open :=
      (\<lambda>fd. if fd \<in> set fds then files_open (procs k i) fd else files_open (procs k j) fd)\<rparr>)"
    "refcount (nodes (kfs (f fds k)) n) = refcount (nodes (kfs k) n) + of_nat (refs_in (procs k i) n fds)"
    "frames (f fds k) = frames k" "num_processes (f fds k) = num_processes k" "next_pid (f fds k) = next_pid k"
    "children_oob (f fds k) = children_oob k"
  using assms(1)
  by (induction fds arbitrary: k) (auto simp: f_def share_file_fields refs_in_def fun_eq_iff leads_to_def)

lemma fork_effect:
  assumes "fork_slot k = Some slot" and "slot \<noteq> parent" and "malloc KERNEL_STACK_SIZE (kheap k) = Some (a, h)" and "a \<noteq> 0"
  shows "\<exists>k' c q. fork_process parent r k = Some (Some slot, k') \<and> c = procs k' slot \<and> q = procs k parent \<and>
    pid c = next_pid k \<and> next_pid k' = next_pid k + 1 \<and> parent_id c = pid q \<and> pstate c = READY \<and>
    frames k' (r_esp (pregs c)) = (frames k r)\<lparr>t_eax := 0\<rparr> \<and> r_esp (pregs c) = ((a + KERNEL_STACK_SIZE - 32) AND NOT 0xF) - 76 \<and>
    memory_regions c = memory_regions q \<and> cwd c = take 254 (cwd q) \<and> sigmask (sig c) = sigmask (sig q) \<and> pending (sig c) = 0 \<and>
    (\<forall>sg<NSIG. disposition (sig c) sg = disposition (sig q) sg) \<and>
    (\<forall>fd<MAX_FILES. files_open c fd = files_open q fd) \<and>
    (\<forall>n. refcount (nodes (kfs k') n) = refcount (nodes (kfs k) n) + of_nat (refs_in q n [0..<MAX_FILES])) \<and>
    num_children (procs k' parent) = num_children q + 1 \<and>
    (if unat (num_children q) < MAX_PROCESSES
     then children_id (procs k' parent) = (children_id q)(unat (num_children q) := pid c) \<and> children_oob k' = children_oob k
     else children_oob k') \<and>
    (\<forall>j. j \<noteq> slot \<and> j \<noteq> parent \<longrightarrow> procs k' j = procs k j) \<and>
    num_processes k' = (if slot = unat (num_processes k) then num_processes k + 1 else num_processes k)"
proof -
  define k1 where "k1 = clone_fields parent slot k"
  have heap: "kheap k1 = kheap k" by (simp add: k1_def clone_fields_def Let_def kern_defs)
  define k2 where "k2 = upd slot (\<lambda>p. p\<lparr>kernel_stack_alloc := a, kernel_stack_bottom := a,
    kernel_stack_top := (a + KERNEL_STACK_SIZE - 32) AND NOT 0xF\<rparr>) (k1\<lparr>kheap := h\<rparr>)"
  have k2: "alloc_kernel_stack slot k1 = Some (True, k2)"
    using assms(3,4) by (simp add: alloc_kernel_stack_def heap k2_def Let_def)
  define k3 where "k3 = add_child parent (pid (procs k2 slot)) k2"
  obtain dir v where v: "clone_address_space (r_cr3 (pregs (procs k3 parent))) (hvm (kheap k3)) = (dir, v)" by force
  define k4 where "k4 = upd_vm (\<lambda>_. v) k3"
  define tf where "tf = kernel_stack_top (procs k4 slot) - 76"
  define k5 where "k5 = upd_frame tf (\<lambda>_. (frames k4 r)\<lparr>t_eax := 0\<rparr>) k4"
  define k6 where "k6 = upd slot (\<lambda>p. p\<lparr>pregs := (pregs (procs k5 parent))\<lparr>r_esp := tf, r_eax := 0, r_cr3 := dir\<rparr>,
    memory_regions := memory_regions (procs k5 parent)\<rparr>) k5"
  define k7 where "k7 = fold (share_file parent slot) [0..<MAX_FILES] k6"
  define k' where "k' = set_state slot READY (if slot = unat (num_processes k7) then k7\<lparr>num_processes := num_processes k7 + 1\<rparr> else k7)"
  have f: "fork_process parent r k = Some (Some slot, k')"
    unfolding fork_process_def assms(1) k'_def k7_def k6_def k5_def tf_def k4_def
    by (simp only: Let_def option.case k1_def [symmetric] k2 v [unfolded k3_def] k3_def bind.bind_lunit prod.case not_True_eq_False if_False)
  have top: "tf = ((a + KERNEL_STACK_SIZE - 32) AND NOT 0xF) - 76"
    using assms(2) by (simp add: tf_def k4_def k3_def k2_def add_child_def Let_def kern_defs)
  note parts = k6_def k5_def k4_def k3_def k2_def k1_def add_child_def clone_fields_def init_process_signals_def Let_def kern_defs
  have p6: "files_open (procs k6 parent) = files_open (procs k parent)" using assms(2) by (simp add: parts)
  then have refs: "refs_in (procs k6 parent) n fds = refs_in (procs k parent) n fds" for n fds
    by (simp add: refs_in_def leads_to_def [abs_def])
  have kfs6: "kfs k6 = kfs k" by (simp add: parts)
  have p7: "procs k7 = (procs k6)(slot := (procs k6 slot)\<lparr>files_open :=
      (\<lambda>fd. if fd \<in> set [0..<MAX_FILES] then files_open (procs k parent) fd else files_open (procs k6 slot) fd)\<rparr>)"
    using share_files(1) [of parent slot "[0..<MAX_FILES]" k6] assms(2) unfolding p6 k7_def by simp
  have r7: "refcount (nodes (kfs k7) n) = refcount (nodes (kfs k) n) + of_nat (refs_in (procs k parent) n [0..<MAX_FILES])" for n
    using share_files(2) [of parent slot "[0..<MAX_FILES]" k6 n] assms(2) by (simp add: k7_def refs kfs6)
  have o7: "frames k7 = frames k6" "num_processes k7 = num_processes k6" "next_pid k7 = next_pid k6" "children_oob k7 = children_oob k6"
    using share_files(3-6) [of parent slot "[0..<MAX_FILES]" k6] assms(2) by (simp_all add: k7_def)
  have k'7: "procs k' = (procs k7)(slot := (procs k7 slot)\<lparr>pstate := READY\<rparr>)" "kfs k' = kfs k7" "frames k' = frames k7"
    "next_pid k' = next_pid k7" "children_oob k' = children_oob k7"
    "num_processes k' = (if slot = unat (num_processes k7) then num_processes k7 + 1 else num_processes k7)"
    by (simp_all add: k'_def kern_defs)
  have "pid (procs k6 slot) = next_pid k" "next_pid k6 = next_pid k + 1" "parent_id (procs k6 slot) = pid (procs k parent)"
    "frames k6 tf = (frames k r)\<lparr>t_eax := 0\<rparr>" "r_esp (pregs (procs k6 slot)) = tf"
    "memory_regions (procs k6 slot) = memory_regions (procs k parent)" "cwd (procs k6 slot) = take 254 (cwd (procs k parent))"
    "sigmask (sig (procs k6 slot)) = sigmask (sig (procs k parent))" "pending (sig (procs k6 slot)) = 0"
    "\<forall>sg<NSIG. disposition (sig (procs k6 slot)) sg = disposition (sig (procs k parent)) sg"
    "num_children (procs k6 parent) = num_children (procs k parent) + 1" "num_processes k6 = num_processes k"
    "if unat (num_children (procs k parent)) < MAX_PROCESSES
     then children_id (procs k6 parent) = (children_id (procs k parent))(unat (num_children (procs k parent)) := next_pid k) \<and> children_oob k6 = children_oob k
     else children_oob k6"
    "\<forall>j. j \<noteq> slot \<and> j \<noteq> parent \<longrightarrow> procs k6 j = procs k j"
    using assms(2) by (simp_all add: parts)
  then show ?thesis
    using f top r7 o7 assms(2)
    by (intro exI [of _ k'] exI [of _ "procs k' slot"] exI [of _ "procs k parent"] conjI)
      (simp_all add: k'7 p7)
qed

section \<open>Properties\<close>

text \<open>
  C29. Fork: with a free slot and a kernel stack, the child is a new ready process with a new number,
  listed among the children of its parent. It continues where the parent made the call, with 0 as
  result, has the parent's regions, working directory, masks and handlers and no pending signal,
  and shares its open files, each node counting one more reference for every descriptor that leads
  to it. No third process changes. The list of children has ten places: an eleventh is
  written behind it.
\<close>

theorem fork_correct:
  assumes "fork_slot k = Some slot" and "slot \<noteq> parent" and "malloc KERNEL_STACK_SIZE (kheap k) = Some (a, h)" and "a \<noteq> 0"
  shows "\<exists>k' c q. fork_process parent r k = Some (Some slot, k') \<and> c = procs k' slot \<and> q = procs k parent \<and>
    pid c = next_pid k \<and> next_pid k' = next_pid k + 1 \<and> parent_id c = pid q \<and> pstate c = READY \<and>
    frames k' (r_esp (pregs c)) = (frames k r)\<lparr>t_eax := 0\<rparr> \<and> r_esp (pregs c) = ((a + KERNEL_STACK_SIZE - 32) AND NOT 0xF) - 76 \<and>
    memory_regions c = memory_regions q \<and> cwd c = take 254 (cwd q) \<and> sigmask (sig c) = sigmask (sig q) \<and> pending (sig c) = 0 \<and>
    (\<forall>sg<NSIG. disposition (sig c) sg = disposition (sig q) sg) \<and>
    (\<forall>fd<MAX_FILES. files_open c fd = files_open q fd) \<and>
    (\<forall>n. refcount (nodes (kfs k') n) = refcount (nodes (kfs k) n) + of_nat (refs_in q n [0..<MAX_FILES])) \<and>
    num_children (procs k' parent) = num_children q + 1 \<and>
    (if unat (num_children q) < MAX_PROCESSES
     then children_id (procs k' parent) = (children_id q)(unat (num_children q) := pid c) \<and> children_oob k' = children_oob k
     else children_oob k') \<and>
    (\<forall>j. j \<noteq> slot \<and> j \<noteq> parent \<longrightarrow> procs k' j = procs k j) \<and>
    num_processes k' = (if slot = unat (num_processes k) then num_processes k + 1 else num_processes k)"
  by (rule fork_effect [OF assms])

text \<open>A heap with one free block of four pages.\<close>

definition roomy_heap :: heap where
  "roomy_heap = demo_heap\<lparr>hdrs := (\<lambda>_. \<lparr>bsize = 0x4000, bfree = True, bnext = 0\<rparr>)\<rparr>"

lemma roomy_malloc: "\<exists>h. malloc KERNEL_STACK_SIZE roomy_heap = Some (0xC040000C, h)"
proof -
  have "malloc_find roomy_heap KERNEL_STACK_SIZE 0xC0400000 = Some 0xC0400000"
    by (subst malloc_find.simps) (simp add: roomy_heap_def KERNEL_STACK_SIZE_def)
  then show ?thesis
    by (simp add: malloc_def malloc_take_def Let_def) (simp add: roomy_heap_def demo_heap_def KERNEL_STACK_SIZE_def HDR_def malloc_take_def Let_def)
qed

theorem fork_correct_witness:
  "\<exists>k' c. fork_process 0 0xC04FFFB4 (demo_kern\<lparr>kheap := roomy_heap\<rparr>) = Some (Some 3, k') \<and> c = procs k' 3 \<and> pid c = 3 \<and>
     pstate c = READY \<and> num_processes k' = 4"
proof -
  let ?k = "demo_kern\<lparr>kheap := roomy_heap\<rparr>"
  have "fork_slot ?k = Some 3"
    by (simp add: fork_slot_def demo_kern_def zero_pcb_def MAX_PROCESSES_def upt_rec)
  moreover obtain h where "malloc KERNEL_STACK_SIZE (kheap ?k) = Some (0xC040000C, h)" using roomy_malloc by auto
  ultimately show ?thesis
    using fork_correct [of ?k 3 0 "0xC040000C" h "0xC04FFFB4"] by (auto simp: demo_kern_def)
qed

end
