(* ===== verification/Files.thy ===== *)
theory Files
  imports Fork
begin

text \<open>
  The kernel's \<^verbatim>\<open>fopen\<close>, \<^verbatim>\<open>fread\<close> and \<^verbatim>\<open>fwrite\<close>
  (\<^verbatim>\<open>kernel/src/stdio\<close>), \<^verbatim>\<open>pipe_create\<close>, and the system calls on file descriptors of
  \<^verbatim>\<open>kernel/src/arch/syscalls.c\<close>: open, read, write, dup, dup2, pipe, lseek and close.
\<close>

section \<open>Results\<close>

text \<open>
  A system call returns a value for EAX, waits in the loop of a pipe, leaves the processor to
  another process, or continues in a driver whose effect is outside of the model (the screen).
  \<open>None\<close> is a fault on an unmapped user page or a call that does not end.
\<close>

datatype sysres = Done u32 kern | Waits kern | Left sched | Driver fnptr kern

definition FILE_READ :: u8 where "FILE_READ = 1"
definition FILE_WRITE :: u8 where "FILE_WRITE = 2"
definition FILE_APPEND :: u8 where "FILE_APPEND = 4"
definition FS_PIPE :: u8 where "FS_PIPE = 5"

section \<open>Opening\<close>

definition mode_bit :: "u8 \<Rightarrow> u8" where
  "mode_bit c = (if c = 0x61 then FILE_APPEND else 0) OR (if c = 0x72 then FILE_READ else 0) OR (if c = 0x77 then FILE_WRITE else 0)"

definition get_mode :: "cstring \<Rightarrow> u8" where
  "get_mode modes = fold (\<lambda>c m. m OR mode_bit c) modes 0"

definition free_fd :: "nat \<Rightarrow> kern \<Rightarrow> nat \<Rightarrow> nat option" where
  "free_fd i k from = List.find (\<lambda>fd. files_open (procs k i) fd = None) [from..<MAX_FILES]"

definition set_file :: "nat \<Rightarrow> nat \<Rightarrow> kfile option \<Rightarrow> kern \<Rightarrow> kern" where
  "set_file i fd f = upd i (\<lambda>p. p\<lparr>files_open := (files_open p)(fd := f)\<rparr>)"

text \<open>\<^verbatim>\<open>if (node) node->refcount++\<close>\<close>

definition add_ref :: "nat option \<Rightarrow> kern \<Rightarrow> kern" where
  "add_ref n k = (case n of None \<Rightarrow> k | Some n \<Rightarrow> set_refcount n (refcount (nodes (kfs k) n) + 1) k)"

definition lookup_or_create :: "cstring \<Rightarrow> u8 \<Rightarrow> kern \<Rightarrow> (nat option \<times> kern) option" where
  "lookup_or_create path mm k =
     do {
       (n, s) \<leftarrow> get_node path (Some (root_dir (kfs k))) (kfs k);
       if n = None \<and> mm AND (FILE_WRITE OR FILE_APPEND) \<noteq> 0 then
         do {
           (n, s) \<leftarrow> create_node path (Some (root_dir s)) s;
           Some (n, k\<lparr>kfs := s\<rparr>)
         }
       else Some (n, k\<lparr>kfs := s\<rparr>)
     }"

definition fopen :: "cstring \<Rightarrow> cstring \<Rightarrow> kern \<Rightarrow> (u32 \<times> kern) option" where
  "fopen path modes k =
     do {
       let mm = get_mode modes;
       (n, k) \<leftarrow> lookup_or_create path mm k;
       case n of
         None \<Rightarrow> Some (- 1, k)
       | Some node \<Rightarrow>
           do {
             i \<leftarrow> current_process k;
             case free_fd i k 3 of
               None \<Rightarrow> Some (- 1, k)
             | Some fd \<Rightarrow> Some (of_nat fd, add_ref (Some node) (set_file i fd (Some \<lparr>fflags = mm, fnode = Some node\<rparr>) k))
           }
     }"

section \<open>Reading and writing\<close>

definition user_mapped :: "vm \<Rightarrow> u32 \<Rightarrow> nat \<Rightarrow> bool" where
  "user_mapped v a n = list_all (\<lambda>i. is_page_mapped v (a + of_nat i)) [0..<n]"

text \<open>The bytes a read delivers are stored through the user pointer.\<close>

definition deliver_bytes :: "u32 \<Rightarrow> u8 list \<Rightarrow> kern \<Rightarrow> kern option" where
  "deliver_bytes buf bs k =
     (if user_mapped (hvm (kheap k)) buf (length bs) then Some (upd_vm (put_user_bytes buf bs) k) else None)"

definition user_buffer :: "kern \<Rightarrow> u32 \<Rightarrow> bytes" where
  "user_buffer k buf = (\<lambda>i. kmem (hvm (kheap k)) (user_ref (hvm (kheap k)) (buf + of_nat i)))"

definition set_node :: "nat \<Rightarrow> fs_node \<Rightarrow> kern \<Rightarrow> kern" where
  "set_node n x k = k\<lparr>kfs := put_node n x (kfs k)\<rparr>"

definition read_node :: "nat \<Rightarrow> u32 \<Rightarrow> u32 \<Rightarrow> u32 \<Rightarrow> kern \<Rightarrow> sysres option" where
  "read_node n buf sz units k =
     (let node = nodes (kfs k) n
      in case read_fs n sz units (user_buffer k buf) (kfs k) of
           None \<Rightarrow> None
         | Some (Ret (v, b, s)) \<Rightarrow>
             (let m = unat (seek_offset (nodes s n) - seek_offset node)
              in map_option (Done v) (deliver_bytes buf (map b [0..<m]) (k\<lparr>kfs := s\<rparr>)))
         | Some (Device KeyboardFn) \<Rightarrow>
             (let (bs, pos, kb) = keyboard_read_fs (seek_offset node) sz units (kbd_state k)
              in map_option (Done (of_nat (length bs)))
                   (deliver_bytes buf bs (set_node n (node\<lparr>seek_offset := pos\<rparr>) (k\<lparr>kbd_state := kb\<rparr>))))
         | Some (Device MouseFn) \<Rightarrow>
             (let (bs, pos, m) = mouse_read_fs (seek_offset node) units (mouse_state k)
              in map_option (Done (of_nat (length bs)))
                   (deliver_bytes buf bs (set_node n (node\<lparr>seek_offset := pos\<rparr>) (k\<lparr>mouse_state := m\<rparr>))))
         | Some (Device PipeFn) \<Rightarrow>
             (case ptr node of
                None \<Rightarrow> None
              | Some b \<Rightarrow>
                  (let (waits, bs, pb) = pipe_read_fn sz units (pipes k b)
                   in map_option (\<lambda>k. if waits then Waits k else Done (of_nat (length bs)) k)
                        (deliver_bytes buf bs (k\<lparr>pipes := (pipes k)(b := pb)\<rparr>))))
         | Some (Device f) \<Rightarrow> Some (Driver f k))"

definition fread :: "u32 \<Rightarrow> u32 \<Rightarrow> u32 \<Rightarrow> kfile \<Rightarrow> kern \<Rightarrow> sysres option" where
  "fread buf sz count fp k =
     (if fflags fp AND FILE_READ \<noteq> FILE_READ then Some (Done (- 1) k)
      else case fnode fp of None \<Rightarrow> None | Some n \<Rightarrow> read_node n buf sz count k)"

definition write_node :: "nat \<Rightarrow> u32 \<Rightarrow> u32 \<Rightarrow> u32 \<Rightarrow> kern \<Rightarrow> sysres option" where
  "write_node n buf sz units k =
     (if \<not> user_mapped (hvm (kheap k)) buf (unat (sz * units)) then None
      else case write_fs n sz units (user_buffer k buf) (kfs k) of
             None \<Rightarrow> None
           | Some (Ret (v, s)) \<Rightarrow> Some (Done v (k\<lparr>kfs := s\<rparr>))
           | Some (Device PipeFn) \<Rightarrow>
               (case ptr (nodes (kfs k) n) of
                  None \<Rightarrow> None
                | Some b \<Rightarrow>
                    (let (waits, m, pb) = pipe_write_fn sz units (user_buffer k buf) (pipes k b);
                         k = k\<lparr>pipes := (pipes k)(b := pb)\<rparr>
                     in Some (if waits then Waits k else Done (of_nat m) k)))
           | Some (Device f) \<Rightarrow> Some (Driver f k))"

definition fwrite :: "u32 \<Rightarrow> u32 \<Rightarrow> u32 \<Rightarrow> kfile \<Rightarrow> kern \<Rightarrow> sysres option" where
  "fwrite buf sz count fp k =
     (if fflags fp AND FILE_WRITE \<noteq> FILE_WRITE then Some (Done 0 k)
      else
        let tot = sz * count
        in if sz \<noteq> 0 \<and> tot div sz \<noteq> count then Some (Done 0 k)
           else case fnode fp of None \<Rightarrow> None | Some n \<Rightarrow> write_node n buf tot 1 k)"

text \<open>
  The test of the user buffer looks at one address in every 4096 from the start of the buffer on.
  The address wraps, so the loop need not end.
\<close>

partial_function (option) check_buffer :: "vm \<Rightarrow> u32 \<Rightarrow> u32 \<Rightarrow> bool option" where
  "check_buffer v a e =
     (if a < e then if \<not> is_page_mapped v a then Some False else check_buffer v (a + 4096) e
      else Some True)"

text \<open>What read and write check before they call the file.\<close>

definition checked_file :: "u32 \<Rightarrow> kern \<Rightarrow> kfile option option" where
  "checked_file r k =
     (let fd = t_esi (frames k r); buf = t_ebx (frames k r); sz = t_ecx (frames k r); count = t_edx (frames k r); tot = sz * count
      in if of_nat MAX_FILES \<le> fd then Some None
         else
           do {
             i \<leftarrow> current_process k;
             case files_open (procs k i) (unat fd) of
               None \<Rightarrow> Some None
             | Some fp \<Rightarrow>
                 if count \<noteq> 0 \<and> tot div count \<noteq> sz then Some None
                 else map_option (\<lambda>ok. if ok then Some fp else None) (check_buffer (hvm (kheap k)) buf (buf + tot))
           })"

definition syscall_read :: "u32 \<Rightarrow> kern \<Rightarrow> sysres option" where
  "syscall_read r k =
     (case checked_file r k of
        None \<Rightarrow> None
      | Some None \<Rightarrow> Some (Done (- 1) k)
      | Some (Some fp) \<Rightarrow> fread (t_ebx (frames k r)) (t_ecx (frames k r)) (t_edx (frames k r)) fp k)"

definition syscall_write :: "u32 \<Rightarrow> kern \<Rightarrow> sysres option" where
  "syscall_write r k =
     (case checked_file r k of
        None \<Rightarrow> None
      | Some None \<Rightarrow> Some (Done (- 1) k)
      | Some (Some fp) \<Rightarrow> fwrite (t_ebx (frames k r)) (t_ecx (frames k r)) (t_edx (frames k r)) fp k)"

section \<open>Descriptors\<close>

definition syscall_close :: "u32 \<Rightarrow> kern \<Rightarrow> (u32 \<times> kern) option" where
  "syscall_close fd k =
     do {
       i \<leftarrow> (if fd < 3 \<or> of_nat MAX_FILES \<le> fd then Some 0 else current_process k);
       if fd < 3 \<or> of_nat MAX_FILES \<le> fd then Some (- 1, k)
       else if files_open (procs k i) (unat fd) = None then Some (- 1, k)
       else map_option (Pair 0) (close_slot i (unat fd) k)
     }"

definition syscall_dup :: "u32 \<Rightarrow> kern \<Rightarrow> (u32 \<times> kern) option" where
  "syscall_dup r k =
     (let old_fd = t_ebx (frames k r)
      in if of_nat MAX_FILES \<le> old_fd then Some (- 1, k)
         else
           do {
             i \<leftarrow> current_process k;
             case files_open (procs k i) (unat old_fd) of
               None \<Rightarrow> Some (- 1, k)
             | Some fp \<Rightarrow>
                 (case free_fd i k 0 of
                    None \<Rightarrow> Some (- 1, k)
                  | Some fd \<Rightarrow> Some (of_nat fd, set_file i fd (Some fp) (add_ref (fnode fp) k)))
           })"

definition syscall_dup2 :: "u32 \<Rightarrow> kern \<Rightarrow> (u32 \<times> kern) option" where
  "syscall_dup2 r k =
     (let old_fd = t_ebx (frames k r); new_fd = t_ecx (frames k r)
      in if of_nat MAX_FILES \<le> old_fd \<or> of_nat MAX_FILES \<le> new_fd then Some (- 1, k)
         else if old_fd = new_fd then Some (new_fd, k)
         else
           do {
             i \<leftarrow> current_process k;
             case files_open (procs k i) (unat old_fd) of
               None \<Rightarrow> Some (- 1, k)
             | Some fp \<Rightarrow>
                 do {
                   k \<leftarrow> (if files_open (procs k i) (unat new_fd) \<noteq> None then map_option snd (syscall_close new_fd k) else Some k);
                   Some (new_fd, set_file i (unat new_fd) (Some fp) (add_ref (fnode fp) k))
                 }
           })"

text \<open>The two endpoints of a new pipe; the buffer that \<^verbatim>\<open>malloc\<close> returns is not cleared.\<close>

definition pipe_end :: "bool \<Rightarrow> nat \<Rightarrow> fs_node" where
  "pipe_end reader b =
     zero_node\<lparr>flags := FS_PIPE, ptr := Some b, nread := (if reader then PipeFn else NoFn), nwrite := (if reader then NoFn else PipeFn),
       nclose := PipeFn, refcount := 1, impl := (if reader then 1 else 0)\<rparr>"

definition create_pipe :: "kern \<Rightarrow> nat \<times> nat \<times> kern" where
  "create_pipe k =
     (let b = next_pipe k;
          (rn, s) = new_node (pipe_end True b) (kfs k);
          (wn, s) = new_node (pipe_end False b) s
      in (rn, wn, k\<lparr>kfs := s, pipes := (pipes k)(b := pipe_init (pipes k b)), next_pipe := Suc b\<rparr>))"

definition syscall_pipe :: "u32 \<Rightarrow> kern \<Rightarrow> (u32 \<times> kern) option" where
  "syscall_pipe r k =
     (let fds = t_ebx (frames k r)
      in if \<not> is_user_ptr fds then Some (- 1, k)
         else
           let b = next_pipe k; (rn, wn, k) = create_pipe k
           in do {
                i \<leftarrow> current_process k;
                case (free_fd i k 3, Option.bind (free_fd i k 3) (\<lambda>fd. free_fd i k (Suc fd))) of
                  (Some rfd, Some wfd) \<Rightarrow>
                    do {
                      let k = set_file i rfd (Some \<lparr>fflags = FILE_READ, fnode = Some rn\<rparr>) k;
                      let k = set_file i wfd (Some \<lparr>fflags = FILE_WRITE, fnode = Some wn\<rparr>) k;
                      (ok, v) \<leftarrow> copy_out fds (le_bytes (of_nat rfd) @ le_bytes (of_nat wfd)) (hvm (kheap k));
                      if ok then Some (0, upd_vm (\<lambda>_. v) k)
                      else
                        let k = close_pipe_end wn (close_pipe_end rn k);
                            k = k\<lparr>freed_nodes := {rn, wn} \<union> freed_nodes k\<rparr>
                        in Some (- 1, set_file i wfd None (set_file i rfd None k))
                    }
                | _ \<Rightarrow> Some (- 1, k\<lparr>freed_pipes := insert b (freed_pipes k), freed_nodes := {rn, wn} \<union> freed_nodes k\<rparr>)
              })"

definition syscall_lseek :: "u32 \<Rightarrow> kern \<Rightarrow> (u32 \<times> kern) option" where
  "syscall_lseek r k =
     (let fd = t_ebx (frames k r); offset = t_ecx (frames k r); whence = t_edx (frames k r)
      in if of_nat MAX_FILES \<le> fd then Some (- 1, k)
         else
           do {
             i \<leftarrow> current_process k;
             case Option.bind (files_open (procs k i) (unat fd)) fnode of
               None \<Rightarrow> Some (- 1, k)
             | Some n \<Rightarrow>
                 let new_off = seek_offset (nodes (kfs k) n) + offset;
                     go = (\<lambda>off w. case seek_fs n off w (kfs k) of
                                     Device _ \<Rightarrow> None
                                   | Ret s \<Rightarrow> Some (seek_offset (nodes s n), k\<lparr>kfs := s\<rparr>))
                 in if whence = 0 then if offset <s 0 then Some (- 1, k) else go offset 0
                    else if whence = 1 then
                      if 0 <s offset \<and> new_off <s 0 then Some (- 1, k)
                      else if offset <s 0 \<and> 0 <s new_off then Some (- 1, k)
                      else if new_off <s 0 then Some (- 1, k)
                      else go new_off 0
                    else if whence = 2 then go offset 2
                    else Some (- 1, k)
           })"

section \<open>Nodes that a lookup makes\<close>

text \<open>A property that the callback keeps holds of the result of an iteration.\<close>

lemma iter_entries_keeps: "(\<And>e c. P c \<Longrightarrow> P (cb e c)) \<Longrightarrow> P c \<Longrightarrow> P (snd (iter_entries cb buf i n c))"
  by (induction n arbitrary: i c) (auto simp: Let_def)

lemma iter_root_keeps: "(\<And>e c. P c \<Longrightarrow> P (cb e c)) \<Longrightarrow> P c \<Longrightarrow> P (iter_root v cb s n c)"
proof (induction n arbitrary: s c)
  case (Suc n)
  then show ?case using iter_entries_keeps [of P cb c] by (auto simp: Let_def split: prod.splits) (metis snd_conv)+
qed simp

lemma iter_chain_keeps:
  assumes "\<And>e c. P c \<Longrightarrow> P (cb e c)" and "iter_chain v cb cl c = Some r" and "P c"
  shows "P r"
proof -
  have "(\<forall>e c. P c \<longrightarrow> P (cb e c)) \<longrightarrow> P c \<longrightarrow> P r"
  proof (rule iter_chain.raw_induct [OF _ assms(2)], intro impI)
    fix it v cb cl c r
    assume ih: "\<And>v cb cl c r. it v cb cl c = Some r \<Longrightarrow> (\<forall>e c. P c \<longrightarrow> P (cb e c)) \<longrightarrow> P c \<longrightarrow> P r"
      and body: "(if cl = 0xFFFF then Some c
        else let (stop, c) = iter_entries cb (fat12_read_cluster v cl) 0 (entries_per_cluster v) c
             in if stop then Some c else it v cb (next_cluster v cl) c) = Some r"
      and cb: "\<forall>e c. P c \<longrightarrow> P (cb e c)" and c: "P c"
    obtain st c1 where e: "iter_entries cb (fat12_read_cluster v cl) 0 (entries_per_cluster v) c = (st, c1)" by force
    then have "P c1" using iter_entries_keeps [of P cb c] cb c by (metis snd_conv)
    then show "P r" using body c e ih cb by (auto simp: Let_def split: if_splits)
  qed
  then show ?thesis using assms(1,3) by blast
qed

lemma iterate_dir_keeps:
  assumes "\<And>e c. P c \<Longrightarrow> P (cb e c)" and "fat12_iterate_dir v ino cb c = Some r" and "P c"
  shows "P r"
  using assms iter_root_keeps [of P cb c] iter_chain_keeps [of P cb v ino c r] by (auto simp: fat12_iterate_dir_def split: if_splits)

definition fresh_result :: "fs_node option \<Rightarrow> bool" where
  "fresh_result r \<longleftrightarrow> (\<forall>n. r = Some n \<longrightarrow> refcount n = 0)"

lemma make_node_refcount [simp]: "refcount (fat12_make_node e) = 0"
  by (simp add: fat12_make_node_def Let_def zero_node_def)

lemma finddir_fresh: "fat12_iterate_dir v ino (finddir_callback nm) None = Some r \<Longrightarrow> fresh_result r"
  by (rule iterate_dir_keeps [of fresh_result]) (auto simp: fresh_result_def finddir_callback_def split: option.splits)

lemma iter_root_write_keeps:
  "(\<And>e c v. P c \<Longrightarrow> P (fst (snd (cb e c v)))) \<Longrightarrow> P c \<Longrightarrow> P (fst (iter_root_write cb s n c v))"
proof (induction n arbitrary: s c v)
  case (Suc n)
  show ?case
  proof (cases "free_slot (read_root v s) 0 (entries_per_sector v)")
    case (Some i)
    obtain e c1 v1 where e: "cb (get_entry (read_root v s) i) c v = (e, c1, v1)" by (metis prod_cases3)
    then have "P c1" using Suc.prems(1) [of c "get_entry (read_root v s) i" v] Suc.prems(2) by simp
    then show ?thesis using Suc.IH [OF Suc.prems(1)] e Some by (simp add: Let_def)
  qed (use Suc in \<open>simp add: Let_def\<close>)
qed simp

lemma iter_chain_write_keeps:
  assumes "\<And>e c v. P c \<Longrightarrow> P (fst (snd (cb e c v)))" and "iter_chain_write cb cl c v = Some r" and "P c"
  shows "P (fst r)"
proof -
  have "(\<forall>e c v. P c \<longrightarrow> P (fst (snd (cb e c v)))) \<longrightarrow> P c \<longrightarrow> P (fst r)"
  proof (rule iter_chain_write.raw_induct [OF _ assms(2)], intro impI)
    fix it cb cl c v r
    assume ih: "\<And>cb cl c v r. it cb cl c v = Some r \<Longrightarrow> (\<forall>e c v. P c \<longrightarrow> P (fst (snd (cb e c v)))) \<longrightarrow> P c \<longrightarrow> P (fst r)"
      and body: "(if cl = 0xFFFF then Some (c, v)
        else let buf = fat12_read_cluster v cl
             in case free_slot buf 0 (entries_per_cluster v) of
                  None \<Rightarrow> it cb (next_cluster v cl) c v
                | Some i \<Rightarrow>
                    let (e, c, v) = cb (get_entry buf i) c v; v = fat12_write_cluster cl (put_entry i e buf) v
                    in it cb (next_cluster v cl) c v) = Some r"
      and cb: "\<forall>e c v. P c \<longrightarrow> P (fst (snd (cb e c v)))" and c: "P c"
    show "P (fst r)"
    proof (cases "cl = 0xFFFF \<or> free_slot (fat12_read_cluster v cl) 0 (entries_per_cluster v) = None")
      case True
      then show ?thesis using body c ih cb by (auto simp: Let_def split: if_splits)
    next
      case False
      then obtain i where i: "free_slot (fat12_read_cluster v cl) 0 (entries_per_cluster v) = Some i" by auto
      obtain e c1 v1 where e: "cb (get_entry (fat12_read_cluster v cl) i) c v = (e, c1, v1)" by (metis prod_cases3)
      then have "P c1" using cb c by (metis fst_conv snd_conv)
      then show ?thesis using body ih cb e i False by (auto simp: Let_def)
    qed
  qed
  then show ?thesis using assms(1,3) by blast
qed

lemma create_fresh:
  assumes "fat12_create_file d nm v = Some (r, v')"
  shows "fresh_result r"
proof -
  have cb: "fresh_result c \<Longrightarrow> fresh_result (fst (snd (create_file_callback nm e c v)))" for e c v
    by (auto simp: create_file_callback_def fresh_result_def Let_def split: option.splits prod.splits)
  have "fresh_result None" by (simp add: fresh_result_def)
  then show ?thesis
    using assms iter_root_write_keeps [of fresh_result "create_file_callback nm", OF cb]
      iter_chain_write_keeps [of fresh_result "create_file_callback nm", OF cb] finddir_fresh
    unfolding fat12_create_file_def fat12_iterate_dir_write_def
    by (auto split: option.splits if_splits) (metis fst_conv)+
qed

text \<open>A lookup only adds nodes, and they start without references.\<close>

definition adds_nodes :: "fsys \<Rightarrow> fsys \<Rightarrow> bool" where
  "adds_nodes s s' \<longleftrightarrow> next_node s \<le> next_node s' \<and> (\<forall>n<next_node s. nodes s' n = nodes s n) \<and>
     (\<forall>n. next_node s \<le> n \<and> n < next_node s' \<longrightarrow> refcount (nodes s' n) = 0)"

lemma adds_nodes_refl [simp]: "adds_nodes s s" by (auto simp: adds_nodes_def)

lemma adds_nodes_trans: "adds_nodes s s1 \<Longrightarrow> adds_nodes s1 s2 \<Longrightarrow> adds_nodes s s2"
  unfolding adds_nodes_def by (metis less_le_trans linorder_not_less order.trans)

lemma adds_new_node: "refcount n = 0 \<Longrightarrow> new_node n s = (a, s') \<Longrightarrow> adds_nodes s s'"
  by (auto simp: adds_nodes_def new_node_def less_Suc_eq)

lemma initrd_finddir_adds: "initrd_finddir_fs node nm s = (r, s') \<Longrightarrow> adds_nodes s s'"
  by (auto simp: initrd_finddir_fs_def initrd_loadfile_fs_node_def initrd_loaddir_fs_node_def Let_def zero_node_def
      split: if_splits option.splits prod.splits intro: adds_new_node [rotated])

lemma call_finddir_adds: "call_finddir node nm s = Some (r, s') \<Longrightarrow> adds_nodes s s'"
proof -
  assume c: "call_finddir node nm s = Some (r, s')"
  show ?thesis
  proof (cases "nfinddir node")
    case Fat12Fn
    have "refcount n = 0" if "fat12_finddir_fs (vol s) node nm = Some (Some n)" for n
      using that finddir_fresh by (auto simp: fat12_finddir_fs_def fresh_result_def split: if_splits)
    then show ?thesis
      using c Fat12Fn by (auto simp: call_finddir_def Let_def split: option.splits prod.splits intro: adds_new_node [rotated])
  qed (use c in \<open>auto simp: call_finddir_def intro: initrd_finddir_adds\<close>)
qed

lemma finddir_adds: "finddir_fs a nm s = Some (r, s') \<Longrightarrow> adds_nodes s s'"
  by (auto simp: finddir_fs_def Let_def split: if_splits option.splits dest: call_finddir_adds)

lemma get_node_adds: "get_node path a s = Some (r, s') \<Longrightarrow> adds_nodes s s'"
proof (induction "length path" arbitrary: path a s r s' rule: less_induct)
  case less
  show ?case
  proof (cases "a = None \<or> path = [] \<or> path = [SLASH]")
    case True
    then show ?thesis using less.prems by (cases a) (auto simp: get_node.simps(2))
  next
    case False
    then obtain b where a: "a = Some b" and p: "path \<noteq> []" "path \<noteq> [SLASH]" by auto
    define rest where "rest = dropWhile (\<lambda>c. c = SLASH) path"
    define tl' where "tl' = dropWhile (\<lambda>c. c \<noteq> SLASH) rest"
    have len: "length tl' < length path" unfolding tl'_def rest_def by (rule drop_component [OF p(1)])
    have "s' = s \<or> (\<exists>c nm r1 s1. finddir_fs c nm s = Some (r1, s1) \<and> get_node tl' r1 s1 = Some (r, s'))"
      using less.prems p unfolding a
      by (simp add: get_node.simps(2) [of path b s] Let_def rest_def [symmetric] tl'_def [symmetric] split: option.splits if_splits prod.splits) blast+
    then show ?thesis using less.hyps [OF len] finddir_adds adds_nodes_trans by fastforce
  qed
qed

lemma call_create_adds: "call_create a nm s = Some (r, s') \<Longrightarrow> adds_nodes s s'"
proof -
  assume c: "call_create a nm s = Some (r, s')"
  show ?thesis
  proof (cases "ncreate (nodes s a)")
    case Fat12Fn
    have v: "adds_nodes s (s\<lparr>vol := v\<rparr>)" for v by (auto simp: adds_nodes_def)
    have "refcount n = 0" if "fat12_create_file (nodes s a) nm (vol s) = Some (Some n, v)" for n v
      using create_fresh [OF that] by (simp add: fresh_result_def)
    then show ?thesis
      using c Fat12Fn v by (auto simp: call_create_def Let_def split: option.splits prod.splits
          intro: adds_nodes_trans [OF v] adds_new_node [rotated])
  qed (use c in \<open>auto simp: call_create_def\<close>)
qed

lemma create_node_adds: "create_node path root s = Some (r, s') \<Longrightarrow> adds_nodes s s'"
  by (auto simp: create_node_def Let_def split: option.splits if_splits
      intro: call_create_adds get_node_adds adds_nodes_trans [OF get_node_adds call_create_adds])

section \<open>Counted references\<close>

text \<open>The descriptors that lead to a node.\<close>

definition refset :: "kern \<Rightarrow> nat \<Rightarrow> (nat \<times> nat) set" where
  "refset k n = {(i, fd). i < MAX_PROCESSES \<and> fd < MAX_FILES \<and> leads_to (procs k i) n fd}"

text \<open>
  Apart from the nodes in \<open>X\<close> (the keyboard and the screen, whose references are not counted), a
  node is either in use, with as many references counted as there are descriptors that lead to it,
  or given back or not yet made, and then no descriptor leads to it.
\<close>

definition files_ok :: "nat set \<Rightarrow> kern \<Rightarrow> bool" where
  "files_ok X k \<longleftrightarrow>
     (\<forall>n. n \<notin> X \<longrightarrow>
       (if n < next_node (kfs k) \<and> n \<notin> freed_nodes k then unat (refcount (nodes (kfs k) n)) = card (refset k n) else refset k n = {}) \<and>
       (n \<in> freed_nodes k \<longrightarrow> n < next_node (kfs k)))"

lemma refset_finite: "finite (refset k n)"
proof -
  have "refset k n \<subseteq> {..<MAX_PROCESSES} \<times> {..<MAX_FILES}" by (auto simp: refset_def)
  then show ?thesis by (rule finite_subset) simp
qed

lemma refset_small: "card (refset k n) \<le> 320"
proof -
  have "refset k n \<subseteq> {..<MAX_PROCESSES} \<times> {..<MAX_FILES}" by (auto simp: refset_def)
  then have "card (refset k n) \<le> card ({..<MAX_PROCESSES} \<times> {..<MAX_FILES})" by (intro card_mono) auto
  then show ?thesis by (simp add: MAX_PROCESSES_def MAX_FILES_def)
qed

lemma refset_cong: "(\<And>i fd. fd < MAX_FILES \<Longrightarrow> files_open (procs k' i) fd = files_open (procs k i) fd) \<Longrightarrow> refset k' n = refset k n"
  by (auto simp: refset_def leads_to_def)

lemma files_ok_cong:
  assumes "\<And>i. files_open (procs k' i) = files_open (procs k i)" "next_node (kfs k') = next_node (kfs k)"
    "\<And>n. refcount (nodes (kfs k') n) = refcount (nodes (kfs k) n)" "freed_nodes k' = freed_nodes k" "files_ok X k"
  shows "files_ok X k'"
  using assms refset_cong [of k' k] by (simp add: files_ok_def)

lemma refset_set_file:
  assumes "i < MAX_PROCESSES" and "fd < MAX_FILES"
  shows "refset (set_file i fd f k) n = (if Option.bind f fnode = Some n then insert (i, fd) (refset k n) else refset k n - {(i, fd)})"
  using assms by (cases f) (auto simp: refset_def set_file_def upd_def leads_to_def split: if_splits option.splits)

lemma not_in_refset: "files_open (procs k i) fd = None \<Longrightarrow> (i, fd) \<notin> refset k n"
  by (auto simp: refset_def leads_to_def)

lemma unat_Suc_small: "unat (w :: u32) \<le> 320 \<Longrightarrow> unat (w + 1) = Suc (unat w)"
  using unat_succ_u32 [of w 321] by simp

lemma set_refcount_fields [simp]:
  "procs (set_refcount n c k) = procs k" "freed_nodes (set_refcount n c k) = freed_nodes k"
  "next_node (kfs (set_refcount n c k)) = next_node (kfs k)" "current_process (set_refcount n c k) = current_process k"
  "refcount (nodes (kfs (set_refcount n c k)) m) = (if m = n then c else refcount (nodes (kfs k) m))"
  by (simp_all add: set_refcount_def put_node_def)

text \<open>A descriptor in an empty slot, with its reference counted.\<close>

lemma add_file_ok:
  assumes "files_ok X k" and "i < MAX_PROCESSES" and "fd < MAX_FILES" and "files_open (procs k i) fd = None"
    and "\<And>n. fnode f = Some n \<Longrightarrow> n \<notin> X \<Longrightarrow> n < next_node (kfs k) \<and> n \<notin> freed_nodes k"
  shows "files_ok X (set_file i fd (Some f) (add_ref (fnode f) k))"
proof -
  let ?k = "set_file i fd (Some f) (add_ref (fnode f) k)"
  have p: "procs (add_ref x k) = procs k" for x by (simp add: add_ref_def split: option.splits)
  have "refset (add_ref x k) m = refset k m" for x m by (rule refset_cong) (simp add: p)
  then have rs: "refset ?k m = (if fnode f = Some m then insert (i, fd) (refset k m) else refset k m)" for m
    using refset_set_file [OF assms(2,3)] not_in_refset [OF assms(4)] by simp
  have fs: "next_node (kfs ?k) = next_node (kfs k)" "freed_nodes ?k = freed_nodes k"
    "refcount (nodes (kfs ?k) m) = (if fnode f = Some m then refcount (nodes (kfs k) m) + 1 else refcount (nodes (kfs k) m))" for m
    by (auto simp: set_file_def upd_def add_ref_def split: option.splits)
  have old: "n \<notin> X \<Longrightarrow> (if n < next_node (kfs k) \<and> n \<notin> freed_nodes k then unat (refcount (nodes (kfs k) n)) = card (refset k n) else refset k n = {}) \<and>
      (n \<in> freed_nodes k \<longrightarrow> n < next_node (kfs k))"
    for n using assms(1) by (simp add: files_ok_def)
  show ?thesis
    unfolding files_ok_def
  proof (intro allI impI)
    fix m assume m: "m \<notin> X"
    show "(if m < next_node (kfs ?k) \<and> m \<notin> freed_nodes ?k then unat (refcount (nodes (kfs ?k) m)) = card (refset ?k m) else refset ?k m = {}) \<and>
      (m \<in> freed_nodes ?k \<longrightarrow> m < next_node (kfs ?k))"
    proof (cases "fnode f = Some m")
      case True
      then have "unat (refcount (nodes (kfs k) m)) = card (refset k m)" using assms(5) old [OF m] m by (auto split: if_splits)
      then show ?thesis
        unfolding fs rs using True assms(5) m unat_Suc_small refset_small [of k m] not_in_refset [OF assms(4)] refset_finite
        by auto
    next
      case False
      then show ?thesis unfolding fs rs using old [OF m] by simp
    qed
  qed
qed

lemma close_node_fields:
  assumes "close_node n k = Some k'"
  shows "freed_nodes k' = freed_nodes k" "next_node (kfs k') = next_node (kfs k)" "current_process k' = current_process k"
    "refcount (nodes (kfs k') m) = refcount (nodes (kfs k) m)"
  using assms
  by (auto simp: close_node_def close_fs_def close_pipe_end_def put_node_def Let_def split: outcome.splits fnptr.splits option.splits prod.splits)

text \<open>Closing a descriptor drops its reference, and gives the node back with the last one.\<close>

lemma close_slot_ok:
  assumes "files_ok X k" and "i < MAX_PROCESSES" and "fd < MAX_FILES" and "close_slot i fd k = Some k'"
  shows "files_ok X k'" "files_open (procs k' i) fd = None"
    "current_process k' = current_process k" "(j, e) \<noteq> (i, fd) \<Longrightarrow> files_open (procs k' j) e = files_open (procs k j) e"
    "files_open (procs k i) fd = Some f \<Longrightarrow> fnode f = Some n \<Longrightarrow> n \<notin> X \<Longrightarrow> n \<in> freed_nodes k' \<longleftrightarrow> refset k n = {(i, fd)}"
proof -
  consider (empty) "files_open (procs k i) fd = None" | (plain) f where "files_open (procs k i) fd = Some f" "fnode f = None"
    | (node) f n where "files_open (procs k i) fd = Some f" "fnode f = Some n" by (metis option.exhaust)
  then have "files_ok X k' \<and> files_open (procs k' i) fd = None \<and> current_process k' = current_process k \<and>
    ((j, e) \<noteq> (i, fd) \<longrightarrow> files_open (procs k' j) e = files_open (procs k j) e) \<and>
    (\<forall>f n. files_open (procs k i) fd = Some f \<and> fnode f = Some n \<and> n \<notin> X \<longrightarrow> (n \<in> freed_nodes k' \<longleftrightarrow> refset k n = {(i, fd)}))"
  proof cases
    case empty
    then show ?thesis using assms by (simp add: close_slot_def)
  next
    case plain
    then have k': "k' = set_file i fd None k" using assms(4) by (simp add: close_slot_def set_file_def)
    have "(i, fd) \<notin> refset k m" for m using plain by (simp add: refset_def leads_to_def)
    then have "refset k' m = refset k m" for m using refset_set_file [OF assms(2,3), of None k m] k' by simp
    then have "files_ok X k'" using assms(1) by (simp add: files_ok_def k') (simp add: set_file_def upd_def)
    then show ?thesis using plain by (simp add: k' set_file_def upd_def)
  next
    case node
    define k1 where "k1 = (if 0 < refcount (nodes (kfs k) n) then set_refcount n (refcount (nodes (kfs k) n) - 1) k else k)"
    obtain k2 where k2: "drop_node n k = Some k2" and k': "k' = set_file i fd None k2"
      using assms(4) node by (auto simp: close_slot_def set_file_def bind_eq_Some_conv)
    have d: "drop_node n k = (if refcount (nodes (kfs k1) n) = 0
        then map_option (\<lambda>k. k\<lparr>freed_nodes := insert n (freed_nodes k)\<rparr>) (close_node n k1) else Some k1)"
      by (simp add: drop_node_def k1_def Let_def)
    have p2: "procs k2 = procs k" using drop_node_procs [OF k2] .
    have k1: "freed_nodes k1 = freed_nodes k" "next_node (kfs k1) = next_node (kfs k)" "current_process k1 = current_process k"
      "refcount (nodes (kfs k1) m) = (if m = n then refcount (nodes (kfs k) n) - (if refcount (nodes (kfs k) n) = 0 then 0 else 1)
         else refcount (nodes (kfs k) m))" for m
      by (auto simp: k1_def word_gt_0)
    have k2f: "freed_nodes k2 = (if refcount (nodes (kfs k1) n) = 0 then insert n (freed_nodes k) else freed_nodes k)"
      "next_node (kfs k2) = next_node (kfs k)" "current_process k2 = current_process k"
      "refcount (nodes (kfs k2) m) = refcount (nodes (kfs k1) m)" for m
    proof (atomize (full), cases "refcount (nodes (kfs k1) n) = 0")
      case True
      then obtain kc where kc: "close_node n k1 = Some kc" "k2 = kc\<lparr>freed_nodes := insert n (freed_nodes kc)\<rparr>"
        using k2 unfolding d by auto
      show "(freed_nodes k2 = (if refcount (nodes (kfs k1) n) = 0 then insert n (freed_nodes k) else freed_nodes k) \<and>
        next_node (kfs k2) = next_node (kfs k)) \<and> current_process k2 = current_process k \<and>
        refcount (nodes (kfs k2) m) = refcount (nodes (kfs k1) m)"
        using close_node_fields [OF kc(1)] True k1(1-3) by (simp add: kc(2))
    next
      case False
      then have "k2 = k1" using k2 unfolding d by simp
      then show "(freed_nodes k2 = (if refcount (nodes (kfs k1) n) = 0 then insert n (freed_nodes k) else freed_nodes k) \<and>
        next_node (kfs k2) = next_node (kfs k)) \<and> current_process k2 = current_process k \<and>
        refcount (nodes (kfs k2) m) = refcount (nodes (kfs k1) m)" using False k1(1-3) by simp
    qed
    have mem: "(i, fd) \<in> refset k n" using node assms(2,3) by (simp add: refset_def leads_to_def)
    have rs: "refset k' m = refset k m - {(i, fd)}" for m
    proof -
      have "refset k2 m = refset k m" by (rule refset_cong) (simp add: p2)
      then show ?thesis using refset_set_file [OF assms(2,3), of None k2 m] by (simp add: k')
    qed
    have other: "(i, fd) \<notin> refset k m" if "m \<noteq> n" for m using node that by (auto simp: refset_def leads_to_def)
    have fk': "freed_nodes k' = freed_nodes k2" "kfs k' = kfs k2" "current_process k' = current_process k2"
      by (simp_all add: k' set_file_def upd_def)
    have "files_ok X k' \<and> (n \<notin> X \<longrightarrow> (n \<in> freed_nodes k' \<longleftrightarrow> refset k n = {(i, fd)}))"
    proof (cases "n \<in> X")
      case True
      then show ?thesis
        using assms(1) other unfolding files_ok_def by (metis Diff_insert0 Diff_empty rs fk'(1,2) k2f(1,2,4) k1(4) insert_iff)
    next
      case False
      then have use: "n < next_node (kfs k)" "n \<notin> freed_nodes k" "unat (refcount (nodes (kfs k) n)) = card (refset k n)"
        using assms(1) mem unfolding files_ok_def by (metis empty_iff)+
      have pos: "0 < card (refset k n)" using mem refset_finite card_gt_0_iff by blast
      then have rc: "refcount (nodes (kfs k) n) \<noteq> 0" using use(3) by auto
      have one: "unat (refcount (nodes (kfs k1) n)) = card (refset k n) - 1"
        using rc use(3) unat_minus_one [OF rc] by (simp add: k1)
      have z: "refcount (nodes (kfs k1) n) = 0 \<longleftrightarrow> refset k n = {(i, fd)}"
      proof -
        have "refcount (nodes (kfs k1) n) = 0 \<longleftrightarrow> card (refset k n) = 1" using one pos by (auto simp: unat_eq_0 [symmetric])
        also have "\<dots> \<longleftrightarrow> refset k n = {(i, fd)}" using mem by (metis card_1_singletonE is_singletonI is_singleton_altdef singletonD)
        finally show ?thesis .
      qed
      have "card (refset k n - {(i, fd)}) = card (refset k n) - 1" using mem by (simp add: card_Diff_singleton)
      then have "files_ok X k'"
        using assms(1) other use one z unfolding files_ok_def by (auto simp: rs fk' k2f k1(4))
      then show ?thesis using z use(2) by (auto simp: fk' k2f)
    qed
    then show ?thesis using node p2 k2f(3) fk'(3) by (auto simp: k' set_file_def upd_def)
  qed
  then show "files_ok X k'" "files_open (procs k' i) fd = None" "current_process k' = current_process k"
    "(j, e) \<noteq> (i, fd) \<Longrightarrow> files_open (procs k' j) e = files_open (procs k j) e"
    "files_open (procs k i) fd = Some f \<Longrightarrow> fnode f = Some n \<Longrightarrow> n \<notin> X \<Longrightarrow> n \<in> freed_nodes k' \<longleftrightarrow> refset k n = {(i, fd)}"
    by blast+
qed

lemma files_okD:
  assumes "files_ok X k" and "n \<notin> X"
  shows "n < next_node (kfs k) \<Longrightarrow> n \<notin> freed_nodes k \<Longrightarrow> unat (refcount (nodes (kfs k) n)) = card (refset k n)"
    "next_node (kfs k) \<le> n \<or> n \<in> freed_nodes k \<Longrightarrow> refset k n = {}" "n \<in> freed_nodes k \<Longrightarrow> n < next_node (kfs k)"
  using assms unfolding files_ok_def by (force split: if_splits)+

lemma files_okI:
  assumes "\<And>n. n \<notin> X \<Longrightarrow> n < next_node (kfs k) \<Longrightarrow> n \<notin> freed_nodes k \<Longrightarrow> unat (refcount (nodes (kfs k) n)) = card (refset k n)"
    and "\<And>n. n \<notin> X \<Longrightarrow> next_node (kfs k) \<le> n \<or> n \<in> freed_nodes k \<Longrightarrow> refset k n = {}"
    and "\<And>n. n \<notin> X \<Longrightarrow> n \<in> freed_nodes k \<Longrightarrow> n < next_node (kfs k)"
  shows "files_ok X k"
  using assms unfolding files_ok_def by (auto simp: not_less)

lemma files_ok_open:
  assumes "files_ok X k" and "files_open (procs k i) fd = Some f" and "fnode f = Some n" and "n \<notin> X"
    and "i < MAX_PROCESSES" and "fd < MAX_FILES"
  shows "n < next_node (kfs k)" "n \<notin> freed_nodes k" "0 < refcount (nodes (kfs k) n)"
proof -
  have mem: "(i, fd) \<in> refset k n" using assms by (simp add: refset_def leads_to_def)
  then show u: "n < next_node (kfs k)" "n \<notin> freed_nodes k" using files_okD(2) [OF assms(1,4)] by (auto simp: not_less [symmetric])
  have "0 < card (refset k n)" using mem refset_finite card_gt_0_iff by blast
  then show "0 < refcount (nodes (kfs k) n)" using files_okD(1) [OF assms(1,4) u] by (simp add: word_less_nat_alt)
qed

lemma lookup_ok:
  assumes "files_ok X k" and "adds_nodes (kfs k) s"
  shows "files_ok X (k\<lparr>kfs := s\<rparr>)"
proof -
  have rs: "refset (k\<lparr>kfs := s\<rparr>) n = refset k n" for n by (rule refset_cong) simp
  have a: "next_node (kfs k) \<le> next_node s" "\<And>n. n < next_node (kfs k) \<Longrightarrow> nodes s n = nodes (kfs k) n"
    "\<And>n. next_node (kfs k) \<le> n \<Longrightarrow> n < next_node s \<Longrightarrow> refcount (nodes s n) = 0"
    using assms(2) by (auto simp: adds_nodes_def)
  show ?thesis
  proof (rule files_okI)
    fix n assume n: "n \<notin> X"
    show "n < next_node (kfs (k\<lparr>kfs := s\<rparr>)) \<Longrightarrow> n \<notin> freed_nodes (k\<lparr>kfs := s\<rparr>) \<Longrightarrow>
      unat (refcount (nodes (kfs (k\<lparr>kfs := s\<rparr>)) n)) = card (refset (k\<lparr>kfs := s\<rparr>) n)"
      unfolding rs using a files_okD [OF assms(1) n] by (cases "n < next_node (kfs k)") auto
    show "next_node (kfs (k\<lparr>kfs := s\<rparr>)) \<le> n \<or> n \<in> freed_nodes (k\<lparr>kfs := s\<rparr>) \<Longrightarrow> refset (k\<lparr>kfs := s\<rparr>) n = {}"
      unfolding rs using a(1) files_okD(2) [OF assms(1) n] by auto
    show "n \<in> freed_nodes (k\<lparr>kfs := s\<rparr>) \<Longrightarrow> n < next_node (kfs (k\<lparr>kfs := s\<rparr>))"
      using a(1) files_okD(3) [OF assms(1) n] by simp
  qed
qed

lemma lookup_or_create_ok:
  assumes "lookup_or_create path m k = Some (r, k')" and "files_ok X k"
  shows "files_ok X k'" "procs k' = procs k" "current_process k' = current_process k" "freed_nodes k' = freed_nodes k"
proof -
  have "\<exists>s. adds_nodes (kfs k) s \<and> k' = k\<lparr>kfs := s\<rparr>"
    using assms(1) by (auto simp: lookup_or_create_def bind_eq_Some_conv split: if_splits
        dest!: get_node_adds create_node_adds intro: adds_nodes_trans)
  then show "files_ok X k'" "procs k' = procs k" "current_process k' = current_process k" "freed_nodes k' = freed_nodes k"
    using lookup_ok [OF assms(2)] by auto
qed

lemma free_fd_Some: "free_fd i k m = Some fd \<Longrightarrow> m \<le> fd \<and> fd < MAX_FILES \<and> files_open (procs k i) fd = None"
  by (auto simp: free_fd_def find_Some_iff)

lemma set_file_add_ref: "add_ref n (set_file i fd f k) = set_file i fd f (add_ref n k)"
  by (auto simp: add_ref_def set_file_def upd_def set_refcount_def split: option.splits)

lemma fopen_ok:
  assumes "fopen path modes k = Some (v, k')" and "files_ok X k" and "current_process k = Some i" and "i < MAX_PROCESSES"
    and "\<And>n k1. lookup_or_create path (get_mode modes) k = Some (Some n, k1) \<Longrightarrow> n \<notin> X \<Longrightarrow>
      n < next_node (kfs k1) \<and> n \<notin> freed_nodes k1"
  shows "files_ok X k'"
proof -
  obtain n k1 where l: "lookup_or_create path (get_mode modes) k = Some (n, k1)"
    using assms(1) by (auto simp: fopen_def Let_def bind_eq_Some_conv)
  note l1 = lookup_or_create_ok [OF l assms(2)]
  show ?thesis
  proof (cases n)
    case None
    then show ?thesis using assms(1) l l1(1) by (simp add: fopen_def Let_def)
  next
    case (Some m)
    show ?thesis
    proof (cases "free_fd i k1 3")
      case None
      then show ?thesis using assms(1,3) l l1 Some by (simp add: fopen_def Let_def)
    next
      case (Some fd)
      then have k': "k' = set_file i fd (Some \<lparr>fflags = get_mode modes, fnode = n\<rparr>) (add_ref n k1)"
        using assms(1,3) l l1 \<open>n = Some m\<close> by (simp add: fopen_def Let_def set_file_add_ref)
      show ?thesis
        unfolding k' using add_file_ok [OF l1(1) assms(4), of fd "\<lparr>fflags = get_mode modes, fnode = n\<rparr>"] free_fd_Some [OF Some]
          assms(5) l \<open>n = Some m\<close> by simp
    qed
  qed
qed

lemma dup_ok:
  assumes "syscall_dup r k = Some (v, k')" and "files_ok X k" and "current_process k = Some i" and "i < MAX_PROCESSES"
  shows "files_ok X k'"
proof (cases "k' = k")
  case False
  let ?old = "unat (t_ebx (frames k r))"
  obtain f fd where f: "files_open (procs k i) ?old = Some f" "\<not> of_nat MAX_FILES \<le> t_ebx (frames k r)" "free_fd i k 0 = Some fd"
    "k' = set_file i fd (Some f) (add_ref (fnode f) k)"
    using assms(1,3) False by (auto simp: syscall_dup_def Let_def split: if_splits option.splits)
  have "?old < MAX_FILES" using f(2) by (simp add: word_le_nat_alt MAX_FILES_def)
  then show ?thesis
    unfolding f(4) using files_ok_open [OF assms(2) f(1)] assms(4) free_fd_Some [OF f(3)] by (intro add_file_ok [OF assms(2,4)]) auto
qed (use assms in simp)

lemma dup2_ok:
  assumes "syscall_dup2 r k = Some (v, k')" and "files_ok X k" and "current_process k = Some i" and "i < MAX_PROCESSES"
    and "3 \<le> t_ecx (frames k r) \<or> files_open (procs k i) (unat (t_ecx (frames k r))) = None"
  shows "files_ok X k'"
proof (cases "k' = k")
  case False
  let ?old = "unat (t_ebx (frames k r))" and ?new = "unat (t_ecx (frames k r))"
  have b: "\<not> of_nat MAX_FILES \<le> t_ebx (frames k r)" "\<not> of_nat MAX_FILES \<le> t_ecx (frames k r)" "t_ebx (frames k r) \<noteq> t_ecx (frames k r)"
    using assms(1) False by (auto simp: syscall_dup2_def Let_def split: if_splits)
  then have lt: "?old < MAX_FILES" "?new < MAX_FILES" "?old \<noteq> ?new" by (auto simp: word_le_nat_alt MAX_FILES_def word_unat_eq_iff)
  obtain f k1 where f: "files_open (procs k i) ?old = Some f"
    "(if files_open (procs k i) ?new \<noteq> None then map_option snd (syscall_close (t_ecx (frames k r)) k) else Some k) = Some k1"
    "k' = set_file i ?new (Some f) (add_ref (fnode f) k1)"
    using assms(1,3) False b by (auto simp: syscall_dup2_def Let_def bind_eq_Some_conv split: option.splits)
  have k1: "files_ok X k1 \<and> files_open (procs k1 i) ?new = None \<and> files_open (procs k1 i) ?old = Some f"
  proof (cases "files_open (procs k i) ?new = None")
    case False
    then have "close_slot i ?new k = Some k1"
      using f(2) assms(3,5) b by (auto simp: syscall_close_def not_less split: if_splits)
    then show ?thesis using close_slot_ok(1,2,4) [OF assms(2,4) lt(2)] f(1) lt(3) by auto
  qed (use f assms in auto)
  then show ?thesis
    unfolding f(3) using files_ok_open [of X k1 i ?old f] lt assms(4) by (intro add_file_ok [OF _ assms(4)]) auto
qed (use assms in simp)


text \<open>Two new nodes, each in use with its references counted or given back without any.\<close>

lemma two_nodes_ok:
  assumes "files_ok X k" and "next_node (kfs k') = next_node (kfs k) + 2"
    and "\<And>n. n < next_node (kfs k) \<Longrightarrow> refcount (nodes (kfs k') n) = refcount (nodes (kfs k) n)"
    and "\<And>n. n \<noteq> next_node (kfs k) \<Longrightarrow> n \<noteq> next_node (kfs k) + 1 \<Longrightarrow>
      refset k' n = refset k n \<and> (n \<in> freed_nodes k' \<longleftrightarrow> n \<in> freed_nodes k)"
    and "\<And>n. n \<notin> X \<Longrightarrow> n = next_node (kfs k) \<or> n = next_node (kfs k) + 1 \<Longrightarrow>
      (if n \<in> freed_nodes k' then refset k' n = {} else unat (refcount (nodes (kfs k') n)) = card (refset k' n))"
  shows "files_ok X k'"
proof (rule files_okI)
  fix n assume n: "n \<notin> X"
  note old = files_okD [OF assms(1) n]
  show "n < next_node (kfs k') \<Longrightarrow> n \<notin> freed_nodes k' \<Longrightarrow> unat (refcount (nodes (kfs k') n)) = card (refset k' n)"
    using old(1) assms(2) assms(3,4) [of n] assms(5) [OF n] by (cases "n < next_node (kfs k)") (auto simp: less_Suc_eq)
  show "next_node (kfs k') \<le> n \<or> n \<in> freed_nodes k' \<Longrightarrow> refset k' n = {}"
    using old(2) assms(2) assms(3,4) [of n] assms(5) [OF n] by (cases "n = next_node (kfs k) \<or> n = next_node (kfs k) + 1") auto
  show "n \<in> freed_nodes k' \<Longrightarrow> n < next_node (kfs k')" using old(3) assms(2) assms(4) [of n] by force
qed

lemma create_pipe_fields:
  assumes "create_pipe k = (rn, wn, k1)"
  shows "rn = next_node (kfs k)" "wn = next_node (kfs k) + 1" "procs k1 = procs k" "current_process k1 = current_process k"
    "freed_nodes k1 = freed_nodes k" "next_node (kfs k1) = next_node (kfs k) + 2" "n < next_node (kfs k) \<Longrightarrow> nodes (kfs k1) n = nodes (kfs k) n"
    "refcount (nodes (kfs k1) rn) = 1" "refcount (nodes (kfs k1) wn) = 1"
  using assms by (auto simp: create_pipe_def new_node_def Let_def pipe_end_def zero_node_def)

lemma close_pipe_end_fields [simp]:
  "procs (close_pipe_end n k) = procs k" "freed_nodes (close_pipe_end n k) = freed_nodes k"
  "next_node (kfs (close_pipe_end n k)) = next_node (kfs k)"
  "refcount (nodes (kfs (close_pipe_end n k)) m) = refcount (nodes (kfs k) m)"
  by (simp_all add: close_pipe_end_def Let_def put_node_def split: option.splits prod.splits)

lemma pipe_ok:
  assumes "syscall_pipe r k = Some (v, k')" and "files_ok X k" and "current_process k = Some i" and "i < MAX_PROCESSES"
  shows "files_ok X k'"
proof (cases "is_user_ptr (t_ebx (frames k r))")
  case user: True
  let ?N = "next_node (kfs k)"
  obtain rn wn k1 where c: "create_pipe k = (rn, wn, k1)" by (metis prod_cases3)
  note f = create_pipe_fields [OF c]
  have new: "refset k n = {}" if "n \<notin> X" "n = ?N \<or> n = ?N + 1" for n using files_okD(2) [OF assms(2) that(1)] that(2) by auto
  show ?thesis
  proof (cases "\<exists>rfd wfd. free_fd i k1 3 = Some rfd \<and> free_fd i k1 (Suc rfd) = Some wfd")
    case True
    then obtain rfd wfd where fd: "free_fd i k1 3 = Some rfd" "free_fd i k1 (Suc rfd) = Some wfd" by auto
    define kf where "kf = set_file i wfd (Some \<lparr>fflags = FILE_WRITE, fnode = Some wn\<rparr>) (set_file i rfd (Some \<lparr>fflags = FILE_READ, fnode = Some rn\<rparr>) k1)"
    have bound: "rfd < MAX_FILES" "wfd < MAX_FILES" "rfd < wfd" "files_open (procs k i) rfd = None" "files_open (procs k i) wfd = None"
      using free_fd_Some [OF fd(1)] free_fd_Some [OF fd(2)] by (auto simp: f(3))
    have rs: "refset (set_file i wfd b (set_file i rfd a kx)) n =
      (if Option.bind a fnode = Some n then {(i, rfd)} else {}) \<union> (if Option.bind b fnode = Some n then {(i, wfd)} else {}) \<union> refset k n"
      if "\<And>j e. (j, e) \<noteq> (i, rfd) \<Longrightarrow> (j, e) \<noteq> (i, wfd) \<Longrightarrow> files_open (procs kx j) e = files_open (procs k j) e" for a b kx n
      using bound assms(4) that unfolding refset_def set_file_def upd_def leads_to_def
      by (cases a; cases b) (auto split: option.splits if_splits)
    obtain ok v' where cp: "copy_out (t_ebx (frames k r)) (le_bytes (of_nat rfd) @ le_bytes (of_nat wfd)) (hvm (kheap kf)) = Some (ok, v')"
      using assms(1,3) user c fd f(3,4) by (auto simp: syscall_pipe_def kf_def bind_eq_Some_conv Let_def)
    show ?thesis
    proof (cases ok)
      case True
      have k': "k' = upd_vm (\<lambda>_. v') kf"
        using assms(1,3) c fd f(3,4) cp user True by (auto simp: syscall_pipe_def kf_def bind_eq_Some_conv Let_def)
      have "refset k' n = refset kf n" for n by (rule refset_cong) (simp add: k' upd_vm_def)
      moreover have "refset kf n = (if n = rn then {(i, rfd)} else {}) \<union> (if n = wn then {(i, wfd)} else {}) \<union> refset k n" for n
        unfolding kf_def by (subst rs) (auto simp: f(3))
      ultimately show ?thesis
        using new f bound by (intro two_nodes_ok [OF assms(2)])
          (auto simp: k' kf_def upd_vm_def set_file_def upd_def dest!: files_okD(3) [OF assms(2)])
    next
      case False
      have k': "k' = set_file i wfd None (set_file i rfd None ((close_pipe_end wn (close_pipe_end rn kf))\<lparr>freed_nodes := {rn, wn} \<union> freed_nodes k\<rparr>))"
        using assms(1,3) c fd f(3-5) cp user False
        by (auto simp: syscall_pipe_def kf_def bind_eq_Some_conv Let_def) (simp_all add: set_file_def upd_def f(5))
      have "refset k' n = refset k n" for n
        unfolding k' by (subst rs) (auto simp: kf_def set_file_def upd_def f(3))
      then show ?thesis
        using new f by (intro two_nodes_ok [OF assms(2)]) (auto simp: k' kf_def set_file_def upd_def)
    qed
  next
    case False
    then have "free_fd i k1 3 = None \<or> (\<exists>a. free_fd i k1 3 = Some a \<and> free_fd i k1 (Suc a) = None)" by (metis option.exhaust)
    then have k': "k' = k1\<lparr>freed_pipes := insert (next_pipe k) (freed_pipes k1), freed_nodes := {rn, wn} \<union> freed_nodes k1\<rparr>"
      using assms(1,3) user c f(4) by (auto simp: syscall_pipe_def Let_def)
    have "refset k' n = refset k n" for n by (rule refset_cong) (simp add: k' f(3))
    then show ?thesis using new f by (intro two_nodes_ok [OF assms(2)]) (auto simp: k')
  qed
qed (use assms in \<open>simp add: syscall_pipe_def Let_def\<close>)


text \<open>Fork gives the child the descriptors of the parent one by one.\<close>

lemma share_file_set: "share_file i j fd k = set_file j fd (files_open (procs k i) fd) (add_ref (Option.bind (files_open (procs k i) fd) fnode) k)"
  by (cases "files_open (procs k i) fd")
    (auto simp: share_file_def set_file_def add_ref_def upd_def set_refcount_def Let_def split: option.splits)

lemma share_files_ok:
  assumes "files_ok X k" and "i < MAX_PROCESSES" and "j < MAX_PROCESSES" and "i \<noteq> j" and "m \<le> MAX_FILES"
    and "\<And>fd. fd < MAX_FILES \<Longrightarrow> files_open (procs k j) fd = None"
  shows "files_ok X (fold (share_file i j) [0..<m] k)"
  using assms(5)
proof (induction m)
  case (Suc m)
  let ?k = "fold (share_file i j) [0..<m] k"
  have p: "files_open (procs ?k i) m = files_open (procs k i) m" "files_open (procs ?k i) = files_open (procs k i)"
    "files_open (procs ?k j) m = None"
    using share_files(1) [OF assms(4), of "[0..<m]" k] assms(4,6) Suc.prems by simp_all
  show ?case
  proof (cases "files_open (procs k i) m")
    case None
    then have "share_file i j m ?k = set_file j m None ?k" by (simp add: share_file_set p add_ref_def)
    moreover have "procs (set_file j m None ?k) = procs ?k" using p(3) by (auto simp: set_file_def upd_def fun_upd_idem)
    ultimately show ?thesis
      using files_ok_cong [of "share_file i j m ?k" ?k X] Suc by (simp add: set_file_def upd_def)
  next
    case (Some f)
    have "share_file i j m ?k = set_file j m (Some f) (add_ref (fnode f) ?k)" using Some by (simp add: share_file_set p)
    then show ?thesis
      using add_file_ok [of X ?k j m f] files_ok_open [of X ?k i m f] Suc assms(2,3) p Some by simp
  qed
qed (use assms in simp)

lemma fork_ok:
  assumes "fork_process parent r k = Some (c, k')" and "files_ok X k" and "parent < MAX_PROCESSES" and "unat (num_processes k) \<le> MAX_PROCESSES"
    and "\<And>slot fd. fork_slot k = Some slot \<Longrightarrow> slot \<noteq> parent \<and> (fd < MAX_FILES \<longrightarrow> files_open (procs k slot) fd = None)"
  shows "files_ok X k'"
proof (cases "fork_slot k")
  case (Some slot)
  have slot: "slot < MAX_PROCESSES"
    using Some assms(4) by (auto simp: fork_slot_def find_Some_iff split: option.splits if_splits)
  define k1 where "k1 = clone_fields parent slot k"
  have k1: "files_open (procs k1 j) = files_open (procs k j)" "kfs k1 = kfs k" "freed_nodes k1 = freed_nodes k" for j
    by (simp_all add: k1_def clone_fields_def init_process_signals_def Let_def kern_defs)
  obtain ok k2 where k2: "alloc_kernel_stack slot k1 = Some (ok, k2)"
    using assms(1) Some by (auto simp: fork_process_def k1_def Let_def bind_eq_Some_conv)
  then have f2: "files_open (procs k2 j) = files_open (procs k1 j)" "kfs k2 = kfs k1" "freed_nodes k2 = freed_nodes k1" for j
    by (auto simp: alloc_kernel_stack_def Let_def kern_defs bind_eq_Some_conv split: if_splits)
  show ?thesis
  proof (cases ok)
    case False
    then have "k' = set_state slot TERMINATED k2" using assms(1) Some k2 by (simp add: fork_process_def k1_def [symmetric] Let_def)
    then show ?thesis using files_ok_cong [of k' k] assms(2) k1 f2 by (simp add: kern_defs)
  next
    case True
    define k3 where "k3 = add_child parent (pid (procs k2 slot)) k2"
    obtain dir v where v: "clone_address_space (r_cr3 (pregs (procs k3 parent))) (hvm (kheap k3)) = (dir, v)" by force
    define k4 where "k4 = upd_vm (\<lambda>_. v) k3"
    define tf where "tf = kernel_stack_top (procs k4 slot) - 76"
    define k5 where "k5 = upd_frame tf (\<lambda>_. (frames k4 r)\<lparr>t_eax := 0\<rparr>) k4"
    define k6 where "k6 = upd slot (\<lambda>p. p\<lparr>pregs := (pregs (procs k5 parent))\<lparr>r_esp := tf, r_eax := 0, r_cr3 := dir\<rparr>,
      memory_regions := memory_regions (procs k5 parent)\<rparr>) k5"
    define k7 where "k7 = fold (share_file parent slot) [0..<MAX_FILES] k6"
    have k': "k' = set_state slot READY (if slot = unat (num_processes k7) then k7\<lparr>num_processes := num_processes k7 + 1\<rparr> else k7)"
      using assms(1) unfolding fork_process_def Some k7_def k6_def k5_def tf_def k4_def
      by (simp only: Let_def option.case k1_def [symmetric] k2 v [unfolded k3_def] k3_def bind.bind_lunit prod.case True not_True_eq_False if_False)
        simp
    have f6: "files_open (procs k6 j) = files_open (procs k j)" "kfs k6 = kfs k" "freed_nodes k6 = freed_nodes k" for j
      using k1 f2 by (simp_all add: k6_def k5_def k4_def k3_def add_child_def Let_def kern_defs)
    have "files_ok X k6" using files_ok_cong [of k6 k] assms(2) by (simp add: f6)
    then have "files_ok X k7"
      unfolding k7_def using assms(5) [OF Some] assms(3) slot f6 by (intro share_files_ok) auto
    then show ?thesis using files_ok_cong [of k' k7] by (simp add: k' kern_defs)
  qed
qed (use assms in \<open>simp add: fork_process_def\<close>)

lemma close_slots_ok:
  "close_slots i fds k = Some k' \<Longrightarrow> files_ok X k \<Longrightarrow> i < MAX_PROCESSES \<Longrightarrow> \<forall>fd\<in>set fds. fd < MAX_FILES \<Longrightarrow> files_ok X k'"
  by (induction fds arbitrary: k) (auto simp: bind_eq_Some_conv intro: close_slot_ok(1))

lemma close_call_ok:
  assumes "syscall_close fd k = Some (v, k')" and "files_ok X k" and "current_process k = Some j" and "j < MAX_PROCESSES"
  shows "files_ok X k'"
proof (cases "k' = k")
  case False
  then obtain i where "current_process k = Some i" "close_slot i (unat fd) k = Some k'" "\<not> of_nat MAX_FILES \<le> fd"
    using assms(1) by (auto simp: syscall_close_def bind_eq_Some_conv split: if_splits)
  then show ?thesis using close_slot_ok(1) [OF assms(2), of i "unat fd" k'] assms(3,4) by (simp add: word_le_nat_alt MAX_FILES_def not_le)
qed (use assms in simp)


text \<open>
  What the kernel does with descriptors, and what else happens between the calls. A call is made by
  the running process. Opening finds a node that is in use, dup2 does not replace an open
  descriptor below 3, and fork takes a slot that is not the caller's and has no descriptors.
\<close>

inductive file_step :: "nat set \<Rightarrow> kern \<Rightarrow> kern \<Rightarrow> bool" for X where
  close: "current_process k = Some i \<Longrightarrow> i < MAX_PROCESSES \<Longrightarrow> syscall_close fd k = Some (v, k') \<Longrightarrow> file_step X k k'"
| dup: "current_process k = Some i \<Longrightarrow> i < MAX_PROCESSES \<Longrightarrow> syscall_dup r k = Some (v, k') \<Longrightarrow> file_step X k k'"
| dup2: "current_process k = Some i \<Longrightarrow> i < MAX_PROCESSES \<Longrightarrow> syscall_dup2 r k = Some (v, k') \<Longrightarrow>
    3 \<le> t_ecx (frames k r) \<or> files_open (procs k i) (unat (t_ecx (frames k r))) = None \<Longrightarrow> file_step X k k'"
| pipe: "current_process k = Some i \<Longrightarrow> i < MAX_PROCESSES \<Longrightarrow> syscall_pipe r k = Some (v, k') \<Longrightarrow> file_step X k k'"
| open_file: "current_process k = Some i \<Longrightarrow> i < MAX_PROCESSES \<Longrightarrow> fopen path modes k = Some (v, k') \<Longrightarrow>
    (\<And>n k1. lookup_or_create path (get_mode modes) k = Some (Some n, k1) \<Longrightarrow> n \<notin> X \<Longrightarrow> n < next_node (kfs k1) \<and> n \<notin> freed_nodes k1) \<Longrightarrow>
    file_step X k k'"
| fork: "current_process k = Some i \<Longrightarrow> i < MAX_PROCESSES \<Longrightarrow> fork_process i r k = Some (c, k') \<Longrightarrow> unat (num_processes k) \<le> MAX_PROCESSES \<Longrightarrow>
    (\<And>slot fd. fork_slot k = Some slot \<Longrightarrow> slot \<noteq> i \<and> (fd < MAX_FILES \<longrightarrow> files_open (procs k slot) fd = None)) \<Longrightarrow>
    file_step X k k'"
| leave: "i < MAX_PROCESSES \<Longrightarrow> close_slots i [0..<MAX_FILES] k = Some k' \<Longrightarrow> file_step X k k'"
| other: "(\<And>i. files_open (procs k' i) = files_open (procs k i)) \<Longrightarrow> kfs k' = kfs k \<Longrightarrow> freed_nodes k' = freed_nodes k \<Longrightarrow> file_step X k k'"

lemma file_step_ok:
  assumes "file_step X k k'" and "files_ok X k"
  shows "files_ok X k'"
  using assms
proof cases
  case (open_file i path modes v)
  then show ?thesis using fopen_ok [OF open_file(3) assms(2) open_file(1,2)] by blast
next
  case (fork i r c)
  then show ?thesis using fork_ok [OF fork(3) assms(2) fork(2,4)] by blast
next
  case other
  then show ?thesis using files_ok_cong [of k' k X] assms(2) by simp
qed (use assms(2) in \<open>auto intro: close_call_ok dup_ok dup2_ok pipe_ok close_slots_ok\<close>)

lemma files_ok_invariant: "(file_step X)\<^sup>*\<^sup>* k k' \<Longrightarrow> files_ok X k \<Longrightarrow> files_ok X k'"
  by (induction rule: rtranclp_induct) (auto intro: file_step_ok)

section \<open>Properties\<close>


text \<open>A process with one descriptor, 3, on a node with one reference, and another on 1.\<close>

definition demo_files :: kern where
  "demo_files = demo_kern\<lparr>kfs := demo_fsys\<lparr>nodes := (\<lambda>_. zero_node)(0 := zero_node\<lparr>refcount := 1\<rparr>, 1 := zero_node\<lparr>refcount := 1\<rparr>), next_node := 2\<rparr>,
     procs := (\<lambda>_. zero_pcb)(0 := zero_pcb\<lparr>files_open := [3 \<mapsto> \<lparr>fflags = FILE_READ, fnode = Some 0\<rparr>, 1 \<mapsto> \<lparr>fflags = FILE_WRITE, fnode = Some 1\<rparr>]\<rparr>),
     frames := (\<lambda>_. zero_regs\<lparr>t_ebx := 3, t_ecx := 1\<rparr>)\<rparr>"

lemma demo_files_ok: "files_ok {} demo_files"
proof -
  have "refset demo_files n = (if n = 0 then {(0, 3)} else if n = 1 then {(0, 1)} else {})" for n
    by (auto simp: refset_def demo_files_def leads_to_def zero_pcb_def MAX_PROCESSES_def MAX_FILES_def split: if_splits option.splits)
  then show ?thesis by (auto simp: files_ok_def demo_files_def demo_kern_def)
qed

lemma demo_dup: "syscall_dup 0 demo_files = Some (0, set_file 0 0 (Some \<lparr>fflags = FILE_READ, fnode = Some 0\<rparr>) (add_ref (Some 0) demo_files))"
  by (simp add: syscall_dup_def demo_files_def demo_kern_def free_fd_def MAX_FILES_def upt_rec zero_pcb_def)


text \<open>
  Duplicating onto an open descriptor below 3 loses a reference: \<^verbatim>\<open>syscall_close\<close> refuses the
  descriptor, so the node that it led to keeps its count although the descriptor now leads elsewhere.
\<close>

theorem dup2_std_leaks:
  assumes "current_process k = Some i" and "t_ecx (frames k r) < 3" and "t_ebx (frames k r) < of_nat MAX_FILES"
    and "t_ebx (frames k r) \<noteq> t_ecx (frames k r)"
    and "files_open (procs k i) (unat (t_ebx (frames k r))) = Some f" and "fnode f = Some m"
    and "files_open (procs k i) (unat (t_ecx (frames k r))) = Some g" and "fnode g = Some n" and "n \<noteq> m"
  shows "\<exists>k'. syscall_dup2 r k = Some (t_ecx (frames k r), k') \<and> refcount (nodes (kfs k') n) = refcount (nodes (kfs k) n) \<and>
    \<not> leads_to (procs k' i) n (unat (t_ecx (frames k r))) \<and> leads_to (procs k i) n (unat (t_ecx (frames k r)))"
proof -
  have "\<not> of_nat MAX_FILES \<le> t_ecx (frames k r)" "\<not> of_nat MAX_FILES \<le> t_ebx (frames k r)"
    using assms(2,3) by (auto simp: MAX_FILES_def not_le word_less_nat_alt)
  then show ?thesis
    using assms by (simp add: syscall_dup2_def syscall_close_def leads_to_def add_ref_def set_file_def upd_def Let_def)
qed


theorem dup2_std_leaks_witness:
  "\<exists>k'. syscall_dup2 0 demo_files = Some (1, k') \<and> refcount (nodes (kfs k') 1) = 1 \<and> \<not> leads_to (procs k' 0) 1 1"
  using dup2_std_leaks [of demo_files 0 0 "\<lparr>fflags = FILE_READ, fnode = Some 0\<rparr>" 0 "\<lparr>fflags = FILE_WRITE, fnode = Some 1\<rparr>" 1]
  by (auto simp: demo_files_def demo_kern_def MAX_FILES_def)


text \<open>
  lseek on a file: from the start it moves to every offset that is not negative, from the end to
  the size minus the offset (a positive offset lies before the end). From the current position it
  moves forward, or back to the very start of the file, but every other move backwards is refused with
  -1: the test against overflow has the wrong sign.
\<close>

theorem lseek_correct:
  assumes "current_process k = Some i" and "fd = t_ebx (frames k r)" and "unat fd < MAX_FILES"
    and "files_open (procs k i) (unat fd) = Some f" and "fnode f = Some n" and "node = nodes (kfs k) n"
    and "nseek node = Fat12Fn \<or> nseek node = InitrdFn" and "off = t_ecx (frames k r)" and "pos = seek_offset node"
    and "moved = (\<lambda>p. k\<lparr>kfs := put_node n (node\<lparr>seek_offset := p\<rparr>) (kfs k)\<rparr>)"
  shows "syscall_lseek r k =
    (if t_edx (frames k r) = 0 then if 0 \<le>s off then Some (off, moved off) else Some (- 1, k)
     else if t_edx (frames k r) = 1 then
       if 0 \<le>s pos + off \<and> (0 \<le>s off \<or> pos + off = 0) then Some (pos + off, moved (pos + off)) else Some (- 1, k)
     else if t_edx (frames k r) = 2 then Some (nsize node - off, moved (nsize node - off))
     else Some (- 1, k))"
proof -
  have b: "\<not> of_nat MAX_FILES \<le> fd" using assms(3) by (simp add: word_le_nat_alt MAX_FILES_def)
  have seek: "seek_fs n p w (kfs k) = Ret (put_node n (node\<lparr>seek_offset := (if w = 0 then p else if w = 1 then pos + p else nsize node - p)\<rparr>) (kfs k))"
    for p w
    using assms(6,7,9) by (auto simp: seek_fs_def fat12_seek_fs_def initrd_seek_fs_def SEEK_START_def SEEK_CUR_def)
  have s: "x <s 0 \<longleftrightarrow> \<not> 0 \<le>s x" "0 <s x \<longleftrightarrow> 0 \<le>s x \<and> x \<noteq> 0" for x :: u32
    using signed_eq_0_iff [of x, where 'a = int] by (auto simp: word_sless_alt word_sle_eq)
  have bind: "Option.bind (files_open (procs k i) (unat fd)) fnode = Some n" using assms(4,5) by simp
  have go: "(case seek_fs n p w (kfs k) of Device x \<Rightarrow> None | Ret s \<Rightarrow> Some (seek_offset (nodes s n), k\<lparr>kfs := s\<rparr>)) =
      (let q = (if w = 0 then p else if w = 1 then pos + p else nsize node - p) in Some (q, moved q))" for p w
    by (simp add: seek put_node_def assms(10) Let_def)
  show ?thesis
    unfolding syscall_lseek_def assms(1) bind.bind_lunit Let_def assms(2) [symmetric] assms(6) [symmetric] assms(8,9) [symmetric] bind option.case go s
    using b by (auto simp only: if_True if_False simp_thms split: if_splits) simp_all
qed


theorem lseek_correct_witness:
  "\<exists>k. seek_offset (nodes (kfs k) 0) = 100 \<and> t_edx (frames k 0) = 1 \<and> t_ecx (frames k 0) = - 10 \<and> syscall_lseek 0 k = Some (- 1, k)"
proof -
  define k where "k = demo_files\<lparr>kfs := put_node 0 (zero_node\<lparr>nseek := InitrdFn, seek_offset := 100\<rparr>) (kfs demo_files),
    frames := (\<lambda>_. zero_regs\<lparr>t_ebx := 3, t_ecx := - 10, t_edx := 1\<rparr>)\<rparr>"
  have k: "current_process k = Some 0" "files_open (procs k 0) (unat (3 :: u32)) = Some \<lparr>fflags = FILE_READ, fnode = Some 0\<rparr>"
    "nodes (kfs k) 0 = zero_node\<lparr>nseek := InitrdFn, seek_offset := 100\<rparr>" "frames k 0 = zero_regs\<lparr>t_ebx := 3, t_ecx := - 10, t_edx := 1\<rparr>"
    by (simp_all add: k_def demo_files_def demo_kern_def put_node_def)
  have "syscall_lseek 0 k = Some (- 1, k)"
    using lseek_correct [OF k(1) _ _ k(2) _ k(3) [symmetric] _ refl refl refl, of 0] by (simp add: k(4) MAX_FILES_def word_sle_eq)
  then show ?thesis using k by (intro exI [of _ k]) simp
qed

end
