(* ===== verification/Paths.thy ===== *)
theory Paths
  imports Files
begin

text \<open>
  \<^verbatim>\<open>resolve_path\<close> of \<^verbatim>\<open>kernel/src/arch/syscalls.c\<close>, the system calls that take a path
  (open, readdir, stat, getcwd, chdir, mkdir, unlink), and what a normalised path stands for.
\<close>

section \<open>Normal forms of paths\<close>

text \<open>At most 255 characters of the path, each copied on its own.\<close>

fun read_user_path :: "vm \<Rightarrow> u32 \<Rightarrow> nat \<Rightarrow> cstring option option" where
  "read_user_path v a 0 = Some (Some [])"
| "read_user_path v a (Suc n) =
     (case copy_in a 1 v of
        None \<Rightarrow> None
      | Some None \<Rightarrow> Some None
      | Some (Some bs) \<Rightarrow>
          (let c = hd bs
           in if c = 0 then Some (Some []) else map_option (map_option (Cons c)) (read_user_path v (a + 1) n)))"

definition absolute_path :: "cstring \<Rightarrow> cstring \<Rightarrow> cstring" where
  "absolute_path dir path =
     (let a = (if path = [] \<or> hd path \<noteq> SLASH then
                 let a = take 254 dir in if a \<noteq> [] \<and> last a \<noteq> SLASH then a @ [SLASH] else a
               else [])
      in a @ take (254 - length a) path)"

text \<open>\<^verbatim>\<open>ni--; while (ni > 0 && norm[ni - 1] != '/') ni--;\<close>\<close>

definition go_up :: "cstring \<Rightarrow> cstring" where
  "go_up norm = (if norm = [] then [] else rev (dropWhile (\<lambda>c. c \<noteq> SLASH) (rev (butlast norm))))"

definition add_component :: "cstring \<Rightarrow> cstring \<Rightarrow> cstring" where
  "add_component norm part =
     (if part = [DOT] then norm
      else if part = [DOT, DOT] then go_up norm
      else let norm = (if length norm < 255 then norm @ [SLASH] else norm) in norm @ take (255 - length norm) part)"

function norm_loop :: "cstring \<Rightarrow> cstring \<Rightarrow> cstring" where
  "norm_loop norm [] = norm"
| "norm_loop norm (c # p) =
     (if c = SLASH then norm_loop norm p
      else norm_loop (add_component norm (takeWhile (\<lambda>x. x \<noteq> SLASH) (c # p))) (dropWhile (\<lambda>x. x \<noteq> SLASH) (c # p)))"
  by pat_completeness auto
termination
  by (relation "measure (\<lambda>(_, p). length p)") (auto simp: le_imp_less_Suc length_dropWhile_le)

definition normal_path :: "cstring \<Rightarrow> cstring" where
  "normal_path p = (let norm = norm_loop [] p in if norm = [] then [SLASH] else norm)"

definition resolve_path :: "u32 \<Rightarrow> nat \<Rightarrow> kern \<Rightarrow> cstring option" where
  "resolve_path user_path bufsz k =
     (if user_path = 0 \<or> bufsz = 0 then Some []
      else
        do {
          p \<leftarrow> read_user_path (hvm (kheap k)) user_path 255;
          case p of
            None \<Rightarrow> Some []
          | Some path \<Rightarrow>
              do {
                dir \<leftarrow> (if path = [] \<or> hd path \<noteq> SLASH then map_option (\<lambda>i. cwd (procs k i)) (current_process k) else Some []);
                Some (take (bufsz - 1) (normal_path (absolute_path dir path)))
              }
        })"

section \<open>System calls on paths\<close>

definition get_node_at :: "cstring \<Rightarrow> kern \<Rightarrow> (nat option \<times> kern) option" where
  "get_node_at path k = map_option (\<lambda>(n, s). (n, k\<lparr>kfs := s\<rparr>)) (get_node path (Some (root_dir (kfs k))) (kfs k))"

definition syscall_open :: "u32 \<Rightarrow> kern \<Rightarrow> (u32 \<times> kern) option" where
  "syscall_open r k =
     do {
       path \<leftarrow> resolve_path (t_ebx (frames k r)) 256 k;
       m \<leftarrow> copy_in (t_ecx (frames k r)) 8 (hvm (kheap k));
       fopen path (case m of None \<Rightarrow> [0x72] | Some bs \<Rightarrow> takeWhile (\<lambda>c. c \<noteq> 0) (take 7 bs)) k
     }"

text \<open>A name in its row of 256 bytes: the bytes behind it stay as \<^verbatim>\<open>malloc\<close> returned them.\<close>

definition put_name :: "u32 \<Rightarrow> cstring \<Rightarrow> vm \<Rightarrow> vm" where
  "put_name a nm v =
     fold (\<lambda>j v. v\<lparr>kmem := (kmem v)(a + of_nat j := (if j < length nm then nm ! j else 0))\<rparr>)
       [0..<Suc (min 254 (length nm))] v"

definition syscall_readdir :: "u32 \<Rightarrow> kern \<Rightarrow> (u32 \<times> kern) option" where
  "syscall_readdir r k =
     (let path_user = t_ebx (frames k r); buf_user = t_ecx (frames k r); max_entries = t_edx (frames k r)
      in if \<not> is_user_ptr path_user \<or> \<not> is_user_ptr buf_user \<or> max_entries = 0 then Some (- 1, k)
         else
           do {
             path \<leftarrow> resolve_path path_user 256 k;
             (n, k) \<leftarrow> get_node_at path k;
             case n of
               None \<Rightarrow> Some (- 1, k)
             | Some n \<Rightarrow>
                 do {
                   d \<leftarrow> readdir_fs n (kfs k);
                   case d of
                     None \<Rightarrow> Some (- 1, k)
                   | Some files \<Rightarrow>
                       do {
                         let count = (if max_entries < of_nat (length files) then max_entries else of_nat (length files));
                         let tot = count * 256;
                         (kbuf, h) \<leftarrow> malloc tot (kheap k);
                         let k = k\<lparr>kheap := h\<rparr>;
                         if kbuf = 0 then Some (- 1, k)
                         else do {
                           let k = upd_vm (fold (\<lambda>i. put_name (kbuf + of_nat i * 256) (files ! i)) [0..<unat count]) k;
                           (e, v) \<leftarrow> copy_to_user buf_user kbuf tot (hvm (kheap k));
                           h \<leftarrow> free kbuf ((kheap k)\<lparr>hvm := v\<rparr>);
                           Some (if e \<noteq> 0 then - 1 else count, k\<lparr>kheap := h\<rparr>)
                         }
                       }
                 }
           })"

definition syscall_stat :: "u32 \<Rightarrow> kern \<Rightarrow> (u32 \<times> kern) option" where
  "syscall_stat r k =
     (let path_user = t_ebx (frames k r); stat_buf = t_ecx (frames k r)
      in if \<not> is_user_ptr path_user \<or> \<not> is_user_ptr stat_buf then Some (- 1, k)
         else
           do {
             path \<leftarrow> resolve_path path_user 256 k;
             (n, k) \<leftarrow> get_node_at path k;
             case n of
               None \<Rightarrow> Some (- 1, k)
             | Some n \<Rightarrow>
                 do {
                   let node = nodes (kfs k) n;
                   (ok, v) \<leftarrow> copy_out stat_buf (le_bytes (nsize node) @ le_bytes (if flags node AND FS_DIRECTORY \<noteq> 0 then 1 else 0)) (hvm (kheap k));
                   Some (if ok then 0 else - 1, upd_vm (\<lambda>_. v) k)
                 }
           })"

text \<open>The bytes from \<^verbatim>\<open>cwd\<close> on, up to and with the character at \<^verbatim>\<open>len\<close>.\<close>

definition syscall_getcwd :: "u32 \<Rightarrow> kern \<Rightarrow> (u32 \<times> kern) option" where
  "syscall_getcwd r k =
     (let buf_user = t_ebx (frames k r); bufsz = t_ecx (frames k r)
      in if \<not> is_user_ptr buf_user \<or> bufsz = 0 then Some (- 1, k)
         else
           do {
             i \<leftarrow> current_process k;
             let dir = cwd (procs k i);
             let len = (if sint (bufsz - 1) \<le> 0 then 0 else min (length dir) (nat (sint (bufsz - 1))));
             (ok, v) \<leftarrow> copy_out buf_user (take (Suc len) (dir @ [0])) (hvm (kheap k));
             Some (if ok then 0 else - 1, upd_vm (\<lambda>_. v) k)
           })"

definition syscall_chdir :: "u32 \<Rightarrow> kern \<Rightarrow> (u32 \<times> kern) option" where
  "syscall_chdir r k =
     (let path_user = t_ebx (frames k r)
      in if \<not> is_user_ptr path_user then Some (- 1, k)
         else
           do {
             path \<leftarrow> resolve_path path_user 256 k;
             (n, k) \<leftarrow> get_node_at path k;
             case n of
               None \<Rightarrow> Some (- 1, k)
             | Some n \<Rightarrow>
                 if flags (nodes (kfs k) n) AND FS_DIRECTORY = 0 then Some (- 1, k)
                 else do {
                   i \<leftarrow> current_process k;
                   Some (0, upd i (\<lambda>p. p\<lparr>cwd := take 254 path\<rparr>) k)
                 }
           })"

text \<open>The node of the directory in front of the last slash, behind a mount point; the root without one.\<close>

definition parent_node :: "cstring \<Rightarrow> kern \<Rightarrow> (nat option \<times> kern) option" where
  "parent_node path k =
     do {
       (n, k) \<leftarrow> get_node_at [SLASH] k;
       (n, k) \<leftarrow> (if 0 < last_slash path then get_node_at (take (nat (last_slash path)) path) k else Some (n, k));
       case n of
         None \<Rightarrow> Some (None, k)
       | Some n \<Rightarrow> map_option (\<lambda>b. (Some b, k)) (enter (kfs k) n)
     }"

definition syscall_mkdir :: "u32 \<Rightarrow> kern \<Rightarrow> (u32 \<times> kern) option" where
  "syscall_mkdir r k =
     (let path_user = t_ebx (frames k r)
      in if \<not> is_user_ptr path_user then Some (- 1, k)
         else
           do {
             path \<leftarrow> resolve_path path_user 256 k;
             (n, k) \<leftarrow> parent_node path k;
             case n of
               None \<Rightarrow> Some (- 1, k)
             | Some b \<Rightarrow>
                 (case nmkdir (nodes (kfs k) b) of
                    NoFn \<Rightarrow> Some (- 1, k)
                  | Fat12Fn \<Rightarrow>
                      map_option (\<lambda>(e, v). (of_int e, k\<lparr>kfs := (kfs k)\<lparr>vol := v\<rparr>\<rparr>))
                        (fat12_mkdir (nodes (kfs k) b) (drop (nat (last_slash path + 1)) path) (vol (kfs k)))
                  | _ \<Rightarrow> None)
           })"

definition syscall_unlink :: "u32 \<Rightarrow> kern \<Rightarrow> (u32 \<times> kern) option" where
  "syscall_unlink r k =
     (let path_user = t_ebx (frames k r)
      in if \<not> is_user_ptr path_user then Some (- 1, k)
         else
           do {
             path \<leftarrow> resolve_path path_user 256 k;
             if last_slash path < 0 then Some (- 1, k)
             else do {
               (n, k) \<leftarrow> parent_node path k;
               case n of
                 None \<Rightarrow> Some (- 1, k)
               | Some b \<Rightarrow>
                   (case nunlink (nodes (kfs k) b) of
                      NoFn \<Rightarrow> Some (- 1, k)
                    | Fat12Fn \<Rightarrow>
                        map_option (\<lambda>(e, v). (of_int e, k\<lparr>kfs := (kfs k)\<lparr>vol := v\<rparr>\<rparr>))
                          (fat12_unlink (nodes (kfs k) b) (drop (nat (last_slash path + 1)) path) (vol (kfs k)))
                    | _ \<Rightarrow> None)
             }
           })"


section \<open>Names of a path\<close>

fun pieces :: "cstring \<Rightarrow> cstring list" where
  "pieces [] = [[]]"
| "pieces (c # p) = (if c = SLASH then [] # pieces p else (c # hd (pieces p)) # tl (pieces p))"

text \<open>The components of a path, and what they lead to from the root.\<close>

definition names_of :: "cstring \<Rightarrow> cstring list" where
  "names_of p = filter (\<lambda>c. c \<noteq> []) (pieces p)"

fun walk :: "cstring list \<Rightarrow> cstring list \<Rightarrow> cstring list" where
  "walk st [] = st"
| "walk st (c # cs) = walk (if c = [DOT] then st else if c = [DOT, DOT] then butlast st else st @ [c]) cs"

lemma pieces_not_Nil [simp]: "pieces p \<noteq> []" by (cases p) auto

lemma pieces_no_slash: "SLASH \<notin> set c \<Longrightarrow> pieces c = [c]"
  by (induction c) auto

lemma pieces_append: "SLASH \<notin> set c \<Longrightarrow> pieces (c @ SLASH # p) = c # pieces p"
  by (induction c) auto

lemma names_Nil [simp]: "names_of [] = []" by (simp add: names_of_def)

lemma names_slash [simp]: "names_of (SLASH # p) = names_of p" by (simp add: names_of_def)

lemma names_component: "is_name c \<Longrightarrow> names_of c = [c]"
  by (simp add: names_of_def is_name_def pieces_no_slash)

lemma names_append: "is_name c \<Longrightarrow> names_of (c @ SLASH # p) = c # names_of p"
  by (simp add: names_of_def is_name_def pieces_append)

lemma names_are_names: "list_all is_name (names_of p)"
proof -
  have "c \<in> set (pieces p) \<Longrightarrow> SLASH \<notin> set c" for c
  proof (induction p arbitrary: c)
    case (Cons x p)
    have "hd (pieces p) \<in> set (pieces p)" "set (tl (pieces p)) \<subseteq> set (pieces p)" by (simp_all add: list.set_sel subsetI)
    then show ?case using Cons by (auto split: if_splits)
  qed simp
  then show ?thesis by (auto simp: names_of_def list_all_iff is_name_def)
qed

text \<open>The written path as a list of pieces without slashes, some of them empty.\<close>

definition slash_free :: "cstring list \<Rightarrow> bool" where
  "slash_free cs \<longleftrightarrow> (\<forall>c\<in>set cs. SLASH \<notin> set c)"

definition up_step :: "cstring list \<Rightarrow> cstring list" where
  "up_step st =
     (if st = [] then []
      else if last st \<noteq> [] then butlast st @ [[]]
      else if butlast st = [] then []
      else butlast (butlast st) @ [[]])"

definition path_step :: "cstring \<Rightarrow> cstring list \<Rightarrow> cstring list" where
  "path_step c st = (if c = [DOT] then st else if c = [DOT, DOT] then up_step st else st @ [c])"

lemma join_append: "join (xs @ ys) = join xs @ join ys" by (simp add: join_def)

lemma strip_last: "SLASH \<notin> set c \<Longrightarrow> rev (dropWhile (\<lambda>c. c \<noteq> SLASH) (rev (p @ SLASH # c))) = p @ [SLASH]"
  by (subst rev_append, subst rev.simps, simp) (subst dropWhile_append2, auto)

lemma go_up_join:
  assumes "slash_free st"
  shows "go_up (join st) = join (up_step st)"
proof (cases st rule: rev_cases)
  case (snoc xs c)
  have c: "SLASH \<notin> set c" "slash_free xs" using assms snoc by (auto simp: slash_free_def)
  show ?thesis
  proof (cases c rule: rev_cases)
    case Nil
    show ?thesis
    proof (cases xs rule: rev_cases)
      case (snoc ys d)
      then have "SLASH \<notin> set d" using c by (auto simp: slash_free_def)
      then show ?thesis
        using strip_last [of d "join ys"] \<open>st = _\<close> Nil snoc by (simp add: go_up_def up_step_def join_append butlast_append)
    qed (use \<open>st = _\<close> Nil in \<open>simp add: go_up_def up_step_def\<close>)
  next
    case (snoc d x)
    then have "SLASH \<notin> set d" using c by auto
    then show ?thesis
      using strip_last [of d "join xs"] \<open>st = _\<close> snoc by (simp add: go_up_def up_step_def join_append butlast_append)
  qed
qed (simp add: go_up_def up_step_def)

lemma up_step_keeps: "slash_free st \<Longrightarrow> slash_free (up_step st)"
  by (auto simp: up_step_def slash_free_def dest!: in_set_butlastD)

lemma up_step_length: "length (join (up_step st)) \<le> length (join st)"
proof (cases st rule: rev_cases)
  case (snoc xs c)
  then show ?thesis by (cases xs rule: rev_cases) (auto simp: up_step_def join_append butlast_append)
qed (simp add: up_step_def)

lemma add_component_join:
  assumes "slash_free st" and "length (join st) + length c < 255"
  shows "add_component (join st) c = join (path_step c st)"
  using assms go_up_join [OF assms(1)] by (auto simp: add_component_def path_step_def Let_def join_append)

lemma split_first:
  fixes c :: u8 and p :: cstring
  assumes "c \<noteq> SLASH"
  defines "w \<equiv> takeWhile (\<lambda>x. x \<noteq> SLASH) (c # p)" and "q \<equiv> dropWhile (\<lambda>x. x \<noteq> SLASH) (c # p)"
  shows "is_name w" "names_of (c # p) = w # names_of q" "length w + length q = Suc (length p)" "q = [] \<or> hd q = SLASH"
proof -
  show w: "is_name w" using assms(1) by (auto simp: w_def is_name_def dest!: set_takeWhileD)
  have eq: "c # p = w @ q" by (simp only: w_def q_def takeWhile_dropWhile_id)
  show q: "q = [] \<or> hd q = SLASH" using hd_dropWhile [of "\<lambda>x. x \<noteq> SLASH" "c # p"] unfolding q_def by blast
  show "length w + length q = Suc (length p)" using arg_cong [OF eq, of length] by simp
  show "names_of (c # p) = w # names_of q"
  proof (cases q)
    case Nil
    then show ?thesis unfolding eq using names_component [OF w] by simp
  next
    case (Cons x q')
    then show ?thesis unfolding eq using q names_append [OF w, of q'] by simp
  qed
qed

text \<open>The loop handles the components one by one, and the buffer is long enough.\<close>

lemma norm_loop_join:
  assumes "slash_free st" and "length (join st) + length p + (if p \<noteq> [] \<and> hd p \<noteq> SLASH then 1 else 0) \<le> 255"
  shows "norm_loop (join st) p = join (fold path_step (names_of p) st) \<and> slash_free (fold path_step (names_of p) st) \<and>
    length (join (fold path_step (names_of p) st)) \<le> 255"
  using assms
proof (induction "length p" arbitrary: p st rule: less_induct)
  case less
  show ?case
  proof (cases p)
    case (Cons c p')
    show ?thesis
    proof (cases "c = SLASH")
      case True
      then show ?thesis using less.hyps [of p' st] less.prems Cons by (auto split: if_splits)
    next
      case False
      define w where "w = takeWhile (\<lambda>x. x \<noteq> SLASH) (c # p')"
      define q where "q = dropWhile (\<lambda>x. x \<noteq> SLASH) (c # p')"
      note w = split_first [OF False, of p', folded w_def q_def]
      have n: "norm_loop (join st) p = norm_loop (add_component (join st) w) q" using False by (simp add: Cons w_def q_def)
      have "length w \<noteq> 0" using w(1) by (auto simp: is_name_def)
      have len: "length (join st) + length w + length q < 255" using less.prems(2) False w(3) Cons by simp
      have add: "add_component (join st) w = join (path_step w st)" using add_component_join [OF less.prems(1), of w] len by simp
      have "slash_free (path_step w st)"
        using less.prems(1) up_step_keeps w(1) by (auto simp: path_step_def slash_free_def is_name_def)
      moreover have "length (join (path_step w st)) \<le> length (join st) + length w + 1"
        using up_step_length [of st] by (auto simp: path_step_def join_append)
      ultimately show ?thesis
        using less.hyps [of q "path_step w st"] w(3,4) \<open>length w \<noteq> 0\<close> len unfolding n add by (auto simp: Cons w(2))
    qed
  qed (use less.prems in simp)
qed


text \<open>Between names and behind them the written path has at most one slash too many.\<close>

lemma steps_without_up:
  assumes "[DOT, DOT] \<notin> set cs"
  shows "fold path_step cs st = st @ filter (\<lambda>c. c \<noteq> [DOT]) cs" "walk st cs = st @ filter (\<lambda>c. c \<noteq> [DOT]) cs"
  using assms by (induction cs arbitrary: st) (auto simp: path_step_def)

lemma walk_append: "walk st (xs @ ys) = walk (walk st xs) ys"
  by (induction xs arbitrary: st) auto

definition written :: "cstring list \<Rightarrow> cstring list \<Rightarrow> bool" where
  "written t st \<longleftrightarrow> list_all is_name t \<and> (st = t \<or> st = t @ [[]])"

lemma written_up: "written t st \<Longrightarrow> written (butlast t) (up_step st)"
  by (cases t rule: rev_cases) (auto simp: written_def up_step_def is_name_def butlast_append)

lemma written_ups: "set cs \<subseteq> {[DOT], [DOT, DOT]} \<Longrightarrow> written t st \<Longrightarrow> written (walk t cs) (fold path_step cs st)"
  by (induction cs arbitrary: t st) (auto simp: path_step_def written_up)

lemma written_path:
  assumes "names_of p = a @ b @ c" and "[DOT, DOT] \<notin> set a \<union> set c" and "set b \<subseteq> {[DOT], [DOT, DOT]}"
  shows "\<exists>t e d. fold path_step (names_of p) [] = t @ e @ d \<and> walk [] (names_of p) = t @ d \<and> (e = [] \<or> e = [[]]) \<and>
    list_all is_name t \<and> list_all is_name d"
proof -
  define a' where "a' = filter (\<lambda>c. c \<noteq> [DOT]) a"
  have names: "list_all is_name a" "list_all is_name c" using names_are_names [of p] assms(1) by auto
  then have "written a' a'" by (auto simp: written_def a'_def list_all_iff)
  then have "written (walk a' b) (fold path_step b a')" using written_ups [OF assms(3)] by blast
  then obtain e where e: "fold path_step b a' = walk a' b @ e" "e = [] \<or> e = [[]]" "list_all is_name (walk a' b)"
    by (auto simp: written_def)
  define d where "d = filter (\<lambda>c. c \<noteq> [DOT]) c"
  have "fold path_step (names_of p) [] = walk a' b @ e @ d" "walk [] (names_of p) = walk a' b @ d"
    using assms(2) e(1) by (auto simp: assms(1) walk_append steps_without_up a'_def d_def)
  moreover have "list_all is_name d" using names(2) by (auto simp: d_def list_all_iff)
  ultimately show ?thesis using e(2,3) by blast
qed

lemma names_of_join: "slash_free st \<Longrightarrow> names_of (join st) = filter (\<lambda>c. c \<noteq> []) st"
proof (induction st)
  case (Cons c st)
  have "names_of (c @ join st) = filter (\<lambda>c. c \<noteq> []) (c # st)" if "is_name c"
    using Cons that names_component [OF that] names_append [OF that, of "tl (join st)"]
    by (cases st) (auto simp: slash_free_def is_name_def)
  then show ?case using Cons by (cases "c = []") (auto simp: slash_free_def is_name_def)
qed simp

lemma get_node_twice: "cs \<noteq> [] \<Longrightarrow> list_all is_name cs \<Longrightarrow> get_node (SLASH # join cs) (Some a) s = get_node (join cs) (Some a) s"
proof -
  assume "cs \<noteq> []" "list_all is_name cs"
  then obtain c ds where cs: "cs = c # ds" "is_name c" by (cases cs) auto
  have "dropWhile (\<lambda>x. x = SLASH) (SLASH # join cs) = dropWhile (\<lambda>x. x = SLASH) (join cs)" by simp
  moreover have "SLASH # join cs \<noteq> [SLASH]" "join cs \<noteq> [SLASH]" "join cs \<noteq> []" using cs by (auto simp: is_name_def)
  ultimately show ?thesis by (subst (1 2) get_node.simps(2)) (simp add: Let_def)
qed

lemma get_node_written:
  assumes "list_all is_name t" and "list_all is_name d" and "e = [] \<or> e = [[]]"
  shows "get_node (join (t @ e @ d)) (Some a) s = resolve (t @ d) (Some a) s"
proof (cases "e = [] \<or> d = []")
  case True
  then show ?thesis using assms get_node_join [of "t @ d" "[]"] get_node_join [of t "[SLASH]"] by (auto simp: join_append)
next
  case False
  then have e: "e = [[]]" "d \<noteq> []" using assms(3) by auto
  have d: "get_node (SLASH # join d) r s = resolve d r s" for r s
    using get_node_twice [OF e(2) assms(2)] get_node_join [OF assms(2), of "[]"] by (cases r) auto
  then have d': "get_node (SLASH # join d) = resolve d" by (intro ext)
  have "get_node (join t @ SLASH # join d) (Some a) s = resolve (t @ d) (Some a) s"
    using assms(1)
  proof (induction t arbitrary: a s)
    case (Cons x xs)
    have "get_node (join xs @ SLASH # join d) r s = resolve (xs @ d) r s" for r s using Cons by (cases r) auto
    then have ih: "get_node (join xs @ SLASH # join d) = resolve (xs @ d)" by (intro ext)
    have "join xs @ SLASH # join d = [] \<or> hd (join xs @ SLASH # join d) = SLASH" by (cases xs) auto
    then show ?case using get_node_step [of x "join xs @ SLASH # join d" "SLASH # x @ join xs @ SLASH # join d" a s] Cons.prems
      unfolding ih by simp
  qed (simp add: d)
  then show ?thesis using e by (simp add: join_append)
qed

lemma normal_path_written:
  assumes "length p \<le> 254"
  shows "normal_path p = (let st = fold path_step (names_of p) [] in if st = [] then [SLASH] else join st)"
    "slash_free (fold path_step (names_of p) [])" "length (normal_path p) \<le> 255"
proof -
  note n = norm_loop_join [of "[]" p]
  show "normal_path p = (let st = fold path_step (names_of p) [] in if st = [] then [SLASH] else join st)"
    "slash_free (fold path_step (names_of p) [])" "length (normal_path p) \<le> 255"
    using n assms by (auto simp: normal_path_def Let_def neq_Nil_conv slash_free_def split: if_splits)
qed

lemma normal_path_names:
  assumes "length p \<le> 254" and "names_of p = a @ b @ c" and "[DOT, DOT] \<notin> set a \<union> set c" and "set b \<subseteq> {[DOT], [DOT, DOT]}"
  shows "names_of (normal_path p) = walk [] (names_of p)"
    "get_node (normal_path p) (Some root) s = resolve (walk [] (names_of p)) (Some root) s"
proof -
  obtain t e d where st: "fold path_step (names_of p) [] = t @ e @ d" "walk [] (names_of p) = t @ d" "e = [] \<or> e = [[]]"
    "list_all is_name t" "list_all is_name d"
    using written_path [OF assms(2-4)] by blast
  have n: "normal_path p = (if t @ e @ d = [] then [SLASH] else join (t @ e @ d))" "slash_free (t @ e @ d)"
    using normal_path_written(1,2) [OF assms(1)] by (simp_all add: st(1) Let_def)
  have keep: "filter (\<lambda>c. c \<noteq> []) (t @ e @ d) = t @ d" using st(3-5) by (auto simp: list_all_iff is_name_def filter_id_conv)
  show "names_of (normal_path p) = walk [] (names_of p)"
    using names_of_join [OF n(2)] keep st(2) by (auto simp: n(1))
  show "get_node (normal_path p) (Some root) s = resolve (walk [] (names_of p)) (Some root) s"
    using get_node_written [OF st(4,5,3)] get_node_join [of "[]" "[SLASH]" root s] st(2) by (auto simp: n(1))
qed


lemma names_of_slash: "names_of (a @ SLASH # b) = names_of a @ names_of b"
proof -
  have "pieces (a @ SLASH # b) = pieces a @ pieces b" by (induction a) auto
  then show ?thesis by (simp add: names_of_def)
qed

lemma absolute_path_names:
  assumes "length dir + length path < 254"
  shows "names_of (absolute_path dir path) = (if path \<noteq> [] \<and> hd path = SLASH then [] else names_of dir) @ names_of path"
    "length (absolute_path dir path) \<le> 254"
proof -
  show "names_of (absolute_path dir path) = (if path \<noteq> [] \<and> hd path = SLASH then [] else names_of dir) @ names_of path"
  proof (cases "path \<noteq> [] \<and> hd path = SLASH \<or> dir = []")
    case True
    then show ?thesis using assms by (auto simp: absolute_path_def Let_def)
  next
    case False
    then obtain x l where dir: "dir = x @ [l]" by (metis rev_exhaust)
    have "names_of (x @ SLASH # path) = names_of (x @ [SLASH]) @ names_of path" using names_of_slash [of x path] names_of_slash [of x "[]"] by simp
    then show ?thesis using False assms names_of_slash [of dir path] by (auto simp: absolute_path_def Let_def dir)
  qed
  show "length (absolute_path dir path) \<le> 254" using assms by (auto simp: absolute_path_def Let_def)
qed

text \<open>A NUL-terminated string in user memory.\<close>

definition user_string :: "vm \<Rightarrow> u32 \<Rightarrow> cstring \<Rightarrow> bool" where
  "user_string v a s \<longleftrightarrow> 0 \<notin> set s \<and> unat a + length s + 1 \<le> 2 ^ 32 - 4096 \<and>
     (\<forall>i\<le>length s. is_page_mapped v (a + of_nat i) \<and> kmem v (user_ref v (a + of_nat i)) = (s @ [0]) ! i)"

lemma read_user_path_string: "user_string v a s \<Longrightarrow> length s < n \<Longrightarrow> read_user_path v a n = Some (Some s)"
proof (induction s arbitrary: a n)
  case Nil
  then obtain m where "n = Suc m" by (cases n) auto
  have "user_range_ok v a 1 = Some True" using user_range_ok_iff [of 1 a v] Nil by (auto simp: user_string_def)
  then show ?case using Nil \<open>n = Suc m\<close> by (simp add: copy_in_def get_user_bytes_def user_string_def)
next
  case (Cons c s)
  then obtain m where n: "n = Suc m" by (cases n) auto
  have a: "is_page_mapped v (a + of_nat i) \<and> kmem v (user_ref v (a + of_nat i)) = ((c # s) @ [0]) ! i" if "i \<le> Suc (length s)" for i
    using Cons.prems(1) that by (simp add: user_string_def)
  have "user_range_ok v a 1 = Some True" using user_range_ok_iff [of 1 a v] Cons.prems(1) a [of 0] by (auto simp: user_string_def)
  moreover have "user_string v (a + 1) s"
  proof -
    have "unat (a + 1) = unat a + 1" using unat_add_small [of a 1] Cons.prems(1) by (simp add: user_string_def)
    then show ?thesis using Cons.prems(1) a [of "Suc i" for i] by (auto simp: user_string_def add.assoc)
  qed
  ultimately show ?case
    using Cons.IH [of "a + 1" m] Cons.prems a [of 0] n by (simp add: copy_in_def get_user_bytes_def user_string_def)
qed

lemma put_user_string:
  assumes "user_area v a (length s + 1)" and "0 \<notin> set s" and "unat a + length s + 1 \<le> 2 ^ 32 - 4096"
  shows "user_string (put_user_bytes a (s @ [0]) v) a s"
proof -
  have e: "same_paging v (put_user_bytes a (s @ [0]) v)"
    "i \<le> length s \<Longrightarrow> kmem (put_user_bytes a (s @ [0]) v) (user_ref v (a + of_nat i)) = (s @ [0]) ! i" for i
    using put_user_bytes_effect [OF assms(1), of "s @ [0]"] by auto
  have "user_ref (put_user_bytes a (s @ [0]) v) (a + of_nat i) = user_ref v (a + of_nat i)"
    "is_page_mapped (put_user_bytes a (s @ [0]) v) (a + of_nat i)" if "i \<le> length s" for i
    using same_paging_walk [OF e(1)] user_areaD(1,2) [OF assms(1), of i] that by auto
  then show ?thesis using e(2) assms(2,3) by (simp add: user_string_def)
qed

section \<open>Properties\<close>



text \<open>
  Climbing twice stops too early when a name was added after an earlier \<^verbatim>\<open>..\<close>: that
  left a doubled slash, and the second climb only removes it. The path below stands for the root, but
  \<^verbatim>\<open>resolve_path\<close> makes it the directory of the first name.
\<close>

theorem dotdot_stops_short:
  assumes "is_name x" "is_name y" "is_name z" and "{x, y, z} \<inter> {[DOT], [DOT, DOT]} = {}" and "length x + length y + length z < 200"
  defines "up \<equiv> [DOT, DOT]"
  shows "normal_path (join [x, y, up, z, up, up]) = SLASH # x @ [SLASH] \<and> walk [] [x, y, up, z, up, up] = []"
proof -
  have up: "is_name up" by (simp add: up_def is_name_def DOT_def SLASH_def)
  have len: "length (join [x, y, up, z, up, up]) \<le> 254" using assms(5) by (simp add: up_def)
  have "slash_free [x, y, up, z, up, up]" using assms(1-3) up by (auto simp: slash_free_def is_name_def)
  then have names: "names_of (join [x, y, up, z, up, up]) = [x, y, up, z, up, up]"
    using names_of_join [of "[x, y, up, z, up, up]"] assms(1-3) up by (simp add: is_name_def)
  have "x \<noteq> []" "y \<noteq> []" "z \<noteq> []" using assms(1-3) by (auto simp: is_name_def)
  then have "fold path_step [x, y, up, z, up, up] [] = [x, []]"
    using assms(4) by (auto simp: path_step_def up_def up_step_def)
  then have "normal_path (join [x, y, up, z, up, up]) = SLASH # x @ [SLASH]"
    unfolding normal_path_written(1) [OF len] names by simp
  then show ?thesis using assms(4) by (auto simp: up_def)
qed

theorem dotdot_stops_short_witness:
  "normal_path (join [[0x61], [0x62], [DOT, DOT], [0x63], [DOT, DOT], [DOT, DOT]]) = [SLASH, 0x61, SLASH]"
  using dotdot_stops_short [of "[0x61]" "[0x62]" "[0x63]"] by (simp add: is_name_def SLASH_def DOT_def)

end
