(* ===== verification/Regions.thy ===== *)
theory Regions
  imports Paths
begin

text \<open>
  The regions of an address space: \<^verbatim>\<open>kernel/src/mem/vmm.c\<close> and the system calls
  \<^verbatim>\<open>sbrk\<close>, \<^verbatim>\<open>mmap\<close> and \<^verbatim>\<open>munmap\<close>.
\<close>

section \<open>Areas\<close>

definition VMA_READ :: u32 where "VMA_READ = 0x1"
definition VMA_WRITE :: u32 where "VMA_WRITE = 0x2"
definition VMA_EXEC :: u32 where "VMA_EXEC = 0x4"
definition VMA_STACK :: u32 where "VMA_STACK = 0x8"
definition VMA_HEAP :: u32 where "VMA_HEAP = 0x10"
definition VMA_USER :: u32 where "VMA_USER = 0x100"

definition ALIGN_PAGE :: "u32 \<Rightarrow> u32" where
  "ALIGN_PAGE x = x AND NOT (BLOCK_SIZE - 1)"

text \<open>A failed \<^verbatim>\<open>ASSERT\<close> panics.\<close>

datatype 'a checked = Passed 'a | Panic

text \<open>\<open>n\<close> new frames at \<open>a\<close>, \<open>a + 4096\<close>, ...: as many as there are, and whether all were mapped.\<close>

fun map_pages :: "(u32 \<Rightarrow> vm \<Rightarrow> vm) \<Rightarrow> u32 \<Rightarrow> nat \<Rightarrow> vm \<Rightarrow> nat \<times> vm" where
  "map_pages prep a 0 v = (0, v)"
| "map_pages prep a (Suc n) v =
     (let (ph, v) = palloc v
      in if ph = 0 then (0, v)
         else let (m, v) = map_pages prep (a + BLOCK_SIZE) n (map_address_user a ph (prep ph v)) in (Suc m, v))"

definition page_count :: "u32 \<Rightarrow> u32" where
  "page_count sz = (sz + BLOCK_SIZE - 1) div BLOCK_SIZE"

definition alloc_mem_area :: "nat \<Rightarrow> u32 \<Rightarrow> u32 \<Rightarrow> u32 \<Rightarrow> kern \<Rightarrow> kern checked" where
  "alloc_mem_area i start sz fl k =
     (let start = ALIGN_PAGE start;
          e = ALIGN_PAGE (start + sz + BLOCK_SIZE - 1)
      in if \<exists>a\<in>set (memory_regions (procs k i)). \<not> (e \<le> vstart a \<or> vend a \<le> start) then Panic
         else
           let n = unat (page_count sz); (m, v) = map_pages (\<lambda>_ v. v) start n (hvm (kheap k))
           in if m < n then Panic
              else Passed (upd i (\<lambda>p. p\<lparr>memory_regions := memory_regions p @ [\<lparr>vstart = start, vend = e, vflags = fl\<rparr>]\<rparr>) (upd_vm (\<lambda>_. v) k)))"

definition has_flags :: "u32 \<Rightarrow> vma \<Rightarrow> bool" where
  "has_flags fl a \<longleftrightarrow> vflags a AND fl = fl"

definition vmm_find_area_by_flag :: "vma list \<Rightarrow> u32 \<Rightarrow> nat option" where
  "vmm_find_area_by_flag regions fl = List.find (\<lambda>j. has_flags fl (regions ! j)) [0..<length regions]"

section \<open>System calls\<close>

text \<open>The loop of \<^verbatim>\<open>sbrk\<close>; its address wraps, so it need not end.\<close>

partial_function (option) sbrk_loop :: "u32 \<Rightarrow> u32 \<Rightarrow> u32 \<Rightarrow> vm \<Rightarrow> (u32 \<times> vm) option" where
  "sbrk_loop page new_brk last_mapped v =
     (if page < new_brk then
        let (ph, v) = palloc v
        in if ph = 0 then Some (last_mapped, v)
           else sbrk_loop (page + BLOCK_SIZE) new_brk (page + BLOCK_SIZE) (map_address_user page ph v)
      else Some (last_mapped, v))"

definition syscall_sbrk :: "u32 \<Rightarrow> kern \<Rightarrow> (u32 \<times> kern) option" where
  "syscall_sbrk r k =
     do {
       i \<leftarrow> current_process k;
       let regions = memory_regions (procs k i);
       case vmm_find_area_by_flag regions VMA_HEAP of
         None \<Rightarrow> Some (- 1, k)
       | Some j \<Rightarrow>
           do {
             let old_brk = vend (regions ! j);
             let new_brk = old_brk + t_ebx (frames k r);
             (last_mapped, v) \<leftarrow> sbrk_loop (ALIGN_PAGE old_brk) new_brk old_brk (hvm (kheap k));
             let k = upd i (\<lambda>p. p\<lparr>memory_regions := regions[j := (regions ! j)\<lparr>vend := last_mapped\<rparr>]\<rparr>) (upd_vm (\<lambda>_. v) k);
             Some (if last_mapped < new_brk then - 1 else old_brk, k)
           }
     }"

text \<open>One pass over the regions, moving behind each one that is in the way.\<close>

definition in_the_way :: "u32 \<Rightarrow> u32 \<Rightarrow> vma \<Rightarrow> bool" where
  "in_the_way addr len a \<longleftrightarrow> \<not> (addr + len \<le> vstart a \<or> vend a \<le> addr)"

definition mmap_pass :: "u32 \<Rightarrow> vma list \<Rightarrow> u32 \<Rightarrow> u32" where
  "mmap_pass len regions addr = fold (\<lambda>a addr. if in_the_way addr len a then vend a else addr) regions addr"

lemma mmap_pass_up: "addr \<le> mmap_pass len regions addr"
proof (induction regions arbitrary: addr)
  case (Cons a regions)
  show ?case
  proof (cases "in_the_way addr len a")
    case True
    then have "addr \<le> vend a" by (auto simp: in_the_way_def)
    also have "\<dots> \<le> mmap_pass len regions (vend a)" by (rule Cons.IH)
    finally show ?thesis using True by (simp add: mmap_pass_def)
  qed (use Cons.IH [of addr] in \<open>simp add: mmap_pass_def\<close>)
qed (simp add: mmap_pass_def)

text \<open>A pass changes the address exactly when some region was in the way.\<close>

lemma mmap_pass_same: "mmap_pass len regions addr = addr \<longleftrightarrow> (\<forall>a\<in>set regions. \<not> in_the_way addr len a)"
proof (induction regions arbitrary: addr)
  case (Cons a regions)
  show ?case
  proof (cases "in_the_way addr len a")
    case True
    then have "addr < mmap_pass len (a # regions) addr"
      using mmap_pass_up [of "vend a" len regions] by (auto simp: mmap_pass_def in_the_way_def)
    then show ?thesis using True by auto
  qed (use Cons in \<open>simp add: mmap_pass_def\<close>)
qed (simp add: mmap_pass_def)

function mmap_place :: "u32 \<Rightarrow> vma list \<Rightarrow> u32 \<Rightarrow> u32" where
  "mmap_place len regions addr =
     (let addr' = mmap_pass len regions addr in if addr' \<noteq> addr then mmap_place len regions addr' else addr')"
  by auto
termination
proof (relation "measure (\<lambda>(_, _, addr). 2 ^ 32 - unat addr)")
  fix len :: u32 and regions and addr x :: u32
  assume x: "x = mmap_pass len regions addr" "x \<noteq> addr"
  then have "addr < x" using mmap_pass_up [of addr len regions] by simp
  then show "((len, regions, x), len, regions, addr) \<in> measure (\<lambda>(_, _, addr). 2 ^ 32 - unat addr)"
    using unsigned_less [of x, where 'a = nat] by (simp add: word_less_nat_alt diff_less_mono2)
qed simp

declare mmap_place.simps [simp del]

definition mmap_length :: "u32 \<Rightarrow> u32" where
  "mmap_length len = (if page_count len = 0 then 1 else page_count len)"

definition mmap_address :: "u32 \<Rightarrow> u32 \<Rightarrow> vma list \<Rightarrow> u32" where
  "mmap_address addr len regions =
     mmap_place (mmap_length len * BLOCK_SIZE) regions (if addr = 0 then USER_CODE_BASE + 0x400000 else addr)"

definition unmap_pages :: "u32 \<Rightarrow> nat \<Rightarrow> vm \<Rightarrow> vm" where
  "unmap_pages addr n v = fold (\<lambda>j. unmap_address (addr + of_nat j * BLOCK_SIZE)) [0..<n] v"

definition syscall_mmap :: "u32 \<Rightarrow> kern \<Rightarrow> u32 \<times> kern" where
  "syscall_mmap r k =
     (let fl = t_edx (frames k r)
      in case current_process k of
           None \<Rightarrow> (- 1, k)
         | Some i \<Rightarrow>
             let pages = mmap_length (t_ecx (frames k r));
                 addr = mmap_address (t_ebx (frames k r)) (t_ecx (frames k r)) (memory_regions (procs k i));
                 vma_flags = (VMA_USER OR VMA_READ) OR (if fl AND 0x2 \<noteq> 0 then VMA_WRITE else 0);
                 (m, v) = map_pages (\<lambda>ph. clear_page (ph + KERNEL_VIRTUAL_BASE)) addr (unat pages) (hvm (kheap k))
             in if m < unat pages then (- 1, upd_vm (\<lambda>_. unmap_pages addr m v) k)
                else
                  let k = upd_vm (\<lambda>_. v) k
                  in (addr, upd i (\<lambda>p. p\<lparr>memory_regions :=
                        memory_regions p @ [\<lparr>vstart = addr, vend = addr + pages * BLOCK_SIZE, vflags = vma_flags\<rparr>]\<rparr>) k))"

definition syscall_munmap :: "u32 \<Rightarrow> kern \<Rightarrow> u32 \<times> kern" where
  "syscall_munmap r k =
     (let addr = t_ebx (frames k r); len = t_ecx (frames k r)
      in case current_process k of
           None \<Rightarrow> (- 1, k)
         | Some i \<Rightarrow>
             if addr = 0 \<or> len = 0 then (- 1, k)
             else
               let start = addr AND NOT (BLOCK_SIZE - 1);
                   e = (addr + len + BLOCK_SIZE - 1) AND NOT (BLOCK_SIZE - 1);
                   regions = memory_regions (procs k i)
               in case List.find (\<lambda>j. vstart (regions ! j) = start \<and> vend (regions ! j) = e) [0..<length regions] of
                    None \<Rightarrow> (- 1, k)
                  | Some j \<Rightarrow>
                      let k = upd i (\<lambda>p. p\<lparr>memory_regions := take j regions @ drop (Suc j) regions\<rparr>) k
                      in (0, upd_vm (unmap_pages start (unat ((e - start) div BLOCK_SIZE))) k))"


section \<open>The place of a new region\<close>

lemma mmap_place_free: "\<forall>a\<in>set regions. \<not> in_the_way (mmap_place len regions addr) len a"
proof (induction len regions addr rule: mmap_place.induct)
  case (1 len regions addr)
  then show ?case
    using mmap_pass_same [of len regions addr] by (subst mmap_place.simps) (auto simp: Let_def)
qed

lemma mmap_place_stays: "\<forall>a\<in>set regions. \<not> in_the_way addr len a \<Longrightarrow> mmap_place len regions addr = addr"
  using mmap_pass_same [of len regions addr] by (subst mmap_place.simps) (simp add: Let_def)

lemma mmap_pass_from: "mmap_pass len regions addr = addr \<or> mmap_pass len regions addr \<in> vend ` set regions"
  by (induction regions arbitrary: addr) (force simp: mmap_pass_def)+

lemma mmap_place_from: "mmap_place len regions addr = addr \<or> mmap_place len regions addr \<in> vend ` set regions"
proof (induction len regions addr rule: mmap_place.induct)
  case (1 len regions addr)
  then show ?case
    using mmap_pass_from [of len regions addr] by (subst (1 2) mmap_place.simps) (auto simp: Let_def)
qed

definition apart :: "vma \<Rightarrow> vma \<Rightarrow> bool" where
  "apart a b \<longleftrightarrow> vend a \<le> vstart b \<or> vend b \<le> vstart a"

definition apart_regions :: "vma list \<Rightarrow> bool" where
  "apart_regions rs \<longleftrightarrow> sorted_wrt apart rs"

lemma apart_add: "apart_regions rs \<Longrightarrow> (\<And>a. a \<in> set rs \<Longrightarrow> apart a b) \<Longrightarrow> apart_regions (rs @ [b])"
  by (simp add: apart_regions_def sorted_wrt_append)

lemma apart_remove: "apart_regions rs \<Longrightarrow> apart_regions (take j rs @ drop (Suc j) rs)"
proof -
  assume "apart_regions rs"
  then have "sorted_wrt apart (take j rs @ drop j rs)" by (simp add: apart_regions_def)
  then have "sorted_wrt apart (take j rs)" "sorted_wrt apart (drop j rs)" "\<forall>x\<in>set (take j rs). \<forall>y\<in>set (drop j rs). apart x y"
    unfolding sorted_wrt_append by blast+
  moreover have "set (drop (Suc j) rs) \<subseteq> set (drop j rs)" by (simp add: set_drop_subset_set_drop)
  moreover have "sorted_wrt apart (drop (Suc j) rs)" using calculation(2) sorted_wrt_drop [of apart "drop j rs" 1] by simp
  ultimately show ?thesis unfolding apart_regions_def sorted_wrt_append by blast
qed

lemma region_length:
  assumes "0 < unat len" and "unat len + 4095 < 2 ^ 32"
  shows "unat (mmap_length len) = (unat len + 4095) div 4096" "0 < unat (mmap_length len)"
    "unat (mmap_length len * BLOCK_SIZE) = 4096 * ((unat len + 4095) div 4096)"
proof -
  have "unat (4095 + len) = unat len + 4095" using unat_add_small [of len 4095] assms(2) by (simp add: add.commute [of 4095 len])
  then have pc: "unat (page_count len) = (unat len + 4095) div 4096"
    by (simp add: page_count_def BLOCK_SIZE_def unat_div_distrib diff_add_eq [symmetric])
  have pos: "0 < (unat len + 4095) div 4096" using assms(1) by (simp add: div_greater_zero_iff)
  then have "page_count len \<noteq> 0" using pc by auto
  then show l: "unat (mmap_length len) = (unat len + 4095) div 4096" using pc by (simp add: mmap_length_def)
  then show "0 < unat (mmap_length len)" using pos by simp
  have "4096 * ((unat len + 4095) div 4096) \<le> unat len + 4095" by (rule times_div_less_eq_dividend)
  then show "unat (mmap_length len * BLOCK_SIZE) = 4096 * ((unat len + 4095) div 4096)"
    using l assms(2) by (simp add: unat_word_ariths BLOCK_SIZE_def)
qed

text \<open>The bounds that \<^verbatim>\<open>munmap\<close> computes are those of the region.\<close>

lemma unmap_bounds:
  assumes "page_aligned addr" and "0 < unat len" and "unat len + 4095 < 2 ^ 32"
    and "unat addr + 4096 * ((unat len + 4095) div 4096) < 2 ^ 32"
  shows "addr AND NOT (BLOCK_SIZE - 1) = addr" "(addr + len + BLOCK_SIZE - 1) AND NOT (BLOCK_SIZE - 1) = addr + mmap_length len * BLOCK_SIZE"
proof -
  have m: "x AND NOT (BLOCK_SIZE - 1) = x AND PAGE_ADDR" for x using and_not_4095 by (simp add: BLOCK_SIZE_def)
  show "addr AND NOT (BLOCK_SIZE - 1) = addr" unfolding m using assms(1) by (rule page_aligned_and_id)
  obtain q where q: "unat addr = 4096 * q" using assms(1) by (auto simp: page_aligned_def)
  define d where "d = (unat len + 4095) div 4096"
  obtain t where d: "unat len + 4095 = 4096 * d + t" "t < 4096"
    using that [of "(unat len + 4095) mod 4096"] by (simp add: d_def)
  have "4096 * (q + d) < 4096 * 2 ^ 20" using assms(4) q by (simp add: d_def [symmetric])
  then have qd: "4096 * (q + d) + 4095 < 2 ^ 32" by (simp only: mult_less_cancel1) simp
  have "unat addr + (unat len + 4095) \<le> 4096 * (q + d) + 4095" using d q by (simp add: distrib_left)
  also have "\<dots> < 2 ^ 32" by (rule qd)
  finally have small: "unat addr + (unat len + 4095) < 2 ^ 32" .
  have "addr + len + BLOCK_SIZE - 1 = addr + of_nat (unat len + 4095)" by (simp add: BLOCK_SIZE_def diff_add_eq [symmetric])
  then have "unat (addr + len + BLOCK_SIZE - 1) = 4096 * q + (unat len + 4095)"
    using unat_add_small [of addr "unat len + 4095"] small q by (simp only:) simp
  then have "unat ((addr + len + BLOCK_SIZE - 1) AND PAGE_ADDR) = 4096 * (q + d)"
    by (simp add: unat_page_addr d_def)
  moreover have "unat (addr + mmap_length len * BLOCK_SIZE) = 4096 * (q + d)"
    using unat_add_lem [of addr "mmap_length len * BLOCK_SIZE"] region_length(3) [OF assms(2,3)] q qd by (simp add: d_def [symmetric])
  ultimately show "(addr + len + BLOCK_SIZE - 1) AND NOT (BLOCK_SIZE - 1) = addr + mmap_length len * BLOCK_SIZE"
    unfolding m by (simp add: word_unat_eq_iff)
qed

lemma munmap_last:
  assumes "current_process k = Some i" and "memory_regions (procs k i) = rs @ [b]" and "addr \<noteq> 0" and "len \<noteq> 0"
    and "t_ebx (frames k r) = addr" and "t_ecx (frames k r) = len"
    and "vstart b = t_ebx (frames k r) AND NOT (BLOCK_SIZE - 1)"
    and "vend b = (t_ebx (frames k r) + t_ecx (frames k r) + BLOCK_SIZE - 1) AND NOT (BLOCK_SIZE - 1)"
    and "\<And>a. a \<in> set rs \<Longrightarrow> \<not> (vstart a = vstart b \<and> vend a = vend b)"
  shows "fst (syscall_munmap r k) = 0 \<and> memory_regions (procs (snd (syscall_munmap r k)) i) = rs"
proof -
  have "\<not> (vstart ((rs @ [b]) ! j) = vstart b \<and> vend ((rs @ [b]) ! j) = vend b)" if "j < length rs" for j
    using assms(9) [of "rs ! j"] that by (simp add: nth_append)
  then have "List.find (\<lambda>j. vstart ((rs @ [b]) ! j) = vstart b \<and> vend ((rs @ [b]) ! j) = vend b) [0..<length (rs @ [b])] = Some (length rs)"
    by (auto simp: find_Some_iff nth_append intro!: exI [of _ "length rs"])
  then show ?thesis
    using assms(1-4) assms(7,8) [symmetric] assms(5,6) by (simp add: syscall_munmap_def Let_def upd_def upd_vm_def)
qed

section \<open>Enough frames\<close>

lemma page_addr_frame:
  assumes "a \<noteq> 0" and "a = x AND PAGE_ADDR"
  shows "0 < frame_of a"
proof -
  have "page_aligned a" unfolding assms(2) by (simp add: page_aligned_def unat_page_addr)
  then have "4096 dvd unat a" by (simp add: page_aligned_def)
  moreover have "unat a \<noteq> 0" using assms(1) by (simp add: unat_eq_zero)
  ultimately have "4096 \<le> unat a" by (auto dest: dvd_imp_le)
  then show ?thesis by (simp add: frame_of_def BLOCK_SIZE_def unat_div)
qed

lemma free_blocks_keeps:
  assumes "phys_ok s" and "0 < frame_of a"
  shows "phys_ok (free_blocks a 1 s)" "test_block s b \<Longrightarrow> test_block (free_blocks a 1 s) b"
proof -
  have r: "ref_counts (store_ref j c s) = (ref_counts s)(j := c)" "oob (store_ref j c s) = oob s" if "j < 4096" for j c
    using that by (simp_all add: store_ref_def phys_consts)
  show "phys_ok (free_blocks a 1 s)" "test_block s b \<Longrightarrow> test_block (free_blocks a 1 s) b"
    using assms by (auto simp: free_blocks_1 phys_ok_def test_set_block_1 phys_consts r)
qed

text \<open>Mapping a page uses at most one frame, for a page table.\<close>

definition frames_left :: "nat \<Rightarrow> vm \<Rightarrow> bool" where
  "frames_left n v \<longleftrightarrow> phys_ok (phys_st v) \<and> n \<le> card (free_frames v)"

lemma frames_left_mono: "frames_left n v \<Longrightarrow> phys_ok (phys_st v) \<Longrightarrow> free_frames v \<subseteq> free_frames v' \<Longrightarrow> phys_ok (phys_st v') \<Longrightarrow> frames_left n v'"
  using card_mono [OF finite_free_frames, of v' "free_frames v"] by (simp add: frames_left_def)

lemma frames_left_same: "phys_st v' = phys_st v \<Longrightarrow> frames_left n v' = frames_left n v"
  by (simp add: frames_left_def free_frames_def)

lemma palloc_left:
  assumes "frames_left (Suc n) v"
  obtains a v' where "palloc v = (a, v')" "a \<noteq> 0" "page_aligned a" "frames_left n v'"
proof (rule palloc_cases [of v])
  show "phys_ok (phys_st v)" using assms by (simp add: frames_left_def)
next
  assume "\<forall>b. \<not> test_block (phys_st v) b"
  then show thesis using assms by (simp add: frames_left_def free_frames_def)
next
  fix t ph assume t: "palloc v = (t, v\<lparr>phys_st := ph\<rparr>)" "t \<noteq> 0" "page_aligned t" "test_block (phys_st v) (frame_of t)" "phys_ok ph"
    "test_block ph = (test_block (phys_st v))(frame_of t := False)"
  have "free_frames (v\<lparr>phys_st := ph\<rparr>) = free_frames v - {frame_of t}" "frame_of t \<in> free_frames v" using t(4,6) by (auto simp: free_frames_def)
  then have "card (free_frames (v\<lparr>phys_st := ph\<rparr>)) = card (free_frames v) - 1" by (simp add: card_Diff_singleton)
  moreover have "Suc n \<le> card (free_frames v)" using assms by (simp add: frames_left_def)
  ultimately have "frames_left n (v\<lparr>phys_st := ph\<rparr>)" using t(5) by (simp add: frames_left_def)
  then show thesis using that t by blast
qed

lemma get_page_left:
  assumes "frames_left (Suc n) v"
  shows "frames_left n (snd (get_page va fl v))"
proof -
  obtain a v' where a: "palloc v = (a, v')" "frames_left n v'" using palloc_left [OF assms] by metis
  have "frames_left n v" using assms by (simp add: frames_left_def)
  then show ?thesis using a by (simp add: get_page_def Let_def frames_left_def free_frames_def)
qed

lemma drop_old_left: 
  assumes "frames_left n v"
  shows "frames_left n (drop_old page ph v)"
proof (cases "getw v page AND PAGE_PRESENT \<noteq> 0 \<and> getw v page AND PAGE_ADDR \<noteq> 0 \<and> getw v page AND PAGE_ADDR \<noteq> ph")
  case True
  note f = free_blocks_keeps [OF _ page_addr_frame, of "phys_st v" "getw v page AND PAGE_ADDR", OF _ _ refl]
  show ?thesis
    using True assms f by (intro frames_left_mono [OF assms]) (auto simp: drop_old_def pfree_def Let_def frames_left_def free_frames_def)
qed (use assms in \<open>auto simp: drop_old_def Let_def\<close>)

lemma map_address_user_left:
  assumes "frames_left (Suc n) v"
  shows "frames_left n (map_address_user va ph v)"
proof -
  obtain p v' where p: "get_page va PAGE_USER v = (p, v')" by force
  have "frames_left n v'" using get_page_left [OF assms, of va PAGE_USER] p by simp
  then have "frames_left n (drop_old p ph v')" by (rule drop_old_left)
  then show ?thesis using p by (simp add: map_address_user_def tlb_flush_def frames_left_def free_frames_def)
qed

text \<open>Two frames for every page are enough.\<close>

lemma map_pages_all:
  assumes "frames_left (2 * n + m) v" and "\<And>ph v. phys_st (prep ph v) = phys_st v"
  shows "fst (map_pages prep a n v) = n \<and> frames_left m (snd (map_pages prep a n v))"
  using assms(1)
proof (induction n arbitrary: a v)
  case (Suc n)
  obtain ph v' where ph: "palloc v = (ph, v')" "ph \<noteq> 0" "frames_left (Suc (2 * n + m)) v'"
    using palloc_left [of "Suc (2 * n + m)" v] Suc.prems by (metis add_Suc mult_2 add_Suc_right)
  have "frames_left (2 * n + m) (map_address_user a ph (prep ph v'))"
    using map_address_user_left ph(3) frames_left_same [of "prep ph v'" v'] assms(2) by metis
  then show ?case using Suc.IH [of "map_address_user a ph (prep ph v')" "a + BLOCK_SIZE"] ph(1,2) by (simp add: Let_def split_beta)
qed simp

lemma alloc_mem_area_passes:
  assumes "\<forall>a\<in>set (memory_regions (procs k i)). ALIGN_PAGE (ALIGN_PAGE start + sz + BLOCK_SIZE - 1) \<le> vstart a \<or> vend a \<le> ALIGN_PAGE start"
    and "frames_left (2 * unat (page_count sz) + m) (hvm (kheap k))"
  shows "\<exists>k'. alloc_mem_area i start sz fl k = Passed k' \<and> frames_left m (hvm (kheap k')) \<and>
    memory_regions (procs k' i) = memory_regions (procs k i) @
      [\<lparr>vstart = ALIGN_PAGE start, vend = ALIGN_PAGE (ALIGN_PAGE start + sz + BLOCK_SIZE - 1), vflags = fl\<rparr>]"
proof -
  let ?r = "map_pages (\<lambda>_ v. v) (ALIGN_PAGE start) (unat (page_count sz)) (hvm (kheap k))"
  have "fst ?r = unat (page_count sz)" "frames_left m (snd ?r)" using map_pages_all [OF assms(2), of "\<lambda>_ v. v"] by auto
  then show ?thesis
    using assms(1) by (auto simp: alloc_mem_area_def Let_def upd_def upd_vm_def split: prod.splits)
qed

section \<open>Growing the heap\<close>

lemma sbrk_loop_returns:
  assumes "unat page + 4096 * n < 2 ^ 32" and "unat page + 4096 * n < unat new_brk + 4096" and "unat new_brk \<le> unat page + 4096 * n"
  shows "\<exists>m\<le>n. (frames_left (2 * n) v \<longrightarrow> m = n) \<and> (\<exists>v'. sbrk_loop page new_brk page v = Some (page + of_nat (4096 * m), v'))"
  using assms
proof (induction n arbitrary: page v)
  case 0
  then have "\<not> page < new_brk" by (simp add: word_less_nat_alt)
  then show ?case by (subst sbrk_loop.simps) auto
next
  case (Suc n)
  have lt: "page < new_brk" using Suc.prems(2) by (simp add: word_less_nat_alt)
  obtain ph v1 where ph: "palloc v = (ph, v1)" by force
  show ?case
  proof (cases "ph = 0")
    case True
    then have "sbrk_loop page new_brk page v = Some (page, v1)" using lt ph by (subst sbrk_loop.simps) (simp add: Let_def)
    moreover have "\<not> frames_left (2 * Suc n) v" using palloc_left [of "Suc (2 * n)" v] ph True by auto
    ultimately show ?thesis by (intro exI [of _ 0]) auto
  next
    case False
    have up: "unat (page + BLOCK_SIZE) = unat page + 4096" using unat_add_small [of page 4096] Suc.prems(1) by (simp add: BLOCK_SIZE_def)
    let ?v = "map_address_user page ph v1"
    have "\<exists>m\<le>n. (frames_left (2 * n) ?v \<longrightarrow> m = n) \<and>
        (\<exists>v'. sbrk_loop (page + BLOCK_SIZE) new_brk (page + BLOCK_SIZE) ?v = Some (page + BLOCK_SIZE + of_nat (4096 * m), v'))"
      by (rule Suc.IH) (use Suc.prems up in simp_all)
    then obtain m v' where m: "m \<le> n" "sbrk_loop (page + BLOCK_SIZE) new_brk (page + BLOCK_SIZE) ?v = Some (page + BLOCK_SIZE + of_nat (4096 * m), v')"
      "frames_left (2 * n) ?v \<longrightarrow> m = n"
      by blast
    have left: "frames_left (2 * n) ?v" if f: "frames_left (2 * Suc n) v"
    proof -
      have "frames_left (Suc (Suc (2 * n))) v" using f by simp
      then have "frames_left (Suc (2 * n)) v1" using palloc_left ph by (metis prod.inject)
      then show ?thesis by (rule map_address_user_left)
    qed
    have "sbrk_loop page new_brk page v = Some (page + of_nat (4096 * Suc m), v')"
      using lt ph False m(2) by (subst sbrk_loop.simps) (simp add: Let_def BLOCK_SIZE_def add.assoc)
    then show ?thesis using m(1,3) left by (intro exI [of _ "Suc m"]) auto
  qed
qed

section \<open>Properties\<close>



text \<open>A process with one region at 0x0844A000 and no free frames; mmap then has to move behind it.\<close>

definition demo_regions :: kern where
  "demo_regions = demo_kern\<lparr>procs := (\<lambda>_. zero_pcb\<lparr>memory_regions := [\<lparr>vstart = 0x0844A000, vend = 0x0844C000, vflags = VMA_USER OR VMA_HEAP\<rparr>]\<rparr>),
     frames := (\<lambda>_. zero_regs\<lparr>t_ebx := 0x0844A000, t_ecx := 8192\<rparr>)\<rparr>"


text \<open>The state after growing the heap by the pages that could be mapped.\<close>

lemma sbrk_step:
  assumes "current_process k = Some i" and "vmm_find_area_by_flag (memory_regions (procs k i)) VMA_HEAP = Some j"
    and "b = vend (memory_regions (procs k i) ! j)" and "page_aligned b" and "n = (unat (t_ebx (frames k r)) + 4095) div 4096"
    and "unat b + 4096 * n < 2 ^ 32"
  shows "\<exists>m v. m \<le> n \<and> (frames_left (2 * n) (hvm (kheap k)) \<longrightarrow> m = n) \<and>
    syscall_sbrk r k = Some (if m = n then b else - 1,
      upd i (\<lambda>p. p\<lparr>memory_regions := (memory_regions (procs k i))[j := (memory_regions (procs k i) ! j)\<lparr>vend := b + of_nat (4096 * m)\<rparr>]\<rparr>)
        (upd_vm (\<lambda>_. v) k))"
proof -
  let ?inc = "t_ebx (frames k r)"
  have j: "j < length (memory_regions (procs k i))" using assms(2) by (auto simp: vmm_find_area_by_flag_def find_Some_iff)
  have n: "unat ?inc \<le> 4096 * n" "4096 * n < unat ?inc + 4096"
    using mult_div_mod_eq [of 4096 "unat ?inc + 4095"] mod_less_divisor [of 4096 "unat ?inc + 4095"] by (auto simp: assms(5))
  have brk: "unat (b + ?inc) = unat b + unat ?inc" using unat_add_lem [of b ?inc] n(1) assms(6) by simp
  have al: "ALIGN_PAGE b = b" using page_aligned_and_id [OF assms(4)] and_not_4095 by (simp add: ALIGN_PAGE_def BLOCK_SIZE_def)
  obtain m v where m: "m \<le> n" "frames_left (2 * n) (hvm (kheap k)) \<longrightarrow> m = n" "sbrk_loop b (b + ?inc) b (hvm (kheap k)) = Some (b + of_nat (4096 * m), v)"
    using sbrk_loop_returns [of b n "b + ?inc" "hvm (kheap k)"] n brk assms(6) by auto
  have l: "unat (b + of_nat (4096 * m)) = unat b + 4096 * m"
  proof (rule unat_add_small)
    have "unat b + 4096 * m \<le> unat b + 4096 * n" using m(1) by simp
    then show "unat b + 4096 * m < 2 ^ LENGTH(32)" using assms(6) by simp
  qed
  have "b + of_nat (4096 * m) < b + ?inc \<longleftrightarrow> m \<noteq> n"
    unfolding word_less_nat_alt l brk using m(1) n by auto
  then show ?thesis
    using m assms(1,2) j unfolding syscall_sbrk_def
    by (auto simp: Let_def assms(3) [symmetric] al intro!: exI [of _ m] exI [of _ v])
qed

text \<open>
  C34. Growing the heap: for a page-aligned end of the heap and a growth that stays in the address
  space, sbrk returns, moves the end page by page over new frames and, when all could be mapped,
  to the least page boundary that covers the request; then it returns the old end,
  otherwise -1 with the pages it got. Two free frames for every page are enough. It looks at no other region: they stay as they
  are, also where the heap now runs over them.
\<close>

theorem sbrk_correct:
  assumes "current_process k = Some i" and "vmm_find_area_by_flag (memory_regions (procs k i)) VMA_HEAP = Some j"
    and "b = vend (memory_regions (procs k i) ! j)" and "page_aligned b" and "n = (unat (t_ebx (frames k r)) + 4095) div 4096"
    and "unat b + 4096 * n < 2 ^ 32"
  shows "\<exists>m k'. m \<le> n \<and> (frames_left (2 * n) (hvm (kheap k)) \<longrightarrow> m = n) \<and> syscall_sbrk r k = Some (if m = n then b else - 1, k') \<and>
    vend (memory_regions (procs k' i) ! j) = b + of_nat (4096 * m) \<and>
    (\<forall>l. l \<noteq> j \<longrightarrow> l < length (memory_regions (procs k i)) \<longrightarrow> memory_regions (procs k' i) ! l = memory_regions (procs k i) ! l) \<and>
    length (memory_regions (procs k' i)) = length (memory_regions (procs k i))"
proof -
  have j: "j < length (memory_regions (procs k i))" using assms(2) by (auto simp: vmm_find_area_by_flag_def find_Some_iff)
  from sbrk_step [OF assms] obtain m v where "m \<le> n" "frames_left (2 * n) (hvm (kheap k)) \<longrightarrow> m = n"
    "syscall_sbrk r k = Some (if m = n then b else - 1,
      upd i (\<lambda>p. p\<lparr>memory_regions := (memory_regions (procs k i))[j := (memory_regions (procs k i) ! j)\<lparr>vend := b + of_nat (4096 * m)\<rparr>]\<rparr>)
        (upd_vm (\<lambda>_. v) k))" by blast
  then show ?thesis using j by (auto simp: upd_def intro!: exI [of _ m])
qed

theorem sbrk_correct_witness:
  "\<exists>(m :: nat) k'. m \<le> 2 \<and> syscall_sbrk 0 (demo_regions\<lparr>frames := (\<lambda>_. zero_regs\<lparr>t_ebx := 5000\<rparr>)\<rparr>) = Some (if m = 2 then 0x0844C000 else - 1, k')"
proof -
  let ?k = "demo_regions\<lparr>frames := (\<lambda>_. zero_regs\<lparr>t_ebx := 5000\<rparr>)\<rparr>"
  have "vmm_find_area_by_flag (memory_regions (procs ?k 0)) VMA_HEAP = Some 0"
    by (simp add: vmm_find_area_by_flag_def demo_regions_def has_flags_def VMA_HEAP_def VMA_USER_def)
  moreover have "current_process ?k = Some 0" "0x0844C000 = vend (memory_regions (procs ?k 0) ! 0)" "2 = (unat (t_ebx (frames ?k 0)) + 4095) div 4096"
    by (simp_all add: demo_regions_def demo_kern_def)
  ultimately show ?thesis
    using sbrk_correct [of ?k 0 0 "0x0844C000" 2 0] by (simp only: page_aligned_def) auto
qed

end
