(* ===== verification/ProcCalls.thy ===== *)
theory ProcCalls
  imports Regions
begin

text \<open>
  The system calls on processes of \<^verbatim>\<open>kernel/src/arch/syscalls.c\<close>: exit, yield, wait,
  waitpid, getpid, ps, fork and sleep.
\<close>

section \<open>Leaving the processor\<close>

definition leave :: "u32 \<Rightarrow> kern \<Rightarrow> sysres option" where
  "leave r k = map_option Left (schedule r k)"

definition before_leaving :: "nat \<Rightarrow> kern \<Rightarrow> kern option" where
  "before_leaving i k =
     do {
       k \<leftarrow> close_slots i [0..<MAX_FILES] k;
       let k = restore_text i k;
       let k = kill_children_of (pid (procs k i)) k;
       let k = set_state i TERMINATED k;
       k \<leftarrow> unblock_parent (pid (procs k i)) True k;
       Some (k\<lparr>current_process := None\<rparr>)
     }"

definition syscall_exit :: "u32 \<Rightarrow> kern \<Rightarrow> sysres option" where
  "syscall_exit r k =
     (case current_process k of
        None \<Rightarrow> Some (Done 0 k)
      | Some i \<Rightarrow> do { k \<leftarrow> before_leaving i k; leave r k })"

definition syscall_yield :: "u32 \<Rightarrow> kern \<Rightarrow> sysres option" where
  "syscall_yield r k = leave r k"

section \<open>Waiting for children\<close>

definition reap :: "u32 \<Rightarrow> nat \<Rightarrow> u32 \<Rightarrow> kern \<Rightarrow> sysres option" where
  "reap r i dead k =
     do {
       let k = upd i (remove_child_from_parent dead) k;
       k \<leftarrow> (case get_process_by_pid k dead of None \<Rightarrow> Some k | Some c \<Rightarrow> process_cleanup_child c k);
       Some (Done dead (upd_frame r (\<lambda>t. t\<lparr>t_eax := dead\<rparr>) k))
     }"

definition block_in_wait :: "u32 \<Rightarrow> nat \<Rightarrow> kern \<Rightarrow> sysres option" where
  "block_in_wait r i k = leave r (set_state i BLOCKED k)"

definition syscall_wait :: "u32 \<Rightarrow> kern \<Rightarrow> sysres option" where
  "syscall_wait r k =
     (case current_process k of
        None \<Rightarrow> Some (Done (- 1) k)
      | Some i \<Rightarrow>
          (let my_pid = pid (procs k i); dead = find_terminated_child k my_pid
           in if dead \<noteq> 0 then reap r i dead k
              else if has_live_children k my_pid then block_in_wait r i (upd i (\<lambda>p. p\<lparr>waiting_on_pid := 0\<rparr>) k)
              else Some (Done (- 1) k)))"

text \<open>The child is the one that was asked for.\<close>

definition wanted :: "u32 \<Rightarrow> u32 \<Rightarrow> bool" where
  "wanted req_pid c \<longleftrightarrow> c \<noteq> 0 \<and> (req_pid = 0 \<or> req_pid = c)"

definition report_stopped :: "u32 \<Rightarrow> u32 \<Rightarrow> kern \<Rightarrow> sysres" where
  "report_stopped r s k = Done (- s) (upd_frame r (\<lambda>t. t\<lparr>t_eax := - s\<rparr>) k)"

text \<open>The loop at the end runs at most once, as \<^verbatim>\<open>schedule\<close> does not come back.\<close>

definition syscall_waitpid :: "u32 \<Rightarrow> kern \<Rightarrow> sysres option" where
  "syscall_waitpid r k =
     (case current_process k of
        None \<Rightarrow> Some (Done (- 1) k)
      | Some i \<Rightarrow>
          (let req_pid = t_ebx (frames k r); options = t_ecx (frames k r); my_pid = pid (procs k i);
               dead = find_terminated_child k my_pid; stopped = find_stopped_child k my_pid
           in if wanted req_pid dead then reap r i dead k
              else if options AND 1 \<noteq> 0 then
                if wanted req_pid stopped then Some (report_stopped r stopped k)
                else Some (Done 0 (upd_frame r (\<lambda>t. t\<lparr>t_eax := 0\<rparr>) k))
              else
                let k = upd i (\<lambda>p. p\<lparr>waiting_on_pid := req_pid\<rparr>) k
                in if has_live_children k my_pid then
                     let d = find_terminated_child k my_pid; s = find_stopped_child k my_pid;
                         idle = upd i (\<lambda>p. p\<lparr>waiting_on_pid := 0\<rparr>) k
                     in if wanted req_pid d then reap r i d idle
                        else if wanted req_pid s then Some (report_stopped r s idle)
                        else block_in_wait r i k
                   else Some (Done (- 1) (upd i (\<lambda>p. p\<lparr>waiting_on_pid := 0\<rparr>) k))))"

section \<open>The other calls\<close>

definition syscall_getpid :: "kern \<Rightarrow> u32" where
  "syscall_getpid k = (case current_process k of None \<Rightarrow> 0 | Some i \<Rightarrow> pid (procs k i))"

text \<open>The position of a state in its enumeration.\<close>

definition state_number :: "process_state \<Rightarrow> u32" where
  "state_number st = (case st of NEW \<Rightarrow> 0 | READY \<Rightarrow> 1 | RUNNING \<Rightarrow> 2 | BLOCKED \<Rightarrow> 3 | TERMINATED \<Rightarrow> 4 | STOPPED \<Rightarrow> 5)"

definition ps_entry :: "pcb \<Rightarrow> u8 list" where
  "ps_entry p = le_bytes (pid p) @ le_bytes (state_number (pstate p)) @ map (proc_name p) [0..<20] @ le_bytes (parent_id p)"

definition syscall_ps :: "u32 \<Rightarrow> kern \<Rightarrow> (u32 \<times> kern) option" where
  "syscall_ps r k =
     (let buf_user = t_ebx (frames k r); max_entries = t_ecx (frames k r)
      in if \<not> is_user_ptr buf_user \<or> max_entries = 0 then Some (- 1, k)
         else
           do {
             let shown = take (unat max_entries) (filter (\<lambda>i. pstate (procs k i) \<noteq> NEW) [0..<MAX_PROCESSES]);
             (ok, v) \<leftarrow> copy_out buf_user (concat (map (\<lambda>i. ps_entry (procs k i)) shown)) (hvm (kheap k));
             Some (if ok then of_nat (length shown) else - 1, upd_vm (\<lambda>_. v) k)
           })"

definition syscall_fork :: "u32 \<Rightarrow> kern \<Rightarrow> (u32 \<times> kern) option" where
  "syscall_fork r k =
     (case current_process k of
        None \<Rightarrow> Some (- 1, k)
      | Some i \<Rightarrow>
          do {
            (c, k) \<leftarrow> fork_process i r k;
            Some (case c of None \<Rightarrow> - 1 | Some slot \<Rightarrow> pid (procs k slot), k)
          })"

definition PIT_FREQ_HZ :: u32 where "PIT_FREQ_HZ = 18"

definition syscall_sleep :: "u32 \<Rightarrow> kern \<Rightarrow> sysres option" where
  "syscall_sleep r k =
     (let seconds = t_ebx (frames k r)
      in if seconds = 0 then Some (Done 0 k)
         else
           do {
             let wake_tick = ticks k + seconds * PIT_FREQ_HZ;
             i \<leftarrow> current_process k;
             k \<leftarrow> sleep_enqueue i wake_tick (set_state i BLOCKED k);
             leave r k
           })"


section \<open>What leaving does to the process table\<close>

lemma close_node_table:
  assumes "close_node n k = Some k'"
  shows "num_processes k' = num_processes k \<and> frames k' = frames k \<and> current_process k' = current_process k"
  using assms
  by (auto simp: close_node_def close_pipe_end_def Let_def split: outcome.splits fnptr.splits option.splits prod.splits)

lemma drop_node_table: "drop_node n k = Some k' \<Longrightarrow> num_processes k' = num_processes k \<and> frames k' = frames k \<and> current_process k' = current_process k"
  by (auto simp: drop_node_def Let_def set_refcount_def split: if_splits dest!: close_node_table)

lemma close_slot_table:
  assumes "close_slot i fd k = Some k'"
  shows "\<exists>f. procs k' = (procs k)(i := (procs k i)\<lparr>files_open := f\<rparr>) \<and> f fd = None \<and> (\<forall>e. e \<noteq> fd \<longrightarrow> f e = files_open (procs k i) e)"
    "num_processes k' = num_processes k" "frames k' = frames k \<and> current_process k' = current_process k"
proof -
  have "(\<exists>f. procs k' = (procs k)(i := (procs k i)\<lparr>files_open := f\<rparr>) \<and> f fd = None \<and> (\<forall>e. e \<noteq> fd \<longrightarrow> f e = files_open (procs k i) e)) \<and>
    num_processes k' = num_processes k \<and> frames k' = frames k \<and> current_process k' = current_process k"
  proof (cases "files_open (procs k i) fd")
    case None
    then show ?thesis using assms by (auto simp: close_slot_def intro!: exI [of _ "files_open (procs k i)"])
  next
    case (Some fp)
    then obtain k1 where k1: "(case fnode fp of None \<Rightarrow> Some k | Some n \<Rightarrow> drop_node n k) = Some k1"
      "k' = upd i (\<lambda>p. p\<lparr>files_open := (files_open p)(fd := None)\<rparr>) k1"
      using assms by (auto simp: close_slot_def bind_eq_Some_conv)
    then have "procs k1 = procs k \<and> num_processes k1 = num_processes k \<and> frames k1 = frames k \<and> current_process k1 = current_process k"
      using drop_node_procs drop_node_table by (cases "fnode fp") auto
    then show ?thesis by (auto simp: k1(2) upd_def intro!: exI [of _ "(files_open (procs k i))(fd := None)"])
  qed
  then show "\<exists>f. procs k' = (procs k)(i := (procs k i)\<lparr>files_open := f\<rparr>) \<and> f fd = None \<and> (\<forall>e. e \<noteq> fd \<longrightarrow> f e = files_open (procs k i) e)"
    "num_processes k' = num_processes k" "frames k' = frames k \<and> current_process k' = current_process k"
    by blast+
qed

lemma close_slots_table:
  assumes "close_slots i fds k = Some k'"
  shows "\<exists>f. procs k' = (procs k)(i := (procs k i)\<lparr>files_open := f\<rparr>) \<and> (\<forall>fd\<in>set fds. f fd = None) \<and>
      (\<forall>e. files_open (procs k i) e = None \<longrightarrow> f e = None) \<and> num_processes k' = num_processes k \<and> frames k' = frames k \<and> current_process k' = current_process k"
  using assms
proof (induction fds arbitrary: k)
  case (Cons fd fds)
  then obtain k1 where k1: "close_slot i fd k = Some k1" "close_slots i fds k1 = Some k'" by (auto simp: bind_eq_Some_conv)
  obtain f where f: "procs k1 = (procs k)(i := (procs k i)\<lparr>files_open := f\<rparr>)" "f fd = None" "\<forall>e. e \<noteq> fd \<longrightarrow> f e = files_open (procs k i) e"
    using close_slot_table(1) [OF k1(1)] by blast
  obtain g where g: "procs k' = (procs k1)(i := (procs k1 i)\<lparr>files_open := g\<rparr>)" "\<forall>fd\<in>set fds. g fd = None"
    "\<forall>e. files_open (procs k1 i) e = None \<longrightarrow> g e = None" "num_processes k' = num_processes k1" "frames k' = frames k1 \<and> current_process k' = current_process k1"
    using Cons.IH [OF k1(2)] by blast
  have "g fd = None" "\<forall>e. files_open (procs k i) e = None \<longrightarrow> g e = None" using f g(3) by (auto, metis)
  then show ?case using f(1) g(1,2,4,5) close_slot_table(2,3) [OF k1(1)] by (intro exI [of _ g]) auto
next
  case Nil
  then show ?case by (intro exI [of _ "files_open (procs k i)"]) simp
qed

lemma kill_children_table:
  "procs (kill_children_of c k) j = (if j < MAX_PROCESSES \<and> parent_id (procs k j) = c then (procs k j)\<lparr>pstate := TERMINATED\<rparr> else procs k j)"
  "num_processes (kill_children_of c k) = num_processes k" "frames (kill_children_of c k) = frames k"
  "current_process (kill_children_of c k) = current_process k"
proof -
  let ?st = "\<lambda>i k. if parent_id (procs k i) = c \<and> pstate (procs k i) \<noteq> TERMINATED then set_state i TERMINATED k else k"
  have "procs (fold ?st [0..<n] k) j = (if j < n \<and> parent_id (procs k j) = c then (procs k j)\<lparr>pstate := TERMINATED\<rparr> else procs k j) \<and>
    num_processes (fold ?st [0..<n] k) = num_processes k \<and> frames (fold ?st [0..<n] k) = frames k \<and>
    current_process (fold ?st [0..<n] k) = current_process k" for n
    by (induction n) (auto simp: set_state_def upd_def less_Suc_eq)
  then show "procs (kill_children_of c k) j = (if j < MAX_PROCESSES \<and> parent_id (procs k j) = c then (procs k j)\<lparr>pstate := TERMINATED\<rparr> else procs k j)"
    "num_processes (kill_children_of c k) = num_processes k" "frames (kill_children_of c k) = frames k"
    "current_process (kill_children_of c k) = current_process k"
    by (simp_all add: kill_children_of_def)
qed

lemma get_process_cong:
  "num_processes k' = num_processes k \<Longrightarrow> (\<And>j. pid (procs k' j) = pid (procs k j)) \<Longrightarrow> get_process_by_pid k' p = get_process_by_pid k p"
  by (simp add: get_process_by_pid_def)

text \<open>The children a process has listed.\<close>

definition listed :: "pcb \<Rightarrow> u32 list" where
  "listed p = map (children_id p) [0..<unat (num_children p)]"

lemma remove_child_listed:
  assumes "distinct (listed p)"
  shows "set (listed (remove_child_from_parent c p)) = set (listed p) - {c}"
proof (cases "c \<in> set (listed p)")
  case False
  then have "remove_child_from_parent c p = p"
    by (auto simp: remove_child_from_parent_def listed_def find_None_iff split: option.splits) (auto simp: find_Some_iff)
  then show ?thesis using False by simp
next
  case True
  let ?n = "unat (num_children p)"
  obtain i where i: "List.find (\<lambda>i. children_id p i = c) [0..<?n] = Some i" "i < ?n" "children_id p i = c"
    using True by (cases "List.find (\<lambda>i. children_id p i = c) [0..<?n]") (auto simp: listed_def find_None_iff find_Some_iff)
  have ne: "num_children p \<noteq> 0" using i(2) by auto
  then have n: "unat (num_children p - 1) = ?n - 1" by (rule unat_minus_one)
  have inj: "a < ?n \<Longrightarrow> b < ?n \<Longrightarrow> children_id p a = children_id p b \<Longrightarrow> a = b" for a b
    using assms by (auto simp: listed_def distinct_map inj_on_def)
  have l: "listed (remove_child_from_parent c p) = map ((children_id p)(i := children_id p (?n - 1))) [0..<?n - 1]"
    using i(1) by (simp add: listed_def remove_child_from_parent_def n)
  have "x \<in> set (listed (remove_child_from_parent c p)) \<longleftrightarrow> x \<in> set (listed p) \<and> x \<noteq> c" for x
  proof
    assume "x \<in> set (listed (remove_child_from_parent c p))"
    then obtain a where a: "a < ?n - 1" "x = (if a = i then children_id p (?n - 1) else children_id p a)" by (auto simp: l)
    define b where "b = (if a = i then ?n - 1 else a)"
    have b: "b < ?n" "b \<noteq> i" "x = children_id p b" using a i(2) less_le_trans [OF a(1) diff_le_self] by (simp_all add: b_def)
    have "x \<in> set (listed p)" unfolding listed_def set_map using b(1,3) by (intro image_eqI [of _ _ b]) simp_all
    moreover have "x \<noteq> c" using inj [OF b(1) i(2)] b(2,3) i(3) by auto
    ultimately show "x \<in> set (listed p) \<and> x \<noteq> c" by blast
  next
    assume "x \<in> set (listed p) \<and> x \<noteq> c"
    then obtain a where "a < ?n" "x = children_id p a" by (auto simp: listed_def)
    then have a: "a < ?n" "x = children_id p a" "a \<noteq> i" using i(3) \<open>x \<in> _ \<and> x \<noteq> c\<close> by auto
    show "x \<in> set (listed (remove_child_from_parent c p))"
    proof (cases "a = ?n - 1")
      case True
      then have "i < ?n - 1" using a i(2) by simp
      then show ?thesis unfolding l set_map using True a by (intro image_eqI [of _ _ i]) simp_all
    next
      case False
      then show ?thesis unfolding l set_map using a by (intro image_eqI [of _ _ a]) simp_all
    qed
  qed
  then show ?thesis by auto
qed


section \<open>Leaving and waiting\<close>

text \<open>The state just before the parent is woken.\<close>

lemma before_unblock:
  assumes "close_slots i [0..<MAX_FILES] k = Some k1" and "i < MAX_PROCESSES"
  defines "k2 \<equiv> set_state i TERMINATED (kill_children_of (pid (procs k i)) (restore_text i k1))"
  shows "\<And>j. pid (procs k2 j) = pid (procs k j)" "\<And>j. parent_id (procs k2 j) = parent_id (procs k j)"
    "num_processes k2 = num_processes k" "frames k2 = frames k" "current_process k2 = current_process k"
    "pstate (procs k2 i) = TERMINATED" "\<forall>fd<MAX_FILES. files_open (procs k2 i) fd = None"
    "kernel_stack_alloc (procs k2 i) = kernel_stack_alloc (procs k i)" "pregs (procs k2 i) = pregs (procs k i)"
    "\<And>j. j \<noteq> i \<Longrightarrow> procs k2 j = (if j < MAX_PROCESSES \<and> parent_id (procs k j) = pid (procs k i) then (procs k j)\<lparr>pstate := TERMINATED\<rparr> else procs k j)"
    "before_leaving i k = map_option (\<lambda>k. k\<lparr>current_process := None\<rparr>) (unblock_parent (pid (procs k i)) True k2)"
proof -
  obtain f where f: "procs k1 = (procs k)(i := (procs k i)\<lparr>files_open := f\<rparr>)" "\<forall>fd<MAX_FILES. f fd = None"
    "num_processes k1 = num_processes k" "frames k1 = frames k" "current_process k1 = current_process k"
    using close_slots_table [OF assms(1)] by auto
  have r: "procs (restore_text i k1) = procs k1" "num_processes (restore_text i k1) = num_processes k1" "frames (restore_text i k1) = frames k1"
    "current_process (restore_text i k1) = current_process k1"
    by (simp_all add: restore_text_def)
  note t = kill_children_table [of "pid (procs k i)" "restore_text i k1"]
  have p2: "procs k2 j = (if j = i then (procs k i)\<lparr>files_open := f, pstate := TERMINATED\<rparr>
      else if j < MAX_PROCESSES \<and> parent_id (procs k j) = pid (procs k i) then (procs k j)\<lparr>pstate := TERMINATED\<rparr> else procs k j)" for j
    by (simp add: k2_def set_state_def upd_def t r f(1))
  show "\<And>j. pid (procs k2 j) = pid (procs k j)" "\<And>j. parent_id (procs k2 j) = parent_id (procs k j)"
    "num_processes k2 = num_processes k" "frames k2 = frames k" "current_process k2 = current_process k"
    "pstate (procs k2 i) = TERMINATED" "\<forall>fd<MAX_FILES. files_open (procs k2 i) fd = None"
    "kernel_stack_alloc (procs k2 i) = kernel_stack_alloc (procs k i)" "pregs (procs k2 i) = pregs (procs k i)"
    "\<And>j. j \<noteq> i \<Longrightarrow> procs k2 j = (if j < MAX_PROCESSES \<and> parent_id (procs k j) = pid (procs k i) then (procs k j)\<lparr>pstate := TERMINATED\<rparr> else procs k j)"
    by (simp_all add: p2 f(2)) (simp_all add: k2_def set_state_def upd_def t r f(3-5))
  have "pid (procs (restore_text i k1) i) = pid (procs k i)" "pid (procs k2 i) = pid (procs k i)" by (simp_all add: r f(1) p2)
  then show "before_leaving i k = map_option (\<lambda>k. k\<lparr>current_process := None\<rparr>) (unblock_parent (pid (procs k i)) True k2)"
    using assms(1) by (cases "unblock_parent (pid (procs k i)) True k2") (simp_all add: before_leaving_def Let_def k2_def)
qed


lemma find_child_found:
  assumes "get_process_by_pid k p = Some j" and "c \<in> set (listed (procs k j))" and "get_process_by_pid k c = Some i" and "Q (pstate (procs k i))"
  shows "\<exists>l. find_child Q k p = Some l \<and> Q (pstate (procs k l)) \<and> pid (procs k l) \<in> set (listed (procs k j))"
proof -
  let ?test = "\<lambda>x. case get_process_by_pid k (children_id (procs k j) x) of None \<Rightarrow> False | Some j \<Rightarrow> Q (pstate (procs k j))"
  let ?n = "unat (num_children (procs k j))"
  obtain a where a: "a < ?n" "children_id (procs k j) a = c" using assms(2) by (auto simp: listed_def)
  then have "?test a" using assms(3,4) by simp
  then obtain b where b: "List.find ?test [0..<?n] = Some b"
    using a(1) by (cases "List.find ?test [0..<?n]") (auto simp: find_None_iff)
  then have lt: "b < ?n" "?test b" by (auto simp: find_Some_iff)
  then obtain l where l: "get_process_by_pid k (children_id (procs k j) b) = Some l" "Q (pstate (procs k l))" by (auto split: option.splits)
  have "pid (procs k l) = children_id (procs k j) b" using l(1) by (auto simp: get_process_by_pid_def find_Some_iff)
  then have "pid (procs k l) \<in> set (listed (procs k j))" using lt(1) by (simp add: listed_def)
  then show ?thesis using l b assms(1) by (simp add: find_child_def Let_def)
qed

section \<open>Properties\<close>

text \<open>
  C35. What exit leaves behind. The process has no descriptors any more, its children are terminated and
  it is terminated itself. A parent that waits for it (or for any child) becomes ready, gets its number
  as the result of the wait and no longer lists it. Otherwise the child stays
  listed, and the next wait of the parent finds a terminated child. The kernel stack and the
  address space of the process are still allocated; in the first case no wait
  can find the process any more, and nothing ever frees them.
\<close>

theorem exit_wait_handshake:
  assumes "current_process k = Some i" and "i < MAX_PROCESSES" and "c = pid (procs k i)" and "get_process_by_pid k c = Some i"
    and "get_process_by_pid k (parent_id (procs k i)) = Some j" and "j \<noteq> i" and "parent_id (procs k j) \<noteq> c"
    and "distinct (listed (procs k j))" and "c \<in> set (listed (procs k j))" and "0 \<notin> set (listed (procs k j))"
    and "close_slots i [0..<MAX_FILES] k = Some k1"
  shows "\<exists>k'. syscall_exit r k = leave r k' \<and> current_process k' = None \<and> pstate (procs k' i) = TERMINATED \<and>
    (\<forall>fd<MAX_FILES. files_open (procs k' i) fd = None) \<and>
    (\<forall>l<MAX_PROCESSES. parent_id (procs k l) = c \<longrightarrow> pstate (procs k' l) = TERMINATED) \<and>
    kernel_stack_alloc (procs k' i) = kernel_stack_alloc (procs k i) \<and> r_cr3 (pregs (procs k' i)) = r_cr3 (pregs (procs k i)) \<and>
    (if waits_for (procs k j) c
     then pstate (procs k' j) = READY \<and> t_eax (frames k' (r_esp (pregs (procs k j)))) = c \<and>
       set (listed (procs k' j)) = set (listed (procs k j)) - {c}
     else procs k' j = procs k j \<and> find_terminated_child k' (pid (procs k j)) \<noteq> 0)"
proof -
  define k2 where "k2 = set_state i TERMINATED (kill_children_of c (restore_text i k1))"
  note b = before_unblock [OF assms(11,2), folded assms(3), folded k2_def]
  have g: "get_process_by_pid k2 p = get_process_by_pid k p" for p by (rule get_process_cong) (simp_all add: b(1,3))
  have pj: "procs k2 j = procs k j" using b(10) [OF assms(6)] assms(7) by simp
  have cur: "current_process k2 = Some i" using b(5) assms(1) by simp
  have kids: "\<forall>l<MAX_PROCESSES. parent_id (procs k l) = c \<longrightarrow> pstate (procs k2 l) = TERMINATED"
  proof (intro allI impI)
    fix l assume "l < MAX_PROCESSES" "parent_id (procs k l) = c"
    then show "pstate (procs k2 l) = TERMINATED" using b(6) b(10) [of l] by (cases "l = i") auto
  qed
  show ?thesis
  proof (cases "waits_for (procs k j) c")
    case True
    define k3 where "k3 = wake_parent c True j k2"
    have p3: "procs k3 = (procs k2)(j := (remove_child_from_parent c (procs k j))\<lparr>pstate := READY\<rparr>)" "current_process k3 = Some i"
      "frames k3 (r_esp (pregs (procs k j))) = (frames k (r_esp (pregs (procs k j))))\<lparr>t_eax := c\<rparr>"
      by (simp_all add: k3_def wake_parent_def Let_def upd_def set_state_def upd_frame_def pj cur b(4) remove_child_from_parent_def split: option.splits)
    have "unblock_parent c True k2 = Some k3"
      using assms(4,5) True by (simp add: unblock_parent_def g b(2) pj Let_def k3_def [symmetric] p3(2))
    then have call: "syscall_exit r k = leave r (k3\<lparr>current_process := None\<rparr>)"
      using assms(1) b(11) by (simp add: syscall_exit_def)
    have "listed ((remove_child_from_parent c (procs k j))\<lparr>pstate := READY\<rparr>) = listed (remove_child_from_parent c (procs k j))"
      by (simp add: listed_def)
    then show ?thesis
      using call assms(6,7) kids b(6-9) remove_child_listed [OF assms(8), of c] True
      by (intro exI [of _ "k3\<lparr>current_process := None\<rparr>"]) (auto simp: p3)
  next
    case False
    then have "unblock_parent c True k2 = Some k2" using assms(4,5) by (simp add: unblock_parent_def g b(2) pj)
    then have call: "syscall_exit r k = leave r (k2\<lparr>current_process := None\<rparr>)"
      using assms(1) b(11) by (simp add: syscall_exit_def)
    have pid_j: "pid (procs k j) = parent_id (procs k i)" using assms(5) by (auto simp: get_process_by_pid_def find_Some_iff)
    let ?k = "k2\<lparr>current_process := None\<rparr>"
    have gk: "get_process_by_pid ?k p = get_process_by_pid k p" for p using g by (simp add: get_process_by_pid_def)
    obtain l where l: "find_child (\<lambda>st. st = TERMINATED) ?k (pid (procs k j)) = Some l" "pid (procs ?k l) \<in> set (listed (procs ?k j))"
      using find_child_found [of ?k "pid (procs k j)" j c i "\<lambda>st. st = TERMINATED"] assms(4,5,9) b(6) pid_j pj gk by auto
    then have "find_terminated_child ?k (pid (procs k j)) \<noteq> 0"
      using assms(10) pj by (auto simp: find_terminated_child_def)
    then show ?thesis using call assms(1) kids b(6-9) pj False by (intro exI [of _ ?k]) auto
  qed
qed


lemma close_slots_empty: "\<forall>fd\<in>set fds. files_open (procs k i) fd = None \<Longrightarrow> close_slots i fds k = Some k"
  by (induction fds) (auto simp: close_slot_def)

text \<open>Process 2 in slot 2 is running, a child of process 1 in slot 1, which waits.\<close>

definition demo_family :: kern where
  "demo_family = demo_kern\<lparr>procs := (\<lambda>_. zero_pcb)(1 := zero_pcb\<lparr>pid := 1, pstate := BLOCKED, num_children := 1, children_id := (\<lambda>_. 2)\<rparr>,
     2 := zero_pcb\<lparr>pid := 2, pstate := RUNNING, parent_id := 1\<rparr>), current_process := Some 2\<rparr>"

theorem exit_wait_handshake_witness:
  "\<exists>k'. syscall_exit 0 demo_family = leave 0 k' \<and> pstate (procs k' 1) = READY \<and> t_eax (frames k' 0) = 2 \<and> listed (procs k' 1) = []"
proof -
  have g: "get_process_by_pid demo_family 1 = Some 1" "get_process_by_pid demo_family 2 = Some 2"
    by (simp_all add: get_process_by_pid_def demo_family_def demo_kern_def zero_pcb_def upt_rec)
  have c: "close_slots 2 [0..<MAX_FILES] demo_family = Some demo_family"
    by (rule close_slots_empty) (simp add: demo_family_def zero_pcb_def)
  have f: "current_process demo_family = Some 2" "pid (procs demo_family 2) = 2" "parent_id (procs demo_family 2) = 1"
    "parent_id (procs demo_family 1) = 0" "listed (procs demo_family 1) = [2]" "waits_for (procs demo_family 1) 2"
    "r_esp (pregs (procs demo_family 1)) = 0"
    by (simp_all add: demo_family_def listed_def waits_for_def) (simp_all add: zero_pcb_def zero_registers_def)
  show ?thesis
    using exit_wait_handshake [of demo_family 2 2 1 demo_family 0] g c f by (auto simp: MAX_PROCESSES_def)
qed

end
