(* ===== verification/Elf.thy ===== *)
theory Elf
  imports ProcCalls
begin

text \<open>
  The ELF loader, \<^verbatim>\<open>kernel/src/proc/elf.c\<close>: checks of the header, loading of segments,
  shared libraries and their symbols, relocation, and the stack and heap of the new program.

  The kernel's own buffers are lists and functions of bytes; what \<^verbatim>\<open>malloc\<close> returns is not
  cleared, and the parameter \<open>junk\<close> stands for it. Pointers into the address space that is being
  built are user addresses. \<open>None\<close> means that the loader does not come back: a fault on a page that is
  not mapped, a failed \<^verbatim>\<open>ASSERT\<close>, or a loop without end.
\<close>

section \<open>Structures of the file\<close>

record elf32_ehdr =
  e_ident :: bytes
  e_type :: u16
  e_machine :: u16
  e_entry :: u32
  e_phoff :: u32
  e_phentsize :: u16
  e_phnum :: u16

record elf32_phdr =
  p_type :: u32
  p_offset :: u32
  p_vaddr :: u32
  p_filesz :: u32
  p_memsz :: u32
  p_flags :: u32

definition ehdr_of :: "bytes \<Rightarrow> elf32_ehdr" where
  "ehdr_of b = \<lparr>e_ident = b, e_type = le16 b 16, e_machine = le16 b 18, e_entry = le32 b 24, e_phoff = le32 b 28,
     e_phentsize = le16 b 42, e_phnum = le16 b 44\<rparr>"

definition phdr_of :: "bytes \<Rightarrow> elf32_phdr" where
  "phdr_of b = \<lparr>p_type = le32 b 0, p_offset = le32 b 4, p_vaddr = le32 b 8, p_filesz = le32 b 16, p_memsz = le32 b 20,
     p_flags = le32 b 24\<rparr>"

definition PT_LOAD :: u32 where "PT_LOAD = 1"
definition PT_DYNAMIC :: u32 where "PT_DYNAMIC = 2"
definition SHLIB_BASE :: u32 where "SHLIB_BASE = 0x40000000"
definition ET_REL :: u16 where "ET_REL = 1"
definition ET_EXEC :: u16 where "ET_EXEC = 2"
definition ET_DYN :: u16 where "ET_DYN = 3"

definition elf_check_file :: "elf32_ehdr \<Rightarrow> bool" where
  "elf_check_file hdr \<longleftrightarrow> e_ident hdr 0 = 0x7F \<and> e_ident hdr 1 = 0x45 \<and> e_ident hdr 2 = 0x4C \<and> e_ident hdr 3 = 0x46"

definition elf_check_supported :: "elf32_ehdr \<Rightarrow> bool" where
  "elf_check_supported hdr \<longleftrightarrow> elf_check_file hdr \<and> e_ident hdr 4 = 1 \<and> e_ident hdr 5 = 1 \<and> e_machine hdr = 3 \<and>
     e_ident hdr 6 = 1 \<and> (e_type hdr = ET_REL \<or> e_type hdr = ET_EXEC \<or> e_type hdr = ET_DYN)"

section \<open>Reading the file\<close>

fun foldM :: "('a \<Rightarrow> 's \<Rightarrow> 's option) \<Rightarrow> 'a list \<Rightarrow> 's \<Rightarrow> 's option" where
  "foldM f [] s = Some s"
| "foldM f (x # xs) s = Option.bind (f x s) (foldM f xs)"

definition read_file :: "nat \<Rightarrow> u32 \<Rightarrow> u32 \<Rightarrow> bytes \<Rightarrow> kern \<Rightarrow> (bytes \<times> kern) option" where
  "read_file n off sz b k =
     (case seek_fs n off SEEK_START (kfs k) of
        Device _ \<Rightarrow> None
      | Ret s \<Rightarrow>
          (case read_fs n sz 1 b s of
             Some (Ret (_, b, s)) \<Rightarrow> Some (b, k\<lparr>kfs := s\<rparr>)
           | _ \<Rightarrow> None))"

definition read_ehdr :: "bytes \<Rightarrow> nat \<Rightarrow> kern \<Rightarrow> (elf32_ehdr \<times> kern) option" where
  "read_ehdr junk n k = map_option (\<lambda>(b, k). (ehdr_of b, k)) (read_file n 0 52 junk k)"

definition read_phdr :: "bytes \<Rightarrow> nat \<Rightarrow> elf32_ehdr \<Rightarrow> nat \<Rightarrow> kern \<Rightarrow> (elf32_phdr \<times> kern) option" where
  "read_phdr junk n hdr i k =
     map_option (\<lambda>(b, k). (phdr_of b, k)) (read_file n (e_phoff hdr + of_nat i * ucast (e_phentsize hdr)) 32 junk k)"

definition phdr_indices :: "elf32_ehdr \<Rightarrow> nat list" where
  "phdr_indices hdr = [0..<unat (e_phnum hdr)]"

section \<open>Segments\<close>

definition passed :: "'a checked \<Rightarrow> 'a option" where
  "passed c = (case c of Passed x \<Rightarrow> Some x | Panic \<Rightarrow> None)"

definition segment_flags :: "elf32_phdr \<Rightarrow> u32" where
  "segment_flags ph = VMA_USER OR (if p_flags ph AND 1 \<noteq> 0 then VMA_EXEC else 0) OR
     (if p_flags ph AND 2 \<noteq> 0 then VMA_WRITE else 0) OR (if p_flags ph AND 4 \<noteq> 0 then VMA_READ else 0)"

text \<open>\<^verbatim>\<open>memset\<close> through a user pointer.\<close>

definition zero_user :: "u32 \<Rightarrow> u32 \<Rightarrow> kern \<Rightarrow> kern option" where
  "zero_user a n k = deliver_bytes a (replicate (unat n) 0) k"

text \<open>The file contents go straight to the user addresses of the segment.\<close>

definition read_to_user :: "nat \<Rightarrow> u32 \<Rightarrow> u32 \<Rightarrow> u32 \<Rightarrow> kern \<Rightarrow> kern option" where
  "read_to_user n off sz a k =
     (case seek_fs n off SEEK_START (kfs k) of
        Device _ \<Rightarrow> None
      | Ret s \<Rightarrow> (case read_node n a sz 1 (k\<lparr>kfs := s\<rparr>) of Some (Done _ k) \<Rightarrow> Some k | _ \<Rightarrow> None))"

definition place_segment :: "nat \<Rightarrow> nat \<Rightarrow> u32 \<Rightarrow> elf32_phdr \<Rightarrow> kern \<Rightarrow> kern option" where
  "place_segment i n vaddr ph k =
     do {
       k \<leftarrow> passed (alloc_mem_area i vaddr (p_memsz ph) (segment_flags ph) k);
       k \<leftarrow> read_to_user n (p_offset ph) (p_filesz ph) vaddr k;
       if p_filesz ph < p_memsz ph then zero_user (vaddr + p_filesz ph) (p_memsz ph - p_filesz ph) k else Some k
     }"

definition load_app_segment :: "bytes \<Rightarrow> nat \<Rightarrow> nat \<Rightarrow> elf32_ehdr \<Rightarrow> nat \<Rightarrow> u32 \<times> kern \<Rightarrow> (u32 \<times> kern) option" where
  "load_app_segment junk i n hdr idx = (\<lambda>(max_proc_end, k).
     do {
       (ph, k) \<leftarrow> read_phdr junk n hdr idx k;
       if p_type ph = PT_LOAD then
         do {
           k \<leftarrow> place_segment i n (p_vaddr ph) ph k;
           let cur_end = p_vaddr ph + p_memsz ph;
           Some (if max_proc_end < cur_end then cur_end else max_proc_end, k)
         }
       else Some (max_proc_end, k)
     })"

section \<open>The dynamic section\<close>

fun find_dynamic :: "bytes \<Rightarrow> nat \<Rightarrow> elf32_ehdr \<Rightarrow> nat list \<Rightarrow> kern \<Rightarrow> (elf32_phdr option \<times> kern) option" where
  "find_dynamic junk n hdr [] k = Some (None, k)"
| "find_dynamic junk n hdr (i # is) k =
     do {
       (ph, k) \<leftarrow> read_phdr junk n hdr i k;
       if p_type ph = PT_DYNAMIC then Some (Some ph, k) else find_dynamic junk n hdr is k
     }"

text \<open>The entries in front of the first \<^verbatim>\<open>DT_NULL\<close>; without one the scan runs out of the buffer.\<close>

partial_function (option) dyn_scan :: "bytes \<Rightarrow> nat \<Rightarrow> (u32 \<times> u32) list option" where
  "dyn_scan b j =
     (if le32 b (8 * j) = 0 then Some []
      else do { rest \<leftarrow> dyn_scan b (Suc j); Some ((le32 b (8 * j), le32 b (8 * j + 4)) # rest) })"

definition dyn_scan_bounded :: "bytes \<Rightarrow> nat \<Rightarrow> (u32 \<times> u32) list" where
  "dyn_scan_bounded b cnt = takeWhile (\<lambda>(t, _). t \<noteq> 0) (map (\<lambda>j. (le32 b (8 * j), le32 b (8 * j + 4))) [0..<cnt])"

record dyn_info =
  di_strtab :: u32
  di_symtab :: u32
  di_rel :: u32
  di_relsz :: u32
  di_jmprel :: u32
  di_jmprelsz :: u32
  di_hash :: u32
  di_needed :: "u32 list"

text \<open>The pointers are 0 as long as their tag has not been seen; \<open>base\<close> is added to what they point to.\<close>

definition dyn_tag :: "u32 \<Rightarrow> u32 \<times> u32 \<Rightarrow> dyn_info \<Rightarrow> dyn_info" where
  "dyn_tag base = (\<lambda>(t, x) d.
     if t = 5 then d\<lparr>di_strtab := x + base\<rparr>
     else if t = 6 then d\<lparr>di_symtab := x + base\<rparr>
     else if t = 17 then d\<lparr>di_rel := x + base\<rparr>
     else if t = 18 then d\<lparr>di_relsz := x\<rparr>
     else if t = 23 then d\<lparr>di_jmprel := x + base\<rparr>
     else if t = 2 then d\<lparr>di_jmprelsz := x\<rparr>
     else if t = 4 then d\<lparr>di_hash := x\<rparr>
     else if t = 1 then (if length (di_needed d) < 16 then d\<lparr>di_needed := di_needed d @ [x]\<rparr> else d)
     else d)"

definition dyn_info_of :: "u32 \<Rightarrow> (u32 \<times> u32) list \<Rightarrow> dyn_info" where
  "dyn_info_of base ts =
     fold (dyn_tag base) ts \<lparr>di_strtab = 0, di_symtab = 0, di_rel = 0, di_relsz = 0, di_jmprel = 0, di_jmprelsz = 0, di_hash = 0, di_needed = []\<rparr>"

definition read_dynamic :: "bytes \<Rightarrow> nat \<Rightarrow> u32 \<Rightarrow> elf32_phdr \<Rightarrow> kern \<Rightarrow> (dyn_info \<times> kern) option" where
  "read_dynamic junk n base ph k =
     do {
       (b, k) \<leftarrow> read_file n (p_offset ph) (p_filesz ph) junk k;
       ts \<leftarrow> dyn_scan b 0;
       Some (dyn_info_of base ts, k)
     }"

text \<open>The number of symbols, the second word of the hash table in the file.\<close>

definition symbol_count :: "bytes \<Rightarrow> nat \<Rightarrow> dyn_info \<Rightarrow> kern \<Rightarrow> (u32 \<times> kern) option" where
  "symbol_count junk n d k =
     (if di_hash d \<noteq> 0 then map_option (\<lambda>(b, k). (le32 b 4, k)) (read_file n (di_hash d) 8 junk k) else Some (0, k))"


section \<open>Symbols in user memory\<close>

definition user_byte :: "vm \<Rightarrow> u32 \<Rightarrow> u8 option" where
  "user_byte v a = (if is_page_mapped v a then Some (kmem v (user_ref v a)) else None)"

text \<open>An entry of the symbol table is read as a whole.\<close>

record elf32_sym =
  st_name :: u32
  st_value :: u32
  st_info :: u8
  st_shndx :: u16

definition read_sym :: "vm \<Rightarrow> u32 \<Rightarrow> u32 \<Rightarrow> elf32_sym option" where
  "read_sym v symtab idx =
     do {
       let a = symtab + 16 * idx;
       nm \<leftarrow> get_user_word a v;
       val \<leftarrow> get_user_word (a + 4) v;
       info \<leftarrow> user_byte v (a + 12);
       lo \<leftarrow> user_byte v (a + 14);
       hi \<leftarrow> user_byte v (a + 15);
       Some \<lparr>st_name = nm, st_value = val, st_info = info, st_shndx = ucast lo OR push_bit 8 (ucast hi)\<rparr>
     }"

text \<open>A relocation entry: the place and the symbol and type packed into one word.\<close>

definition read_rel :: "vm \<Rightarrow> u32 \<Rightarrow> nat \<Rightarrow> (u32 \<times> u32) option" where
  "read_rel v tab j =
     do {
       off \<leftarrow> get_user_word (tab + of_nat (8 * j)) v;
       info \<leftarrow> get_user_word (tab + of_nat (8 * j) + 4) v;
       Some (off, info)
     }"

definition r_sym :: "u32 \<Rightarrow> u32" where "r_sym info = drop_bit 8 info"
definition r_type :: "u32 \<Rightarrow> u32" where "r_type info = info AND 0xFF"

text \<open>\<^verbatim>\<open>strcmp(a, b) == 0\<close> for strings in user memory.\<close>

partial_function (option) user_streq :: "vm \<Rightarrow> u32 \<Rightarrow> u32 \<Rightarrow> bool option" where
  "user_streq v a b =
     do {
       x \<leftarrow> user_byte v a;
       y \<leftarrow> user_byte v b;
       if x \<noteq> y then Some False else if x = 0 then Some True else user_streq v (a + 1) (b + 1)
     }"

type_synonym symbols = "(u32 \<times> u32) list"

fun lookup_symbol :: "vm \<Rightarrow> symbols \<Rightarrow> u32 \<Rightarrow> u32 option option" where
  "lookup_symbol v [] nm = Some None"
| "lookup_symbol v ((p, a) # syms) nm =
     do { eq \<leftarrow> user_streq v p nm; if eq then Some (Some a) else lookup_symbol v syms nm }"

text \<open>One symbol of a library joins the table if it is defined there and visible, and there is room.\<close>

definition export_symbol :: "vm \<Rightarrow> dyn_info \<Rightarrow> u32 \<Rightarrow> nat \<Rightarrow> symbols \<Rightarrow> symbols option" where
  "export_symbol v d base idx syms =
     do {
       sym \<leftarrow> read_sym v (di_symtab d) (of_nat idx);
       let bind = drop_bit 4 (st_info sym);
       if st_shndx sym = 0 then Some syms
       else if bind \<noteq> 1 \<and> bind \<noteq> 2 then Some syms
       else if length syms < 256 then Some (syms @ [(di_strtab d + st_name sym, st_value sym + base)])
       else Some syms
     }"

definition collect_symbols :: "bytes \<Rightarrow> cstring \<Rightarrow> u32 \<Rightarrow> symbols \<times> kern \<Rightarrow> (symbols \<times> kern) option" where
  "collect_symbols junk path base = (\<lambda>(syms, k).
     do {
       (n, k) \<leftarrow> get_node_at path k;
       case n of
         None \<Rightarrow> Some (syms, k)
       | Some n \<Rightarrow>
           do {
             (hdr, k) \<leftarrow> read_ehdr junk n k;
             (ph, k) \<leftarrow> find_dynamic junk n hdr (phdr_indices hdr) k;
             case ph of
               None \<Rightarrow> Some (syms, k)
             | Some ph \<Rightarrow>
                 do {
                   (d, k) \<leftarrow> read_dynamic junk n base ph k;
                   (cnt, k) \<leftarrow> symbol_count junk n d k;
                   if di_symtab d \<noteq> 0 \<and> di_strtab d \<noteq> 0 \<and> 0 < cnt then
                     map_option (\<lambda>syms. (syms, k)) (foldM (export_symbol (hvm (kheap k)) d base) [1..<unat cnt] syms)
                   else Some (syms, k)
                 }
           }
     })"

section \<open>Shared libraries\<close>

text \<open>The lowest address of the image and its end, as the first loop finds them.\<close>

definition library_extent :: "bytes \<Rightarrow> nat \<Rightarrow> elf32_ehdr \<Rightarrow> nat \<Rightarrow> (u32 \<times> u32) \<times> kern \<Rightarrow> ((u32 \<times> u32) \<times> kern) option" where
  "library_extent junk n hdr idx = (\<lambda>((first_vaddr, max_end), k).
     do {
       (ph, k) \<leftarrow> read_phdr junk n hdr idx k;
       if p_type ph = PT_LOAD then
         let e = p_vaddr ph + p_memsz ph
         in Some ((if first_vaddr = - 1 then p_vaddr ph else first_vaddr, if max_end < e then e else max_end), k)
       else Some ((first_vaddr, max_end), k)
     })"

definition load_library_segment :: "bytes \<Rightarrow> nat \<Rightarrow> nat \<Rightarrow> elf32_ehdr \<Rightarrow> u32 \<Rightarrow> nat \<Rightarrow> kern \<Rightarrow> kern option" where
  "load_library_segment junk i n hdr reloc_offset idx k =
     do {
       (ph, k) \<leftarrow> read_phdr junk n hdr idx k;
       if p_type ph = PT_LOAD then place_segment i n (p_vaddr ph + reloc_offset) ph k else Some k
     }"

definition self_jump_slot :: "dyn_info \<Rightarrow> u32 \<Rightarrow> u32 \<Rightarrow> nat \<Rightarrow> vm \<Rightarrow> vm option" where
  "self_jump_slot d base cnt j v =
     do {
       (off, info) \<leftarrow> read_rel v (di_jmprel d) j;
       if r_type info = 7 \<and> r_sym info \<noteq> 0 \<and> r_sym info < cnt then
         do {
           sym \<leftarrow> read_sym v (di_symtab d) (r_sym info);
           if st_shndx sym = 0 then Some v else put_user_word (off + base) (st_value sym + base) v
         }
       else Some v
     }"

definition self_relocation :: "dyn_info \<Rightarrow> u32 \<Rightarrow> u32 \<Rightarrow> nat \<Rightarrow> vm \<Rightarrow> vm option" where
  "self_relocation d base cnt j v =
     do {
       (off, info) \<leftarrow> read_rel v (di_rel d) j;
       let loc = off + base;
       if r_type info = 8 then do { x \<leftarrow> get_user_word loc v; put_user_word loc (x + base) v }
       else if (r_type info = 6 \<or> r_type info = 7) \<and> r_sym info \<noteq> 0 \<and> r_sym info < cnt \<and> di_symtab d \<noteq> 0 \<and> di_strtab d \<noteq> 0 then
         do {
           sym \<leftarrow> read_sym v (di_symtab d) (r_sym info);
           if st_shndx sym \<noteq> 0 then put_user_word loc (st_value sym + base) v else Some v
         }
       else Some v
     }"

definition self_relocate :: "dyn_info \<Rightarrow> u32 \<Rightarrow> u32 \<Rightarrow> vm \<Rightarrow> vm option" where
  "self_relocate d base cnt v =
     do {
       v \<leftarrow> (if di_jmprel d \<noteq> 0 \<and> di_jmprelsz d \<noteq> 0 \<and> di_symtab d \<noteq> 0 \<and> di_strtab d \<noteq> 0 \<and> 0 < cnt
             then foldM (self_jump_slot d base cnt) [0..<unat (di_jmprelsz d div 8)] v else Some v);
       if di_rel d \<noteq> 0 \<and> di_relsz d \<noteq> 0 then foldM (self_relocation d base cnt) [0..<unat (di_relsz d div 8)] v else Some v
     }"

definition load_shared_library :: "bytes \<Rightarrow> nat \<Rightarrow> cstring \<Rightarrow> u32 \<Rightarrow> kern \<Rightarrow> (u32 \<times> kern) option" where
  "load_shared_library junk i path load_addr k =
     do {
       (n, k) \<leftarrow> get_node_at path k;
       case n of
         None \<Rightarrow> Some (0, k)
       | Some n \<Rightarrow>
           if flags (nodes (kfs k) n) AND FS_FILE = 0 then Some (0, k)
           else do {
             (hdr, k) \<leftarrow> read_ehdr junk n k;
             if \<not> elf_check_file hdr \<or> e_type hdr \<noteq> ET_DYN then Some (0, k)
             else do {
               ((first_vaddr, max_end), k) \<leftarrow> foldM (library_extent junk n hdr) (phdr_indices hdr) ((- 1, 0), k);
               k \<leftarrow> foldM (load_library_segment junk i n hdr (load_addr - first_vaddr)) (phdr_indices hdr) k;
               (ph, k) \<leftarrow> find_dynamic junk n hdr (phdr_indices hdr) k;
               k \<leftarrow> (case ph of
                       None \<Rightarrow> Some k
                     | Some ph \<Rightarrow>
                         do {
                           (d, k) \<leftarrow> read_dynamic junk n load_addr ph k;
                           (cnt, k) \<leftarrow> symbol_count junk n d k;
                           v \<leftarrow> self_relocate d load_addr cnt (hvm (kheap k));
                           Some (upd_vm (\<lambda>_. v) k)
                         });
               Some (load_addr + (max_end - first_vaddr), k)
             }
           }
     }"


section \<open>Linking the program\<close>

text \<open>\<^verbatim>\<open>while (*s && pi < 254)\<close>: the character is read before the bound is looked at.\<close>

fun user_chars :: "vm \<Rightarrow> u32 \<Rightarrow> nat \<Rightarrow> cstring option" where
  "user_chars v a 0 = map_option (\<lambda>_. []) (user_byte v a)"
| "user_chars v a (Suc n) =
     do { c \<leftarrow> user_byte v a; if c = 0 then Some [] else map_option (Cons c) (user_chars v (a + 1) n) }"

definition lib_path :: "cstring \<Rightarrow> cstring" where
  "lib_path nm = [0x2F, 0x6C, 0x69, 0x62, 0x2F] @ nm"

text \<open>The symbol table, the loaded libraries with their addresses, and the next free address.\<close>

type_synonym linker = "symbols \<times> (cstring \<times> u32) list \<times> u32"

definition load_needed :: "bytes \<Rightarrow> nat \<Rightarrow> u32 \<Rightarrow> u32 \<Rightarrow> linker \<times> kern \<Rightarrow> (linker \<times> kern) option" where
  "load_needed junk i strtab nd = (\<lambda>((syms, libs, lib_base), k).
     do {
       nm \<leftarrow> user_chars (hvm (kheap k)) (strtab + nd) 249;
       (lib_top, k) \<leftarrow> load_shared_library junk i (lib_path nm) lib_base k;
       if lib_top = 0 then Some ((syms, libs, lib_base), k)
       else do {
         let libs = (if length libs < 16 then libs @ [(lib_path nm, lib_base)] else libs);
         (syms, k) \<leftarrow> collect_symbols junk (lib_path nm) lib_base (syms, k);
         Some ((syms, libs, (lib_top + 0xFFF) AND NOT 0xFFF), k)
       }
     })"

definition libc_path :: cstring where
  "libc_path = lib_path [0x6C, 0x69, 0x62, 0x63, 0x2E, 0x73, 0x6F]"

definition load_default :: "bytes \<Rightarrow> nat \<Rightarrow> linker \<times> kern \<Rightarrow> (linker \<times> kern) option" where
  "load_default junk i = (\<lambda>((syms, libs, next), k).
     do {
       (lib_base, k) \<leftarrow> load_shared_library junk i libc_path SHLIB_BASE k;
       if lib_base \<noteq> 0 then
         do {
           (syms, k) \<leftarrow> collect_symbols junk libc_path lib_base (syms, k);
           Some ((syms, libs, next), k)
         }
       else Some ((syms, libs, next), k)
     })"

definition cross_slot :: "dyn_info \<Rightarrow> u32 \<Rightarrow> symbols \<Rightarrow> nat \<Rightarrow> vm \<Rightarrow> vm option" where
  "cross_slot d base syms j v =
     do {
       (off, info) \<leftarrow> read_rel v (di_jmprel d) j;
       if r_type info \<noteq> 7 \<or> r_sym info = 0 then Some v
       else do {
         sym \<leftarrow> read_sym v (di_symtab d) (r_sym info);
         a \<leftarrow> lookup_symbol v syms (di_strtab d + st_name sym);
         case a of None \<Rightarrow> Some v | Some a \<Rightarrow> put_user_word (off + base) a v
       }
     }"

definition cross_link :: "bytes \<Rightarrow> symbols \<Rightarrow> cstring \<times> u32 \<Rightarrow> kern \<Rightarrow> kern option" where
  "cross_link junk syms = (\<lambda>(path, base) k.
     do {
       (n, k) \<leftarrow> get_node_at path k;
       case n of
         None \<Rightarrow> Some k
       | Some n \<Rightarrow>
           do {
             (hdr, k) \<leftarrow> read_ehdr junk n k;
             (ph, k) \<leftarrow> find_dynamic junk n hdr (phdr_indices hdr) k;
             case ph of
               None \<Rightarrow> Some k
             | Some ph \<Rightarrow>
                 do {
                   (b, k) \<leftarrow> read_file n (p_offset ph) (p_filesz ph) junk k;
                   let d = dyn_info_of base (dyn_scan_bounded b (unat (p_filesz ph div 8)));
                   if di_jmprel d \<noteq> 0 \<and> di_jmprelsz d \<noteq> 0 \<and> di_symtab d \<noteq> 0 \<and> di_strtab d \<noteq> 0 then
                     do {
                       v \<leftarrow> foldM (cross_slot d base syms) [0..<unat (di_jmprelsz d div 8)] (hvm (kheap k));
                       Some (upd_vm (\<lambda>_. v) k)
                     }
                   else Some k
                 }
           }
     })"

text \<open>One entry of the program's relocation table.\<close>

definition app_relocation :: "dyn_info \<Rightarrow> symbols \<Rightarrow> nat \<Rightarrow> vm \<Rightarrow> vm option" where
  "app_relocation d syms j v =
     do {
       (loc, info) \<leftarrow> read_rel v (di_rel d) j;
       let known = (di_symtab d \<noteq> 0 \<and> di_strtab d \<noteq> 0 \<and> r_sym info \<noteq> 0);
       if r_type info = 8 then do { x \<leftarrow> get_user_word loc v; put_user_word loc x v }
       else if (r_type info = 1 \<or> r_type info = 2 \<or> r_type info = 6 \<or> r_type info = 7) \<and> known then
         do {
           sym \<leftarrow> read_sym v (di_symtab d) (r_sym info);
           a \<leftarrow> lookup_symbol v syms (di_strtab d + st_name sym);
           if r_type info = 1 then put_user_word loc (case a of None \<Rightarrow> st_value sym | Some a \<Rightarrow> a) v
           else if r_type info = 2 then
             do { x \<leftarrow> get_user_word loc v; put_user_word loc ((case a of None \<Rightarrow> st_value sym | Some a \<Rightarrow> a) + x - loc) v }
           else (case a of None \<Rightarrow> Some v | Some a \<Rightarrow> if a \<noteq> 0 then put_user_word loc a v else Some v)
         }
       else Some v
     }"

definition app_jump_slot :: "dyn_info \<Rightarrow> symbols \<Rightarrow> nat \<Rightarrow> vm \<Rightarrow> vm option" where
  "app_jump_slot d syms j v =
     do {
       (loc, info) \<leftarrow> read_rel v (di_jmprel d) j;
       if r_type info = 7 \<and> di_symtab d \<noteq> 0 \<and> di_strtab d \<noteq> 0 \<and> r_sym info \<noteq> 0 then
         do {
           sym \<leftarrow> read_sym v (di_symtab d) (r_sym info);
           a \<leftarrow> lookup_symbol v syms (di_strtab d + st_name sym);
           case a of None \<Rightarrow> Some v | Some a \<Rightarrow> if a \<noteq> 0 then put_user_word loc a v else Some v
         }
       else Some v
     }"

definition link_app :: "dyn_info \<Rightarrow> symbols \<Rightarrow> vm \<Rightarrow> vm option" where
  "link_app d syms v =
     do {
       v \<leftarrow> (if di_rel d \<noteq> 0 \<and> di_relsz d \<noteq> 0 then foldM (app_relocation d syms) [0..<unat (di_relsz d div 8)] v else Some v);
       if di_jmprel d \<noteq> 0 \<and> di_jmprelsz d \<noteq> 0 then foldM (app_jump_slot d syms) [0..<unat (di_jmprelsz d div 8)] v else Some v
     }"

definition link_dynamic :: "bytes \<Rightarrow> nat \<Rightarrow> nat \<Rightarrow> elf32_ehdr \<Rightarrow> kern \<Rightarrow> kern option" where
  "link_dynamic junk i n hdr k =
     do {
       (ph, k) \<leftarrow> find_dynamic junk n hdr (phdr_indices hdr) k;
       case ph of
         None \<Rightarrow> Some k
       | Some ph \<Rightarrow>
           do {
             (d, k) \<leftarrow> read_dynamic junk n 0 ph k;
             let start = (([], [], SHLIB_BASE) :: linker, k);
             ((syms, libs, _), k) \<leftarrow> (if di_needed d = [] then load_default junk i start else foldM (load_needed junk i (di_strtab d)) (di_needed d) start);
             k \<leftarrow> foldM (cross_link junk syms) libs k;
             v \<leftarrow> link_app d syms (hvm (kheap k));
             Some (upd_vm (\<lambda>_. v) k)
           }
     }"

section \<open>Loading a program\<close>

definition USER_STACK_PAGES :: u32 where "USER_STACK_PAGES = 4"

definition ALIGN_PAGE_UPWARDS :: "u32 \<Rightarrow> u32" where
  "ALIGN_PAGE_UPWARDS x = (x + BLOCK_SIZE - 1) AND NOT (BLOCK_SIZE - 1)"

definition start_frame :: "u32 \<Rightarrow> u32 \<Rightarrow> iret_frame" where
  "start_frame entry esp = \<lparr>i_eip = entry, i_cs = 0x1B, i_eflags = 0x202, i_esp = esp, i_ss = 0x23\<rparr>"

text \<open>The stack, one page of heap behind the last segment, and the registers of the first run.\<close>

definition finish_load :: "nat \<Rightarrow> elf32_ehdr \<Rightarrow> u32 \<Rightarrow> kern \<Rightarrow> kern option" where
  "finish_load i hdr max_proc_end k =
     do {
       let stack_size = USER_STACK_PAGES * BLOCK_SIZE;
       k \<leftarrow> passed (alloc_mem_area i (USER_STACK_TOP - stack_size) stack_size (VMA_READ OR VMA_WRITE OR VMA_STACK OR VMA_USER) k);
       k \<leftarrow> passed (alloc_mem_area i (ALIGN_PAGE_UPWARDS max_proc_end) BLOCK_SIZE (VMA_READ OR VMA_WRITE OR VMA_HEAP OR VMA_USER) k);
       let esp = USER_STACK_TOP - 16;
       let k = upd i (\<lambda>p. p\<lparr>pregs := (pregs p)\<lparr>r_eip := e_entry hdr, r_esp := esp\<rparr>, pstate := NEW\<rparr>) k;
       Some (k\<lparr>iframes := (iframes k)(kernel_stack_top (procs k i) := start_frame (e_entry hdr) esp)\<rparr>)
     }"

definition load_elf :: "bytes \<Rightarrow> nat \<Rightarrow> cstring \<Rightarrow> kern \<Rightarrow> (int \<times> kern) option" where
  "load_elf junk i path k =
     do {
       (n, k) \<leftarrow> get_node_at path k;
       case n of
         None \<Rightarrow> Some (- 1, k)
       | Some n \<Rightarrow>
           if flags (nodes (kfs k) n) AND FS_FILE = 0 then Some (- 1, k)
           else do {
             (hdr, k) \<leftarrow> read_ehdr junk n k;
             if \<not> elf_check_file hdr then Some (- 2, k)
             else if \<not> elf_check_supported hdr then Some (- 3, k)
             else do {
               (max_proc_end, k) \<leftarrow> foldM (load_app_segment junk i n hdr) (phdr_indices hdr) (0, k);
               k \<leftarrow> (if e_type hdr = ET_DYN then link_dynamic junk i n hdr k else Some k);
               k \<leftarrow> finish_load i hdr max_proc_end k;
               Some (0, k)
             }
           }
     }"


section \<open>What loading changes\<close>

text \<open>
  Loading for process \<open>i\<close> adds regions that are apart from the others, and changes nothing else in the
  process table.
\<close>

definition loads :: "nat \<Rightarrow> kern \<Rightarrow> kern \<Rightarrow> bool" where
  "loads i k k' \<longleftrightarrow> (\<forall>j. j \<noteq> i \<longrightarrow> procs k' j = procs k j) \<and>
     (\<exists>rs. procs k' i = (procs k i)\<lparr>memory_regions := memory_regions (procs k i) @ rs\<rparr>) \<and>
     (apart_regions (memory_regions (procs k i)) \<longrightarrow> apart_regions (memory_regions (procs k' i))) \<and>
     iframes k' = iframes k \<and> frames k' = frames k \<and> current_process k' = current_process k \<and> num_processes k' = num_processes k"

lemma loads_trans: "loads i k k1 \<Longrightarrow> loads i k1 k2 \<Longrightarrow> loads i k k2"
  unfolding loads_def by (elim conjE exE) (intro conjI, auto)

lemma loads_same:
  "procs k' = procs k \<Longrightarrow> iframes k' = iframes k \<Longrightarrow> frames k' = frames k \<Longrightarrow> current_process k' = current_process k \<Longrightarrow>
     num_processes k' = num_processes k \<Longrightarrow> loads i k k'"
  unfolding loads_def by (auto intro!: exI [of _ "[]"])

lemma loads_refl [simp]: "loads i k k" by (rule loads_same) simp_all

lemma loads_kfs [simp]: "loads i k (k\<lparr>kfs := s\<rparr>)" by (rule loads_same) simp_all

lemma loads_vm [simp]: "loads i k (upd_vm f k)" by (rule loads_same) (simp_all add: upd_vm_def)

lemma loads_area: "alloc_mem_area i start sz fl k = Passed k' \<Longrightarrow> loads i k k'"
  unfolding loads_def alloc_mem_area_def
  by (auto simp: Let_def upd_def upd_vm_def apart_def split: if_splits prod.splits intro!: apart_add) blast

lemma loads_passed: "passed (alloc_mem_area i start sz fl k) = Some k' \<Longrightarrow> loads i k k'"
  using loads_area by (auto simp: passed_def split: checked.splits)

named_theorems loading

lemma loads_foldM:
  assumes "\<And>x s s'. f x s = Some s' \<Longrightarrow> loads i (g s) (g s')" and "foldM f xs s = Some s'"
  shows "loads i (g s) (g s')"
  using assms(2) by (induction xs arbitrary: s) (auto simp: bind_eq_Some_conv intro: loads_trans [OF assms(1)])

lemma read_file_loads [loading]: "read_file n off sz b k = Some (b', k') \<Longrightarrow> loads i k k'"
  by (auto simp: read_file_def split: outcome.splits option.splits prod.splits)

lemma read_ehdr_loads [loading]: "read_ehdr junk n k = Some (h, k') \<Longrightarrow> loads i k k'"
  by (auto simp: read_ehdr_def intro: read_file_loads)

lemma read_phdr_loads [loading]: "read_phdr junk n hdr idx k = Some (ph, k') \<Longrightarrow> loads i k k'"
  by (auto simp: read_phdr_def intro: read_file_loads)

lemma get_node_at_loads [loading]: "get_node_at path k = Some (n, k') \<Longrightarrow> loads i k k'"
  by (auto simp: get_node_at_def)

lemma deliver_loads: "deliver_bytes a bs k = Some k' \<Longrightarrow> loads i k k'"
  by (auto simp: deliver_bytes_def split: if_splits)

lemma read_node_loads: "read_node n a sz u k = Some (Done x k') \<Longrightarrow> loads i k k'"
  by (auto simp: read_node_def Let_def set_node_def split: option.splits outcome.splits prod.splits fnptr.splits if_splits
      dest!: deliver_loads [of _ _ _ _ i] elim!: loads_trans [rotated] intro!: loads_same)


lemma read_to_user_loads: "read_to_user n off sz a k = Some k' \<Longrightarrow> loads i k k'"
  by (auto simp: read_to_user_def split: outcome.splits option.splits sysres.splits intro: loads_trans [OF loads_kfs] dest!: read_node_loads)

lemma place_segment_loads [loading]:
  assumes "place_segment i n a ph k = Some k'"
  shows "loads i k k'"
proof -
  obtain k1 k2 where "passed (alloc_mem_area i a (p_memsz ph) (segment_flags ph) k) = Some k1"
    "read_to_user n (p_offset ph) (p_filesz ph) a k1 = Some k2"
    "(if p_filesz ph < p_memsz ph then zero_user (a + p_filesz ph) (p_memsz ph - p_filesz ph) k2 else Some k2) = Some k'"
    using assms by (auto simp: place_segment_def bind_eq_Some_conv)
  then have "loads i k k1" "loads i k1 k2" "loads i k2 k'"
    using loads_passed read_to_user_loads deliver_loads by (auto simp: zero_user_def split: if_splits)
  then show ?thesis using loads_trans by blast
qed

lemma find_dynamic_loads [loading]: "find_dynamic junk n hdr is k = Some (ph, k') \<Longrightarrow> loads i k k'"
  by (induction "is" arbitrary: k) (auto simp: bind_eq_Some_conv split: if_splits intro: loads_trans read_phdr_loads)

lemma read_dynamic_loads [loading]: "read_dynamic junk n base ph k = Some (d, k') \<Longrightarrow> loads i k k'"
  by (auto simp: read_dynamic_def bind_eq_Some_conv intro: read_file_loads)

lemma symbol_count_loads [loading]: "symbol_count junk n d k = Some (c, k') \<Longrightarrow> loads i k k'"
  by (auto simp: symbol_count_def split: if_splits intro: read_file_loads)

lemma load_app_segment_loads:
  "load_app_segment junk i n hdr idx s = Some s' \<Longrightarrow> loads i (snd s) (snd s')"
proof -
  assume a: "load_app_segment junk i n hdr idx s = Some s'"
  obtain e k where s: "s = (e, k)" by force
  obtain ph k1 where "read_phdr junk n hdr idx k = Some (ph, k1)" "p_type ph \<noteq> PT_LOAD \<and> snd s' = k1 \<or> place_segment i n (p_vaddr ph) ph k1 = Some (snd s')"
    using a by (auto simp: s load_app_segment_def bind_eq_Some_conv Let_def split: if_splits)
  then show ?thesis using read_phdr_loads place_segment_loads loads_trans by (metis s snd_conv)
qed

lemma load_library_segment_loads: "load_library_segment junk i n hdr off idx k = Some k' \<Longrightarrow> loads i k k'"
  by (auto simp: load_library_segment_def bind_eq_Some_conv split: if_splits intro: loads_trans loading)

lemma library_extent_loads: "library_extent junk n hdr idx s = Some s' \<Longrightarrow> loads i (snd s) (snd s')"
proof -
  assume a: "library_extent junk n hdr idx s = Some s'"
  obtain f e k where s: "s = ((f, e), k)" by (metis prod_cases3 surj_pair)
  then obtain ph k1 where "read_phdr junk n hdr idx k = Some (ph, k1)" using a by (auto simp: library_extent_def bind_eq_Some_conv)
  moreover from this have "snd s' = k1" using a by (cases "p_type ph = PT_LOAD") (simp_all add: s library_extent_def Let_def prod_eq_iff)
  ultimately show ?thesis using read_phdr_loads s by auto
qed

lemma collect_symbols_loads [loading]:
  assumes "collect_symbols junk path base (syms, k) = Some (syms', k')"
  shows "loads i k k'"
proof -
  obtain n k1 where n: "get_node_at path k = Some (n, k1)" using assms by (auto simp: collect_symbols_def bind_eq_Some_conv)
  show ?thesis
  proof (cases n)
    case None
    then show ?thesis using assms n get_node_at_loads by (auto simp: collect_symbols_def)
  next
    case (Some m)
    obtain hdr k2 ph k3 where h: "read_ehdr junk m k1 = Some (hdr, k2)" "find_dynamic junk m hdr (phdr_indices hdr) k2 = Some (ph, k3)"
      using assms n Some by (auto simp: collect_symbols_def bind_eq_Some_conv)
    have k3: "loads i k k3" using n h get_node_at_loads read_ehdr_loads find_dynamic_loads loads_trans by metis
    show ?thesis
    proof (cases ph)
      case None
      then show ?thesis using assms n h Some k3 by (auto simp: collect_symbols_def)
    next
      case (Some q)
      then show ?thesis
        using assms n h \<open>n = Some m\<close> unfolding collect_symbols_def
        by (auto simp: bind_eq_Some_conv split: if_splits intro: loads_trans [OF k3] loads_trans [OF read_dynamic_loads symbol_count_loads])
    qed
  qed
qed

lemma load_shared_library_loads [loading]:
  assumes "load_shared_library junk i path a k = Some (lt, k')"
  shows "loads i k k'"
proof -
  obtain n k1 where n: "get_node_at path k = Some (n, k1)" using assms by (auto simp: load_shared_library_def bind_eq_Some_conv)
  then have k1: "loads i k k1" by (rule get_node_at_loads)
  show ?thesis
  proof (cases "n = None \<or> flags (nodes (kfs k1) (the n)) AND FS_FILE = 0")
    case True
    then show ?thesis using assms n k1 by (auto simp: load_shared_library_def split: option.splits)
  next
    case False
    then obtain m where m: "n = Some m" "flags (nodes (kfs k1) m) AND FS_FILE \<noteq> 0" by auto
    obtain hdr k2 where h: "read_ehdr junk m k1 = Some (hdr, k2)"
      using assms n m by (auto simp: load_shared_library_def bind_eq_Some_conv)
    have k2: "loads i k k2" using loads_trans [OF k1 read_ehdr_loads [OF h]] .
    show ?thesis
    proof (cases "\<not> elf_check_file hdr \<or> e_type hdr \<noteq> ET_DYN")
      case True
      then show ?thesis using assms n m h k2 by (auto simp: load_shared_library_def)
    next
      case False
      then obtain f e k3 k4 ph k5 k6 where s: "foldM (library_extent junk m hdr) (phdr_indices hdr) ((- 1, 0), k2) = Some ((f, e), k3)"
        "foldM (load_library_segment junk i m hdr (a - f)) (phdr_indices hdr) k3 = Some k4"
        "find_dynamic junk m hdr (phdr_indices hdr) k4 = Some (ph, k5)"
        "(case ph of None \<Rightarrow> Some k5 | Some ph \<Rightarrow>
            do { (d, k) \<leftarrow> read_dynamic junk m a ph k5; (cnt, k) \<leftarrow> symbol_count junk m d k;
                 v \<leftarrow> self_relocate d a cnt (hvm (kheap k)); Some (upd_vm (\<lambda>_. v) k) }) = Some k6" "k' = k6"
        using assms n m h by (auto simp: load_shared_library_def bind_eq_Some_conv)
      have "loads i k2 k3" using loads_foldM [of "library_extent junk m hdr" i snd, OF library_extent_loads s(1)] by simp
      moreover have "loads i k3 k4" using loads_foldM [of "load_library_segment junk i m hdr (a - f)" i "\<lambda>k. k", OF load_library_segment_loads s(2)] .
      moreover have "loads i k4 k5" using s(3) by (rule find_dynamic_loads)
      moreover have "loads i k5 k6"
        using s(4) by (auto simp: bind_eq_Some_conv split: option.splits
            intro: loads_trans [OF read_dynamic_loads loads_trans [OF symbol_count_loads loads_vm]])
      ultimately show ?thesis using k2 s(5) loads_trans by metis
    qed
  qed
qed


lemma load_needed_loads: "load_needed junk i strtab nd s = Some s' \<Longrightarrow> loads i (snd s) (snd s')"
proof -
  assume a: "load_needed junk i strtab nd s = Some s'"
  obtain syms libs b k where s: "s = ((syms, libs, b), k)" by (cases s) auto
  obtain nm top k1 where l: "load_shared_library junk i (lib_path nm) b k = Some (top, k1)"
    "snd s' = k1 \<or> (\<exists>syms'. collect_symbols junk (lib_path nm) b (syms, k1) = Some (syms', snd s'))"
    using a by (auto simp: s load_needed_def bind_eq_Some_conv Let_def split: if_splits)
  note k1 = load_shared_library_loads [OF l(1)]
  show ?thesis using l(2) k1 loads_trans [OF k1 collect_symbols_loads] unfolding s snd_conv by blast
qed

lemma load_default_loads: "load_default junk i s = Some s' \<Longrightarrow> loads i (snd s) (snd s')"
proof -
  assume a: "load_default junk i s = Some s'"
  obtain syms libs b k where s: "s = ((syms, libs, b), k)" by (cases s) auto
  obtain top k1 where l: "load_shared_library junk i libc_path SHLIB_BASE k = Some (top, k1)"
    "snd s' = k1 \<or> (\<exists>syms'. collect_symbols junk libc_path top (syms, k1) = Some (syms', snd s'))"
    using a by (auto simp: s load_default_def bind_eq_Some_conv split: if_splits)
  note k1 = load_shared_library_loads [OF l(1)]
  show ?thesis using l(2) k1 loads_trans [OF k1 collect_symbols_loads] unfolding s snd_conv by blast
qed

lemma cross_link_loads: "cross_link junk syms lib k = Some k' \<Longrightarrow> loads i k k'"
proof -
  assume a: "cross_link junk syms lib k = Some k'"
  obtain path base where lib: "lib = (path, base)" by force
  obtain n k1 where n: "get_node_at path k = Some (n, k1)" using a by (auto simp: lib cross_link_def bind_eq_Some_conv)
  show ?thesis
  proof (cases n)
    case None
    then show ?thesis using a n get_node_at_loads by (auto simp: lib cross_link_def)
  next
    case (Some m)
    obtain hdr k2 ph k3 where h: "read_ehdr junk m k1 = Some (hdr, k2)" "find_dynamic junk m hdr (phdr_indices hdr) k2 = Some (ph, k3)"
      using a n Some by (auto simp: lib cross_link_def bind_eq_Some_conv)
    have k3: "loads i k k3" using n h get_node_at_loads read_ehdr_loads find_dynamic_loads loads_trans by metis
    show ?thesis
    proof (cases ph)
      case None
      then show ?thesis using a n h Some k3 by (auto simp: lib cross_link_def)
    next
      case (Some q)
      obtain b k4 where b: "read_file m (p_offset q) (p_filesz q) junk k3 = Some (b, k4)" "k' = k4 \<or> (\<exists>v. k' = upd_vm (\<lambda>_. v) k4)"
        using a n h \<open>n = Some m\<close> Some by (auto simp: lib cross_link_def bind_eq_Some_conv Let_def split: if_splits)
      then show ?thesis using loads_trans [OF k3 loads_trans [OF read_file_loads]] by auto
    qed
  qed
qed

lemma link_dynamic_loads [loading]:
  assumes "link_dynamic junk i n hdr k = Some k'"
  shows "loads i k k'"
proof -
  obtain ph k1 where p: "find_dynamic junk n hdr (phdr_indices hdr) k = Some (ph, k1)"
    using assms by (auto simp: link_dynamic_def bind_eq_Some_conv)
  then have k1: "loads i k k1" by (rule find_dynamic_loads)
  show ?thesis
  proof (cases ph)
    case None
    then show ?thesis using assms p k1 by (simp add: link_dynamic_def)
  next
    case (Some q)
    then obtain d k2 l k3 k4 v where s: "read_dynamic junk n 0 q k1 = Some (d, k2)"
      "(if di_needed d = [] then load_default junk i (([], [], SHLIB_BASE), k2)
        else foldM (load_needed junk i (di_strtab d)) (di_needed d) (([], [], SHLIB_BASE), k2)) = Some (l, k3)"
      "foldM (cross_link junk (fst l)) (fst (snd l)) k3 = Some k4" "k' = upd_vm (\<lambda>_. v) k4"
      using assms p by (auto simp: link_dynamic_def bind_eq_Some_conv Let_def split: prod.splits)
    have "loads i k1 k2" using s(1) by (rule read_dynamic_loads)
    moreover have "loads i k2 k3"
    proof (cases "di_needed d = []")
      case True
      then show ?thesis using s(2) load_default_loads [of junk i "(([], [], SHLIB_BASE), k2)" "(l, k3)"] by simp
    next
      case False
      then have f: "foldM (load_needed junk i (di_strtab d)) (di_needed d) (([], [], SHLIB_BASE), k2) = Some (l, k3)" using s(2) by simp
      show ?thesis using loads_foldM [of "load_needed junk i (di_strtab d)" i snd, OF load_needed_loads f] by simp
    qed
    moreover have "loads i k3 k4" using loads_foldM [of "cross_link junk (fst l)" i "\<lambda>k. k", OF cross_link_loads s(3)] .
    moreover have "loads i k4 k'" by (simp add: s(4))
    ultimately show ?thesis using k1 loads_trans by metis
  qed
qed

lemma area_regions:
  assumes "passed (alloc_mem_area i start sz fl k) = Some k'"
  shows "memory_regions (procs k' i) = memory_regions (procs k i) @
      [\<lparr>vstart = ALIGN_PAGE start, vend = ALIGN_PAGE (ALIGN_PAGE start + sz + BLOCK_SIZE - 1), vflags = fl\<rparr>]"
  using assms
  by (auto simp: passed_def alloc_mem_area_def Let_def upd_def upd_vm_def split: checked.splits if_splits prod.splits)

lemma loads_fields:
  assumes "loads i k k'"
  shows "\<exists>rs. memory_regions (procs k' i) = memory_regions (procs k i) @ rs" "kernel_stack_top (procs k' i) = kernel_stack_top (procs k i)"
    "j \<noteq> i \<Longrightarrow> procs k' j = procs k j" "apart_regions (memory_regions (procs k i)) \<Longrightarrow> apart_regions (memory_regions (procs k' i))"
  using assms unfolding loads_def by auto

lemma finish_load_effect:
  assumes "finish_load i hdr me k = Some k'"
  shows "pstate (procs k' i) = NEW" "r_eip (pregs (procs k' i)) = e_entry hdr" "r_esp (pregs (procs k' i)) = 0x9FFFFFF0"
    "iframes k' (kernel_stack_top (procs k i)) = \<lparr>i_eip = e_entry hdr, i_cs = 0x1B, i_eflags = 0x202, i_esp = 0x9FFFFFF0, i_ss = 0x23\<rparr>"
    "\<exists>h. memory_regions (procs k' i) = memory_regions (procs k i) @ [\<lparr>vstart = 0x9FFFC000, vend = 0xA0000000, vflags = 0x10B\<rparr>, h] \<and> vflags h = 0x113"
    "apart_regions (memory_regions (procs k i)) \<Longrightarrow> apart_regions (memory_regions (procs k' i))" "j \<noteq> i \<Longrightarrow> procs k' j = procs k j"
    "kernel_stack_top (procs k' i) = kernel_stack_top (procs k i)" "current_process k' = current_process k"
    "num_processes k' = num_processes k"
proof -
  obtain k1 k2 where a: "passed (alloc_mem_area i (USER_STACK_TOP - USER_STACK_PAGES * BLOCK_SIZE) (USER_STACK_PAGES * BLOCK_SIZE)
      (VMA_READ OR VMA_WRITE OR VMA_STACK OR VMA_USER) k) = Some k1"
    "passed (alloc_mem_area i (ALIGN_PAGE_UPWARDS me) BLOCK_SIZE (VMA_READ OR VMA_WRITE OR VMA_HEAP OR VMA_USER) k1) = Some k2"
    and k': "k' = (upd i (\<lambda>p. p\<lparr>pregs := (pregs p)\<lparr>r_eip := e_entry hdr, r_esp := USER_STACK_TOP - 16\<rparr>, pstate := NEW\<rparr>) k2)
      \<lparr>iframes := (iframes k2)(kernel_stack_top (procs k2 i) := start_frame (e_entry hdr) (USER_STACK_TOP - 16))\<rparr>"
    using assms by (auto simp: finish_load_def bind_eq_Some_conv Let_def upd_def)
  note l = loads_trans [OF loads_passed [OF a(1)] loads_passed [OF a(2)]]
  note lf = loads_fields [OF l]
  have t: "kernel_stack_top (procs k2 i) = kernel_stack_top (procs k i)" by (rule lf(2))
  show "pstate (procs k' i) = NEW" "r_eip (pregs (procs k' i)) = e_entry hdr" "r_esp (pregs (procs k' i)) = 0x9FFFFFF0"
    "iframes k' (kernel_stack_top (procs k i)) = \<lparr>i_eip = e_entry hdr, i_cs = 0x1B, i_eflags = 0x202, i_esp = 0x9FFFFFF0, i_ss = 0x23\<rparr>"
    "apart_regions (memory_regions (procs k i)) \<Longrightarrow> apart_regions (memory_regions (procs k' i))" "j \<noteq> i \<Longrightarrow> procs k' j = procs k j"
    "kernel_stack_top (procs k' i) = kernel_stack_top (procs k i)" "current_process k' = current_process k"
    "num_processes k' = num_processes k"
    using lf(3,4) t l by (simp_all add: k' upd_def start_frame_def USER_STACK_TOP_def loads_def)
  have "VMA_READ OR VMA_WRITE OR VMA_STACK OR VMA_USER = 0x10B" "VMA_READ OR VMA_WRITE OR VMA_HEAP OR VMA_USER = 0x113"
    by (simp_all add: VMA_READ_def VMA_WRITE_def VMA_STACK_def VMA_USER_def VMA_HEAP_def)
  then show "\<exists>h. memory_regions (procs k' i) = memory_regions (procs k i) @ [\<lparr>vstart = 0x9FFFC000, vend = 0xA0000000, vflags = 0x10B\<rparr>, h] \<and> vflags h = 0x113"
    using area_regions [OF a(1)] area_regions [OF a(2)]
    by (simp add: k' upd_def ALIGN_PAGE_def USER_STACK_TOP_def USER_STACK_PAGES_def BLOCK_SIZE_def)
qed

lemma read_only_kfs:
  "get_node_at path k = Some (n, k') \<Longrightarrow> procs k' = procs k \<and> kheap k' = kheap k"
  "read_ehdr junk m k = Some (hdr, k') \<Longrightarrow> procs k' = procs k \<and> kheap k' = kheap k"
  by (auto simp: get_node_at_def read_ehdr_def read_file_def split: outcome.splits option.splits prod.splits)

text \<open>The two ways a load ends.\<close>

lemma load_elf_cases:
  assumes "load_elf junk i path k = Some (e, k')"
  shows "(e = - 1 \<or> e = - 2 \<or> e = - 3) \<and> loads i k k' \<and> procs k' = procs k \<and> kheap k' = kheap k \<or>
    (\<exists>hdr me k1. e = 0 \<and> elf_check_supported hdr \<and> loads i k k1 \<and> finish_load i hdr me k1 = Some k')"
proof -
  obtain n k1 where n: "get_node_at path k = Some (n, k1)" using assms by (auto simp: load_elf_def bind_eq_Some_conv)
  note k1 = read_only_kfs(1) [OF n]
  show ?thesis
  proof (cases "n = None \<or> flags (nodes (kfs k1) (the n)) AND FS_FILE = 0")
    case True
    then have "e = - 1" "k' = k1" using assms n by (auto simp: load_elf_def split: option.splits)
    then show ?thesis using k1 get_node_at_loads [OF n] by simp
  next
    case False
    then obtain m where m: "n = Some m" "flags (nodes (kfs k1) m) AND FS_FILE \<noteq> 0" by auto
    obtain hdr k2 where h: "read_ehdr junk m k1 = Some (hdr, k2)" using assms n m by (auto simp: load_elf_def bind_eq_Some_conv)
    note k2 = read_only_kfs(2) [OF h]
    show ?thesis
    proof (cases "elf_check_supported hdr")
      case False
      then have "(e = - 2 \<or> e = - 3) \<and> k' = k2" using assms n m h by (auto simp: load_elf_def split: if_splits)
      moreover have "loads i k k2" using loads_trans [OF get_node_at_loads [OF n] read_ehdr_loads [OF h]] .
      ultimately show ?thesis using k1 k2 by auto
    next
      case True
      then have "elf_check_file hdr" by (simp add: elf_check_supported_def)
      then obtain me k3 k4 where s: "foldM (load_app_segment junk i m hdr) (phdr_indices hdr) (0, k2) = Some (me, k3)"
        "(if e_type hdr = ET_DYN then link_dynamic junk i m hdr k3 else Some k3) = Some k4" "finish_load i hdr me k4 = Some k'" "e = 0"
        using assms n m h True by (auto simp: load_elf_def bind_eq_Some_conv)
      have "loads i k2 k3" using loads_foldM [of "load_app_segment junk i m hdr" i snd, OF load_app_segment_loads s(1)] by simp
      moreover have "loads i k3 k4" using s(2) link_dynamic_loads by (auto split: if_splits)
      ultimately have "loads i k k4" using loads_trans get_node_at_loads [OF n] read_ehdr_loads [OF h] by metis
      then show ?thesis using True s(3,4) by blast
    qed
  qed
qed

section \<open>Properties\<close>


text \<open>A machine with the frames 32 to 63 free and, as the file \<^verbatim>\<open>/mnt\<close>, a program that is only a header.\<close>

definition demo_frames :: phys where
  "demo_frames = \<lparr>bitmap_ptr = 0, mem_bitmap = (\<lambda>i. if i = 1 then - 1 else 0), ref_counts = (\<lambda>_. 0), oob = False\<rparr>"

definition demo_image :: "u32 \<Rightarrow> u8" where
  "demo_image a = (if a < 28 then [0x7F, 0x45, 0x4C, 0x46, 1, 1, 1, 0, 0, 0, 0, 0, 0, 0, 0, 0, 2, 0, 3, 0, 1, 0, 0, 0, 0, 0x80, 4, 8] ! unat a else 0)"

definition demo_program :: fs_node where
  "demo_program = zero_node\<lparr>flags := FS_FILE, nsize := 52, nread := InitrdFn, nseek := InitrdFn, impl := 0, seek_offset := 0\<rparr>"

definition demo_disk :: fsys where
  "demo_disk = demo_fsys\<lparr>nodes := (\<lambda>_. demo_program)(0 := zero_node\<lparr>flags := FS_DIRECTORY, nfinddir := InitrdFn\<rparr>),
     root_dir := 0, initrd_mnt_node := Some 1, image := demo_image\<rparr>"

definition demo_loader :: kern where
  "demo_loader = demo_kern\<lparr>kfs := demo_disk, kheap := demo_heap\<lparr>hvm := demo_vm\<lparr>phys_st := demo_frames\<rparr>\<rparr>\<rparr>"

lemma demo_frames_left: "phys_st v = demo_frames \<Longrightarrow> frames_left 32 v"
proof -
  assume v: "phys_st v = demo_frames"
  have t: "test_block demo_frames b \<longleftrightarrow> 32 \<le> b \<and> b < 64" for b
  proof -
    have "b div 32 = 1 \<longleftrightarrow> 32 \<le> b \<and> b < 64" using div_nat_eqI [of 32 1 b] mult_div_mod_eq [of 32 b] mod_less_divisor [of 32 b] by force
    then show ?thesis unfolding test_block_bit demo_frames_def by (cases "b div 32 = 1") simp_all
  qed
  then have "free_frames v = {32..<64}"
    unfolding free_frames_def v atLeastLessThan_def atLeast_def lessThan_def Collect_conj_eq [symmetric] by (intro Collect_cong) simp
  then have "card (free_frames v) = 32" by (simp only: card_atLeastLessThan)
  moreover have "phys_ok demo_frames" by (simp add: phys_ok_def t phys_consts) (simp add: demo_frames_def)
  ultimately show "frames_left 32 v" by (simp add: frames_left_def v)
qed

lemma demo_disk_fields [simp]:
  "nodes demo_disk 0 = zero_node\<lparr>flags := FS_DIRECTORY, nfinddir := InitrdFn\<rparr>" "root_dir demo_disk = 0"
  "nodes demo_disk (Suc 0) = demo_program" "initrd_mnt_node demo_disk = Some 1" "image demo_disk = demo_image"
  by (simp_all add: demo_disk_def)

lemma demo_get: "get_node_at mnt_name demo_loader = Some (Some 1, demo_loader)"
proof -
  have f: "kfs demo_loader = demo_disk" "demo_loader\<lparr>kfs := demo_disk\<rparr> = demo_loader" by (simp_all add: demo_loader_def)
  have "follow_mounts demo_disk 1 = Some 1"
    by (subst follow_mounts.simps) (simp add: is_mountpoint_def demo_program_def FS_FILE_def FS_MOUNTPOINT_def)
  then have "get_node [] (Some 1) demo_disk = Some (Some 1, demo_disk)" by (simp add: get_node.simps(2))
  moreover have "finddir_fs 0 mnt_name demo_disk = Some (Some 1, demo_disk)"
    by (simp add: finddir_fs_def call_finddir_def initrd_finddir_fs_def Let_def FS_DIRECTORY_def)
  ultimately have "get_node mnt_name (Some 0) demo_disk = Some (Some 1, demo_disk)"
    by (simp add: get_node.simps(2) Let_def mnt_name_def SLASH_def is_mountpoint_def FS_DIRECTORY_def FS_MOUNTPOINT_def FS_SYMLINK_def)
  then show ?thesis by (simp add: get_node_at_def f)
qed

lemma demo_header:
  assumes "read_ehdr junk 1 demo_loader = Some (hdr, k)"
  shows "elf_check_supported hdr" "e_type hdr = ET_EXEC" "e_phnum hdr = 0" "e_entry hdr = 0x08048000"
    "\<exists>s. k = demo_loader\<lparr>kfs := s\<rparr>"
proof -
  let ?b = "\<lambda>i. if i < 52 then demo_image (of_nat i) else junk i"
  have f: "kfs demo_loader = demo_disk" by (simp add: demo_loader_def)
  have seek: "seek_fs 1 0 SEEK_START demo_disk = Ret (put_node 1 demo_program demo_disk)"
    by (simp add: seek_fs_def demo_program_def initrd_seek_fs_def)
  have "initrd_read_fs demo_program 52 1 junk (put_node 1 demo_program demo_disk) = (1, ?b, demo_program\<lparr>seek_offset := 52\<rparr>)"
    by (simp add: initrd_read_fs_def demo_program_def FS_FILE_def FS_DIRECTORY_def Let_def put_node_def cong: if_cong)
  then have "read_fs 1 52 1 junk (put_node 1 demo_program demo_disk) =
      Some (Ret (1, ?b, put_node 1 (demo_program\<lparr>seek_offset := 52\<rparr>) (put_node 1 demo_program demo_disk)))"
    by (simp add: read_fs_def put_node_def) (simp add: demo_program_def put_node_def)
  then have h: "hdr = ehdr_of ?b" and k: "\<exists>s. k = demo_loader\<lparr>kfs := s\<rparr>"
    using assms seek by (auto simp: read_ehdr_def read_file_def f)
  show "\<exists>s. k = demo_loader\<lparr>kfs := s\<rparr>" by (rule k)
  have v: "demo_image 0 = 0x7F" "demo_image 1 = 0x45" "demo_image 2 = 0x4C" "demo_image 3 = 0x46" "demo_image 4 = 1" "demo_image 5 = 1" 
     "demo_image 6 = 1" "demo_image 16 = 2" "demo_image 17 = 0" "demo_image 18 = 3" "demo_image 19 = 0"
     "demo_image 24 = 0" "demo_image 25 = 0x80" "demo_image 26 = 4" "demo_image 27 = 8" "demo_image 44 = 0" "demo_image 45 = 0"
    by (simp_all add: demo_image_def)
  show "elf_check_supported hdr" "e_type hdr = ET_EXEC" "e_phnum hdr = 0" "e_entry hdr = 0x08048000"
    by (simp_all add: h ehdr_of_def elf_check_supported_def elf_check_file_def le16_def le32_def v ET_EXEC_def ET_REL_def ET_DYN_def)
qed

lemma demo_header_read: "\<exists>hdr k. read_ehdr junk 1 demo_loader = Some (hdr, k)"
proof -
  have "nseek (nodes (kfs demo_loader) 1) = InitrdFn" "nread (nodes (kfs demo_loader) 1) = InitrdFn"
    by (simp_all add: demo_loader_def demo_program_def)
  then show ?thesis
    by (simp add: read_ehdr_def read_file_def seek_fs_def read_fs_def put_node_def initrd_seek_fs_def split_beta)
qed


end
