(* ===== verification/Exec.thy ===== *)
theory Exec
  imports Elf
begin

text \<open>
  Starting programs: \<^verbatim>\<open>load_program\<close> and \<^verbatim>\<open>create_process\<close> of
  \<^verbatim>\<open>kernel/src/proc/process.c\<close>, and the system calls \<^verbatim>\<open>spawn\<close> and \<^verbatim>\<open>exec\<close>.

  Strings of the kernel are lists without their terminator. \<open>sin\<close> and \<open>sout\<close> are the nodes in
  \<^verbatim>\<open>stdin_node\<close> and \<^verbatim>\<open>stdout_node\<close>, which the keyboard and the screen driver set once.
  \<open>junk\<close> is what is in buffers that are not cleared.
  \<^verbatim>\<open>FILE\<close> and \<^verbatim>\<open>vma_t\<close> records are held in the process table itself, as everywhere in the model.
\<close>

section \<open>The arguments on the stack\<close>

definition args_size :: "cstring list \<Rightarrow> u32" where
  "args_size argv = fold (\<lambda>s tot. tot + (of_nat (length s) + 1)) argv 0"

definition str_area :: "cstring list \<Rightarrow> u32" where
  "str_area argv = (USER_STACK_TOP - 16 - args_size argv) AND NOT 3"

definition args_esp :: "cstring list \<Rightarrow> u32" where
  "args_esp argv = (str_area argv - (of_nat (length argv) + 3) * 4) AND NOT 3"

definition store_user :: "u32 \<Rightarrow> u8 list \<Rightarrow> vm \<Rightarrow> vm option" where
  "store_user a bs v = (if user_mapped v a (length bs) then Some (put_user_bytes a bs v) else None)"

fun put_args :: "u32 \<Rightarrow> u32 \<Rightarrow> cstring list \<Rightarrow> vm \<Rightarrow> vm option" where
  "put_args slot str_off [] v = Some v"
| "put_args slot str_off (s # ss) v =
     do {
       v \<leftarrow> store_user slot (le_bytes str_off) v;
       v \<leftarrow> store_user str_off (s @ [0]) v;
       put_args (slot + 4) (str_off + of_nat (length s + 1)) ss v
     }"

definition put_stack :: "cstring list \<Rightarrow> vm \<Rightarrow> vm option" where
  "put_stack argv v =
     do {
       let esp = args_esp argv;
       let argc = of_nat (length argv);
       v \<leftarrow> store_user esp (le_bytes argc) v;
       v \<leftarrow> put_args (esp + 4) (str_area argv) argv v;
       v \<leftarrow> store_user (esp + 4 * (1 + argc)) (le_bytes 0) v;
       store_user (esp + 4 * (2 + argc)) (le_bytes 0) v
     }"

definition push_args :: "nat \<Rightarrow> cstring list \<Rightarrow> kern \<Rightarrow> kern option" where
  "push_args i argv k =
     do {
       v \<leftarrow> put_stack argv (hvm (kheap k));
       let k = upd i (\<lambda>p. p\<lparr>pregs := (pregs p)\<lparr>r_esp := args_esp argv\<rparr>\<rparr>) (upd_vm (\<lambda>_. v) k);
       let top = kernel_stack_top (procs k i);
       Some (k\<lparr>iframes := (iframes k)(top := (iframes k top)\<lparr>i_esp := args_esp argv\<rparr>)\<rparr>)
     }"

section \<open>Loading\<close>

definition user_registers :: "u32 \<Rightarrow> registers" where
  "user_registers dir = zero_registers\<lparr>r_cr3 := dir, r_eflags := 0x202, r_cs := 0x1B, r_ds := 0x23, r_es := 0x23, r_fs := 0x23,
     r_gs := 0x23, r_ss := 0x23\<rparr>"

definition load_program :: "bytes \<Rightarrow> nat \<Rightarrow> cstring \<Rightarrow> cstring list \<Rightarrow> kern \<Rightarrow> (int \<times> kern) option" where
  "load_program junk i path argv k =
     do {
       let old_cr3 = cr3 (hvm (kheap k));
       let (new_dir, v) = vmm_clone_directory (hvm (kheap k));
       let k = upd i (\<lambda>p. p\<lparr>pregs := user_registers new_dir\<rparr>) (upd_vm (\<lambda>_. set_page_dir new_dir v) k);
       (e, k) \<leftarrow> load_elf junk i path k;
       if e \<noteq> 0 then Some (- 1, upd_vm (\<lambda>v. vmm_free_directory new_dir (set_page_dir old_cr3 v)) k)
       else
         do {
           let k = map_signal_trampoline new_dir k;
           k \<leftarrow> (if argv \<noteq> [] then push_args i argv k else Some k);
           Some (0, upd_vm (set_page_dir old_cr3) k)
         }
     }"

text \<open>Nineteen bytes of the local path buffer are copied, set or not.\<close>

definition new_pcb :: "nat \<Rightarrow> nat \<Rightarrow> bytes \<Rightarrow> cstring \<Rightarrow> u32 \<Rightarrow> u32 \<Rightarrow> pcb \<Rightarrow> pcb" where
  "new_pcb sin sout junk path new_pid parent_pid p =
     (let p = init_process_signals None (p\<lparr>pid := new_pid, pstate := BLOCKED, parent_id := parent_pid, num_children := 0,
                has_framebuffer := False\<rparr>)
      in p\<lparr>files_open := (files_open p)(0 := Some \<lparr>fflags = FILE_READ, fnode = Some sin\<rparr>, 1 := Some \<lparr>fflags = FILE_WRITE, fnode = Some sout\<rparr>),
           proc_name := (\<lambda>j. if j < 19 then (if j < length path then path ! j else if j = length path then 0 else junk j) else if j = 19 then 0 else proc_name p j),
           cwd := [SLASH]\<rparr>)"

text \<open>Run \<open>f\<close> on the parent, if it is in the table; process 0 is nobody's parent here.\<close>

definition with_parent :: "u32 \<Rightarrow> (nat \<Rightarrow> kern \<Rightarrow> kern) \<Rightarrow> kern \<Rightarrow> kern" where
  "with_parent parent_pid f k =
     (if parent_pid \<noteq> 0 then (case get_process_by_pid k parent_pid of None \<Rightarrow> k | Some j \<Rightarrow> f j k) else k)"

text \<open>The fields of the new slot, up to the allocation of its kernel stack.\<close>

definition fresh_slot :: "nat \<Rightarrow> nat \<Rightarrow> bytes \<Rightarrow> cstring \<Rightarrow> u32 \<Rightarrow> nat \<Rightarrow> kern \<Rightarrow> kern" where
  "fresh_slot sin sout junk path parent_pid i k =
     with_parent parent_pid (\<lambda>j k. upd i (\<lambda>p. p\<lparr>cwd := take 254 (cwd (procs k j))\<rparr>) k)
       ((upd i (new_pcb sin sout junk path (next_pid k) parent_pid) k)\<lparr>next_pid := next_pid k + 1\<rparr>)"

definition undo_create :: "u32 \<Rightarrow> nat \<Rightarrow> kern \<Rightarrow> kern option" where
  "undo_create parent_pid i k =
     do {
       let k = with_parent parent_pid (\<lambda>j. upd j (\<lambda>p. p\<lparr>num_children := num_children p - 1\<rparr>)) k;
       h \<leftarrow> free (kernel_stack_alloc (procs k i)) (kheap k);
       Some (k\<lparr>kheap := h\<rparr>)
     }"

definition create_process :: "nat \<Rightarrow> nat \<Rightarrow> bytes \<Rightarrow> cstring \<Rightarrow> u32 \<Rightarrow> cstring list \<Rightarrow> kern \<Rightarrow> kern option" where
  "create_process sin sout junk app_path parent_pid argv k =
     (if MAX_PROCESSES \<le> unat (num_processes k) then Some k
      else
        do {
          let path = take 127 app_path;
          let i = unat (num_processes k);
          let k = fresh_slot sin sout junk path parent_pid i k;
          (ok, k) \<leftarrow> alloc_kernel_stack i k;
          if \<not> ok then Some k
          else
            do {
              let k = with_parent parent_pid (\<lambda>j. add_child j (pid (procs k i))) k;
              (e, k) \<leftarrow> load_program junk i path argv k;
              if e \<noteq> 0 then undo_create parent_pid i k
              else Some ((set_state i NEW k)\<lparr>num_processes := num_processes k + 1\<rparr>)
            }
        })"

section \<open>Command lines\<close>

text \<open>The byte is read before the bound is tested.\<close>

fun read_cmdline :: "vm \<Rightarrow> u32 \<Rightarrow> nat \<Rightarrow> cstring option" where
  "read_cmdline v a 0 = map_option (\<lambda>_. []) (user_byte v a)"
| "read_cmdline v a (Suc n) =
     do { c \<leftarrow> user_byte v a; if c = 0 then Some [] else map_option (Cons c) (read_cmdline v (a + 1) n) }"

function parse_args :: "nat \<Rightarrow> cstring \<Rightarrow> cstring list" where
  "parse_args argc p =
     (if p \<noteq> [] \<and> argc < 15 then
        takeWhile (\<lambda>c. c \<noteq> SPACE) p # parse_args (Suc argc) (dropWhile (\<lambda>c. c = SPACE) (dropWhile (\<lambda>c. c \<noteq> SPACE) p))
      else [])"
  by auto
termination by (relation "measure (\<lambda>(argc, _). 15 - argc)") auto

declare parse_args.simps [simp del]

definition command_args :: "cstring \<Rightarrow> cstring list" where
  "command_args cmdline = parse_args 0 (dropWhile (\<lambda>c. c = SPACE) cmdline)"

definition bin_path :: "cstring \<Rightarrow> cstring" where
  "bin_path prog = [0x2F, 0x62, 0x69, 0x6E, 0x2F] @ take 118 prog @ [0x2E, 0x62, 0x69, 0x6E]"

definition syscall_spawn :: "nat \<Rightarrow> nat \<Rightarrow> bytes \<Rightarrow> u32 \<Rightarrow> kern \<Rightarrow> (u32 \<times> kern) option" where
  "syscall_spawn sin sout junk r k =
     do {
       cmdline \<leftarrow> read_cmdline (hvm (kheap k)) (t_ebx (frames k r)) 255;
       let argv = command_args cmdline;
       if argv = [] then Some (- 1, k)
       else
         do {
           i \<leftarrow> current_process k;
           k \<leftarrow> create_process sin sout junk (bin_path (hd argv)) (pid (procs k i)) argv k;
           Some (0, k)
         }
     }"

text \<open>What \<^verbatim>\<open>exec\<close> takes away from the process before it loads the new program.\<close>

definition put_proc_name :: "cstring \<Rightarrow> pcb \<Rightarrow> pcb" where
  "put_proc_name path p = p\<lparr>proc_name := (\<lambda>j. if j < length (take 19 path) then path ! j else if j = length (take 19 path) then 0 else proc_name p j)\<rparr>"

definition reset_signals :: "signal_state \<Rightarrow> signal_state" where
  "reset_signals g =
     g\<lparr>disposition := (\<lambda>s. if 1 \<le> s \<and> s < NSIG \<and> disposition g s \<noteq> SIG_IGN then SIG_DFL else disposition g s),
       in_handler := False, sigmask := 0, pending := 0\<rparr>"

definition exec_strip :: "nat \<Rightarrow> cstring \<Rightarrow> kern \<Rightarrow> kern option" where
  "exec_strip i path k =
     do {
       let k = upd i (put_proc_name path) k;
       let k = upd_vm (\<lambda>v. vmm_free_directory (r_cr3 (pregs (procs k i))) (switch_to_kernel_page_dir v)) k;
       let k = upd i (\<lambda>p. p\<lparr>memory_regions := []\<rparr>) k;
       k \<leftarrow> close_slots i [2..<MAX_FILES] k;
       Some (upd_sig i reset_signals k)
     }"

definition syscall_exec :: "bytes \<Rightarrow> u32 \<Rightarrow> kern \<Rightarrow> sysres option" where
  "syscall_exec junk r k =
     do {
       cmdline \<leftarrow> read_cmdline (hvm (kheap k)) (t_ebx (frames k r)) 255;
       let argv = command_args cmdline;
       if argv = [] then Some (Done (- 1) k)
       else
         do {
           i \<leftarrow> current_process k;
           let path = bin_path (hd argv);
           k \<leftarrow> exec_strip i path k;
           (e, k) \<leftarrow> load_program junk i path argv k;
           if e \<noteq> 0 then do { k \<leftarrow> unblock_parent (pid (procs k i)) True (set_state i TERMINATED k); leave r k }
           else
             let k = set_state i RUNNING k;
                 g = pregs (procs k i);
                 k = upd_frame r (\<lambda>t. t\<lparr>t_eip := r_eip g, t_cs := 0x1B, t_eflags := 0x202, t_useresp := r_esp g, t_ss := 0x23\<rparr>) k
             in Some (Done 0 (upd_vm (set_page_dir (r_cr3 g)) k))
         }
     }"

section \<open>Words of a command line\<close>

fun fields :: "cstring \<Rightarrow> cstring list" where
  "fields [] = [[]]"
| "fields (c # p) = (if c = SPACE then [] # fields p else (c # hd (fields p)) # tl (fields p))"

definition words :: "cstring \<Rightarrow> cstring list" where
  "words p = filter (\<lambda>w. w \<noteq> []) (fields p)"

lemma fields_not_Nil [simp]: "fields p \<noteq> []" by (cases p) auto

lemma fields_word: "SPACE \<notin> set w \<Longrightarrow> fields w = [w]"
  by (induction w) auto

lemma fields_append: "SPACE \<notin> set w \<Longrightarrow> fields (w @ SPACE # p) = w # fields p"
  by (induction w) auto

lemma words_Nil [simp]: "words [] = []" by (simp add: words_def)

lemma words_skip: "words (dropWhile (\<lambda>c. c = SPACE) p) = words p"
  by (induction p) (auto simp: words_def)

lemma words_step:
  assumes "p \<noteq> []" and "hd p \<noteq> SPACE"
  shows "words p = takeWhile (\<lambda>c. c \<noteq> SPACE) p # words (dropWhile (\<lambda>c. c \<noteq> SPACE) p)"
proof -
  define w where "w = takeWhile (\<lambda>c. c \<noteq> SPACE) p"
  define q where "q = dropWhile (\<lambda>c. c \<noteq> SPACE) p"
  have p: "p = w @ q" by (simp add: w_def q_def)
  have w: "SPACE \<notin> set w" "w \<noteq> []" using assms by (cases p; auto simp: w_def dest: set_takeWhileD)+
  show ?thesis
  proof (cases q)
    case Nil
    then show ?thesis using w unfolding w_def [symmetric] q_def [symmetric] by (simp add: p words_def fields_word)
  next
    case (Cons c r)
    then have "c = SPACE" using hd_dropWhile [of "\<lambda>c. c \<noteq> SPACE" p] by (simp add: q_def)
    then show ?thesis using Cons w unfolding w_def [symmetric] q_def [symmetric] by (simp add: p words_def fields_append)
  qed
qed

lemma parse_args_words:
  "p = [] \<or> hd p \<noteq> SPACE \<Longrightarrow> parse_args argc p = take (15 - argc) (words p)"
proof (induction argc p rule: parse_args.induct)
  case (1 argc p)
  show ?case
  proof (cases "p \<noteq> [] \<and> argc < 15")
    case True
    let ?q = "dropWhile (\<lambda>c. c = SPACE) (dropWhile (\<lambda>c. c \<noteq> SPACE) p)"
    have "?q = [] \<or> hd ?q \<noteq> SPACE" using hd_dropWhile [of "\<lambda>c. c = SPACE"] by blast
    then have "parse_args (Suc argc) ?q = take (15 - Suc argc) (words ?q)" using "1.IH" True by simp
    moreover have "words p = takeWhile (\<lambda>c. c \<noteq> SPACE) p # words ?q" using words_step "1.prems" True words_skip by simp
    moreover have "15 - argc = Suc (15 - Suc argc)" using True by linarith
    ultimately show ?thesis using True by (subst parse_args.simps) simp
  next
    case False
    then show ?thesis by (subst parse_args.simps) auto
  qed
qed

section \<open>User memory as a list\<close>

text \<open>Storing inside of an area replaces a part of its contents.\<close>

lemma store_splice:
  assumes "user_area v a n" and "get_user_bytes a n v = A @ B @ C" and "length bs = length B" and "d = a + of_nat (length A)"
  shows "\<exists>v'. store_user d bs v = Some v' \<and> user_area v' a n \<and> get_user_bytes a n v' = A @ bs @ C"
proof -
  have n: "n = length A + length B + length C" using arg_cong [OF assms(2), of length] by (simp add: get_user_bytes_def)
  have part: "user_area v d (length bs)" using user_area_part [OF assms(1), of "length A" "length bs"] n assms(3,4) by simp
  note e = put_user_bytes_effect [OF part refl]
  let ?v = "put_user_bytes d bs v"
  have area: "user_area ?v a n" by (rule user_area_same_paging [OF assms(1) e(1)])
  have m: "user_mapped v d (length bs)" using user_areaD(2) [OF part] by (simp add: user_mapped_def list_all_iff)
  have al: "page_aligned (cur_page_dir v)" using assms(1) by (simp add: user_area_def)
  have ref: "user_ref ?v (a + of_nat j) = user_ref v (a + of_nat j)" if "j < n" for j
    using same_paging_walk(1) [OF e(1) al] user_areaD(2) [OF assms(1) that] by blast
  have old: "kmem v (user_ref v (a + of_nat j)) = (A @ B @ C) ! j" if "j < n" for j
    using arg_cong [OF assms(2), of "\<lambda>l. l ! j"] that by (simp add: get_user_bytes_def)
  have "kmem ?v (user_ref v (a + of_nat j)) = (A @ bs @ C) ! j" if j: "j < n" for j
  proof (cases "length A \<le> j \<and> j < length A + length bs")
    case True
    then have "a + of_nat j = d + of_nat (j - length A)" by (simp add: assms(4) of_nat_diff)
    moreover have "kmem ?v (user_ref v (d + of_nat (j - length A))) = bs ! (j - length A)" by (rule e(2)) (use True in linarith)
    ultimately have "kmem ?v (user_ref v (a + of_nat j)) = bs ! (j - length A)" by (simp only:)
    then show ?thesis using True by (auto simp: nth_append)
  next
    case False
    have "user_ref v (a + of_nat j) \<noteq> user_ref v (d + of_nat l)" if l: "l < length bs" for l
    proof
      assume "user_ref v (a + of_nat j) = user_ref v (d + of_nat l)"
      then have "j = length A + l" using user_areaD(4) [OF assms(1) j, of "length A + l"] l n assms(3,4) by (simp add: add.assoc)
      then show False using False l by simp
    qed
    then have "user_ref v (a + of_nat j) \<notin> (\<lambda>l. user_ref v (d + of_nat l)) ` {..<length bs}" by blast
    then have "kmem ?v (user_ref v (a + of_nat j)) = (A @ B @ C) ! j" using e(3) old [OF j] by simp
    then show ?thesis using False assms(3) by (auto simp: nth_append)
  qed
  then have "get_user_bytes a n ?v = A @ bs @ C"
    using n assms(3) ref by (intro nth_equalityI) (simp_all add: get_user_bytes_def)
  then show ?thesis using m area by (auto simp: store_user_def)
qed

lemma get_user_bytes_part:
  assumes "get_user_bytes a n v = A @ B @ C" and "m = length B"
  shows "get_user_bytes (a + of_nat (length A)) m v = B"
proof -
  have n: "n = length A + m + length C" using arg_cong [OF assms(1), of length] assms(2) by (simp add: get_user_bytes_def)
  have "kmem v (user_ref v (a + of_nat (length A) + of_nat j)) = B ! j" if "j < m" for j
    using arg_cong [OF assms(1), of "\<lambda>l. l ! (length A + j)"] that n assms(2) by (simp add: get_user_bytes_def nth_append add.assoc)
  then show ?thesis using assms(2) by (intro nth_equalityI) (simp_all add: get_user_bytes_def)
qed

lemma word_in_bytes:
  assumes "user_area v a 4" and "get_user_bytes a 4 v = le_bytes w"
  shows "get_user_word a v = Some w"
proof -
  have b: "kmem v (user_ref v (a + of_nat i)) = le_bytes w ! i" if "i < 4" for i
    using arg_cong [OF assms(2), of "\<lambda>l. l ! i"] that by (simp add: get_user_bytes_def)
  have m: "is_page_mapped v (a + of_nat i)" if "i < 4" for i using user_areaD(2) [OF assms(1) that] .
  show ?thesis
    using b [of 0] b [of 1] b [of 2] b [of 3] m [of 0] m [of 3] bytes32 [of w]
    by (simp add: get_user_word_def le_bytes_def numeral_3_eq_3 numeral_2_eq_2)
qed

lemma concat_map_nth:
  "j < length xs \<Longrightarrow> concat (map f xs) = concat (map f (take j xs)) @ f (xs ! j) @ concat (map f (drop (Suc j) xs))"
proof -
  assume "j < length xs"
  then have "xs = take j xs @ xs ! j # drop (Suc j) xs" by (rule id_take_nth_drop)
  from arg_cong [OF this, of "\<lambda>l. concat (map f l)"] show ?thesis by (simp only: map_append list.map concat_append concat.simps)
qed

lemma string_in_bytes:
  assumes "user_area v a (length s + 1)" and "get_user_bytes a (length s + 1) v = s @ [0]" and "0 \<notin> set s"
    and "unat a + length s + 1 \<le> 2 ^ 32 - 4096"
  shows "user_string v a s"
proof -
  have "kmem v (user_ref v (a + of_nat i)) = (s @ [0]) ! i" if "i \<le> length s" for i
    using arg_cong [OF assms(2), of "\<lambda>l. l ! i"] that by (simp add: get_user_bytes_def del: upt_Suc)
  then show ?thesis using assms(3,4) user_areaD(2) [OF assms(1)] by (simp add: user_string_def)
qed

section \<open>The stack image\<close>

definition args_bytes :: "cstring list \<Rightarrow> u8 list" where
  "args_bytes argv = concat (map (\<lambda>s. s @ [0]) argv)"

fun arg_ptrs :: "u32 \<Rightarrow> cstring list \<Rightarrow> u32 list" where
  "arg_ptrs off [] = []"
| "arg_ptrs off (s # ss) = off # arg_ptrs (off + of_nat (length s + 1)) ss"

lemma length_le_bytes [simp]: "length (le_bytes w) = 4" by (simp add: le_bytes_def)

lemma length_arg_ptrs [simp]: "length (arg_ptrs off argv) = length argv"
  by (induction argv arbitrary: off) auto

lemma length_words_bytes [simp]: "length (concat (map le_bytes ws)) = 4 * length ws"
  by (induction ws) auto

lemma arg_ptrs_nth: "j < length argv \<Longrightarrow> arg_ptrs off argv ! j = off + of_nat (length (args_bytes (take j argv)))"
proof (induction argv arbitrary: off j)
  case (Cons s ss)
  then show ?case by (cases j) (simp_all add: args_bytes_def)
qed simp

lemma put_args_image:
  assumes "user_area v a n" and "get_user_bytes a n v = A @ P @ B @ S @ C" and "length P = 4 * length argv"
    and "length S = length (args_bytes argv)" and "slot = a + of_nat (length A)" and "off = a + of_nat (length A + length P + length B)"
  shows "\<exists>v'. put_args slot off argv v = Some v' \<and> user_area v' a n \<and>
    get_user_bytes a n v' = A @ concat (map le_bytes (arg_ptrs off argv)) @ B @ args_bytes argv @ C"
  using assms
proof (induction argv arbitrary: v A P B S slot off)
  case Nil
  then show ?case by (simp add: args_bytes_def)
next
  case (Cons s ss)
  let ?s = "s @ [0]"
  obtain P1 P2 where P: "P = P1 @ P2" "length P1 = 4" "length P2 = 4 * length ss"
  proof
    show "P = take 4 P @ drop 4 P" by simp
    show "length (take 4 P) = 4" "length (drop 4 P) = 4 * length ss" using Cons.prems(3) by simp_all
  qed
  obtain S1 S2 where S: "S = S1 @ S2" "length S1 = length ?s" "length S2 = length (args_bytes ss)"
  proof
    show "S = take (length ?s) S @ drop (length ?s) S" by simp
    show "length (take (length ?s) S) = length ?s" "length (drop (length ?s) S) = length (args_bytes ss)"
      using Cons.prems(4) by (simp_all add: args_bytes_def)
  qed
  obtain v1 where v1: "store_user slot (le_bytes off) v = Some v1" "user_area v1 a n"
    "get_user_bytes a n v1 = A @ le_bytes off @ P2 @ B @ S @ C"
    using store_splice [OF Cons.prems(1), of A P1 "P2 @ B @ S @ C" "le_bytes off" slot] Cons.prems(2,5) P by auto
  obtain v2 where v2: "store_user off ?s v1 = Some v2" "user_area v2 a n"
    "get_user_bytes a n v2 = (A @ le_bytes off) @ P2 @ (B @ ?s) @ S2 @ C"
    using store_splice [OF v1(2), of "A @ le_bytes off @ P2 @ B" S1 "S2 @ C" ?s off] v1(3) Cons.prems(3,6) S P by auto
  have "\<exists>v'. put_args (slot + 4) (off + of_nat (length s + 1)) ss v2 = Some v' \<and> user_area v' a n \<and>
    get_user_bytes a n v' = (A @ le_bytes off) @ concat (map le_bytes (arg_ptrs (off + of_nat (length s + 1)) ss)) @ (B @ ?s) @ args_bytes ss @ C"
    by (rule Cons.IH [OF v2(2,3)]) (use P S Cons.prems(5,6) in simp_all)
  then show ?case using v1(1) v2(1) by (auto simp: args_bytes_def)
qed

text \<open>
  With the strings at \<open>str_area\<close> and the words directly below them, the bytes from the stack pointer
  on are the count, the pointers, two zero words and the strings.
\<close>

definition stack_image :: "cstring list \<Rightarrow> u8 list" where
  "stack_image argv = le_bytes (of_nat (length argv)) @ concat (map le_bytes (arg_ptrs (str_area argv) argv)) @
     le_bytes 0 @ le_bytes 0 @ args_bytes argv"

lemma put_stack_image:
  assumes "user_area v (args_esp argv) n" and "n = length (stack_image argv)"
    and "str_area argv = args_esp argv + of_nat (4 * (length argv + 3))"
  shows "\<exists>v'. put_stack argv v = Some v' \<and> user_area v' (args_esp argv) n \<and> get_user_bytes (args_esp argv) n v' = stack_image argv"
proof -
  let ?a = "args_esp argv" and ?c = "of_nat (length argv) :: u32" and ?l = "length argv"
  let ?ps = "concat (map le_bytes (arg_ptrs (str_area argv) argv))"
  define L where "L = get_user_bytes ?a n v"
  have len: "length L = 4 + 4 * ?l + 8 + length (args_bytes argv)" by (simp add: L_def get_user_bytes_def assms(2) stack_image_def)
  define w where "w = take 4 L"
  define P where "P = take (4 * ?l) (drop 4 L)"
  define Z where "Z = take 8 (drop (4 + 4 * ?l) L)"
  define S where "S = drop (12 + 4 * ?l) L"
  have "L = w @ P @ Z @ S"
  proof -
    have "drop (4 + 4 * ?l) L = Z @ S" unfolding Z_def S_def using append_take_drop_id [of 8 "drop (4 + 4 * ?l) L"] by (simp add: add.commute)
    moreover have "drop 4 L = P @ drop (4 + 4 * ?l) L" unfolding P_def using append_take_drop_id [of "4 * ?l" "drop 4 L"] by (simp add: add.commute)
    ultimately show ?thesis unfolding w_def using append_take_drop_id [of 4 L] by simp
  qed
  then have L: "get_user_bytes ?a n v = w @ P @ Z @ S" by (simp add: L_def)
  have l: "length w = 4" "length P = 4 * ?l" "length Z = 8" "length S = length (args_bytes argv)"
    using len by (simp_all add: w_def P_def Z_def S_def)
  obtain v1 where v1: "store_user ?a (le_bytes ?c) v = Some v1" "user_area v1 ?a n" "get_user_bytes ?a n v1 = le_bytes ?c @ P @ Z @ S"
    using store_splice [OF assms(1), of "[]" w "P @ Z @ S" "le_bytes ?c" ?a] L l by auto
  obtain v2 where v2: "put_args (?a + 4) (str_area argv) argv v1 = Some v2" "user_area v2 ?a n"
    "get_user_bytes ?a n v2 = le_bytes ?c @ ?ps @ Z @ args_bytes argv"
    using put_args_image [OF v1(2), of "le_bytes ?c" P Z S "[]" argv "?a + 4" "str_area argv"] v1(3) l assms(3) by (auto simp: add_ac)
  obtain Z1 Z2 where Z: "Z = Z1 @ Z2" "length Z1 = 4" "length Z2 = 4"
  proof
    show "Z = take 4 Z @ drop 4 Z" by simp
    show "length (take 4 Z) = 4" "length (drop 4 Z) = 4" using l(3) by simp_all
  qed
  obtain v3 where v3: "store_user (?a + 4 * (1 + ?c)) (le_bytes 0) v2 = Some v3" "user_area v3 ?a n"
    "get_user_bytes ?a n v3 = le_bytes ?c @ ?ps @ le_bytes 0 @ Z2 @ args_bytes argv"
    using store_splice [OF v2(2), of "le_bytes ?c @ ?ps" Z1 "Z2 @ args_bytes argv" "le_bytes 0" "?a + 4 * (1 + ?c)"] v2(3) Z by auto
  obtain v4 where "store_user (?a + 4 * (2 + ?c)) (le_bytes 0) v3 = Some v4" "user_area v4 ?a n"
    "get_user_bytes ?a n v4 = le_bytes ?c @ ?ps @ le_bytes 0 @ le_bytes 0 @ args_bytes argv"
    using store_splice [OF v3(2), of "le_bytes ?c @ ?ps @ le_bytes 0" Z2 "args_bytes argv" "le_bytes 0" "?a + 4 * (2 + ?c)"] v3(3) Z by auto
  then show ?thesis using v1(1) v2(1) v3(1) by (simp add: put_stack_def Let_def stack_image_def)
qed

lemma unat_and_not_3: "unat (x AND NOT (3 :: u32)) = 4 * (unat x div 4)"
proof -
  have "x AND NOT 3 = push_bit 2 (drop_bit 2 x)"
  proof (rule bit_word_eqI)
    fix n assume "n < LENGTH(32)"
    have "bit (3 :: u32) n \<longleftrightarrow> n < 2"
      using bit_mask_iff [of 2 n, where 'a = u32] \<open>n < LENGTH(32)\<close> by (simp add: mask_eq_exp_minus_1)
    moreover have "2 + (n - 2) = n" if "\<not> n < 2" using that by linarith
    ultimately show "bit (x AND NOT 3) n = bit (push_bit 2 (drop_bit 2 x)) n" using \<open>n < LENGTH(32)\<close> by (auto simp: bit_simps)
  qed
  moreover have "unat (push_bit 2 (drop_bit 2 x)) = take_bit 32 (push_bit 2 (drop_bit 2 (unat x)))"
    by (subst unsigned_push_bit_eq, subst unat_drop_bit_eq) simp
  moreover have "4 * (unat x div 4) < 2 ^ 32"
    using unsigned_less [of x, where 'a = nat] by (auto intro: le_less_trans [OF times_div_less_eq_dividend])
  ultimately show ?thesis by (simp add: push_bit_eq_mult drop_bit_eq_div take_bit_eq_mod mult.commute)
qed

lemma args_size_eq: "args_size argv = of_nat (length (args_bytes argv))"
proof -
  have "fold (\<lambda>s t. t + (of_nat (length s) + 1)) argv x = x + (of_nat (length (args_bytes argv)) :: u32)" for x
    by (induction argv arbitrary: x) (simp_all add: args_bytes_def add_ac)
  then show ?thesis by (simp add: args_size_def)
qed

lemma stack_addresses:
  assumes "length (stack_image argv) + 19 \<le> 4 * 4096"
  shows "unat (str_area argv) = 4 * ((0x9FFFFFF0 - length (args_bytes argv)) div 4)"
    "unat (args_esp argv) + 4 * (length argv + 3) = unat (str_area argv)"
    "str_area argv = args_esp argv + of_nat (4 * (length argv + 3))"
    "0x9FFFC000 \<le> unat (args_esp argv)" "4 dvd unat (args_esp argv)"
    "unat (args_esp argv) + length (stack_image argv) \<le> 0x9FFFFFF0"
proof -
  let ?t = "length (args_bytes argv)" and ?m = "4 * (length argv + 3)"
  have l: "length (stack_image argv) = ?m + ?t" by (simp add: stack_image_def)
  then have t: "?t + ?m + 19 \<le> 4 * 4096" using assms by simp
  have "unat (of_nat ?t :: u32) = ?t" using unat_add_small [of "0 :: u32" ?t] t by simp
  then have x: "unat (0x9FFFFFF0 - of_nat ?t :: u32) = 0x9FFFFFF0 - ?t"
    using unat_sub [of "of_nat ?t" "0x9FFFFFF0 :: u32"] t by (simp add: word_le_nat_alt)
  show s: "unat (str_area argv) = 4 * ((0x9FFFFFF0 - ?t) div 4)"
    unfolding str_area_def unat_and_not_3 args_size_eq using x by (simp add: USER_STACK_TOP_def)
  have b: "0x9FFFFFF0 - ?t \<le> unat (str_area argv) + 3" "unat (str_area argv) \<le> 0x9FFFFFF0 - ?t"
    using mult_div_mod_eq [of 4 "0x9FFFFFF0 - ?t"] mod_less_divisor [of 4 "0x9FFFFFF0 - ?t"] unfolding s by linarith+
  have um: "unat (of_nat ?m :: u32) = ?m" using unat_add_small [of "0 :: u32" ?m] t by simp
  moreover have "(of_nat (length argv) + 3) * 4 = (of_nat ?m :: u32)" by simp
  ultimately have y: "unat (str_area argv - (of_nat (length argv) + 3) * 4) = unat (str_area argv) - ?m"
    using unat_sub [of "of_nat ?m" "str_area argv"] b t unfolding word_le_nat_alt by (simp only: um)
  have "4 dvd unat (str_area argv) - ?m" by (rule dvd_diff_nat) (simp_all add: s)
  then have e: "unat (args_esp argv) = unat (str_area argv) - ?m" unfolding args_esp_def unat_and_not_3 y by simp
  show "unat (args_esp argv) + ?m = unat (str_area argv)" "0x9FFFC000 \<le> unat (args_esp argv)" "4 dvd unat (args_esp argv)"
    "unat (args_esp argv) + length (stack_image argv) \<le> 0x9FFFFFF0"
    using e b t l \<open>4 dvd unat (str_area argv) - ?m\<close> by simp_all
  then have "unat (args_esp argv + of_nat ?m) = unat (str_area argv)"
    using um unat_add_lem [of "args_esp argv" "of_nat ?m"] b t by simp
  then show "str_area argv = args_esp argv + of_nat ?m" by (simp only: word_unat_eq_iff)
qed

definition stack_words :: "cstring list \<Rightarrow> u32 list" where
  "stack_words argv = of_nat (length argv) # arg_ptrs (str_area argv) argv @ [0, 0]"

lemma stack_image_words: "stack_image argv = concat (map le_bytes (stack_words argv)) @ args_bytes argv"
  by (simp add: stack_image_def stack_words_def)

lemma length_stack_words [simp]: "length (stack_words argv) = length argv + 3"
  by (simp add: stack_words_def)

lemma length_stack_image: "length (stack_image argv) = 4 * (length argv + 3) + length (args_bytes argv)"
  by (simp add: stack_image_words)

lemma stack_word:
  assumes "user_area v esp n" and "n = length (stack_image argv)" and "get_user_bytes esp n v = stack_image argv" and "j < length argv + 3"
  shows "get_user_word (esp + of_nat (4 * j)) v = Some (stack_words argv ! j)"
proof (rule word_in_bytes)
  let ?ws = "stack_words argv"
  have "4 * j + 4 \<le> n" using assms(2,4) by (simp add: length_stack_image)
  then show "user_area v (esp + of_nat (4 * j)) 4" by (rule user_area_part [OF assms(1)])
  have "concat (map le_bytes ?ws) = concat (map le_bytes (take j ?ws)) @ le_bytes (?ws ! j) @ concat (map le_bytes (drop (Suc j) ?ws))"
    by (rule concat_map_nth) (use assms(4) in simp)
  then have "get_user_bytes esp n v =
      concat (map le_bytes (take j ?ws)) @ le_bytes (?ws ! j) @ (concat (map le_bytes (drop (Suc j) ?ws)) @ args_bytes argv)"
    using assms(3) stack_image_words by simp
  from get_user_bytes_part [OF this, of 4] show "get_user_bytes (esp + of_nat (4 * j)) 4 v = le_bytes (?ws ! j)"
    using assms(4) by (simp add: min_def)
qed

lemma stack_string:
  assumes "user_area v esp n" and "n = length (stack_image argv)" and "get_user_bytes esp n v = stack_image argv" and "j < length argv"
    and "list_all (\<lambda>s. 0 \<notin> set s) argv" and "n + 19 \<le> 4 * 4096" and "esp = args_esp argv"
  shows "user_string v (stack_words argv ! (1 + j)) (argv ! j)"
proof -
  let ?s = "argv ! j" and ?A = "concat (map le_bytes (stack_words argv)) @ args_bytes (take j argv)"
  note ad = stack_addresses [of argv, folded assms(2), OF assms(6)]
  have "args_bytes argv = args_bytes (take j argv) @ (?s @ [0]) @ args_bytes (drop (Suc j) argv)"
    unfolding args_bytes_def by (rule concat_map_nth) (rule assms(4))
  then have b: "get_user_bytes esp n v = ?A @ (?s @ [0]) @ args_bytes (drop (Suc j) argv)" using assms(3) stack_image_words by simp
  have lA: "length ?A = 4 * (length argv + 3) + length (args_bytes (take j argv))" by simp
  have le: "length ?A + (length ?s + 1) \<le> n" using arg_cong [OF b, of length] by (simp add: get_user_bytes_def)
  have top: "unat esp + length ?A + length ?s + 1 \<le> 0x9FFFFFF0" using le ad(6) unfolding assms(7) by linarith
  have p: "stack_words argv ! (1 + j) = esp + of_nat (length ?A)"
    using arg_ptrs_nth [OF assms(4)] assms(4) unfolding lA by (simp add: stack_words_def nth_append ad(3) assms(7))
  have "unat (esp + of_nat (length ?A)) = unat esp + length ?A" by (rule unat_add_small) (use top in simp)
  moreover have "0 \<notin> set ?s" using assms(4,5) by (simp add: list_all_length)
  ultimately show ?thesis
    using get_user_bytes_part [OF b, of "length ?s + 1"] user_area_part [OF assms(1) le] top unfolding p by (intro string_in_bytes) simp_all
qed

section \<open>What loading changes\<close>

text \<open>
  Loading a program changes, in the process table, only the registers, the regions and the state of
  the one process.
\<close>

definition rest_of :: "pcb \<Rightarrow> pcb" where
  "rest_of p = p\<lparr>pregs := zero_registers, memory_regions := [], pstate := NEW\<rparr>"

definition reloaded :: "nat \<Rightarrow> kern \<Rightarrow> kern \<Rightarrow> bool" where
  "reloaded i k k' \<longleftrightarrow> (\<forall>j. j \<noteq> i \<longrightarrow> procs k' j = procs k j) \<and> rest_of (procs k' i) = rest_of (procs k i) \<and>
     frames k' = frames k \<and> current_process k' = current_process k \<and> num_processes k' = num_processes k"

lemma rest_of_changed [simp]:
  "rest_of (p\<lparr>pregs := g\<rparr>) = rest_of p" "rest_of (p\<lparr>memory_regions := rs\<rparr>) = rest_of p" "rest_of (p\<lparr>pstate := st\<rparr>) = rest_of p"
  by (simp_all add: rest_of_def)

lemma rest_of_fields:
  assumes "rest_of p = rest_of q"
  shows "pid p = pid q" "parent_id p = parent_id q" "files_open p = files_open q" "cwd p = cwd q" "num_children p = num_children q"
    "children_id p = children_id q" "sig p = sig q" "pgid p = pgid q" "kernel_stack_top p = kernel_stack_top q" "proc_name p = proc_name q"
    "kernel_stack_alloc p = kernel_stack_alloc q" "waiting_on_pid p = waiting_on_pid q"
  using assms by (cases p, cases q, simp add: rest_of_def)+

lemma reloaded_same:
  "procs k' = procs k \<Longrightarrow> frames k' = frames k \<Longrightarrow> current_process k' = current_process k \<Longrightarrow> num_processes k' = num_processes k \<Longrightarrow> reloaded i k k'"
  by (simp add: reloaded_def)

lemma reloaded_loads: "loads i k k' \<Longrightarrow> reloaded i k k'"
  unfolding loads_def reloaded_def by auto

lemma reloaded_trans: "reloaded i k k1 \<Longrightarrow> reloaded i k1 k2 \<Longrightarrow> reloaded i k k2"
  by (simp add: reloaded_def)

lemma reloaded_vm [simp]: "reloaded i k (upd_vm f k)" by (rule reloaded_same) (simp_all add: upd_vm_def)

lemma reloaded_regs [simp]: "reloaded i k (upd i (\<lambda>p. p\<lparr>pregs := f p\<rparr>) k)"
  by (simp add: reloaded_def upd_def)

lemma finish_load_reloaded: "finish_load i hdr me k = Some k' \<Longrightarrow> reloaded i k k'"
proof -
  assume "finish_load i hdr me k = Some k'"
  then obtain k1 k2 where a: "passed (alloc_mem_area i (USER_STACK_TOP - USER_STACK_PAGES * BLOCK_SIZE) (USER_STACK_PAGES * BLOCK_SIZE)
      (VMA_READ OR VMA_WRITE OR VMA_STACK OR VMA_USER) k) = Some k1"
    "passed (alloc_mem_area i (ALIGN_PAGE_UPWARDS me) BLOCK_SIZE (VMA_READ OR VMA_WRITE OR VMA_HEAP OR VMA_USER) k1) = Some k2"
    and k': "k' = (upd i (\<lambda>p. p\<lparr>pregs := (pregs p)\<lparr>r_eip := e_entry hdr, r_esp := USER_STACK_TOP - 16\<rparr>, pstate := NEW\<rparr>) k2)
      \<lparr>iframes := (iframes k2)(kernel_stack_top (procs k2 i) := start_frame (e_entry hdr) (USER_STACK_TOP - 16))\<rparr>"
    by (auto simp: finish_load_def bind_eq_Some_conv Let_def upd_def)
  have "reloaded i k k2" using reloaded_loads loads_trans [OF loads_passed [OF a(1)] loads_passed [OF a(2)]] .
  moreover have "reloaded i k2 k'" unfolding k' by (simp add: reloaded_def upd_def)
  ultimately show ?thesis by (rule reloaded_trans)
qed

lemma load_elf_reloaded:
  assumes "load_elf junk i path k = Some (e, k')"
  shows "reloaded i k k'"
proof -
  consider "loads i k k'" | hdr me k1 where "loads i k k1" "finish_load i hdr me k1 = Some k'"
    using load_elf_cases [OF assms] by blast
  then show ?thesis using reloaded_loads finish_load_reloaded reloaded_trans by cases blast+
qed

lemma push_args_reloaded: "push_args i argv k = Some k' \<Longrightarrow> reloaded i k k'"
  by (auto simp: push_args_def bind_eq_Some_conv Let_def reloaded_def upd_def upd_vm_def)

lemma trampoline_reloaded: "reloaded i k (map_signal_trampoline dir k)"
  by (rule reloaded_same) (simp_all add: map_signal_trampoline_def Let_def upd_vm_def)

lemma load_program_reloaded:
  assumes "load_program junk i path argv k = Some (e, k')"
  shows "reloaded i k k'"
proof -
  obtain dir v where d: "vmm_clone_directory (hvm (kheap k)) = (dir, v)" by force
  let ?k = "upd i (\<lambda>p. p\<lparr>pregs := user_registers dir\<rparr>) (upd_vm (\<lambda>_. set_page_dir dir v) k)"
  obtain c k1 where k1: "load_elf junk i path ?k = Some (c, k1)" using assms d by (auto simp: load_program_def bind_eq_Some_conv Let_def)
  have r: "reloaded i k k1" using reloaded_trans [OF reloaded_trans [OF reloaded_vm reloaded_regs] load_elf_reloaded [OF k1]] .
  show ?thesis
  proof (cases "c = 0")
    case False
    then have "\<exists>f. k' = upd_vm f k1" using assms d k1 by (auto simp: load_program_def)
    then show ?thesis using r reloaded_trans reloaded_vm by metis
  next
    case True
    then obtain k2 where k2: "(if argv \<noteq> [] then push_args i argv (map_signal_trampoline dir k1) else Some (map_signal_trampoline dir k1)) = Some k2"
      "\<exists>f. k' = upd_vm f k2"
      using assms d k1 by (auto simp: load_program_def bind_eq_Some_conv Let_def split: if_splits)
    have "reloaded i (map_signal_trampoline dir k1) k2" using k2(1) push_args_reloaded by (auto simp: reloaded_def split: if_splits)
    then have "reloaded i k k2" using r trampoline_reloaded reloaded_trans by metis
    then show ?thesis using k2(2) reloaded_trans reloaded_vm by metis
  qed
qed

lemma alloc_stack_effect:
  assumes "alloc_kernel_stack i k = Some (ok, k')"
  shows "j \<noteq> i \<Longrightarrow> procs k' j = procs k j" "num_processes k' = num_processes k"
    "pid (procs k' i) = pid (procs k i)" "parent_id (procs k' i) = parent_id (procs k i)" "cwd (procs k' i) = cwd (procs k i)"
    "files_open (procs k' i) = files_open (procs k i)" "pgid (procs k' i) = pgid (procs k i)" "sig (procs k' i) = sig (procs k i)"
    "num_children (procs k' i) = num_children (procs k i)"
  using assms by (auto simp: alloc_kernel_stack_def bind_eq_Some_conv Let_def upd_def split: if_splits)

lemma get_pid_cong:
  assumes "\<And>l. l < unat (num_processes k) \<Longrightarrow> pid (procs k' l) = pid (procs k l)" and "num_processes k' = num_processes k"
  shows "get_process_by_pid k' p = get_process_by_pid k p"
  unfolding get_process_by_pid_def assms(2) by (rule find_cong) (use assms(1) in auto)

lemma get_pid_Some:
  assumes "get_process_by_pid k p = Some j"
  shows "j < unat (num_processes k)" "pid (procs k j) = p"
  using assms by (auto simp: get_process_by_pid_def find_Some_iff)

lemma listed_add:
  assumes "unat (num_children (procs k j)) < MAX_PROCESSES"
  shows "listed (procs (add_child j c k) j) = listed (procs k j) @ [c]" "l \<noteq> j \<Longrightarrow> procs (add_child j c k) l = procs k l"
    "num_processes (add_child j c k) = num_processes k" "unat (num_children (procs (add_child j c k) j)) = Suc (unat (num_children (procs k j)))"
    "pid (procs (add_child j c k) j) = pid (procs k j)" "pstate (procs (add_child j c k) j) = pstate (procs k j)"
proof -
  have "unat (num_children (procs k j) + 1) = Suc (unat (num_children (procs k j)))"
    using unat_add_small [of "num_children (procs k j)" 1] assms by (simp add: MAX_PROCESSES_def)
  then show "listed (procs (add_child j c k) j) = listed (procs k j) @ [c]" "l \<noteq> j \<Longrightarrow> procs (add_child j c k) l = procs k l"
    "num_processes (add_child j c k) = num_processes k" "unat (num_children (procs (add_child j c k) j)) = Suc (unat (num_children (procs k j)))"
    "pid (procs (add_child j c k) j) = pid (procs k j)" "pstate (procs (add_child j c k) j) = pstate (procs k j)"
    using assms by (simp_all add: add_child_def upd_def listed_def)
qed

lemma listed_drop:
  assumes "listed p = xs @ [c]" and "unat (num_children p) = Suc (length xs)"
  shows "listed (p\<lparr>num_children := num_children p - 1\<rparr>) = xs"
proof -
  have "1 \<le> num_children p" using assms(2) by (simp add: word_le_nat_alt)
  then have "unat (num_children p - 1) = length xs" using unat_sub [of 1 "num_children p"] assms(2) by simp
  moreover have "map (children_id p) [0..<length xs] = xs" using assms by (simp add: listed_def)
  ultimately show ?thesis by (simp add: listed_def)
qed

lemma fresh_slot_effect:
  assumes "get_process_by_pid k pp = Some j" and "pp \<noteq> 0" and "i = unat (num_processes k)" and f_def: "f = fresh_slot sin sout junk path pp i k"
  shows "l \<noteq> i \<Longrightarrow> procs f l = procs k l" "num_processes f = num_processes k" "get_process_by_pid f pp = Some j"
    "pid (procs f i) = next_pid k" "parent_id (procs f i) = pp" "cwd (procs f i) = take 254 (cwd (procs k j))" "pgid (procs f i) = next_pid k"
    "files_open (procs f i) 0 = Some \<lparr>fflags = FILE_READ, fnode = Some sin\<rparr>" "files_open (procs f i) 1 = Some \<lparr>fflags = FILE_WRITE, fnode = Some sout\<rparr>"
    "num_children (procs f i) = 0" "sigmask (sig (procs f i)) = 0" "pending (sig (procs f i)) = 0"
proof -
  let ?k = "(upd i (new_pcb sin sout junk path (next_pid k) pp) k)\<lparr>next_pid := next_pid k + 1\<rparr>"
  note j = get_pid_Some [OF assms(1)]
  have "get_process_by_pid ?k pp = get_process_by_pid k pp" by (rule get_pid_cong) (simp_all add: upd_def assms(3))
  then have f: "f = upd i (\<lambda>p. p\<lparr>cwd := take 254 (cwd (procs ?k j))\<rparr>) ?k"
    using assms(1,2) by (simp add: f_def fresh_slot_def with_parent_def assms(3) upd_def)
  have "get_process_by_pid f pp = get_process_by_pid k pp" by (rule get_pid_cong) (simp_all add: f upd_def assms(3))
  then show "get_process_by_pid f pp = Some j" using assms(1) by simp
  show "l \<noteq> i \<Longrightarrow> procs f l = procs k l" "num_processes f = num_processes k"
    "pid (procs f i) = next_pid k" "parent_id (procs f i) = pp" "cwd (procs f i) = take 254 (cwd (procs k j))" "pgid (procs f i) = next_pid k"
    "files_open (procs f i) 0 = Some \<lparr>fflags = FILE_READ, fnode = Some sin\<rparr>" "files_open (procs f i) 1 = Some \<lparr>fflags = FILE_WRITE, fnode = Some sout\<rparr>"
    "num_children (procs f i) = 0" "sigmask (sig (procs f i)) = 0" "pending (sig (procs f i)) = 0"
    using j(1) by (simp_all add: f upd_def new_pcb_def init_process_signals_def Let_def assms(3))
qed

lemma reset_signals_fields [simp]:
  "pending (reset_signals g) = 0" "sigmask (reset_signals g) = 0" "\<not> in_handler (reset_signals g)"
  "disposition (reset_signals g) s = (if 1 \<le> s \<and> s < NSIG \<and> disposition g s \<noteq> SIG_IGN then SIG_DFL else disposition g s)"
  by (simp_all add: reset_signals_def)

lemma exec_strip_effect:
  assumes "exec_strip i path k = Some k'"
  shows "j \<noteq> i \<Longrightarrow> procs k' j = procs k j" "pid (procs k' i) = pid (procs k i)" "parent_id (procs k' i) = parent_id (procs k i)"
    "2 \<le> fd \<Longrightarrow> fd < MAX_FILES \<Longrightarrow> files_open (procs k' i) fd = None" "sig (procs k' i) = reset_signals (sig (procs k i))"
    "frames k' = frames k"
proof -
  obtain k1 k2 where k: "close_slots i [2..<MAX_FILES] k1 = Some k2" "k' = upd_sig i reset_signals k2"
    "procs k1 = (procs k)(i := (put_proc_name path (procs k i))\<lparr>memory_regions := []\<rparr>)" "frames k1 = frames k"
    using assms by (auto simp: exec_strip_def bind_eq_Some_conv Let_def upd_def upd_vm_def)
  obtain f where f: "procs k2 = (procs k1)(i := (procs k1 i)\<lparr>files_open := f\<rparr>)" "\<forall>fd\<in>set [2..<MAX_FILES]. f fd = None" "frames k2 = frames k1"
    using close_slots_table [OF k(1)] by blast
  show "j \<noteq> i \<Longrightarrow> procs k' j = procs k j" "pid (procs k' i) = pid (procs k i)" "parent_id (procs k' i) = parent_id (procs k i)"
    "2 \<le> fd \<Longrightarrow> fd < MAX_FILES \<Longrightarrow> files_open (procs k' i) fd = None" "sig (procs k' i) = reset_signals (sig (procs k i))" "frames k' = frames k"
    using f k(3,4) by (simp_all add: k(2) upd_sig_def upd_def put_proc_name_def)
qed

section \<open>Properties\<close>

text \<open>
  C37. The arguments of a command line are its words, at most the first fifteen. Words in single spaces
  come back as they are, up to fifteen of them.
\<close>

theorem command_args_words:
  "command_args cmdline = take 15 (words cmdline) \<and>
   (list_all (\<lambda>w. w \<noteq> [] \<and> SPACE \<notin> set w) ws \<and> length ws \<le> 15 \<longrightarrow> command_args (concat (map (\<lambda>w. w @ [SPACE]) ws)) = ws)"
proof -
  have a: "command_args c = take 15 (words c)" for c
    using parse_args_words [of "dropWhile (\<lambda>c. c = SPACE) c" 0] hd_dropWhile [of "\<lambda>c. c = SPACE" c] by (auto simp: command_args_def words_skip)
  have "list_all (\<lambda>w. w \<noteq> [] \<and> SPACE \<notin> set w) ws \<Longrightarrow> words (concat (map (\<lambda>w. w @ [SPACE]) ws)) = ws"
    by (induction ws) (simp_all add: words_def fields_append)
  then show ?thesis using a by auto
qed

theorem command_args_words_witness:
  "command_args ([0x6C, 0x73] @ [SPACE] @ [0x2F] @ [SPACE]) = [[0x6C, 0x73], [0x2F]]"
  using command_args_words [of "[]" "[[0x6C, 0x73], [0x2F]]"] by (simp add: SPACE_def)

text \<open>
  C38. What a new program finds on its stack. For arguments that fit into the four pages of the stack,
  in an address space where the stack is mapped, the arguments are stored, and the stack pointer of the
  process and of its first frame is a multiple of 4 inside of the stack. There stands the number of arguments,
  then for each argument the address of a copy of it, and then two zero words.
\<close>

theorem argument_stack:
  assumes "user_area (hvm (kheap k)) (args_esp argv) (length (stack_image argv))" and "length (stack_image argv) + 19 \<le> 4 * 4096"
    and "list_all (\<lambda>s. 0 \<notin> set s) argv" and "esp = args_esp argv"
  shows "\<exists>k'. push_args i argv k = Some k' \<and> r_esp (pregs (procs k' i)) = esp \<and>
    i_esp (iframes k' (kernel_stack_top (procs k i))) = esp \<and> 4 dvd unat esp \<and> 0x9FFFC000 \<le> esp \<and>
    get_user_word esp (hvm (kheap k')) = Some (of_nat (length argv)) \<and>
    (\<forall>j<length argv. \<exists>p. get_user_word (esp + of_nat (4 * (1 + j))) (hvm (kheap k')) = Some p \<and> user_string (hvm (kheap k')) p (argv ! j)) \<and>
    get_user_word (esp + of_nat (4 * (1 + length argv))) (hvm (kheap k')) = Some 0 \<and>
    get_user_word (esp + of_nat (4 * (2 + length argv))) (hvm (kheap k')) = Some 0"
proof -
  note ad = stack_addresses [OF assms(2)]
  obtain v where v: "put_stack argv (hvm (kheap k)) = Some v" "user_area v esp (length (stack_image argv))"
    "get_user_bytes esp (length (stack_image argv)) v = stack_image argv"
    using put_stack_image [OF assms(1) refl ad(3)] by (auto simp: assms(4))
  note w = stack_word [OF v(2) refl v(3)] and s = stack_string [OF v(2) refl v(3) _ assms(3,2,4)]
  have "stack_words argv ! (1 + length argv) = 0" "stack_words argv ! (2 + length argv) = 0" "stack_words argv ! 0 = of_nat (length argv)"
    by (simp_all add: stack_words_def nth_append)
  then have "get_user_word (esp + of_nat (4 * (1 + length argv))) v = Some 0" "get_user_word (esp + of_nat (4 * (2 + length argv))) v = Some 0"
    "get_user_word esp v = Some (of_nat (length argv))"
    using w [of "1 + length argv"] w [of "2 + length argv"] w [of 0] by simp_all
  moreover have "\<exists>p. get_user_word (esp + of_nat (4 * (1 + j))) v = Some p \<and> user_string v p (argv ! j)" if "j < length argv" for j
    using w [of "1 + j"] s that by auto
  ultimately show ?thesis
    using v(1) ad(4,5) assms(4) by (simp add: push_args_def Let_def upd_def upd_vm_def word_le_nat_alt)
qed

text \<open>A machine with the last page of the stack.\<close>

lemma demo_stack_area: "user_area (page_vm 639 1023) 0x9FFFFFDC 18"
  by (rule page_vm_area [of 639 1023 _ "0xFDC"]) simp_all

theorem argument_stack_witness:
  "\<exists>k' p. push_args 1 [[0x61]] (demo_kern\<lparr>kheap := demo_heap\<lparr>hvm := page_vm 639 1023\<rparr>\<rparr>) = Some k' \<and>
     r_esp (pregs (procs k' 1)) = 0x9FFFFFDC \<and> get_user_word 0x9FFFFFDC (hvm (kheap k')) = Some 1 \<and>
     get_user_word 0x9FFFFFE0 (hvm (kheap k')) = Some p \<and> user_string (hvm (kheap k')) p [0x61]"
proof -
  let ?k = "demo_kern\<lparr>kheap := demo_heap\<lparr>hvm := page_vm 639 1023\<rparr>\<rparr>"
  have e: "args_esp [[0x61]] = 0x9FFFFFDC" "length (stack_image [[0x61]]) = 18"
    by (simp_all add: args_esp_def str_area_def args_size_def USER_STACK_TOP_def length_stack_image args_bytes_def)
  have "\<exists>k'. push_args 1 [[0x61]] ?k = Some k' \<and> r_esp (pregs (procs k' 1)) = 0x9FFFFFDC \<and>
     get_user_word 0x9FFFFFDC (hvm (kheap k')) = Some 1 \<and>
     (\<exists>p. get_user_word 0x9FFFFFE0 (hvm (kheap k')) = Some p \<and> user_string (hvm (kheap k')) p [0x61])"
    using argument_stack [of ?k "[[0x61]]" "0x9FFFFFDC" 1, unfolded e] demo_stack_area by fastforce
  then show ?thesis by blast
qed


text \<open>Trying to run a directory.\<close>

lemma load_directory: "kfs k = demo_disk \<Longrightarrow> load_elf junk i [SLASH] k = Some (- 1, k)"
proof -
  assume k: "kfs k = demo_disk"
  have "follow_mounts demo_disk 0 = Some 0"
    by (subst follow_mounts.simps) (simp add: is_mountpoint_def FS_DIRECTORY_def FS_MOUNTPOINT_def)
  then have "get_node_at [SLASH] k = Some (Some 0, k)"
    using k by (simp add: get_node_at_def get_node.simps(2))
  then show ?thesis using k by (simp add: load_elf_def FS_DIRECTORY_def FS_FILE_def)
qed

lemma load_program_directory:
  assumes "kfs k = demo_disk"
  shows "\<exists>k'. load_program junk i [SLASH] argv k = Some (- 1, k') \<and> malloc_head (kheap k') = malloc_head (kheap k)"
proof -
  obtain dir v where d: "vmm_clone_directory (hvm (kheap k)) = (dir, v)" by force
  let ?k = "upd i (\<lambda>p. p\<lparr>pregs := user_registers dir\<rparr>) (upd_vm (\<lambda>_. set_page_dir dir v) k)"
  have "load_elf junk i [SLASH] ?k = Some (- 1, ?k)" by (rule load_directory) (simp add: assms upd_def upd_vm_def)
  then show ?thesis using d by (simp add: load_program_def upd_def upd_vm_def)
qed

lemma roomy_stack:
  assumes "kheap k = roomy_heap"
  shows "\<exists>k'. alloc_kernel_stack i k = Some (True, k') \<and> kernel_stack_alloc (procs k' i) = 0xC040000C \<and> malloc_head (kheap k') = 0xC0400000 \<and>
    kfs k' = kfs k"
proof -
  have f: "malloc_find roomy_heap KERNEL_STACK_SIZE 0xC0400000 = Some 0xC0400000" "malloc_head roomy_heap = 0xC0400000"
    "hdrs roomy_heap 0xC0400000 = \<lparr>bsize = 0x4000, bfree = True, bnext = 0\<rparr>"
    by (subst malloc_find.simps) (simp_all add: roomy_heap_def KERNEL_STACK_SIZE_def demo_heap_def)
  have "malloc KERNEL_STACK_SIZE roomy_heap = Some (malloc_take 0xC0400000 KERNEL_STACK_SIZE roomy_heap)"
    using f by (simp add: malloc_def Let_def KERNEL_STACK_SIZE_def)
  then show ?thesis
    using f assms by (simp add: alloc_kernel_stack_def malloc_take_def malloc_split_def set_hdr_def Let_def upd_def HDR_def)
qed




end
