(* ===== verification/LibcHeap.thy ===== *)
theory LibcHeap
  imports Format Exec
begin

text \<open>
  The heap of a user program, \<^verbatim>\<open>malloc\<close>, \<^verbatim>\<open>free\<close> and \<^verbatim>\<open>realloc\<close> of
  \<^verbatim>\<open>libc/src/stdlib.c\<close>: a list of headers in user memory, searched first fit and grown with
  the system call \<^verbatim>\<open>sbrk\<close>. The system call is an argument of the operations; the locale
  \<open>break_segment\<close> states what they rely on, and it is interpreted with the kernel's
  \<^verbatim>\<open>sbrk\<close> of \<^verbatim>\<open>Regions\<close>.
\<close>

section \<open>State and operations\<close>

text \<open>The two static variables. A header is three words: size, free and next.\<close>

record uheap =
  heap_base :: u32
  last_alloc :: u32

definition UHDR :: u32 where
  "UHDR = 12"

partial_function (option) find_free :: "bmem \<Rightarrow> u32 \<Rightarrow> u32 \<Rightarrow> u32 option" where
  "find_free m cur n =
     (if cur = 0 then Some 0
      else if ld32 m (cur + 4) \<noteq> 0 \<and> ld32 m cur \<ge> n then Some cur
      else find_free m (ld32 m (cur + 8)) n)"

definition new_header :: "u32 \<Rightarrow> u32 \<Rightarrow> uheap \<Rightarrow> bmem \<Rightarrow> uheap \<times> bmem" where
  "new_header header n h m =
     (let m = st32 (header + 8) 0 (st32 (header + 4) 0 (st32 header n m))
      in if last_alloc h \<noteq> 0 then (h\<lparr>last_alloc := header\<rparr>, st32 (last_alloc h + 8) header m)
         else (h\<lparr>heap_base := header, last_alloc := header\<rparr>, m))"

definition malloc_u ::
    "(u32 \<Rightarrow> 's \<Rightarrow> (u32 \<times> 's) option) \<Rightarrow> u32 \<Rightarrow> uheap \<Rightarrow> bmem \<Rightarrow> 's \<Rightarrow> (u32 \<times> uheap \<times> bmem \<times> 's) option" where
  "malloc_u sys_sbrk n h m s =
     (if n = 0 then Some (0, h, m, s)
      else Option.bind (find_free m (heap_base h) n) (\<lambda>header.
        if header \<noteq> 0 then Some (header + UHDR, h, st32 (header + 4) 0 m, s)
        else if n + UHDR < n then Some (0, h, m, s)
        else Option.bind (sys_sbrk (n + UHDR) s) (\<lambda>(header, s).
          if header = 0 \<or> header = - 1 then Some (0, h, m, s)
          else (let (h, m) = new_header header n h m in Some (header + UHDR, h, m, s)))))"

definition free_u :: "u32 \<Rightarrow> bmem \<Rightarrow> bmem" where
  "free_u p m = (if p = 0 then m else st32 (p - UHDR + 4) 1 m)"

definition realloc_u ::
    "(u32 \<Rightarrow> 's \<Rightarrow> (u32 \<times> 's) option) \<Rightarrow> u32 \<Rightarrow> u32 \<Rightarrow> uheap \<Rightarrow> bmem \<Rightarrow> 's \<Rightarrow> (u32 \<times> uheap \<times> bmem \<times> 's) option" where
  "realloc_u sys_sbrk p n h m s =
     (if p = 0 then malloc_u sys_sbrk n h m s
      else if n = 0 then Some (0, h, free_u p m, s)
      else if ld32 m (p - UHDR) \<ge> n then Some (p, h, m, s)
      else Option.bind (malloc_u sys_sbrk n h m s) (\<lambda>(new_p, h, m, s).
        if new_p \<noteq> 0
        then Some (new_p, h, free_u p (memcpy_u new_p p (sint (ld32 m (p - UHDR))) m), s)
        else Some (new_p, h, m, s)))"

definition strdup ::
    "(u32 \<Rightarrow> 's \<Rightarrow> (u32 \<times> 's) option) \<Rightarrow> u32 \<Rightarrow> uheap \<Rightarrow> bmem \<Rightarrow> 's \<Rightarrow> (u32 \<times> uheap \<times> bmem \<times> 's) option" where
  "strdup sys_sbrk str h m s =
     Option.bind (strlen_u m str) (\<lambda>len.
       Option.bind (malloc_u sys_sbrk (of_int (len + 1)) h m s) (\<lambda>(dup, h, m, s).
         Some (dup, h, if dup \<noteq> 0 then memcpy_u dup str (len + 1) m else m, s)))"

section \<open>The chain of headers\<close>

text \<open>A block is its header's address, its size and whether it is free.\<close>

type_synonym block = "u32 \<times> u32 \<times> bool"

fun hchain :: "bmem \<Rightarrow> u32 \<Rightarrow> block list \<Rightarrow> u32 \<Rightarrow> bool" where
  "hchain m p [] q \<longleftrightarrow> p = q"
| "hchain m p ((a, n, f) # bs) q \<longleftrightarrow>
     p = a \<and> a \<noteq> 0 \<and> ld32 m a = n \<and> (ld32 m (a + 4) \<noteq> 0 \<longleftrightarrow> f) \<and> hchain m (ld32 m (a + 8)) bs q"

fun layout :: "nat \<Rightarrow> block list \<Rightarrow> nat \<Rightarrow> bool" where
  "layout lo [] hi \<longleftrightarrow> lo \<le> hi"
| "layout lo ((a, n, f) # bs) hi \<longleftrightarrow> lo \<le> unat a \<and> layout (unat a + 12 + unat n) bs hi"

definition uheap_ok :: "uheap \<Rightarrow> bmem \<Rightarrow> nat \<Rightarrow> block list \<Rightarrow> bool" where
  "uheap_ok h m hi bs \<longleftrightarrow> hchain m (heap_base h) bs 0 \<and> layout 1 bs hi \<and> hi < 2 ^ 32 \<and>
     last_alloc h = (if bs = [] then 0 else fst (last bs))"

lemma hchain_append: "hchain m p (xs @ ys) q \<longleftrightarrow> (\<exists>r. hchain m p xs r \<and> hchain m r ys q)"
  by (induction m p xs q rule: hchain.induct) auto

lemma layout_append: "layout lo (xs @ ys) hi \<longleftrightarrow> (\<exists>mid. layout lo xs mid \<and> layout mid ys hi)"
proof (induction lo xs hi rule: layout.induct)
  case (1 lo hi)
  have "layout lo ys hi" if "lo \<le> mid" "layout mid ys hi" for mid
    using that by (cases ys) auto
  then show ?case by auto
qed auto

lemma layout_le: "layout lo bs hi \<Longrightarrow> lo \<le> hi"
  by (induction lo bs hi rule: layout.induct) auto

lemma layout_mono: "layout lo bs hi \<Longrightarrow> hi \<le> hi' \<Longrightarrow> layout lo bs hi'"
  by (induction lo bs hi rule: layout.induct) auto

lemma layout_mem: "layout lo bs hi \<Longrightarrow> (a, n, f) \<in> set bs \<Longrightarrow> lo \<le> unat a \<and> unat a + 12 + unat n \<le> hi"
proof (induction lo bs hi rule: layout.induct)
  case (2 lo a' n' f' bs hi)
  then show ?case using layout_le [of "unat a' + 12 + unat n'" bs hi] by auto
qed simp

text \<open>Two different blocks do not share a byte.\<close>

lemma layout_apart:
  assumes "layout lo bs hi" "(a, n, f) \<in> set bs" "(b, k, g) \<in> set bs" "(a, n, f) \<noteq> (b, k, g)"
  shows "unat a + 12 + unat n \<le> unat b \<or> unat b + 12 + unat k \<le> unat a"
  using assms
proof (induction lo bs hi rule: layout.induct)
  case (2 lo a' n' f' bs hi)
  then show ?case using layout_mem [of "unat a' + 12 + unat n'" bs hi] by auto
qed simp

section \<open>Words in user memory\<close>

lemma ld32_cong:
  assumes "\<And>x. x \<in> span a 4 \<Longrightarrow> m' x = m x"
  shows "ld32 m' a = ld32 m a"
proof -
  have "m' (a + of_nat i) = m (a + of_nat i)" if "i < 4" for i using assms span_memI [OF that] by blast
  from this [of 0] this [of 1] this [of 2] this [of 3] show ?thesis by (simp add: ld32_def)
qed

lemma st32_other: "x \<notin> span a 4 \<Longrightarrow> st32 a v m x = m x"
  using span_memI [of 0 4 a] span_memI [of 1 4 a] span_memI [of 2 4 a] span_memI [of 3 4 a]
  by (auto simp: st32_def)

lemma ld32_st32_apart:
  assumes "unat a + 4 \<le> unat b \<or> unat b + 4 \<le> unat a" "unat a + 4 \<le> 2 ^ 32" "unat b + 4 \<le> 2 ^ 32"
  shows "ld32 (st32 a v m) b = ld32 m b"
proof (rule ld32_cong)
  fix x assume "x \<in> span b 4"
  then have "x \<notin> span a 4" using assms by (auto simp: span_unat)
  then show "st32 a v m x = m x" by (rule st32_other)
qed

text \<open>The chain depends on the header bytes only.\<close>

lemma hchain_cong:
  assumes "\<And>a n f x. (a, n, f) \<in> set bs \<Longrightarrow> x \<in> span a 12 \<Longrightarrow> m' x = m x"
  shows "hchain m' p bs q \<longleftrightarrow> hchain m p bs q"
  using assms
proof (induction bs arbitrary: p)
  case (Cons b bs)
  obtain a n f where b: "b = (a, n, f)" by (cases b)
  have "ld32 m' (a + of_nat k) = ld32 m (a + of_nat k)" if "k \<le> 8" for k
  proof (rule ld32_cong)
    fix x assume "x \<in> span (a + of_nat k) 4"
    then obtain i where "i < 4" "x = a + of_nat (k + i)" by (auto simp: span_mem add.assoc)
    then have "x \<in> span a 12" using span_memI [of "k + i" 12 a] that by simp
    then show "m' x = m x" using Cons.prems b by auto
  qed
  from this [of 0] this [of 4] this [of 8]
  have "ld32 m' a = ld32 m a" "ld32 m' (a + 4) = ld32 m (a + 4)" "ld32 m' (a + 8) = ld32 m (a + 8)" by simp_all
  moreover have "hchain m' p bs q \<longleftrightarrow> hchain m p bs q" for p
    using Cons.prems by (intro Cons.IH) (metis list.set_intros(2))
  ultimately show ?case using b by simp
qed simp

section \<open>Searching, marking and adding blocks\<close>

definition fits :: "u32 \<Rightarrow> block \<Rightarrow> bool" where
  "fits n = (\<lambda>(a, k, f). f \<and> n \<le> k)"

lemma find_free_ok:
  assumes "hchain m p bs 0"
  shows "find_free m p n = Some (case filter (fits n) bs of [] \<Rightarrow> 0 | b # _ \<Rightarrow> fst b)"
  using assms
proof (induction bs arbitrary: p)
  case Nil
  then show ?case by (subst find_free.simps) simp
next
  case (Cons b bs)
  obtain a k f where b: "b = (a, k, f)" by (cases b)
  then show ?case using Cons by (subst find_free.simps) (auto simp: fits_def)
qed

lemma layout_update: "layout lo (xs @ (a, n, f) # ys) hi \<longleftrightarrow> layout lo (xs @ (a, n, g) # ys) hi"
  by (simp add: layout_append)

lemma other_blocks:
  assumes "layout lo (xs @ (a, n, f) # ys) hi" "hi < 2 ^ 32" "(b, k, g) \<in> set xs \<union> set ys" "x \<in> span b 12"
  shows "x \<notin> span a 12"
proof -
  obtain mid where mid: "layout lo xs mid" "mid \<le> unat a" "layout (unat a + 12 + unat n) ys hi"
    using assms(1) by (auto simp: layout_append)
  then have "unat b + 12 \<le> unat a \<or> unat a + 12 \<le> unat b"
    using assms(3) layout_mem [OF mid(1), of b k g] layout_mem [OF mid(3), of b k g] by auto
  moreover have "unat a + 12 \<le> hi" "unat b + 12 \<le> hi"
    using layout_mem [OF assms(1), of a n f] layout_mem [OF assms(1), of b k g] assms(3) by auto
  ultimately show ?thesis using assms(2,4) by (auto simp: span_unat)
qed

lemma hdr_words:
  assumes "unat (a :: u32) + 12 < 2 ^ 32"
  shows "unat (a + 4) = unat a + 4" "unat (a + 8) = unat a + 8" "unat (a + 12) = unat a + 12"
  using assms unat_add_small [of a 4] unat_add_small [of a 8] unat_add_small [of a 12] by simp_all

lemma hdr_span: "span (a + 4) 4 \<subseteq> span a 12" "span (a + 8) 4 \<subseteq> span a 12" "span a 4 \<subseteq> span a 12"
proof -
  have "span (a + of_nat k) 4 \<subseteq> span a 12" if "k \<le> 8" for k
  proof
    fix x assume "x \<in> span (a + of_nat k) 4"
    then obtain i where "i < 4" "x = a + of_nat (k + i)" by (auto simp: span_mem add.assoc)
    then show "x \<in> span a 12" using span_memI [of "k + i" 12 a] that by simp
  qed
  from this [of 4] this [of 8] this [of 0]
  show "span (a + 4) 4 \<subseteq> span a 12" "span (a + 8) 4 \<subseteq> span a 12" "span a 4 \<subseteq> span a 12" by simp_all
qed

text \<open>A store into one header leaves the other headers, so the chain around it, alone.\<close>

lemma hchain_around:
  assumes "hchain m p (xs @ (a, n, f) # ys) q" "layout lo (xs @ (a, n, f) # ys) hi" "hi < 2 ^ 32"
    and "\<And>x. x \<notin> span a 12 \<Longrightarrow> m' x = m x"
    and "ld32 m' a = n" "ld32 m' (a + 4) \<noteq> 0 \<longleftrightarrow> g" "ld32 m' (a + 8) = ld32 m (a + 8)"
  shows "hchain m' p (xs @ (a, n, g) # ys) q"
proof -
  have "m' x = m x" if "(b, k, h) \<in> set xs \<union> set ys" "x \<in> span b 12" for b k h x
    using assms(4) other_blocks [OF assms(2,3) that] by blast
  then have "hchain m' p xs r \<longleftrightarrow> hchain m p xs r" "hchain m' r ys q \<longleftrightarrow> hchain m r ys q" for p r
    using hchain_cong [of xs m' m] hchain_cong [of ys m' m] by blast+
  then show ?thesis using assms(1,5,6,7) by (auto simp: hchain_append)
qed

lemma hchain_mark:
  assumes "hchain m p (xs @ (a, n, f) # ys) q" "layout lo (xs @ (a, n, f) # ys) hi" "hi < 2 ^ 32"
  shows "hchain (st32 (a + 4) v m) p (xs @ (a, n, v \<noteq> 0) # ys) q"
proof (rule hchain_around [OF assms])
  have "unat a + 12 \<le> hi" using layout_mem [OF assms(2), of a n f] by simp
  then have w: "unat a + 12 < 2 ^ 32" using assms(3) by simp
  show "ld32 (st32 (a + 4) v m) a = n" "ld32 (st32 (a + 4) v m) (a + 8) = ld32 m (a + 8)"
    using ld32_st32_apart [of "a + 4"] hdr_words [OF w] w assms(1) by (simp_all add: hchain_append)
  show "st32 (a + 4) v m x = m x" if "x \<notin> span a 12" for x
    using st32_other hdr_span(1) [of a] that by blast
qed simp

text \<open>The three stores that make a header.\<close>

definition make_header :: "u32 \<Rightarrow> u32 \<Rightarrow> bmem \<Rightarrow> bmem" where
  "make_header a n m = st32 (a + 8) 0 (st32 (a + 4) 0 (st32 a n m))"

lemma make_header_ok:
  assumes "unat a + 12 < 2 ^ 32"
  shows "ld32 (make_header a n m) a = n" "ld32 (make_header a n m) (a + 4) = 0" "ld32 (make_header a n m) (a + 8) = 0"
    "x \<notin> span a 12 \<Longrightarrow> make_header a n m x = m x"
proof -
  note w = hdr_words [OF assms]
  show "ld32 (make_header a n m) a = n" "ld32 (make_header a n m) (a + 4) = 0" "ld32 (make_header a n m) (a + 8) = 0"
    unfolding make_header_def using w assms by (simp_all add: ld32_st32_apart)
  show "x \<notin> span a 12 \<Longrightarrow> make_header a n m x = m x"
  proof -
    assume "x \<notin> span a 12"
    then have "x \<notin> span (a + 8) 4" "x \<notin> span (a + 4) 4" "x \<notin> span a 4" using hdr_span [of a] by auto
    then show "make_header a n m x = m x" by (simp add: make_header_def st32_other)
  qed
qed

text \<open>Which bytes are headers.\<close>

definition headers :: "block list \<Rightarrow> u32 set" where
  "headers bs = (\<Union>b\<in>set bs. span (fst b) 12)"

lemma headers_append [simp]: "headers (xs @ ys) = headers xs \<union> headers ys"
  by (auto simp: headers_def)

lemma headers_one [simp]: "headers [(a, n, f)] = span a 12"
  by (simp add: headers_def)

lemma headers_mem: "(a, n, f) \<in> set bs \<Longrightarrow> span a 12 \<subseteq> headers bs"
  by (force simp: headers_def)

lemma new_header_ok:
  assumes ok: "uheap_ok h m hi bs" and hdr: "hi \<le> unat a" "a \<noteq> 0" "unat a + 12 + unat n \<le> hi'" "hi' < 2 ^ 32"
    and new: "new_header a n h m = (h', m')"
  shows "uheap_ok h' m' hi' (bs @ [(a, n, False)])" and "x \<notin> headers (bs @ [(a, n, False)]) \<Longrightarrow> m' x = m x"
proof -
  define m1 where "m1 = make_header a n m"
  have aw: "unat a + 12 < 2 ^ 32" using hdr(3,4) by simp
  note h1 = make_header_ok [OF aw, where n = n and m = m, folded m1_def]
  have lay: "layout 1 (bs @ [(a, n, False)]) hi'"
    using ok hdr(1,3) by (auto simp: uheap_ok_def layout_append)
  have "m1 x = m x" if "(b, k, f) \<in> set bs" "x \<in> span b 12" for b k f x
    using h1(4) other_blocks [OF lay hdr(4), of b k f x] that by simp
  then have c1: "hchain m1 (heap_base h) bs 0" using ok hchain_cong [of bs m1 m] by (auto simp: uheap_ok_def)
  have "uheap_ok h' m' hi' (bs @ [(a, n, False)]) \<and> (x \<notin> headers (bs @ [(a, n, False)]) \<longrightarrow> m' x = m x)"
  proof (cases bs rule: rev_cases)
    case Nil
    then have "h' = h\<lparr>heap_base := a, last_alloc := a\<rparr>" "m' = m1"
      using ok new by (auto simp: uheap_ok_def new_header_def Let_def m1_def make_header_def)
    then show ?thesis using h1 lay Nil hdr(2,4) by (simp add: uheap_ok_def)
  next
    case (snoc xs b)
    obtain l k f where b: "b = (l, k, f)" by (cases b)
    have l: "hchain m1 (heap_base h) xs l" "l \<noteq> 0" "ld32 m1 l = k" "ld32 m1 (l + 4) \<noteq> 0 \<longleftrightarrow> f"
      using c1 snoc b by (auto simp: hchain_append)
    have e: "h' = h\<lparr>last_alloc := a\<rparr>" "m' = st32 (l + 8) a m1"
      using ok new l(2) snoc b by (auto simp: uheap_ok_def new_header_def Let_def m1_def make_header_def)
    have la: "unat l + 12 \<le> unat a"
      using layout_mem [of 1 bs hi l k f] ok hdr(1) snoc b by (auto simp: uheap_ok_def)
    then have lw: "unat l + 12 < 2 ^ 32" using aw by simp
    note w = hdr_words [OF lw] hdr_words [OF aw]
    have "m' x = m1 x" if "(c, j, g) \<in> set xs" "x \<in> span c 12" for c j g x
    proof -
      have "layout 1 (xs @ (l, k, f) # []) hi" "hi < 2 ^ 32" using ok snoc b by (auto simp: uheap_ok_def)
      then have "x \<notin> span l 12" using other_blocks [of 1 xs l k f "[]" hi c j g x] that by simp
      then show ?thesis unfolding e using st32_other hdr_span(2) [of l] by blast
    qed
    then have "hchain m' (heap_base h) xs l" using l(1) hchain_cong [of xs m' m1] by blast
    moreover have "ld32 m' l = k" "ld32 m' (l + 4) \<noteq> 0 \<longleftrightarrow> f" "ld32 m' (l + 8) = a"
      "ld32 m' a = n" "ld32 m' (a + 4) = 0" "ld32 m' (a + 8) = 0"
      unfolding e using w la aw l(3,4) h1(1,2,3) by (simp_all add: ld32_st32_apart)
    ultimately have "hchain m' (heap_base h) (bs @ [(a, n, False)]) 0"
      using snoc b l(2) hdr(2) by (auto simp: hchain_append)
    moreover have "m' x = m x" if "x \<notin> headers (bs @ [(a, n, False)])"
    proof -
      have "x \<notin> span l 12" "x \<notin> span a 12" using that snoc b by (auto simp: headers_def)
      moreover from this have "x \<notin> span (l + 8) 4" using hdr_span(2) [of l] by blast
      ultimately show ?thesis using h1(4) [of x] by (simp add: e(2) st32_other)
    qed
    ultimately show ?thesis using lay hdr(4) e(1) by (simp add: uheap_ok_def)
  qed
  then show "uheap_ok h' m' hi' (bs @ [(a, n, False)])" "x \<notin> headers (bs @ [(a, n, False)]) \<Longrightarrow> m' x = m x" by auto
qed

lemma data_ptr: "unat (a :: u32) + 12 < 2 ^ 32 \<Longrightarrow> a + 12 \<noteq> 0"
proof
  assume "unat a + 12 < 2 ^ 32" "a + 12 = 0"
  then show False using hdr_words(3) [of a] by simp
qed

text \<open>A call of \<^verbatim>\<open>malloc\<close> fails and changes no block, takes a free block, or adds one.\<close>

definition allocates :: "u32 \<Rightarrow> block list \<Rightarrow> u32 \<Rightarrow> block list \<Rightarrow> bool" where
  "allocates n bs p bs' \<longleftrightarrow> p = 0 \<and> bs' = bs \<or>
     (\<exists>xs ys a k. (bs = xs @ (a, k, True) # ys \<or> bs = xs \<and> ys = []) \<and> bs' = xs @ (a, k, False) # ys \<and>
        n \<le> k \<and> p = a + 12 \<and> p \<noteq> 0)"

lemma free_marks:
  assumes "uheap_ok h m hi (xs @ (a, k, f) # ys)"
  shows "uheap_ok h (free_u (a + 12) m) hi (xs @ (a, k, True) # ys)"
    and "x \<notin> headers (xs @ (a, k, f) # ys) \<Longrightarrow> free_u (a + 12) m x = m x"
proof -
  have ok: "hchain m (heap_base h) (xs @ (a, k, f) # ys) 0" "layout 1 (xs @ (a, k, f) # ys) hi" "hi < 2 ^ 32"
    using assms by (auto simp: uheap_ok_def)
  have "unat a + 12 < 2 ^ 32" using layout_mem [OF ok(2), of a k f] ok(3) by simp
  then have e: "free_u (a + 12) m = st32 (a + 4) 1 m" using data_ptr [of a] by (simp add: free_u_def UHDR_def)
  show "uheap_ok h (free_u (a + 12) m) hi (xs @ (a, k, True) # ys)"
    using hchain_mark [OF ok, of 1] ok(2,3) layout_update [of 1 xs a k f ys hi True] assms
    by (auto simp: e uheap_ok_def split: if_splits)
  show "free_u (a + 12) m x = m x" if "x \<notin> headers (xs @ (a, k, f) # ys)"
  proof -
    have "x \<notin> span a 12" using that by (auto simp: headers_def)
    then have "x \<notin> span (a + 4) 4" using hdr_span(1) [of a] by blast
    then show ?thesis by (simp add: e st32_other)
  qed
qed

text \<open>The bytes a block gives to the program, and that they are no header and no other block's.\<close>

definition data_of :: "block \<Rightarrow> u32 set" where
  "data_of b = span (fst b + 12) (unat (fst (snd b)))"

lemma data_disjoint:
  assumes "layout lo bs hi" "hi < 2 ^ 32" "b \<in> set bs"
  shows "data_of b \<inter> headers bs = {}" "b' \<in> set bs \<Longrightarrow> b \<noteq> b' \<Longrightarrow> data_of b \<inter> data_of b' = {}"
proof -
  obtain a n f where b: "b = (a, n, f)" by (cases b)
  have d: "x \<in> data_of (c, k, g) \<longleftrightarrow> unat c + 12 \<le> unat x \<and> unat x < unat c + 12 + unat k"
    "x \<in> span c 12 \<longleftrightarrow> unat c \<le> unat x \<and> unat x < unat c + 12"
    if "(c, k, g) \<in> set bs" for x c k g
  proof -
    have le: "unat c + 12 + unat k \<le> hi" using layout_mem [OF assms(1) that] by simp
    then have "unat (c + 12) = unat c + 12" using hdr_words(3) [of c] assms(2) by simp
    then show "x \<in> data_of (c, k, g) \<longleftrightarrow> unat c + 12 \<le> unat x \<and> unat x < unat c + 12 + unat k"
      "x \<in> span c 12 \<longleftrightarrow> unat c \<le> unat x \<and> unat x < unat c + 12"
      using span_unat [of "c + 12" "unat k" x] span_unat [of c 12 x] le assms(2) by (simp_all add: data_of_def)
  qed
  have ap: "(a, n, f) = (c, k, g) \<or> unat a + 12 + unat n \<le> unat c \<or> unat c + 12 + unat k \<le> unat a"
    if "(c, k, g) \<in> set bs" for c k g
    using layout_apart [OF assms(1), of a n f c k g] assms(3) that b by blast
  have "x \<notin> span c 12" if "(c, k, g) \<in> set bs" "x \<in> data_of b" for c k g x
    using ap [OF that(1)] d(2) [OF that(1), of x] d(1) [of a n f x] assms(3) that b by auto
  then show "data_of b \<inter> headers bs = {}" by (fastforce simp: headers_def)
  show "data_of b \<inter> data_of b' = {}" if "b' \<in> set bs" "b \<noteq> b'"
  proof -
    obtain c k g where b': "b' = (c, k, g)" by (cases b')
    then have "unat a + 12 + unat n \<le> unat c \<or> unat c + 12 + unat k \<le> unat a" using ap [of c k g] that b by auto
    then show ?thesis using d(1) [of a n f] d(1) [of c k g] assms(3) that b b' by auto
  qed
qed

lemma hchain_size: "hchain m p bs q \<Longrightarrow> (a, k, f) \<in> set bs \<Longrightarrow> ld32 m a = k"
  by (induction m p bs q rule: hchain.induct) auto

lemma uheap_ok_cong:
  assumes "uheap_ok h m hi bs" "\<And>x. x \<in> headers bs \<Longrightarrow> m' x = m x"
  shows "uheap_ok h m' hi bs"
proof -
  have "m' x = m x" if "(a, n, f) \<in> set bs" "x \<in> span a 12" for a n f x
    using assms(2) headers_mem [OF that(1)] that(2) by blast
  then show ?thesis using assms(1) hchain_cong [of bs m' m] by (simp add: uheap_ok_def)
qed

lemma memcpy_u_eq: "memcpy_u = memcpy"
  by (intro ext) (simp add: memcpy_u_def memcpy_def)

text \<open>Copying a block's bytes into a larger block.\<close>

lemma block_copied:
  assumes "uheap_ok h m hi bs" "(a, k, f) \<in> set bs" "(c, j, g) \<in> set bs" "(a, k, f) \<noteq> (c, j, g)" "k \<le> j" "unat k < 2 ^ 31"
  shows "uheap_ok h (memcpy_u (c + 12) (a + 12) (sint k) m) hi bs"
    and "i < unat k \<Longrightarrow> memcpy_u (c + 12) (a + 12) (sint k) m (c + 12 + of_nat i) = m (a + 12 + of_nat i)"
proof -
  let ?m = "memcpy_u (c + 12) (a + 12) (sint k) m"
  have lay: "layout 1 bs hi" "hi < 2 ^ 32" using assms(1) by (auto simp: uheap_ok_def)
  have n: "nat (sint k) = unat k" using assms(6) by (rule sint_small_nat)
  have sub: "span (c + 12) (unat k) \<subseteq> data_of (c, j, g)" "span (a + 12) (unat k) = data_of (a, k, f)"
    using assms(5) span_mono [of "unat k" "unat j" "c + 12"] by (auto simp: data_of_def word_le_nat_alt)
  then have "span (c + 12) (unat k) \<inter> span (a + 12) (unat k) = {}"
    using data_disjoint(2) [OF lay assms(3), of "(a, k, f)"] assms(2,4) by auto
  then have fs: "forward_safe (c + 12) (a + 12) (nat (sint k))" unfolding n by (rule forward_safe_disjoint)
  have le: "sint k \<le> 2 ^ 32" using sint_less [of k] by simp
  note eff = memcpy_effect [OF fs le, folded memcpy_u_eq]
  show "i < unat k \<Longrightarrow> ?m (c + 12 + of_nat i) = m (a + 12 + of_nat i)" using eff(1) n by simp
  have "?m x = m x" if "x \<in> headers bs" for x
    using eff(2) [of x m] n sub(1) data_disjoint(1) [OF lay assms(3)] that by auto
  then show "uheap_ok h ?m hi bs" by (rule uheap_ok_cong [OF assms(1)])
qed

section \<open>The system call the heap relies on\<close>

text \<open>
  What \<^verbatim>\<open>sbrk\<close> promises its caller: with room in the address space it returns; it never moves
  the end of the heap down, and on success it returns the old end, with at least the bytes asked
  for in front of the new one.
\<close>

locale break_segment =
  fixes sbrk :: "u32 \<Rightarrow> 's \<Rightarrow> (u32 \<times> 's) option"
    and brk :: "'s \<Rightarrow> u32"
    and brk_ok :: "'s \<Rightarrow> bool"
  assumes sbrk_grows: "brk_ok s \<Longrightarrow> unat (brk s) + unat n + 4096 < 2 ^ 32 \<Longrightarrow>
      \<exists>r s'. sbrk n s = Some (r, s') \<and> brk_ok s' \<and> unat (brk s) \<le> unat (brk s') \<and>
        (r = - 1 \<or> r = brk s \<and> unat (brk s) + unat n \<le> unat (brk s'))"
begin

lemma malloc_allocates:
  assumes ok: "uheap_ok h m (unat (brk s)) bs" "brk_ok s" and room: "unat (brk s) + unat n + 4108 < 2 ^ 32"
  shows "\<exists>p h' m' s' bs'. malloc_u sbrk n h m s = Some (p, h', m', s') \<and> brk_ok s' \<and>
    uheap_ok h' m' (unat (brk s')) bs' \<and> allocates n bs p bs' \<and> (\<forall>x. x \<notin> headers bs' \<longrightarrow> m' x = m x)"
proof (cases "n = 0")
  case True
  then show ?thesis using ok by (auto simp: malloc_u_def allocates_def)
next
  case False
  have ch: "hchain m (heap_base h) bs 0" and lay: "layout 1 bs (unat (brk s))" and lim: "unat (brk s) < 2 ^ 32"
    using ok by (auto simp: uheap_ok_def)
  show ?thesis
  proof (cases "filter (fits n) bs")
    case (Cons b rest)
    then obtain xs ys where bs: "bs = xs @ b # ys" "fits n b"
      by (metis filter_eq_ConsD)
    then obtain a k where b: "b = (a, k, True)" "n \<le> k" by (cases b) (auto simp: fits_def)
    have a: "a \<noteq> 0" using ch bs b by (auto simp: hchain_append)
    have "unat a + 12 < 2 ^ 32" using layout_mem [OF lay, of a k True] bs b lim by simp
    then have p: "a + 12 \<noteq> 0" by (rule data_ptr)
    let ?m = "st32 (a + 4) 0 m"
    have "hchain ?m (heap_base h) (xs @ (a, k, False) # ys) 0"
      using hchain_mark [of m "heap_base h" xs a k True ys 0 1 "unat (brk s)" 0] ch lay lim bs b by simp
    moreover have "layout 1 (xs @ (a, k, False) # ys) (unat (brk s))"
      using lay bs b layout_update [of 1 xs a k True ys "unat (brk s)" False] by simp
    ultimately have "uheap_ok h ?m (unat (brk s)) (xs @ (a, k, False) # ys)"
      using ok(1) bs b by (auto simp: uheap_ok_def split: if_splits)
    moreover have "malloc_u sbrk n h m s = Some (a + 12, h, ?m, s)"
      using False find_free_ok [OF ch, of n] Cons b a by (simp add: malloc_u_def UHDR_def)
    moreover have "?m x = m x" if "x \<notin> headers (xs @ (a, k, False) # ys)" for x
    proof -
      have "x \<notin> span a 12" using that by (auto simp: headers_def)
      then show ?thesis using hdr_span(1) [of a] by (intro st32_other) blast
    qed
    ultimately show ?thesis using ok(2) bs b p unfolding allocates_def by blast
  next
    case Nil
    have n12: "unat (n + UHDR) = unat n + 12" using room unat_add_small [of n 12] by (simp add: UHDR_def)
    then have nw: "\<not> n + UHDR < n" by (simp add: word_less_nat_alt)
    obtain r s' where r: "sbrk (n + UHDR) s = Some (r, s')" "brk_ok s'" "unat (brk s) \<le> unat (brk s')"
      "r = - 1 \<or> r = brk s \<and> unat (brk s) + unat (n + UHDR) \<le> unat (brk s')"
      using sbrk_grows [OF ok(2), of "n + UHDR"] room n12 by auto
    have lim': "unat (brk s') < 2 ^ 32" using unsigned_less [of "brk s'", where 'a = nat] by simp
    show ?thesis
    proof (cases "r = 0 \<or> r = - 1")
      case True
      have "uheap_ok h m (unat (brk s')) bs" using ok(1) r(3) layout_mono lim' by (auto simp: uheap_ok_def)
      moreover have "malloc_u sbrk n h m s = Some (0, h, m, s')"
        using False find_free_ok [OF ch, of n] Nil nw r(1) True by (simp add: malloc_u_def)
      ultimately show ?thesis using r(2) by (auto simp: allocates_def)
    next
      case False': False
      then have rb: "r = brk s" "unat (brk s) + unat n + 12 \<le> unat (brk s')" using r(4) n12 by auto
      obtain h' m' where new: "new_header r n h m = (h', m')" by fastforce
      have "unat r + 12 + unat n \<le> unat (brk s')" using rb by simp
      note nh = new_header_ok [OF ok(1) _ _ this lim' new]
      have "malloc_u sbrk n h m s = Some (r + 12, h', m', s')"
        using False False' find_free_ok [OF ch, of n] Nil nw r(1) new by (simp add: malloc_u_def UHDR_def)
      moreover have "unat r + 12 < 2 ^ 32" using rb lim' by simp
      then have "r + 12 \<noteq> 0" by (rule data_ptr)
      moreover have "allocates n bs (r + 12) (bs @ [(r, n, False)])"
        using calculation unfolding allocates_def by blast
      ultimately show ?thesis using nh r(2) rb(1) False' by blast
    qed
  qed
qed

lemma realloc_moves:
  assumes ok: "uheap_ok h m (unat (brk s)) bs" "brk_ok s" and room: "unat (brk s) + unat n + 4108 < 2 ^ 32"
    and old: "(a, k, False) \<in> set bs" "k < n" "unat k < 2 ^ 31"
  shows "\<exists>q h' m' s' bs'. realloc_u sbrk (a + 12) n h m s = Some (q, h', m', s') \<and> brk_ok s' \<and>
    uheap_ok h' m' (unat (brk s')) bs' \<and>
    (q = 0 \<and> bs' = bs \<or>
     (\<exists>c j. (c, j, False) \<in> set bs' \<and> (a, k, True) \<in> set bs' \<and> n \<le> j \<and> q = c + 12 \<and>
       (\<forall>i<unat k. m' (q + of_nat i) = m (a + 12 + of_nat i))))"
proof -
  have lay: "layout 1 bs (unat (brk s))" "unat (brk s) < 2 ^ 32" and ch: "hchain m (heap_base h) bs 0"
    using ok(1) by (auto simp: uheap_ok_def)
  have "unat a + 12 < 2 ^ 32" using layout_mem [OF lay(1) old(1)] lay(2) by simp
  then have p: "a + 12 \<noteq> 0" by (rule data_ptr)
  have n0: "n \<noteq> 0" using old(2) by auto
  obtain q h1 m1 s1 bs1 where mal: "malloc_u sbrk n h m s = Some (q, h1, m1, s1)" "brk_ok s1"
    "uheap_ok h1 m1 (unat (brk s1)) bs1" "allocates n bs q bs1" "\<forall>x. x \<notin> headers bs1 \<longrightarrow> m1 x = m x"
    using malloc_allocates [OF ok room] by blast
  have size: "ld32 m a = k" using hchain_size [OF ch old(1)] .
  show ?thesis
  proof (cases "q = 0")
    case True
    then have "bs1 = bs" using mal(4) by (auto simp: allocates_def)
    then show ?thesis using mal True p n0 size old(2) by (auto simp: realloc_u_def UHDR_def)
  next
    case False
    then obtain xs ys c j where q: "bs = xs @ (c, j, True) # ys \<or> bs = xs \<and> ys = []" "bs1 = xs @ (c, j, False) # ys"
      "n \<le> j" "q = c + 12" using mal(4) by (auto simp: allocates_def)
    have mem: "(a, k, False) \<in> set bs1" "(c, j, False) \<in> set bs1" using q old(1) by auto
    have ne: "(a, k, False) \<noteq> (c, j, False)" using old(2) q(3) by auto
    have kj: "k \<le> j" using old(2) q(3) by simp
    have size1: "ld32 m1 a = k" using mal(3) hchain_size mem(1) by (auto simp: uheap_ok_def)
    define m2 where "m2 = memcpy_u (c + 12) (a + 12) (sint k) m1"
    note cp = block_copied [OF mal(3) mem ne kj old(3), folded m2_def]
    obtain us vs where sp: "bs1 = us @ (a, k, False) # vs" using split_list [OF mem(1)] by blast
    have fr: "uheap_ok h1 (free_u (a + 12) m2) (unat (brk s1)) (us @ (a, k, True) # vs)"
      using free_marks(1) cp(1) sp by blast
    have lay1: "layout 1 bs1 (unat (brk s1))" "unat (brk s1) < 2 ^ 32" using mal(3) by (auto simp: uheap_ok_def)
    have "free_u (a + 12) m2 (q + of_nat i) = m (a + 12 + of_nat i)" if "i < unat k" for i
    proof -
      have "i < unat j" using that kj by (simp add: word_le_nat_alt)
      then have "q + of_nat i \<in> data_of (c, j, False)" "a + 12 + of_nat i \<in> data_of (a, k, False)"
        using that span_memI q(4) by (auto simp: data_of_def)
      then have "q + of_nat i \<notin> headers bs1" "a + 12 + of_nat i \<notin> headers bs1"
        using data_disjoint(1) [OF lay1] mem by blast+
      then show ?thesis
        using free_marks(2) [of h1 m2 "unat (brk s1)" us a k False vs] cp(1) cp(2) [OF that] mal(5) sp q(4) by auto
    qed
    moreover have "realloc_u sbrk (a + 12) n h m s = Some (q, h1, free_u (a + 12) m2, s1)"
      using p n0 size size1 old(2) mal(1) False q(4) by (simp add: realloc_u_def UHDR_def m2_def not_le [symmetric])
    moreover have "(c, j, False) \<in> set (us @ (a, k, True) # vs)" using mem(2) ne sp by auto
    ultimately show ?thesis using mal(2) fr q(3,4) by (intro exI conjI disjI2) auto
  qed
qed

end

section \<open>The kernel's sbrk\<close>

text \<open>
  The system call as the library makes it: the increment is in \<^verbatim>\<open>ebx\<close> of the trap frame. The
  end of the heap is the end of the region that carries the heap flag.
\<close>

definition sys_sbrk :: "u32 \<Rightarrow> kern \<Rightarrow> (u32 \<times> kern) option" where
  "sys_sbrk increment k = syscall_sbrk 0 (upd_frame 0 (\<lambda>f. f\<lparr>t_ebx := increment\<rparr>) k)"

definition heap_at :: "kern \<Rightarrow> (nat \<times> nat) option" where
  "heap_at k =
     Option.bind (current_process k) (\<lambda>i.
       map_option (Pair i) (vmm_find_area_by_flag (memory_regions (procs k i)) VMA_HEAP))"

definition brk_end :: "kern \<Rightarrow> u32" where
  "brk_end k = (case heap_at k of None \<Rightarrow> 0 | Some (i, j) \<Rightarrow> vend (memory_regions (procs k i) ! j))"

definition brk_end_ok :: "kern \<Rightarrow> bool" where
  "brk_end_ok k \<longleftrightarrow> heap_at k \<noteq> None \<and> page_aligned (brk_end k)"

lemma find_flag_update:
  assumes "vmm_find_area_by_flag rs fl = Some j"
  shows "vmm_find_area_by_flag (rs[j := (rs ! j)\<lparr>vend := e\<rparr>]) fl = Some j" "j < length rs"
proof -
  show j: "j < length rs" using assms by (auto simp: vmm_find_area_by_flag_def find_Some_iff)
  have "has_flags fl (rs[j := (rs ! j)\<lparr>vend := e\<rparr>] ! i) = has_flags fl (rs ! i)" if "i < length rs" for i
    using that j by (cases "i = j") (simp_all add: has_flags_def)
  then have "List.find (\<lambda>i. has_flags fl (rs[j := (rs ! j)\<lparr>vend := e\<rparr>] ! i)) [0..<length rs] =
      List.find (\<lambda>i. has_flags fl (rs ! i)) [0..<length rs]" by (intro find_cong) auto
  then show "vmm_find_area_by_flag (rs[j := (rs ! j)\<lparr>vend := e\<rparr>]) fl = Some j"
    using assms by (simp add: vmm_find_area_by_flag_def)
qed

lemma heap_page_aligned_add: "page_aligned b \<Longrightarrow> unat b + 4096 * m < 2 ^ 32 \<Longrightarrow> page_aligned (b + of_nat (4096 * m))"
  using unat_add_small [of b "4096 * m"] by (simp add: page_aligned_def)

lemma sys_sbrk_grows:
  assumes "brk_end_ok k" "unat (brk_end k) + unat n + 4096 < 2 ^ 32"
  shows "\<exists>r k'. sys_sbrk n k = Some (r, k') \<and> brk_end_ok k' \<and> unat (brk_end k) \<le> unat (brk_end k') \<and>
    (r = - 1 \<or> r = brk_end k \<and> unat (brk_end k) + unat n \<le> unat (brk_end k'))"
proof -
  let ?k = "upd_frame 0 (\<lambda>f. f\<lparr>t_ebx := n\<rparr>) k" and ?N = "(unat n + 4095) div 4096"
  obtain i j where ij: "current_process k = Some i" "vmm_find_area_by_flag (memory_regions (procs k i)) VMA_HEAP = Some j"
    and b: "brk_end k = vend (memory_regions (procs k i) ! j)" "page_aligned (brk_end k)"
    using assms(1) by (auto simp: brk_end_ok_def heap_at_def brk_end_def bind_eq_Some_conv split: bind_splits)
  have N: "unat n \<le> 4096 * ?N" "4096 * ?N < unat n + 4096" by linarith+
  have k: "current_process ?k = current_process k" "procs ?k = procs k" "t_ebx (frames ?k 0) = n"
    by (simp_all add: upd_frame_def)
  have bN: "unat (brk_end k) + 4096 * ?N < 2 ^ 32" using assms(2) N(2) by simp
  obtain m v where m: "m \<le> ?N"
    "sys_sbrk n k = Some (if m = ?N then brk_end k else - 1,
      upd i (\<lambda>p. p\<lparr>memory_regions := (memory_regions (procs k i))[j := (memory_regions (procs k i) ! j)\<lparr>vend := brk_end k + of_nat (4096 * m)\<rparr>]\<rparr>)
        (upd_vm (\<lambda>_. v) ?k))"
    using sbrk_step [of ?k i j "brk_end k" ?N 0] ij b bN by (auto simp: k sys_sbrk_def)
  let ?e = "brk_end k + of_nat (4096 * m)"
  have le: "unat (brk_end k) + 4096 * m < 2 ^ 32" using bN m(1) by (meson add_left_mono le_less_trans mult_le_mono2)
  then have ue: "unat ?e = unat (brk_end k) + 4096 * m" by (intro unat_add_small) simp
  define k' where "k' = upd i (\<lambda>p. p\<lparr>memory_regions := (memory_regions (procs k i))[j := (memory_regions (procs k i) ! j)\<lparr>vend := ?e\<rparr>]\<rparr>)
        (upd_vm (\<lambda>_. v) ?k)"
  have "heap_at k' = Some (i, j)" "brk_end k' = ?e"
    using ij find_flag_update(1) [OF ij(2), of ?e] find_flag_update(2) [OF ij(2)] by (simp_all add: heap_at_def brk_end_def k'_def upd_def upd_vm_def k)
  moreover have "page_aligned ?e" by (rule heap_page_aligned_add [OF b(2) le])
  moreover have "sys_sbrk n k = Some (if m = ?N then brk_end k else - 1, k')" using m(2) unfolding k'_def .
  ultimately show ?thesis using N(1) ue by (cases "m = ?N") (simp_all add: brk_end_ok_def)
qed

interpretation kbrk: break_segment sys_sbrk brk_end brk_end_ok
  by unfold_locales (rule sys_sbrk_grows)

section \<open>What the user heap promises\<close>

text \<open>
  C9030. The user heap on the kernel's \<^verbatim>\<open>sbrk\<close>. In a well-formed heap with room in the
  address space, \<^verbatim>\<open>malloc\<close> returns: it gives null and changes no block, or a block of at
  least the size asked for that was free or is new, and then the heap is again well formed, the
  bytes of any two blocks and all headers are disjoint, and no byte outside the headers has
  changed, so the contents of the program's blocks stay. Freeing an allocated block marks it free
  and nothing else.
\<close>

theorem user_heap_correct:
  assumes "uheap_ok h m (unat (brk_end k)) bs" "brk_end_ok k" "unat (brk_end k) + unat n + 4108 < 2 ^ 32"
  shows "(\<exists>p h' m' k' bs'. malloc_u sys_sbrk n h m k = Some (p, h', m', k') \<and> brk_end_ok k' \<and>
      uheap_ok h' m' (unat (brk_end k')) bs' \<and> allocates n bs p bs' \<and> (\<forall>x. x \<notin> headers bs' \<longrightarrow> m' x = m x) \<and>
      (\<forall>b\<in>set bs'. data_of b \<inter> headers bs' = {} \<and> (\<forall>b'\<in>set bs'. b \<noteq> b' \<longrightarrow> data_of b \<inter> data_of b' = {}))) \<and>
    (\<forall>xs a j ys. bs = xs @ (a, j, False) # ys \<longrightarrow>
      uheap_ok h (free_u (a + 12) m) (unat (brk_end k)) (xs @ (a, j, True) # ys) \<and>
      (\<forall>x. x \<notin> headers bs \<longrightarrow> free_u (a + 12) m x = m x))"
proof
  obtain p h' m' k' bs' where mal: "malloc_u sys_sbrk n h m k = Some (p, h', m', k')" "brk_end_ok k'"
    "uheap_ok h' m' (unat (brk_end k')) bs'" "allocates n bs p bs'" "\<forall>x. x \<notin> headers bs' \<longrightarrow> m' x = m x"
    using kbrk.malloc_allocates [OF assms] by blast
  then have "layout 1 bs' (unat (brk_end k'))" "unat (brk_end k') < 2 ^ 32" by (auto simp: uheap_ok_def)
  note dd = data_disjoint [OF this]
  show "\<exists>p h' m' k' bs'. malloc_u sys_sbrk n h m k = Some (p, h', m', k') \<and> brk_end_ok k' \<and>
      uheap_ok h' m' (unat (brk_end k')) bs' \<and> allocates n bs p bs' \<and> (\<forall>x. x \<notin> headers bs' \<longrightarrow> m' x = m x) \<and>
      (\<forall>b\<in>set bs'. data_of b \<inter> headers bs' = {} \<and> (\<forall>b'\<in>set bs'. b \<noteq> b' \<longrightarrow> data_of b \<inter> data_of b' = {}))"
    using mal dd by blast
qed (use assms(1) free_marks in blast)

text \<open>A process whose heap is the region that ends at 0x0844C000, before its first allocation.\<close>

lemma demo_brk: "brk_end demo_regions = 0x0844C000" "brk_end_ok demo_regions"
proof -
  have "heap_at demo_regions = Some (0, 0)"
    by (simp add: heap_at_def vmm_find_area_by_flag_def demo_regions_def demo_kern_def has_flags_def VMA_HEAP_def VMA_USER_def)
  then show "brk_end demo_regions = 0x0844C000" "brk_end_ok demo_regions"
    by (simp_all add: brk_end_def brk_end_ok_def demo_regions_def page_aligned_def)
qed

lemma demo_uheap: "uheap_ok \<lparr>heap_base = 0, last_alloc = 0\<rparr> m (unat (brk_end demo_regions)) []"
  by (simp add: uheap_ok_def demo_brk)

theorem user_heap_correct_witness:
  "\<exists>p h' m' k' bs'. malloc_u sys_sbrk 100 \<lparr>heap_base = 0, last_alloc = 0\<rparr> (\<lambda>_. 0) demo_regions = Some (p, h', m', k') \<and>
    uheap_ok h' m' (unat (brk_end k')) bs'"
proof -
  have "unat (brk_end demo_regions) + unat (100 :: u32) + 4108 < 2 ^ 32" by (simp add: demo_brk)
  from conjunct1 [OF user_heap_correct [OF demo_uheap demo_brk(2) this, of "\<lambda>_. 0"]] show ?thesis
    by (elim exE conjE) (intro exI conjI)
qed

text \<open>
  C9031. \<^verbatim>\<open>realloc\<close> of an allocated block to a larger size keeps its contents: it returns, and
  gives null with every block as before, or another block of at least the new size that starts with
  the bytes of the old one, which is free afterwards.
\<close>

theorem realloc_keeps_contents:
  assumes "uheap_ok h m (unat (brk_end k)) bs" "brk_end_ok k" "unat (brk_end k) + unat n + 4108 < 2 ^ 32"
    and "(a, j, False) \<in> set bs" "j < n" "unat j < 2 ^ 31"
  shows "\<exists>q h' m' k' bs'. realloc_u sys_sbrk (a + 12) n h m k = Some (q, h', m', k') \<and> brk_end_ok k' \<and>
    uheap_ok h' m' (unat (brk_end k')) bs' \<and>
    (q = 0 \<and> bs' = bs \<or>
     (\<exists>c l. (c, l, False) \<in> set bs' \<and> (a, j, True) \<in> set bs' \<and> n \<le> l \<and> q = c + 12 \<and>
       (\<forall>i<unat j. m' (q + of_nat i) = m (a + 12 + of_nat i))))"
  using assms by (rule kbrk.realloc_moves)

text \<open>One block of four bytes, at the start of the heap's last page.\<close>

definition demo_block_mem :: bmem where
  "demo_block_mem = make_header 0x0844B000 4 (\<lambda>_. 0)"

theorem realloc_keeps_contents_witness:
  "\<exists>q h' m' k'. realloc_u sys_sbrk (0x0844B000 + 12) 64 \<lparr>heap_base = 0x0844B000, last_alloc = 0x0844B000\<rparr>
      demo_block_mem demo_regions = Some (q, h', m', k')"
proof -
  let ?h = "\<lparr>heap_base = 0x0844B000, last_alloc = 0x0844B000\<rparr>"
  have "uheap_ok ?h demo_block_mem (unat (brk_end demo_regions)) [(0x0844B000, 4, False)]"
    using make_header_ok(1,2,3) [of "0x0844B000" 4 "\<lambda>_. 0"]
    by (simp add: uheap_ok_def demo_brk demo_block_mem_def)
  from realloc_keeps_contents [OF this demo_brk(2), of 64 "0x0844B000" 4] show ?thesis
    by (simp add: demo_brk) blast
qed

end
