(* ===== verification/Shell.thy ===== *)
theory Shell
  imports LibcString Input Exec "HOL-Library.Multiset"
begin

text \<open>
  The shell's own logic, \<^verbatim>\<open>apps/shell.c\<close>: reading and editing a line, splitting it into
  pipeline stages with redirections, building the command line for \<^verbatim>\<open>exec\<close>, and the job
  table. The pointers that \<^verbatim>\<open>parse_line\<close> keeps into the line are modelled by the strings they
  point to, since the line is cut right after each of them. The system calls the shell makes
  (\<^verbatim>\<open>fork\<close>, \<^verbatim>\<open>pipe\<close>, \<^verbatim>\<open>wait\<close>, ...) are the kernel's and modelled
  there.
\<close>

section \<open>Constants and data\<close>

definition LINE_MAX :: nat where
  "LINE_MAX = 256"

definition MAX_ARGS :: nat where
  "MAX_ARGS = 16"

definition MAX_STAGES :: nat where
  "MAX_STAGES = 4"

definition MAX_JOBS :: nat where
  "MAX_JOBS = 16"

datatype job_status = JOB_RUNNING | JOB_STOPPED | JOB_DONE

record job =
  job_pid :: int
  job_pgid :: int
  status :: job_status
  job_name :: cstring

record stage =
  args :: "cstring list"
  in_file :: "cstring option"
  out_file :: "cstring option"
  append_flag :: bool
  background :: bool

section \<open>The job table\<close>

text \<open>The array \<^verbatim>\<open>jobs\<close> and the number of entries in use.\<close>

record job_table =
  jobs :: "job list"
  num_jobs :: nat

definition find_job_by_pid :: "int \<Rightarrow> job_table \<Rightarrow> int" where
  "find_job_by_pid p t =
     (case List.find (\<lambda>i. job_pid (jobs t ! i) = p) [0..<num_jobs t] of None \<Rightarrow> - 1 | Some i \<Rightarrow> int i)"

definition add_job :: "int \<Rightarrow> int \<Rightarrow> cstring \<Rightarrow> job_table \<Rightarrow> job_table" where
  "add_job p g nm t =
     (if num_jobs t \<ge> MAX_JOBS then t
      else t\<lparr>jobs := (jobs t)[num_jobs t :=
              \<lparr>job_pid = p, job_pgid = g, status = JOB_RUNNING, job_name = take 31 nm\<rparr>],
             num_jobs := num_jobs t + 1\<rparr>)"

definition job_id_of :: "nat \<Rightarrow> job_table \<Rightarrow> nat" where
  "job_id_of idx t = fold (\<lambda>i k. if status (jobs t ! i) \<noteq> JOB_DONE then k + 1 else k) [0..<idx] 1"

definition set_status :: "nat \<Rightarrow> job_status \<Rightarrow> job_table \<Rightarrow> job_table" where
  "set_status i st t = t\<lparr>jobs := (jobs t)[i := (jobs t ! i)\<lparr>status := st\<rparr>]\<rparr>"

definition reap_pid :: "int \<Rightarrow> job_table \<Rightarrow> job_table" where
  "reap_pid p t = (let idx = find_job_by_pid p t in if idx \<ge> 0 then set_status (nat idx) JOB_DONE t else t)"

text \<open>The pids \<^verbatim>\<open>waitpid(0, WNOHANG)\<close> reports before it returns 0 or an error.\<close>

definition reap_background_jobs :: "int list \<Rightarrow> job_table \<Rightarrow> job_table" where
  "reap_background_jobs pids t = fold reap_pid (takeWhile (\<lambda>p. p > 0) pids) t"

definition compact_step :: "nat \<Rightarrow> nat \<times> job list \<Rightarrow> nat \<times> job list" where
  "compact_step src = (\<lambda>(dst, js).
     if status (js ! src) \<noteq> JOB_DONE then (dst + 1, if dst \<noteq> src then js[dst := js ! src] else js)
     else (dst, js))"

definition compact_jobs :: "job_table \<Rightarrow> job_table" where
  "compact_jobs t =
     (let (dst, js) = fold compact_step [0..<num_jobs t] (0, jobs t)
      in t\<lparr>jobs := js, num_jobs := dst\<rparr>)"

text \<open>The target of \<^verbatim>\<open>fg\<close> and \<^verbatim>\<open>bg\<close>: the job with the given number, or the last one.\<close>

definition parse_job_id :: "cstring \<Rightarrow> u32" where
  "parse_job_id s = fold (\<lambda>c n. n * 10 + (scast c - 48)) s 0"

definition find_job_by_id :: "u32 \<Rightarrow> job_table \<Rightarrow> nat option" where
  "find_job_by_id k t =
     List.find (\<lambda>i. status (jobs t ! i) \<noteq> JOB_DONE \<and> of_nat (job_id_of i t) = k) [0..<num_jobs t]"

definition last_job :: "(job_status \<Rightarrow> bool) \<Rightarrow> job_table \<Rightarrow> nat option" where
  "last_job P t = List.find (\<lambda>i. P (status (jobs t ! i))) (rev [0..<num_jobs t])"

definition fg_target :: "cstring list \<Rightarrow> job_table \<Rightarrow> nat option" where
  "fg_target as t =
     (if length as \<ge> 2 then find_job_by_id (parse_job_id (as ! 1)) t
      else last_job (\<lambda>st. st = JOB_STOPPED \<or> st = JOB_RUNNING) t)"

definition bg_target :: "cstring list \<Rightarrow> job_table \<Rightarrow> nat option" where
  "bg_target as t =
     (if length as \<ge> 2 then find_job_by_id (parse_job_id (as ! 1)) t
      else last_job (\<lambda>st. st = JOB_STOPPED) t)"

text \<open>\<^verbatim>\<open>fg\<close> removes a job that has ended by shifting the later ones down.\<close>

definition remove_job :: "nat \<Rightarrow> job_table \<Rightarrow> job_table" where
  "remove_job target t =
     t\<lparr>jobs := fold (\<lambda>i js. js[i := js ! (i + 1)]) [target..<num_jobs t - 1] (jobs t),
       num_jobs := num_jobs t - 1\<rparr>"

section \<open>Reading a line\<close>

text \<open>
  \<^verbatim>\<open>read_line\<close> on the characters that \<^verbatim>\<open>read\<close> delivers one by one; the result is the
  line, the characters echoed and those left. Without a newline it waits for more input:
  \<^const>\<open>None\<close>.
\<close>

fun read_line_loop :: "nat \<Rightarrow> cstring \<Rightarrow> cstring \<Rightarrow> cstring \<Rightarrow> (cstring \<times> cstring \<times> cstring) option" where
  "read_line_loop mx buf echo input =
     (if length buf < mx - 1 then
        (case input of [] \<Rightarrow> None
         | c # input \<Rightarrow>
             if c = 10 \<or> c = 13 then Some (buf, echo @ [10], input)
             else if c = 8 \<or> c = 0x7F then
               (if length buf > 0 then read_line_loop mx (butlast buf) (echo @ [8, 32, 8]) input
                else read_line_loop mx buf echo input)
             else read_line_loop mx (buf @ [c]) (echo @ [c]) input)
      else Some (buf, echo, input))"

declare read_line_loop.simps [simp del]

definition read_line :: "nat \<Rightarrow> cstring \<Rightarrow> (cstring \<times> cstring \<times> cstring) option" where
  "read_line mx input = read_line_loop mx [] [] input"

section \<open>Parsing a line\<close>

definition word_char :: "u8 \<Rightarrow> bool" where
  "word_char c \<longleftrightarrow> c \<noteq> 32 \<and> c \<noteq> 124 \<and> c \<noteq> 62 \<and> c \<noteq> 60"

definition skip_spaces :: "cstring \<Rightarrow> cstring" where
  "skip_spaces p = dropWhile (\<lambda>c. c = 32) p"

text \<open>
  A word ends at a space, a bar or an angle bracket; that character is overwritten by the NUL and
  stepped over (\<^verbatim>\<open>*p = '\0'; p++\<close>).
\<close>

definition take_word :: "cstring \<Rightarrow> cstring \<times> cstring" where
  "take_word p = (takeWhile word_char p, tl (dropWhile word_char p))"

definition empty_stage :: stage where
  "empty_stage = \<lparr>args = [], in_file = None, out_file = None, append_flag = False, background = False\<rparr>"

definition add_arg :: "cstring \<Rightarrow> stage \<Rightarrow> stage" where
  "add_arg w st = (if length (args st) < MAX_ARGS - 1 then st\<lparr>args := args st @ [w]\<rparr> else st)"

lemma length_skip: "length (skip_spaces p) \<le> length p"
  by (simp add: skip_spaces_def length_dropWhile_le)

lemma length_take_word: "length (snd (take_word p)) \<le> length p - 1"
  using length_dropWhile_le [of word_char p] by (auto simp: take_word_def)

text \<open>One turn of the inner loop, at a character that is neither a space, a bar nor the end.\<close>

definition parse_token :: "cstring \<Rightarrow> stage \<Rightarrow> stage \<times> cstring" where
  "parse_token p st =
     (if hd p = 60 then
        (let p = skip_spaces (tl p); (w, p) = take_word p in (st\<lparr>in_file := Some w\<rparr>, p))
      else if hd p = 62 then
        (let p = tl p;
             (app, p) = (if p \<noteq> [] \<and> hd p = 62 then (True, tl p) else (append_flag st, p));
             p = skip_spaces p;
             (w, p) = take_word p
         in (st\<lparr>append_flag := app, out_file := Some w\<rparr>, p))
      else (let (w, p) = take_word p in (add_arg w st, p)))"

lemma parse_token_shorter:
  assumes "p \<noteq> []"
  shows "length (snd (parse_token p st)) < length p"
proof -
  have l: "length (snd (take_word (skip_spaces q))) \<le> length q" for q
    using length_take_word [of "skip_spaces q"] length_skip [of q] by simp
  have "length (snd (take_word (skip_spaces (tl p)))) < length p" "length (snd (take_word (skip_spaces (tl (tl p))))) < length p"
    "length (snd (take_word p)) < length p"
    using assms l [of "tl p"] l [of "tl (tl p)"] length_take_word [of p] by (cases p; auto)+
  then show ?thesis by (auto simp: parse_token_def Let_def case_prod_beta)
qed

function parse_stage :: "cstring \<Rightarrow> stage \<Rightarrow> stage \<times> cstring" where
  "parse_stage p st =
     (if p = [] \<or> hd p = 124 then (st, p)
      else let q = skip_spaces p in
        if q = [] \<or> hd q = 124 then (st, q)
        else parse_stage (snd (parse_token q st)) (fst (parse_token q st)))"
  by pat_completeness auto
termination
proof (relation "measure (\<lambda>(p, st). length p)", goal_cases)
  case (2 p st q)
  then show ?case using parse_token_shorter [of q st] length_skip [of p] by simp
qed simp

declare parse_stage.simps [simp del]

lemma parse_stage_le: "length (snd (parse_stage p st)) \<le> length p"
proof (induction p st rule: parse_stage.induct)
  case (1 p st)
  let ?q = "skip_spaces p"
  show ?case
  proof (cases "p = [] \<or> hd p = 124 \<or> ?q = [] \<or> hd ?q = 124")
    case True
    then show ?thesis by (subst parse_stage.simps) (auto simp: Let_def length_skip)
  next
    case False
    then have "length (snd (parse_stage (snd (parse_token ?q st)) (fst (parse_token ?q st)))) \<le> length (snd (parse_token ?q st))"
      using "1.IH" by simp
    then show ?thesis using False parse_token_shorter [of ?q st] length_skip [of p] by (subst parse_stage.simps) (auto simp: Let_def)
  qed
qed

lemma parse_stage_less:
  assumes "p \<noteq> []" "hd p \<noteq> 124"
  shows "length (snd (parse_stage p st)) < length p"
proof -
  let ?q = "skip_spaces p" and ?t = "parse_token (skip_spaces p) st"
  have a: "?q = [] \<or> hd ?q = 124 \<Longrightarrow> length ?q < length p"
    using assms by (cases p) (auto simp: skip_spaces_def le_imp_less_Suc length_dropWhile_le split: if_splits)
  have "?q \<noteq> [] \<Longrightarrow> length (snd (parse_stage (snd ?t) (fst ?t))) < length ?q"
    using parse_token_shorter [of ?q st] parse_stage_le [of "snd ?t" "fst ?t"] by simp
  then show ?thesis using assms a length_skip [of p] by (subst parse_stage.simps) (auto simp: Let_def)
qed

text \<open>
  The outer loop; a stage without arguments is not counted. The input gets shorter with every
  turn.
\<close>

definition next_stage :: "cstring \<Rightarrow> cstring" where
  "next_stage q = (if q \<noteq> [] \<and> hd q = 124 then skip_spaces (tl q) else q)"

lemma length_next_stage: "length (next_stage q) \<le> length q" "q \<noteq> [] \<Longrightarrow> hd q = 124 \<Longrightarrow> length (next_stage q) < length q"
  using length_skip [of "tl q"] by (cases q; auto simp: next_stage_def)+

function parse_stages :: "cstring \<Rightarrow> stage list \<Rightarrow> stage list" where
  "parse_stages p sts =
     (if p = [] \<or> length sts \<ge> MAX_STAGES then sts
      else parse_stages (next_stage (snd (parse_stage p empty_stage)))
             (if args (fst (parse_stage p empty_stage)) \<noteq> [] then sts @ [fst (parse_stage p empty_stage)] else sts))"
  by pat_completeness auto
termination
proof (relation "measure (\<lambda>(p, sts). length p)", goal_cases)
  case (2 p sts)
  show ?case
  proof (cases "hd p = 124")
    case True
    then have "parse_stage p empty_stage = (empty_stage, p)" by (subst parse_stage.simps) simp
    then show ?thesis using 2 True length_next_stage(2) by simp
  next
    case False
    then show ?thesis using 2 parse_stage_less [of p empty_stage] length_next_stage(1) [of "snd (parse_stage p empty_stage)"] by auto
  qed
qed simp

declare parse_stages.simps [simp del]

definition AMP :: cstring where
  "AMP = [38]"

definition parse_line :: "cstring \<Rightarrow> stage list" where
  "parse_line line =
     (let p = skip_spaces line
      in if p = [] then []
         else (let sts = parse_stages p []
               in if sts \<noteq> [] \<and> args (last sts) \<noteq> [] \<and> last (args (last sts)) = AMP
                  then butlast sts @ [(last sts)\<lparr>background := True, args := butlast (args (last sts))\<rparr>]
                  else sts))"

definition HELP :: cstring where "HELP = [104, 101, 108, 112]"

definition CLEAR :: cstring where "CLEAR = [99, 108, 101, 97, 114]"

definition CD :: cstring where "CD = [99, 100]"

definition PWD :: cstring where "PWD = [112, 119, 100]"

definition JOBS :: cstring where "JOBS = [106, 111, 98, 115]"

definition FG :: cstring where "FG = [102, 103]"

definition BG :: cstring where "BG = [98, 103]"

definition is_builtin :: "stage \<Rightarrow> bool" where
  "is_builtin st \<longleftrightarrow> args st \<noteq> [] \<and> hd (args st) \<in> {HELP, CLEAR, CD, PWD, JOBS, FG, BG}"

text \<open>The command line for \<^verbatim>\<open>exec\<close>: the arguments with a space before all but the first.\<close>

definition build_cmdline :: "cstring list \<Rightarrow> cstring" where
  "build_cmdline as =
     fold (\<lambda>i pos. (if i > 0 then pos @ [32] else pos) @ as ! i) [0..<length as] []"

section \<open>Running a line\<close>

text \<open>
  The system calls of the shell in the order it makes them; the last argument of \<open>Forked\<close> is the
  answer of \<^verbatim>\<open>fork\<close> in the parent. \<open>Builtin\<close> marks the call of
  \<^verbatim>\<open>run_command\<close> in a child, \<open>Spawned\<close> the fork in \<^verbatim>\<open>run_command\<close> itself. What the shell
  prints is left out.
\<close>

datatype shell_call =
    Piped "(int \<times> int) option"
  | Forked stage int int int int
  | Closed int
  | Duped int int
  | Opened cstring "8 word list" int
  | Setpgid int int
  | Killed int nat
  | Waited
  | Waitpid int
  | Signal nat
  | Builtin "cstring list"
  | Chdir cstring
  | Getcwd
  | Spawned cstring int
  | Execed cstring
  | Exited

text \<open>The child of \<^verbatim>\<open>run_stage\<close>; \<open>fi\<close> and \<open>fo\<close> are the answers of the two calls of \<^verbatim>\<open>open\<close>.\<close>

definition redirect :: "cstring option \<Rightarrow> 8 word list \<Rightarrow> int \<Rightarrow> int \<Rightarrow> shell_call list" where
  "redirect f mode fd std =
     (case f of None \<Rightarrow> []
      | Some f \<Rightarrow> Opened f mode fd # (if fd \<ge> 0 then [Duped fd std, Closed fd] else [Exited]))"

definition exits :: "shell_call list \<Rightarrow> bool" where
  "exits cs \<longleftrightarrow> Exited \<in> set cs"

definition stage_child :: "int \<Rightarrow> int \<Rightarrow> stage \<Rightarrow> int \<Rightarrow> int \<Rightarrow> int \<Rightarrow> shell_call list" where
  "stage_child fi fo st pipe_in pipe_out extra_fd =
     (let ends = (if extra_fd \<ge> 0 then [Closed extra_fd] else []) @
                 (if pipe_in \<ge> 0 then [Duped pipe_in 0, Closed pipe_in] else []) @
                 (if pipe_out \<ge> 0 then [Duped pipe_out 1, Closed pipe_out] else []);
          ri = redirect (in_file st) [114] fi 0;
          ro = redirect (out_file st) (if append_flag st then [97] else [119]) fo 1
      in ends @ ri @
         (if exits ri then []
          else ro @
            (if exits ro then []
             else [Signal SIGINT, Signal SIGTSTP] @
               (if is_builtin st then [Builtin (args st), Exited] else [Execed (build_cmdline (args st)), Exited]))))"

text \<open>What the kernel answers: for the \<open>i\<close>th stage of a pipeline, and after the shell has waited.\<close>

record answers =
  pipe_answer :: "nat \<Rightarrow> (int \<times> int) option"
  fork_answer :: "nat \<Rightarrow> int"
  still_alive :: "int \<Rightarrow> bool"

record launch =
  prev_fd :: int
  pipeline_pids :: "int list"
  calls :: "shell_call list"

definition record_child :: "int \<Rightarrow> launch \<Rightarrow> launch" where
  "record_child p l =
     (if p > 0 then
        let ps = pipeline_pids l @ [p]
        in l\<lparr>pipeline_pids := ps, calls := calls l @ [Setpgid p (hd ps)]\<rparr>
      else l)"

text \<open>
  The turns of the loop over the stages; the last stage has no pipe behind it. When
  \<^verbatim>\<open>pipe\<close> fails the children are killed and waited for, and the loop is left.
\<close>

fun launch_stages :: "answers \<Rightarrow> nat \<Rightarrow> stage list \<Rightarrow> launch \<Rightarrow> launch" where
  "launch_stages a i [] l = l"
| "launch_stages a i (st # sts) l =
     (if sts = [] then
        record_child (fork_answer a i)
          (l\<lparr>calls := calls l @ [Forked st (prev_fd l) (- 1) (- 1) (fork_answer a i)] @
               (if prev_fd l \<ge> 0 then [Closed (prev_fd l)] else [])\<rparr>)
      else
        (case pipe_answer a i of
           None \<Rightarrow> l\<lparr>calls := calls l @ [Piped None] @ map (\<lambda>p. Killed p SIGKILL) (pipeline_pids l) @
                    map (\<lambda>p. Waited) (pipeline_pids l)\<rparr>
         | Some (r, w) \<Rightarrow>
             launch_stages a (Suc i) sts
               (record_child (fork_answer a i)
                 (l\<lparr>calls := calls l @ [Piped (Some (r, w)), Forked st (prev_fd l) w r (fork_answer a i)] @
                      (if prev_fd l \<ge> 0 then [Closed (prev_fd l)] else []) @ (if w \<ge> 0 then [Closed w] else []),
                    prev_fd := (if w \<ge> 0 then r else prev_fd l)\<rparr>))))"

text \<open>After the children have been waited for, the job has stopped or is done.\<close>

definition settle_job :: "answers \<Rightarrow> int \<Rightarrow> job_table \<Rightarrow> job_table" where
  "settle_job a p t =
     (let idx = find_job_by_pid p t
      in if idx \<ge> 0 then set_status (nat idx) (if still_alive a p then JOB_STOPPED else JOB_DONE) t else t)"

definition run_single :: "answers \<Rightarrow> stage \<Rightarrow> job_table \<Rightarrow> shell_call list \<times> job_table" where
  "run_single a st t =
     (let p = fork_answer a 0; cs = [Forked st (- 1) (- 1) (- 1) p]
      in if p > 0 then
           (let t = add_job p p (hd (args st)) t
            in if background st then (cs @ [Setpgid p p, Setpgid 0 0], t)
               else (cs @ [Setpgid p p, Waited, Killed p 0, Setpgid 0 0], settle_job a p t))
         else (cs, t))"

definition run_pipeline :: "answers \<Rightarrow> stage list \<Rightarrow> job_table \<Rightarrow> shell_call list \<times> job_table" where
  "run_pipeline a sts t =
     (let l = launch_stages a 0 sts \<lparr>prev_fd = - 1, pipeline_pids = [], calls = []\<rparr>;
          ps = pipeline_pids l
      in if ps \<noteq> [] then
           (let t = add_job (last ps) (hd ps) (hd (args (hd sts))) t
            in if background (last sts) then (calls l @ [Setpgid 0 0], t)
               else (calls l @ map (\<lambda>p. Waited) ps @ [Killed (last ps) 0, Setpgid 0 0], settle_job a (last ps) t))
         else (calls l, t))"

text \<open>The job commands, after the reported children have been struck out.\<close>

definition run_fg :: "answers \<Rightarrow> int list \<Rightarrow> cstring list \<Rightarrow> job_table \<Rightarrow> shell_call list \<times> job_table" where
  "run_fg a pids as t =
     (let t = compact_jobs (reap_background_jobs pids t)
      in case fg_target as t of
           None \<Rightarrow> ([], t)
         | Some i \<Rightarrow>
             let p = job_pid (jobs t ! i)
             in ([Setpgid p p] @ (if status (jobs t ! i) = JOB_STOPPED then [Killed p SIGCONT] else []) @
                   [Waitpid p, Killed p 0, Setpgid 0 0],
                 if still_alive a p then set_status i JOB_STOPPED t else remove_job i t))"

definition run_bg :: "int list \<Rightarrow> cstring list \<Rightarrow> job_table \<Rightarrow> shell_call list \<times> job_table" where
  "run_bg pids as t =
     (let t = compact_jobs (reap_background_jobs pids t)
      in case bg_target as t of
           None \<Rightarrow> ([], t)
         | Some i \<Rightarrow> ([Killed (job_pid (jobs t ! i)) SIGCONT], set_status i JOB_RUNNING t))"

definition run_command :: "answers \<Rightarrow> int list \<Rightarrow> cstring list \<Rightarrow> job_table \<Rightarrow> shell_call list \<times> job_table" where
  "run_command a pids as t =
     (if as = [] \<or> hd as = HELP \<or> hd as = CLEAR then ([], t)
      else if hd as = CD then ([Chdir (if length as < 2 then [47] else as ! 1)], t)
      else if hd as = PWD then ([Getcwd], t)
      else if hd as = JOBS then ([], compact_jobs (reap_background_jobs pids t))
      else if hd as = FG then run_fg a pids as t
      else if hd as = BG then run_bg pids as t
      else let p = fork_answer a 0
           in (Spawned (build_cmdline as) p # (if p > 0 then [Setpgid p p, Waited, Setpgid 0 0] else []), t))"

text \<open>
  One turn of the main loop on a line that has been parsed; \<open>pids\<close> are the children reported while a
  job command stage_runs.
\<close>

definition run_line :: "answers \<Rightarrow> int list \<Rightarrow> stage list \<Rightarrow> job_table \<Rightarrow> shell_call list \<times> job_table" where
  "run_line a pids sts t =
     (if length sts = 1 \<and> args (hd sts) \<noteq> [] then
        (if is_builtin (hd sts) \<and> in_file (hd sts) = None \<and> out_file (hd sts) = None \<and> \<not> background (hd sts)
         then run_command a pids (args (hd sts)) t
         else run_single a (hd sts) t)
      else if length sts > 1 then run_pipeline a sts t
      else ([], t))"

section \<open>What parsing a line gives\<close>

definition plain_word :: "cstring \<Rightarrow> bool" where
  "plain_word w \<longleftrightarrow> w \<noteq> [] \<and> list_all word_char w"

lemma plain_word_hd:
  assumes "plain_word w"
  shows "hd (w @ r) \<noteq> 32" "hd (w @ r) \<noteq> 124" "hd (w @ r) \<noteq> 60" "hd (w @ r) \<noteq> 62"
  using assms by (cases w; auto simp: plain_word_def word_char_def)+

lemma take_word_plain:
  assumes "plain_word w"
  shows "take_word (w @ 32 # r) = (w, r)"
proof -
  have "\<forall>c\<in>set w. word_char c" using assms by (simp add: plain_word_def list_all_iff)
  moreover have "\<not> word_char 32" by (simp add: word_char_def)
  ultimately show ?thesis by (simp add: take_word_def)
qed

lemma skip_plain: "plain_word w \<Longrightarrow> skip_spaces (w @ r) = w @ r"
  using plain_word_hd(1) [of w r] by (cases w) (auto simp: skip_spaces_def plain_word_def)

lemma parse_stage_Nil [simp]: "parse_stage [] st = (st, [])"
  by (subst parse_stage.simps) simp

lemma parse_stage_bar [simp]: "parse_stage (124 # r) st = (st, 124 # r)"
  by (subst parse_stage.simps) simp

lemma parse_stage_token:
  assumes "p \<noteq> []" "hd p \<noteq> 32" "hd p \<noteq> 124"
  shows "parse_stage p st = parse_stage (snd (parse_token p st)) (fst (parse_token p st))"
proof -
  have "skip_spaces p = p" using assms by (cases p) (auto simp: skip_spaces_def)
  then show ?thesis using assms by (subst parse_stage.simps) simp
qed

lemma parse_stage_word: "plain_word w \<Longrightarrow> parse_stage (w @ 32 # r) st = parse_stage r (add_arg w st)"
  using plain_word_hd [of w "32 # r"] by (subst parse_stage_token) (auto simp: parse_token_def take_word_plain)

lemma skip_one: "skip_spaces (32 # r) = skip_spaces r"
  by (simp add: skip_spaces_def)

lemma parse_stage_in: "plain_word f \<Longrightarrow> parse_stage (60 # 32 # f @ 32 # r) st = parse_stage r (st\<lparr>in_file := Some f\<rparr>)"
  by (subst parse_stage_token) (simp_all add: parse_token_def skip_one skip_plain take_word_plain)

lemma parse_stage_out: "plain_word f \<Longrightarrow> parse_stage (62 # 32 # f @ 32 # r) st = parse_stage r (st\<lparr>out_file := Some f\<rparr>)"
  by (subst parse_stage_token) (simp_all add: parse_token_def skip_one skip_plain take_word_plain)

lemma parse_stage_append:
  "plain_word f \<Longrightarrow> parse_stage (62 # 62 # 32 # f @ 32 # r) st = parse_stage r (st\<lparr>append_flag := True, out_file := Some f\<rparr>)"
  by (subst parse_stage_token) (simp_all add: parse_token_def skip_one skip_plain take_word_plain)

definition spaced :: "cstring list \<Rightarrow> cstring" where
  "spaced ws = concat (map (\<lambda>w. w @ [32]) ws)"

lemma parse_stage_words:
  "list_all plain_word ws \<Longrightarrow> length (args st) + length ws \<le> 15 \<Longrightarrow>
   parse_stage (spaced ws @ r) st = parse_stage r (st\<lparr>args := args st @ ws\<rparr>)"
  by (induction ws arbitrary: st) (simp_all add: spaced_def parse_stage_word add_arg_def MAX_ARGS_def)

text \<open>The text of a stage: its words, then its redirections.\<close>

definition redirections :: "stage \<Rightarrow> cstring" where
  "redirections st =
     (case in_file st of None \<Rightarrow> [] | Some f \<Rightarrow> [60, 32] @ f @ [32]) @
     (case out_file st of None \<Rightarrow> [] | Some f \<Rightarrow> (if append_flag st then [62, 62] else [62]) @ [32] @ f @ [32])"

definition stage_text :: "stage \<Rightarrow> cstring" where
  "stage_text st = spaced (args st) @ redirections st"

definition wf_stage :: "stage \<Rightarrow> bool" where
  "wf_stage st \<longleftrightarrow> args st \<noteq> [] \<and> length (args st) \<le> 15 \<and> list_all plain_word (args st) \<and>
     pred_option plain_word (in_file st) \<and> pred_option plain_word (out_file st) \<and>
     (out_file st = None \<longrightarrow> \<not> append_flag st) \<and> \<not> background st"

lemma parse_stage_redirections:
  assumes "pred_option plain_word (in_file s)" "pred_option plain_word (out_file s)" "out_file s = None \<longrightarrow> \<not> append_flag s"
    "in_file st = None" "out_file st = None" "\<not> append_flag st"
  shows "parse_stage (redirections s @ r) st =
    parse_stage r (st\<lparr>in_file := in_file s, out_file := out_file s, append_flag := append_flag s\<rparr>)"
  using assms
  by (cases "in_file s"; cases "out_file s"; cases "append_flag s"; cases st)
    (simp_all add: redirections_def parse_stage_in parse_stage_out parse_stage_append)

lemma parse_stage_text:
  assumes "wf_stage s" "list_all plain_word ws" "length (args s) + length ws \<le> 15"
  shows "parse_stage (stage_text s @ spaced ws @ r) empty_stage = parse_stage r (s\<lparr>args := args s @ ws\<rparr>)"
proof -
  have e: "(empty_stage\<lparr>args := args s\<rparr>)\<lparr>in_file := in_file s, out_file := out_file s, append_flag := append_flag s\<rparr> = s"
    using assms(1) by (cases s) (simp add: empty_stage_def wf_stage_def)
  have "parse_stage (stage_text s @ spaced ws @ r) empty_stage =
      parse_stage (redirections s @ spaced ws @ r) (empty_stage\<lparr>args := args s\<rparr>)"
    using assms parse_stage_words [of "args s" empty_stage "redirections s @ spaced ws @ r"]
    by (simp add: stage_text_def wf_stage_def empty_stage_def)
  also have "\<dots> = parse_stage (spaced ws @ r) (s\<lparr>args := args s\<rparr>)"
    using assms parse_stage_redirections [of s "empty_stage\<lparr>args := args s\<rparr>" "spaced ws @ r"] unfolding e
    by (simp add: wf_stage_def) (simp add: empty_stage_def)
  also have "\<dots> = parse_stage r (s\<lparr>args := args s @ ws\<rparr>)"
    using parse_stage_words [of ws s r] assms by simp
  finally show ?thesis .
qed

text \<open>The text of a pipeline, with the words \<open>ws\<close> after its last stage.\<close>

fun pipeline_text :: "stage list \<Rightarrow> cstring list \<Rightarrow> cstring" where
  "pipeline_text [] ws = []"
| "pipeline_text [st] ws = stage_text st @ spaced ws"
| "pipeline_text (st # sts) ws = stage_text st @ [124, 32] @ pipeline_text sts ws"

lemma wf_stage_text:
  assumes "wf_stage s"
  shows "stage_text s \<noteq> []" "hd (stage_text s @ r) \<noteq> 32" "skip_spaces (stage_text s @ r) = stage_text s @ r"
proof -
  obtain a as where a: "args s = a # as" "plain_word a" using assms by (cases "args s") (auto simp: wf_stage_def)
  show b: "stage_text s \<noteq> []" using a by (simp add: stage_text_def spaced_def)
  show c: "hd (stage_text s @ r) \<noteq> 32" using a plain_word_hd [of a] by (simp add: stage_text_def spaced_def)
  show "skip_spaces (stage_text s @ r) = stage_text s @ r" using b c by (cases "stage_text s @ r") (auto simp: skip_spaces_def)
qed

lemma pipeline_text_start:
  assumes "sts \<noteq> []" "wf_stage (hd sts)"
  shows "pipeline_text sts ws \<noteq> []" "skip_spaces (pipeline_text sts ws) = pipeline_text sts ws"
  using assms wf_stage_text [of "hd sts"] by (cases "(sts, ws)" rule: pipeline_text.cases; auto)+

definition add_words :: "cstring list \<Rightarrow> stage list \<Rightarrow> stage list" where
  "add_words ws sts = butlast sts @ [(last sts)\<lparr>args := args (last sts) @ ws\<rparr>]"

lemma parse_stages_text:
  assumes "sts \<noteq> []" "list_all wf_stage sts" "list_all plain_word ws" "length (args (last sts)) + length ws \<le> 15"
    "length acc + length sts \<le> 4"
  shows "parse_stages (pipeline_text sts ws) acc = acc @ add_words ws sts"
  using assms
proof (induction sts ws arbitrary: acc rule: pipeline_text.induct)
  case (2 st ws)
  then have "parse_stage (stage_text st @ spaced ws) empty_stage = (st\<lparr>args := args st @ ws\<rparr>, [])"
    using parse_stage_text [of st ws "[]"] by simp
  then show ?case using 2 wf_stage_text(1) [of st]
    by (subst parse_stages.simps) (simp add: MAX_STAGES_def wf_stage_def next_stage_def add_words_def parse_stages.simps [of "[]"])
next
  case (3 st st' sts ws)
  let ?r = "124 # 32 # pipeline_text (st' # sts) ws"
  have p: "parse_stage (stage_text st @ ?r) empty_stage = (st, ?r)"
    using parse_stage_text [of st "[]" ?r] 3 by (simp add: spaced_def wf_stage_def)
  have n: "next_stage ?r = pipeline_text (st' # sts) ws"
    using pipeline_text_start(2) [of "st' # sts" ws] 3 by (simp add: next_stage_def skip_one)
  have "parse_stages (pipeline_text (st # st' # sts) ws) acc = parse_stages (pipeline_text (st' # sts) ws) (acc @ [st])"
    using 3 wf_stage_text(1) [of st] p n by (subst parse_stages.simps) (simp add: MAX_STAGES_def wf_stage_def)
  then show ?case using 3 by (simp add: add_words_def)
qed simp

section \<open>A trailing space\<close>

text \<open>A space at the end of the line changes nothing.\<close>

lemma skip_trailing: "skip_spaces (p @ [32]) = (if skip_spaces p = [] then [] else skip_spaces p @ [32])"
  by (induction p) (auto simp: skip_spaces_def)

lemma not_word_space [simp]: "\<not> word_char 32"
  by (simp add: word_char_def)

lemma take_word_trailing:
  "fst (take_word (p @ [32])) = fst (take_word p)"
  "snd (take_word (p @ [32])) = snd (take_word p) @ [32] \<or> snd (take_word p) = [] \<and> snd (take_word (p @ [32])) = []"
  by (induction p) (auto simp: take_word_def)

lemma take_skip_trailing:
  "fst (take_word (skip_spaces (p @ [32]))) = fst (take_word (skip_spaces p))"
  "snd (take_word (skip_spaces (p @ [32]))) = snd (take_word (skip_spaces p)) @ [32] \<or>
   snd (take_word (skip_spaces p)) = [] \<and> snd (take_word (skip_spaces (p @ [32]))) = []"
  using take_word_trailing [of "skip_spaces p"] by (auto simp: skip_trailing) (simp add: take_word_def)

lemma parse_token_trailing:
  assumes "p \<noteq> []" "hd p \<noteq> 32"
  shows "fst (parse_token (p @ [32]) st) = fst (parse_token p st)"
    "snd (parse_token (p @ [32]) st) = snd (parse_token p st) @ [32] \<or>
     snd (parse_token p st) = [] \<and> snd (parse_token (p @ [32]) st) = []"
proof -
  obtain c q where p: "p = c # q" using assms by (cases p) auto
  have h: "q @ [32] \<noteq> [] \<and> hd (q @ [32]) = 62 \<longleftrightarrow> q \<noteq> [] \<and> hd q = 62" by (cases q) auto
  have t: "q \<noteq> [] \<Longrightarrow> tl (q @ [32]) = tl q @ [32]" by simp
  show "fst (parse_token (p @ [32]) st) = fst (parse_token p st)"
    using take_word_trailing(1) [of p] take_skip_trailing(1) [of q] take_skip_trailing(1) [of "tl q"] h t
    by (simp add: parse_token_def p Let_def case_prod_beta) (auto simp: skip_spaces_def)
  show "snd (parse_token (p @ [32]) st) = snd (parse_token p st) @ [32] \<or>
     snd (parse_token p st) = [] \<and> snd (parse_token (p @ [32]) st) = []"
    using take_word_trailing(2) [of p] take_skip_trailing(2) [of q] take_skip_trailing(2) [of "tl q"] h t
    by (simp add: parse_token_def p Let_def case_prod_beta) (auto simp: skip_spaces_def take_word_def)
qed

lemma hd_skip_spaces: "skip_spaces p \<noteq> [] \<Longrightarrow> hd (skip_spaces p) \<noteq> 32"
  using hd_dropWhile [of "\<lambda>c. c = 32" p] by (simp add: skip_spaces_def)

lemma parse_stage_space [simp]: "parse_stage [32] st = (st, [])"
  by (subst parse_stage.simps) (simp add: skip_spaces_def)

lemma parse_stage_trailing:
  "parse_stage (p @ [32]) st =
    (fst (parse_stage p st), if snd (parse_stage p st) = [] then [] else snd (parse_stage p st) @ [32])"
proof (induction p st rule: parse_stage.induct)
  case (1 p st)
  let ?q = "skip_spaces p"
  let ?t = "parse_token ?q st" and ?u = "parse_token (?q @ [32]) st"
  consider "p = []" | "p \<noteq> []" "hd p = 124" | "p \<noteq> []" "hd p \<noteq> 124" "?q = [] \<or> hd ?q = 124"
    | "p \<noteq> []" "hd p \<noteq> 124" "?q \<noteq> []" "hd ?q \<noteq> 124" by blast
  then show ?case
  proof cases
    case 3
    then show ?thesis by (auto simp: parse_stage.simps [of p] parse_stage.simps [of "p @ [32]"] skip_trailing)
  next
    case 4
    have l: "parse_stage p st = parse_stage (snd ?t) (fst ?t)" using 4 by (subst parse_stage.simps) (simp add: Let_def)
    have r: "parse_stage (p @ [32]) st = parse_stage (snd ?u) (fst ?t)"
      using 4 parse_token_trailing(1) [of ?q st] hd_skip_spaces [of p] by (subst parse_stage.simps) (simp add: skip_trailing)
    have ih: "parse_stage (snd ?t @ [32]) (fst ?t) =
        (fst (parse_stage (snd ?t) (fst ?t)),
         if snd (parse_stage (snd ?t) (fst ?t)) = [] then [] else snd (parse_stage (snd ?t) (fst ?t)) @ [32])"
      using "1.IH" 4 by simp
    consider "snd ?u = snd ?t @ [32]" | "snd ?t = []" "snd ?u = []"
      using parse_token_trailing(2) [of ?q st] 4 hd_skip_spaces [of p] by blast
    then show ?thesis
    proof cases
      case 1
      then show ?thesis using ih l r by simp
    next
      case 2
      then show ?thesis using l r by simp
    qed
  qed (auto simp: parse_stage.simps [of p] parse_stage.simps [of "p @ [32]"])
qed

lemma next_stage_trailing:
  "q \<noteq> [] \<Longrightarrow> next_stage (q @ [32]) = next_stage q @ [32] \<or> next_stage q = [] \<and> next_stage (q @ [32]) = []"
  by (auto simp: next_stage_def skip_trailing)

lemma parse_stages_space: "parse_stages [32] sts = sts" "parse_stages [] sts = sts"
  by (simp_all add: parse_stages.simps [of "[32]"] parse_stages.simps [of "[]"] next_stage_def empty_stage_def)

lemma parse_stages_trailing: "parse_stages (p @ [32]) sts = parse_stages p sts"
proof (induction p sts rule: parse_stages.induct)
  case (1 p sts)
  let ?r = "parse_stage p empty_stage"
  let ?sts = "if args (fst ?r) \<noteq> [] then sts @ [fst ?r] else sts"
  show ?case
  proof (cases "p = [] \<or> length sts \<ge> MAX_STAGES")
    case True
    then show ?thesis by (cases "p = []") (simp_all add: parse_stages_space parse_stages.simps [of p] parse_stages.simps [of "p @ [32]"])
  next
    case False
    have u: "parse_stages p sts = parse_stages (next_stage (snd ?r)) ?sts" using False by (subst parse_stages.simps) simp
    have v: "parse_stages (p @ [32]) sts = parse_stages (next_stage (if snd ?r = [] then [] else snd ?r @ [32])) ?sts"
      using False by (subst parse_stages.simps) (simp add: parse_stage_trailing)
    have w: "parse_stages (next_stage (snd ?r) @ [32]) ?sts = parse_stages (next_stage (snd ?r)) ?sts"
      using "1.IH" False by simp
    have "next_stage (if snd ?r = [] then [] else snd ?r @ [32]) = next_stage (snd ?r) @ [32] \<or>
        next_stage (if snd ?r = [] then [] else snd ?r @ [32]) = next_stage (snd ?r)"
      using next_stage_trailing [of "snd ?r"] by auto
    then show ?thesis using u v w by metis
  qed
qed

lemma parse_line_trailing: "parse_line (p @ [32]) = parse_line p"
  by (simp add: parse_line_def Let_def skip_trailing parse_stages_trailing)

section \<open>Every line gives plain words that fit the command line buffer\<close>

definition cost :: "cstring list \<Rightarrow> nat" where
  "cost ws = (\<Sum>w\<leftarrow>ws. Suc (length w))"

definition arg_words :: "stage \<Rightarrow> bool" where
  "arg_words st \<longleftrightarrow> list_all plain_word (args st) \<and> length (args st) \<le> 15"

lemma take_word_cost:
  "Suc (length (fst (take_word p))) + length (snd (take_word p)) \<le> length p + (if snd (take_word p) = [] then 1 else 0)"
proof -
  let ?a = "takeWhile word_char p" and ?b = "dropWhile word_char p"
  have "length p = length ?a + length ?b" by (metis length_append takeWhile_dropWhile_id)
  then show ?thesis unfolding take_word_def by (cases ?b) (auto simp del: dropWhile_eq_Nil_conv)
qed

lemma parse_token_inv:
  assumes "arg_words st" "p \<noteq> []" "hd p \<noteq> 32" "hd p \<noteq> 124"
  shows "arg_words (fst (parse_token p st))"
    "cost (args (fst (parse_token p st))) + length (snd (parse_token p st)) \<le>
     cost (args st) + length p + (if snd (parse_token p st) = [] then 1 else 0)"
proof -
  have r: "length (snd (parse_token p st)) < length p" using parse_token_shorter assms by blast
  have w: "plain_word (fst (take_word p))" if "hd p \<noteq> 60" "hd p \<noteq> 62"
    using assms that set_takeWhileD [of _ word_char p] by (cases p) (auto simp: plain_word_def take_word_def word_char_def list_all_iff)
  have e: "parse_token p st = (add_arg (fst (take_word p)) st, snd (take_word p))" if "hd p \<noteq> 60" "hd p \<noteq> 62"
    using that by (simp add: parse_token_def case_prod_beta)
  have k: "args (fst (parse_token p st)) = args st" if "hd p = 60 \<or> hd p = 62"
    using that by (auto simp: parse_token_def Let_def case_prod_beta)
  show "arg_words (fst (parse_token p st))"
    using assms(1) w e k by (cases "hd p = 60 \<or> hd p = 62") (auto simp: arg_words_def add_arg_def MAX_ARGS_def)
  show "cost (args (fst (parse_token p st))) + length (snd (parse_token p st)) \<le>
     cost (args st) + length p + (if snd (parse_token p st) = [] then 1 else 0)"
    using r e k take_word_cost [of p] by (cases "hd p = 60 \<or> hd p = 62") (auto simp: add_arg_def cost_def)
qed

lemma parse_stage_inv:
  "arg_words st \<Longrightarrow> arg_words (fst (parse_stage p st)) \<and>
     cost (args (fst (parse_stage p st))) + length (snd (parse_stage p st)) \<le> cost (args st) + length p + (if p = [] then 0 else 1)"
proof (induction p st rule: parse_stage.induct)
  case (1 p st)
  let ?q = "skip_spaces p"
  let ?t = "parse_token ?q st"
  show ?case
  proof (cases "p = [] \<or> hd p = 124 \<or> ?q = [] \<or> hd ?q = 124")
    case True
    then show ?thesis using 1(2) length_skip [of p] by (subst (1 2 3) parse_stage.simps) (auto simp: Let_def)
  next
    case False
    note inv = parse_token_inv [OF "1.prems", of ?q]
    have "parse_stage p st = parse_stage (snd ?t) (fst ?t)" using False by (subst parse_stage.simps) (simp add: Let_def)
    moreover have "arg_words (fst (parse_stage (snd ?t) (fst ?t))) \<and>
        cost (args (fst (parse_stage (snd ?t) (fst ?t)))) + length (snd (parse_stage (snd ?t) (fst ?t)))
          \<le> cost (args (fst ?t)) + length (snd ?t) + (if snd ?t = [] then 0 else 1)"
      using "1.IH" False inv(1) hd_skip_spaces [of p] by simp
    ultimately show ?thesis using inv(2) False hd_skip_spaces [of p] length_skip [of p] by (auto split: if_splits)
  qed
qed

lemma parse_stages_inv:
  assumes "\<forall>st\<in>set sts. arg_words st \<and> cost (args st) \<le> Suc n" "length p \<le> n" "st \<in> set (parse_stages p sts)"
  shows "arg_words st \<and> cost (args st) \<le> Suc n"
  using assms
proof (induction p sts rule: parse_stages.induct)
  case (1 p sts)
  let ?r = "parse_stage p empty_stage"
  have e: "arg_words empty_stage" "cost (args empty_stage) = 0" by (simp_all add: arg_words_def empty_stage_def cost_def)
  have n: "arg_words (fst ?r)" "cost (args (fst ?r)) \<le> Suc n" "length (next_stage (snd ?r)) \<le> n"
    using parse_stage_inv [OF e(1), of p] e(2) "1.prems"(2) parse_stage_le [of p empty_stage] length_next_stage(1) [of "snd ?r"]
    by (auto split: if_splits)
  show ?case
  proof (cases "p = [] \<or> length sts \<ge> MAX_STAGES")
    case True
    then have "parse_stages p sts = sts" by (subst parse_stages.simps) simp
    then show ?thesis using "1.prems" by simp
  next
    case False
    then have "st \<in> set (parse_stages (next_stage (snd ?r)) (if args (fst ?r) \<noteq> [] then sts @ [fst ?r] else sts))"
      using "1.prems"(3) by (subst (asm) parse_stages.simps) simp
    then show ?thesis using "1.IH" False n "1.prems"(1) by simp
  qed
qed

lemma parse_line_inv:
  assumes "st \<in> set (parse_line line)"
  shows "arg_words st \<and> cost (args st) \<le> Suc (length line)"
proof -
  let ?sts = "parse_stages (skip_spaces line) []"
  have a: "arg_words x \<and> cost (args x) \<le> Suc (length line)" if "x \<in> set ?sts" for x
    using parse_stages_inv [of "[]" "length line" "skip_spaces line" x] that length_skip [of line] by simp
  have b: "arg_words (x\<lparr>background := True, args := butlast (args x)\<rparr>)" "cost (butlast (args x)) \<le> cost (args x)" if "arg_words x" for x
    using that in_set_butlastD [of _ "args x"]
    by (auto simp: arg_words_def list_all_iff) (cases "args x" rule: rev_cases; simp add: cost_def)
  have "st \<in> set ?sts \<or> ?sts \<noteq> [] \<and> st = (last ?sts)\<lparr>background := True, args := butlast (args (last ?sts))\<rparr>"
    using assms in_set_butlastD [of st ?sts] by (auto simp: parse_line_def Let_def split: if_splits)
  then show ?thesis
  proof
    assume c: "?sts \<noteq> [] \<and> st = (last ?sts)\<lparr>background := True, args := butlast (args (last ?sts))\<rparr>"
    then show ?thesis using a [of "last ?sts"] b [of "last ?sts"] by (auto intro: order_trans)
  qed (use a in blast)
qed

lemma build_cmdline_snoc:
  "build_cmdline (as @ [a]) = (if as = [] then a else build_cmdline as @ [32] @ a)"
proof -
  have "fold (\<lambda>i pos. (if i > 0 then pos @ [32] else pos) @ (as @ [a]) ! i) [0..<length as] [] = build_cmdline as"
    unfolding build_cmdline_def by (rule fold_cong) (auto simp: nth_append)
  then show ?thesis by (simp add: build_cmdline_def)
qed

lemma length_build_cmdline: "length (build_cmdline as) = cost as - 1"
proof (induction as rule: rev_induct)
  case (snoc a as)
  have "as \<noteq> [] \<Longrightarrow> cost as > 0" by (cases as) (simp_all add: cost_def)
  then show ?case using snoc by (simp add: build_cmdline_snoc cost_def)
qed (simp add: build_cmdline_def cost_def)

lemma words_snoc:
  assumes "SPACE \<notin> set w" "w \<noteq> []"
  shows "words (p @ SPACE # w) = words p @ [w]"
proof -
  have "Exec.fields (p @ SPACE # w) = Exec.fields p @ [w]"
    using fields_word [OF assms(1)] by (induction p) auto
  then show ?thesis using assms by (simp add: words_def)
qed

lemma words_build_cmdline: "list_all plain_word as \<Longrightarrow> words (build_cmdline as) = as"
proof (induction as rule: rev_induct)
  case (snoc a as)
  then have a: "SPACE \<notin> set a" "a \<noteq> []" by (auto simp: plain_word_def list_all_iff word_char_def SPACE_def)
  then have "words a = [a]" using fields_word by (simp add: words_def)
  then show ?case using snoc words_snoc [OF a, of "build_cmdline as"] by (simp add: build_cmdline_snoc SPACE_def)
qed (simp add: build_cmdline_def)

lemma command_args_take: "command_args c = take 15 (words c)"
  using parse_args_words [of "dropWhile (\<lambda>c. c = SPACE) c" 0] hd_dropWhile [of "\<lambda>c. c = SPACE" c]
  by (auto simp: command_args_def words_skip)

lemma read_line_bound: "read_line_loop mx buf echo input = Some (line, e, r) \<Longrightarrow> length buf \<le> mx - 1 \<Longrightarrow> length line \<le> mx - 1"
proof (induction mx buf echo input rule: read_line_loop.induct)
  case (1 mx buf echo input)
  then show ?case by (subst (asm) (4) read_line_loop.simps) (auto split: if_splits list.splits)
qed

section \<open>The job table behind its operations\<close>

definition wf_jobs :: "job_table \<Rightarrow> bool" where
  "wf_jobs t \<longleftrightarrow> length (jobs t) = MAX_JOBS \<and> num_jobs t \<le> MAX_JOBS"

definition job_list :: "job_table \<Rightarrow> job list" where
  "job_list t = take (num_jobs t) (jobs t)"

definition active :: "job \<Rightarrow> bool" where
  "active j \<longleftrightarrow> status j \<noteq> JOB_DONE"

lemma length_job_list [simp]: "wf_jobs t \<Longrightarrow> length (job_list t) = num_jobs t"
  by (simp add: wf_jobs_def job_list_def)

lemma nth_job_list: "i < num_jobs t \<Longrightarrow> job_list t ! i = jobs t ! i"
  by (simp add: job_list_def)

lemma compact_fold:
  assumes "k \<le> length js0"
  shows "\<exists>dst js. fold compact_step [0..<k] (0, js0) = (dst, js) \<and> length js = length js0 \<and> drop k js = drop k js0 \<and> dst \<le> k \<and>
    take dst js = filter active (take k js0)"
  using assms
proof (induction k)
  case (Suc k)
  then obtain dst js where e: "fold compact_step [0..<k] (0, js0) = (dst, js)" "length js = length js0" "drop k js = drop k js0"
    "dst \<le> k" "take dst js = filter active (take k js0)" by auto
  have k: "k < length js0" using Suc by simp
  have n: "js ! k = js0 ! k" using e(2,3) k by (metis hd_drop_conv_nth)
  have d: "drop (Suc k) js = drop (Suc k) js0" using e(3) by (metis drop_Suc tl_drop)
  have t: "take (Suc k) js0 = take k js0 @ [js0 ! k]" using k by (rule take_Suc_conv_app_nth)
  have u: "take (Suc dst) (js[dst := x]) = take dst js @ [x]" for x
    using e(2,4) k by (simp add: take_Suc_conv_app_nth)
  have v: "take (Suc dst) js = take dst js @ [js ! dst]" using e(2,4) k by (simp add: take_Suc_conv_app_nth)
  have f: "fold compact_step [0..<Suc k] (0, js0) = compact_step k (dst, js)" using e(1) by simp
  show ?case
  proof (cases "active (js0 ! k)")
    case True
    then have "compact_step k (dst, js) = (Suc dst, if dst \<noteq> k then js[dst := js ! k] else js)"
      using n by (simp add: compact_step_def active_def)
    then show ?thesis using f e n d t u [of "js ! k"] v k True by auto
  next
    case False
    then have "compact_step k (dst, js) = (dst, js)" using n by (simp add: compact_step_def active_def)
    then show ?thesis using f e d t False by auto
  qed
qed simp

lemma compact_listed:
  assumes "wf_jobs t"
  shows "wf_jobs (compact_jobs t)" "job_list (compact_jobs t) = filter active (job_list t)"
proof -
  have "num_jobs t \<le> length (jobs t)" using assms by (simp add: wf_jobs_def)
  from compact_fold [OF this] obtain dst js where e: "fold compact_step [0..<num_jobs t] (0, jobs t) = (dst, js)"
    "length js = length (jobs t)" "dst \<le> num_jobs t" "take dst js = filter active (take (num_jobs t) (jobs t))" by blast
  then show "wf_jobs (compact_jobs t)" "job_list (compact_jobs t) = filter active (job_list t)"
    using assms by (simp_all add: compact_jobs_def wf_jobs_def job_list_def)
qed

lemma job_id_all_active:
  assumes "wf_jobs t" "\<forall>j\<in>set (job_list t). active j" "i \<le> num_jobs t"
  shows "job_id_of i t = Suc i"
  using assms(3)
proof (induction i)
  case (Suc i)
  then have "jobs t ! i \<in> set (job_list t)" using assms(1) nth_job_list [of i t] by (metis Suc_le_lessD length_job_list nth_mem)
  then show ?case using Suc assms(2) by (simp add: job_id_of_def active_def)
qed (simp add: job_id_of_def)

lemma find_job_index:
  assumes "wf_jobs t"
  shows "find_job_by_pid p t = - 1 \<and> (\<forall>j\<in>set (job_list t). job_pid j \<noteq> p) \<or>
    (\<exists>i<num_jobs t. find_job_by_pid p t = int i \<and> job_pid (job_list t ! i) = p)"
proof (cases "List.find (\<lambda>i. job_pid (jobs t ! i) = p) [0..<num_jobs t]")
  case None
  then have "\<forall>i<num_jobs t. job_pid (job_list t ! i) \<noteq> p" by (auto simp: find_None_iff nth_job_list)
  then show ?thesis using None assms by (auto simp: find_job_by_pid_def in_set_conv_nth)
next
  case (Some i)
  then have "i < num_jobs t" "job_pid (job_list t ! i) = p" by (auto simp: find_Some_iff nth_job_list)
  then show ?thesis using Some by (auto simp: find_job_by_pid_def)
qed

text \<open>What one reported pid does to the job_list jobs.\<close>

definition retire :: "int \<Rightarrow> job \<Rightarrow> job" where
  "retire p j = (if job_pid j = p then j\<lparr>status := JOB_DONE\<rparr> else j)"

lemma retire_simps [simp]: "job_pid (retire p j) = job_pid j" "active (retire p j) \<longleftrightarrow> active j \<and> job_pid j \<noteq> p"
  "active j \<Longrightarrow> job_pid j \<noteq> p \<Longrightarrow> retire p j = j"
  by (simp_all add: retire_def active_def)

lemma update_retire:
  assumes "distinct (map job_pid js)" "i < length js" "job_pid (js ! i) = p"
  shows "js[i := (js ! i)\<lparr>status := JOB_DONE\<rparr>] = map (retire p) js"
proof (rule nth_equalityI)
  fix k assume k: "k < length (js[i := (js ! i)\<lparr>status := JOB_DONE\<rparr>])"
  have "k \<noteq> i \<Longrightarrow> job_pid (js ! k) \<noteq> p"
    using assms k by (metis length_list_update length_map nth_eq_iff_index_eq nth_map)
  then show "js[i := (js ! i)\<lparr>status := JOB_DONE\<rparr>] ! k = map (retire p) js ! k"
    using assms k by (auto simp: nth_list_update retire_def)
qed simp

lemma reap_step:
  assumes "wf_jobs t" "distinct (map job_pid (job_list t))"
  shows "wf_jobs (reap_pid p t) \<and> job_list (reap_pid p t) = map (retire p) (job_list t)"
  using find_job_index [OF assms(1), of p]
proof (elim disjE exE conjE)
  assume "find_job_by_pid p t = - 1" "\<forall>j\<in>set (job_list t). job_pid j \<noteq> p"
  then show ?thesis using assms(1) by (auto simp: reap_pid_def retire_def map_idI)
next
  fix i assume i: "i < num_jobs t" "find_job_by_pid p t = int i" "job_pid (job_list t ! i) = p"
  then have e: "reap_pid p t = set_status i JOB_DONE t" by (simp add: reap_pid_def)
  then have "job_list (reap_pid p t) = (job_list t)[i := (job_list t ! i)\<lparr>status := JOB_DONE\<rparr>]"
    using i by (simp add: set_status_def job_list_def take_update_swap)
  then show ?thesis using update_retire [OF assms(2), of i p] i assms(1) e by (simp add: set_status_def wf_jobs_def)
qed

lemma reap_fold:
  assumes "wf_jobs t" "distinct (map job_pid (job_list t))"
  shows "wf_jobs (fold reap_pid ps t) \<and>
    filter active (job_list (fold reap_pid ps t)) =
    filter (\<lambda>j. active j \<and> job_pid j \<notin> set ps) (job_list t)"
  using assms
proof (induction ps arbitrary: t)
  case (Cons p ps)
  let ?t = "reap_pid p t"
  have s: "wf_jobs ?t" "job_list ?t = map (retire p) (job_list t)" using reap_step [OF Cons.prems, of p] by auto
  then have "distinct (map job_pid (job_list ?t))" using Cons.prems(2) by (simp add: comp_def)
  then have ih: "wf_jobs (fold reap_pid ps ?t) \<and>
    filter active (job_list (fold reap_pid ps ?t)) =
    filter (\<lambda>j. active j \<and> job_pid j \<notin> set ps) (job_list ?t)" using Cons.IH s(1) by blast
  have "filter (\<lambda>j. active j \<and> job_pid j \<notin> set ps) (map (retire p) js) = filter (\<lambda>j. active j \<and> job_pid j \<notin> set (p # ps)) js" for js
    by (induction js) auto
  then show ?case using ih s(2) by simp
qed simp

lemma find_numbered:
  assumes "wf_jobs t" "\<forall>j\<in>set (job_list t). active j"
  shows "find_job_by_id k t = (if 1 \<le> unat k \<and> unat k \<le> num_jobs t then Some (unat k - 1) else None)"
proof -
  have n: "num_jobs t \<le> 16" using assms(1) by (simp add: wf_jobs_def MAX_JOBS_def)
  have i: "status (jobs t ! i) \<noteq> JOB_DONE \<and> of_nat (job_id_of i t) = k \<longleftrightarrow> unat k = Suc i" if "i < num_jobs t" for i
  proof -
    have "jobs t ! i \<in> set (job_list t)" using that assms(1) nth_job_list [of i t] by (metis length_job_list nth_mem)
    then have a: "status (jobs t ! i) \<noteq> JOB_DONE" using assms(2) by (simp add: active_def)
    have "unat (of_nat (Suc i) :: u32) = Suc i" using that n by (intro unat_of_nat_small) simp
    then have "(of_nat (Suc i) :: u32) = k \<longleftrightarrow> unat k = Suc i" by (auto simp: word_unat_eq_iff simp del: of_nat_Suc)
    then show ?thesis using a job_id_all_active [OF assms, of i] that by simp
  qed
  have "List.find (\<lambda>i. status (jobs t ! i) \<noteq> JOB_DONE \<and> of_nat (job_id_of i t) = k) [0..<num_jobs t] =
      List.find (\<lambda>i. unat k = Suc i) [0..<num_jobs t]"
    using i by (intro find_cong) auto
  also have "\<dots> = (if 1 \<le> unat k \<and> unat k \<le> num_jobs t then Some (unat k - 1) else None)"
  proof (cases "unat k")
    case (Suc m)
    have "m < num_jobs t \<Longrightarrow> List.find (\<lambda>i. m = i) [0..<num_jobs t] = Some m"
      unfolding find_Some_iff by (intro exI [of _ m]) auto
    then show ?thesis using Suc by (auto simp: find_None_iff)
  qed (simp add: find_None_iff)
  finally show ?thesis by (simp add: find_job_by_id_def)
qed

section \<open>The plumbing of a pipeline\<close>

definition closes :: "shell_call list \<Rightarrow> int list" where
  "closes cs = concat (map (\<lambda>c. case c of Closed fd \<Rightarrow> [fd] | _ \<Rightarrow> []) cs)"

definition opens :: "shell_call list \<Rightarrow> int list" where
  "opens cs = concat (map (\<lambda>c. case c of Piped (Some (r, w)) \<Rightarrow> [r, w] | Opened f m fd \<Rightarrow> [fd] | _ \<Rightarrow> []) cs)"

definition stage_runs :: "shell_call list \<Rightarrow> (stage \<times> int \<times> int \<times> int) list" where
  "stage_runs cs = concat (map (\<lambda>c. case c of Forked st i out e p \<Rightarrow> [(st, i, out, e)] | _ \<Rightarrow> []) cs)"

lemma call_lists [simp]:
  "closes [] = []" "opens [] = []" "stage_runs [] = []"
  "closes (c # cs) = (case c of Closed fd \<Rightarrow> [fd] | _ \<Rightarrow> []) @ closes cs"
  "opens (c # cs) = (case c of Piped (Some (r, w)) \<Rightarrow> [r, w] | Opened f m fd \<Rightarrow> [fd] | _ \<Rightarrow> []) @ opens cs"
  "stage_runs (c # cs) = (case c of Forked st i out e p \<Rightarrow> [(st, i, out, e)] | _ \<Rightarrow> []) @ stage_runs cs"
  "closes (cs @ ds) = closes cs @ closes ds" "opens (cs @ ds) = opens cs @ opens ds" "stage_runs (cs @ ds) = stage_runs cs @ stage_runs ds"
  by (simp_all add: closes_def opens_def stage_runs_def)

lemma waits_silent [simp]: "closes (map (\<lambda>p. Waited) ps) = []" "opens (map (\<lambda>p. Waited) ps) = []" "stage_runs (map (\<lambda>p. Waited) ps) = []"
  by (induction ps) simp_all

definition rd_end :: "answers \<Rightarrow> nat \<Rightarrow> int" where
  "rd_end a i = fst (the (pipe_answer a i))"

definition wr_end :: "answers \<Rightarrow> nat \<Rightarrow> int" where
  "wr_end a i = snd (the (pipe_answer a i))"

fun plumbing :: "answers \<Rightarrow> nat \<Rightarrow> int \<Rightarrow> stage list \<Rightarrow> (stage \<times> int \<times> int \<times> int) list" where
  "plumbing a i prev [] = []"
| "plumbing a i prev [st] = [(st, prev, - 1, - 1)]"
| "plumbing a i prev (st # sts) = (st, prev, wr_end a i, rd_end a i) # plumbing a (Suc i) (rd_end a i) sts"

lemma length_plumbing [simp]: "length (plumbing a i prev sts) = length sts"
  by (induction a i prev sts rule: plumbing.induct) simp_all

lemma plumbing_nth:
  "j < length sts \<Longrightarrow> plumbing a i prev sts ! j =
    (sts ! j, if j = 0 then prev else rd_end a (i + j - 1),
     if Suc j < length sts then wr_end a (i + j) else - 1, if Suc j < length sts then rd_end a (i + j) else - 1)"
proof (induction a i prev sts arbitrary: j rule: plumbing.induct)
  case (3 a i prev st st' sts)
  then show ?case by (cases j) (auto simp: nth_Cons split: nat.splits)
qed simp_all

definition pipes_work :: "answers \<Rightarrow> nat \<Rightarrow> nat \<Rightarrow> bool" where
  "pipes_work a i n \<longleftrightarrow> list_all (\<lambda>j. case pipe_answer a j of None \<Rightarrow> False | Some (r, w) \<Rightarrow> r \<ge> 0 \<and> w \<ge> 0) [i..<n]"

lemma pipes_work_step:
  assumes "pipes_work a i n" "i < n"
  shows "pipe_answer a i = Some (rd_end a i, wr_end a i)" "rd_end a i \<ge> 0" "wr_end a i \<ge> 0" "pipes_work a (Suc i) n"
  using assms by (auto simp: pipes_work_def rd_end_def wr_end_def upt_conv_Cons split: option.splits)

lemma launch_stages_ok:
  assumes "sts \<noteq> []" "pipes_work a i (i + length sts - 1)" "\<forall>j<length sts. fork_answer a (i + j) > 0"
  shows "\<exists>cs. calls (launch_stages a i sts l) = calls l @ cs \<and>
    mset (closes cs) = mset (if prev_fd l \<ge> 0 then [prev_fd l] else []) + mset (opens cs) \<and>
    opens cs = concat (map (\<lambda>j. [rd_end a j, wr_end a j]) [i..<i + length sts - 1]) \<and>
    stage_runs cs = plumbing a i (prev_fd l) sts \<and>
    pipeline_pids (launch_stages a i sts l) = pipeline_pids l @ map (fork_answer a) [i..<i + length sts]"
  using assms
proof (induction sts arbitrary: i l)
  case (Cons st sts)
  let ?p = "fork_answer a i" and ?prev = "if prev_fd l \<ge> 0 then [Closed (prev_fd l)] else []"
  have p: "?p > 0" using Cons.prems(3) by (metis add.right_neutral length_greater_0_conv list.distinct(1))
  show ?case
  proof (cases sts)
    case Nil
    then show ?thesis using p by (simp add: record_child_def Let_def)
  next
    case (Cons st' sts')
    define r w where "r = rd_end a i" and "w = wr_end a i"
    have ok: "pipe_answer a i = Some (r, w)" "r \<ge> 0" "w \<ge> 0" "pipes_work a (Suc i) (i + length (st # sts) - 1)"
      using pipes_work_step [OF Cons.prems(2)] Cons by (simp_all add: r_def w_def)
    let ?l = "record_child ?p (l\<lparr>calls := calls l @ [Piped (Some (r, w)), Forked st (prev_fd l) w r ?p] @ ?prev @ [Closed w], prev_fd := r\<rparr>)"
    have f: "\<forall>j<length sts. fork_answer a (Suc i + j) > 0" using Cons.prems(3) by auto
    obtain cs where c: "calls (launch_stages a (Suc i) sts ?l) = calls ?l @ cs"
      "mset (closes cs) = mset (if prev_fd ?l \<ge> 0 then [prev_fd ?l] else []) + mset (opens cs)"
      "opens cs = concat (map (\<lambda>j. [rd_end a j, wr_end a j]) [Suc i..<Suc i + length sts - 1])"
      "stage_runs cs = plumbing a (Suc i) (prev_fd ?l) sts"
      "pipeline_pids (launch_stages a (Suc i) sts ?l) = pipeline_pids ?l @ map (fork_answer a) [Suc i..<Suc i + length sts]"
      using Cons.IH [of "Suc i" ?l] ok(4) f Cons by auto
    have e: "launch_stages a i (st # sts) l = launch_stages a (Suc i) sts ?l" using Cons ok by simp
    have l: "prev_fd ?l = r" "pipeline_pids ?l = pipeline_pids l @ [?p]"
      "calls ?l = calls l @ [Piped (Some (r, w)), Forked st (prev_fd l) w r ?p] @ ?prev @ [Closed w, Setpgid ?p (hd (pipeline_pids l @ [?p]))]"
      using p by (simp_all add: record_child_def Let_def)
    have u: "[i..<i + length (st # sts) - 1] = i # [Suc i..<Suc i + length sts - 1]" "[i..<i + length (st # sts)] = i # [Suc i..<Suc i + length sts]"
      using Cons upt_conv_Cons [of i "i + length (st # sts) - 1"] upt_conv_Cons [of i "i + length (st # sts)"]
      by (simp_all del: upt_Suc)
    have pl: "plumbing a i (prev_fd l) (st # sts) = (st, prev_fd l, w, r) # plumbing a (Suc i) r sts" using Cons by (simp add: r_def w_def)
    show ?thesis unfolding e u pl
      using c ok(2) unfolding l
      by (intro exI [of _ "[Piped (Some (r, w)), Forked st (prev_fd l) w r ?p] @ ?prev @ [Closed w, Setpgid ?p (hd (pipeline_pids l @ [?p]))] @ cs"])
        (simp add: r_def w_def)
  qed
qed simp

lemma stage_child_closes:
  assumes "fi \<ge> 0" "fo \<ge> 0"
  shows "mset (closes (stage_child fi fo st i out e)) = mset (filter (\<lambda>fd. fd \<ge> 0) [i, out, e]) + mset (opens (stage_child fi fo st i out e))"
proof -
  have r: "\<not> exits (redirect f m fd std)" "mset (closes (redirect f m fd std)) = mset (opens (redirect f m fd std))"
    if "fd \<ge> 0" for f m fd std using that by (auto simp: redirect_def exits_def split: option.splits)
  have n: "opens (stage_child fi fo st i out e) = opens (redirect (in_file st) [114] fi 0) @
      opens (redirect (out_file st) (if append_flag st then [97] else [119]) fo 1)"
    using r(1) assms by (simp add: stage_child_def Let_def)
  have "mset (closes (stage_child fi fo st i out e)) = mset (filter (\<lambda>fd. fd \<ge> 0) [i, out, e]) +
      mset (closes (redirect (in_file st) [114] fi 0)) + mset (closes (redirect (out_file st) (if append_flag st then [97] else [119]) fo 1))"
    using r(1) assms by (simp add: stage_child_def Let_def)
  then show ?thesis using r(2) assms n by simp
qed

lemma last_pipeline_text: "sts \<noteq> [] \<Longrightarrow> wf_stage (last sts) \<Longrightarrow> pipeline_text sts ws = butlast (pipeline_text sts ws) @ [32]"
proof (induction sts ws rule: pipeline_text.induct)
  case (2 st ws)
  have s: "vs \<noteq> [] \<Longrightarrow> last (spaced vs) = 32 \<and> spaced vs \<noteq> []" for vs
    by (induction vs rule: rev_induct) (simp_all add: spaced_def)
  have r: "redirections st \<noteq> [] \<Longrightarrow> last (redirections st) = 32"
    by (cases "in_file st"; cases "out_file st"; simp add: redirections_def)
  have "last (stage_text st @ spaced ws) = 32" "stage_text st \<noteq> []"
    using s [of ws] s [of "args st"] r 2 by (cases "ws = []"; cases "redirections st = []"; auto simp: stage_text_def wf_stage_def spaced_def)+
  then show ?case using append_butlast_last_id [of "stage_text st @ spaced ws"] by simp
next
  case (3 st st' sts ws)
  then have ih: "pipeline_text (st' # sts) ws = butlast (pipeline_text (st' # sts) ws) @ [32]" by simp
  then have "pipeline_text (st' # sts) ws \<noteq> []" by (metis snoc_eq_iff_butlast)
  then show ?case using ih by (simp add: butlast_append)
qed simp

section \<open>Properties of the shell\<close>

text \<open>
  The line a user types for a pipeline: words and redirections separated by single spaces, stages
  by bars, and an ampersand at the end for a job in the background.
\<close>

definition command_line :: "stage list \<Rightarrow> bool \<Rightarrow> cstring" where
  "command_line sts bg = butlast (pipeline_text sts (if bg then [AMP] else []))"

text \<open>
  C9040. Parsing what was written. The line for a pipeline of at most four stages, each with one to
  fifteen plain words (fourteen in the last one of a background job, where the ampersand takes a place)
  and redirections to plain words, is parsed into these stages, and the last one is marked when the line
  ends in an ampersand.
\<close>
theorem parse_line_roundtrip:
  assumes "sts \<noteq> []" "length sts \<le> MAX_STAGES" "list_all wf_stage sts"
    "if bg then length (args (last sts)) \<le> 14 else last (args (last sts)) \<noteq> AMP"
  shows "parse_line (command_line sts bg) = (if bg then butlast sts @ [(last sts)\<lparr>background := True\<rparr>] else sts)"
proof -
  let ?ws = "if bg then [AMP] else []"
  let ?p = "pipeline_text sts ?ws"
  have wf: "wf_stage (hd sts)" "wf_stage (last sts)" using assms(1,3) by (simp_all add: list_all_iff)
  have "plain_word AMP" by (simp add: AMP_def plain_word_def word_char_def)
  then have ws: "list_all plain_word ?ws" "length (args (last sts)) + length ?ws \<le> 15"
    using assms(4) wf(2) by (auto simp: wf_stage_def)
  have "parse_stages ?p [] = add_words ?ws sts"
    using parse_stages_text [OF assms(1,3) ws, of "[]"] assms(2) by (simp add: MAX_STAGES_def)
  moreover have "parse_line (command_line sts bg) = parse_line ?p"
    using last_pipeline_text [OF assms(1) wf(2), of ?ws] parse_line_trailing [of "command_line sts bg"] by (simp add: command_line_def)
  moreover have "args (last sts) \<noteq> []" using wf(2) by (simp add: wf_stage_def)
  ultimately show ?thesis
    using pipeline_text_start [OF assms(1) wf(1), of ?ws] assms(1,4)
    by (cases bg) (auto simp: parse_line_def Let_def add_words_def)
qed

text \<open>The stages of \<^verbatim>\<open>ls / | wc >> out &\<close>.\<close>

definition sample_stages :: "stage list" where
  "sample_stages = [empty_stage\<lparr>args := [[108, 115], [47]]\<rparr>,
     empty_stage\<lparr>args := [[119, 99]], out_file := Some [111, 117, 116], append_flag := True\<rparr>]"

theorem parse_line_roundtrip_witness:
  "command_line sample_stages True = [108, 115, 32, 47, 32, 124, 32, 119, 99, 32, 62, 62, 32, 111, 117, 116, 32, 38] \<and>
   parse_line (command_line sample_stages True) = butlast sample_stages @ [(last sample_stages)\<lparr>background := True\<rparr>]"
  using parse_line_roundtrip [of sample_stages True]
  by (simp add: sample_stages_def MAX_STAGES_def wf_stage_def empty_stage_def plain_word_def word_char_def command_line_def
      stage_text_def spaced_def redirections_def AMP_def)

text \<open>
  A bar directly behind a word is overwritten by the terminator of the word: \<^verbatim>\<open>ls|wc\<close> is one
  stage with two arguments.
\<close>
lemma bar_behind_word_is_lost:
  "parse_line [108, 115, 124, 119, 99] = [empty_stage\<lparr>args := [[108, 115], [119, 99]]\<rparr>]"
  by (simp add: parse_line_def skip_spaces_def parse_stages.simps parse_stage.simps parse_token_def take_word_def word_char_def
      add_arg_def empty_stage_def MAX_ARGS_def MAX_STAGES_def next_stage_def AMP_def Let_def)

text \<open>
  C9041. From the keyboard to the new program. The command line that is handed to exec for any stage of
  any line read fits its 256-byte buffer, and the kernel cuts it back into exactly the arguments of the
  stage.
\<close>
theorem shell_passes_arguments:
  assumes "read_line LINE_MAX input = Some (line, echo, rest)" "st \<in> set (parse_line line)"
  shows "length (build_cmdline (args st)) < LINE_MAX \<and> command_args (build_cmdline (args st)) = args st"
proof -
  have "length line \<le> LINE_MAX - 1" using read_line_bound [of LINE_MAX "[]" "[]" input] assms(1) by (simp add: read_line_def)
  then show ?thesis
    using parse_line_inv [OF assms(2)]
    by (auto simp: length_build_cmdline command_args_take words_build_cmdline arg_words_def LINE_MAX_def)
qed

theorem shell_passes_arguments_witness:
  "\<exists>echo. read_line LINE_MAX [108, 120, 8, 115, 32, 32, 47, 10] = Some ([108, 115, 32, 32, 47], echo, []) \<and>
     command_args (build_cmdline [[108, 115], [47]]) = [[108, 115], [47]]"
proof -
  obtain echo where r: "read_line LINE_MAX [108, 120, 8, 115, 32, 32, 47, 10] = Some ([108, 115, 32, 32, 47], echo, [])"
    by (simp add: read_line_def LINE_MAX_def read_line_loop.simps)
  have "parse_line [108, 115, 32, 32, 47] = [empty_stage\<lparr>args := [[108, 115], [47]]\<rparr>]"
    by (simp add: parse_line_def skip_spaces_def parse_stages.simps parse_stage.simps parse_token_def take_word_def word_char_def
        add_arg_def empty_stage_def MAX_ARGS_def MAX_STAGES_def next_stage_def AMP_def Let_def)
  then show ?thesis using shell_passes_arguments [OF r, of "empty_stage\<lparr>args := [[108, 115], [47]]\<rparr>"] r by simp
qed

text \<open>
  C9042. Numbers of jobs. After the reported children are struck out and the table is compacted, it lists
  the jobs that are neither done nor reported, in their old order, and a job number n given to fg means the
  nth job listed.
\<close>
theorem job_numbers_follow_list:
  assumes "wf_jobs t" "distinct (map job_pid (job_list t))"
  shows "let t' = compact_jobs (reap_background_jobs pids t); n = unat (parse_job_id s)
    in wf_jobs t' \<and> job_list t' = filter (\<lambda>j. active j \<and> job_pid j \<notin> set (takeWhile (\<lambda>p. p > 0) pids)) (job_list t) \<and>
       fg_target [FG, s] t' = (if 1 \<le> n \<and> n \<le> num_jobs t' then Some (n - 1) else None)"
proof -
  define t1 where "t1 = reap_background_jobs pids t"
  define t' where "t' = compact_jobs t1"
  let ?n = "unat (parse_job_id s)"
  have t1: "wf_jobs t1" "filter active (job_list t1) = filter (\<lambda>j. active j \<and> job_pid j \<notin> set (takeWhile (\<lambda>p. p > 0) pids)) (job_list t)"
    using reap_fold [OF assms, of "takeWhile (\<lambda>p. p > 0) pids"] by (simp_all add: t1_def reap_background_jobs_def)
  have t': "wf_jobs t'" "job_list t' = filter active (job_list t1)" using compact_listed [OF t1(1)] by (simp_all add: t'_def)
  have act: "\<forall>j\<in>set (job_list t'). active j" using t'(2) by simp
  have "fg_target [FG, s] t' = (if 1 \<le> ?n \<and> ?n \<le> num_jobs t' then Some (?n - 1) else None)"
    using find_numbered [OF t'(1) act] by (simp add: fg_target_def)
  then show ?thesis unfolding Let_def t1_def [symmetric] t'_def [symmetric] using t' t1(2) by simp
qed

definition sample_job :: "int \<Rightarrow> job_status \<Rightarrow> job" where
  "sample_job p st = \<lparr>job_pid = p, job_pgid = p, status = st, job_name = [99]\<rparr>"

definition sample_jobs :: job_table where
  "sample_jobs = \<lparr>jobs = [sample_job 3 JOB_RUNNING, sample_job 4 JOB_DONE, sample_job 5 JOB_STOPPED] @ replicate 13 (sample_job 0 JOB_DONE),
     num_jobs = 3\<rparr>"

theorem job_numbers_follow_list_witness:
  "let t' = compact_jobs (reap_background_jobs [3, 0] sample_jobs)
   in job_list t' = [sample_job 5 JOB_STOPPED] \<and> fg_target [FG, [49]] t' = Some 0"
proof -
  have l: "job_list sample_jobs = [sample_job 3 JOB_RUNNING, sample_job 4 JOB_DONE, sample_job 5 JOB_STOPPED]"
    by (simp add: job_list_def sample_jobs_def)
  have wf: "wf_jobs sample_jobs" "distinct (map job_pid (job_list sample_jobs))"
    using l by (simp_all add: wf_jobs_def sample_jobs_def MAX_JOBS_def sample_job_def)
  note r = job_numbers_follow_list [OF wf, of "[3, 0]" "[49]", unfolded Let_def]
  have j: "job_list (compact_jobs (reap_background_jobs [3, 0] sample_jobs)) = [sample_job 5 JOB_STOPPED]"
    using r l by (simp add: sample_job_def active_def)
  have w: "wf_jobs (compact_jobs (reap_background_jobs [3, 0] sample_jobs))" using r by simp
  have n: "num_jobs (compact_jobs (reap_background_jobs [3, 0] sample_jobs)) = 1" using j length_job_list [OF w] by simp
  have "unat (parse_job_id [49]) = 1" by (simp add: parse_job_id_def)
  then show ?thesis using r j n by (simp add: Let_def)
qed

text \<open>
  C9043. The plumbing of a pipeline. When every pipe and every fork succeeds, the shell runs the stages in
  order, the first reading from no pipe, each later one from the pipe behind its predecessor, each but the
  last writing to its own pipe; the shell closes each descriptor it got from pipe exactly once, each child
  closes every descriptor of a pipe it was given as well as the files it opened, and the table gets one job,
  with the process of the last stage in the group of the first.
\<close>
theorem pipeline_plumbing:
  assumes "sts \<noteq> []" "pipes_work a 0 (length sts - 1)" "\<forall>j<length sts. fork_answer a j > 0"
  shows "let (cs, t') = run_pipeline a sts t
    in mset (closes cs) = mset (opens cs) \<and>
       opens cs = concat (map (\<lambda>j. [rd_end a j, wr_end a j]) [0..<length sts - 1]) \<and>
       stage_runs cs = map (\<lambda>j. (sts ! j, if j = 0 then - 1 else rd_end a (j - 1),
                        if Suc j < length sts then wr_end a j else - 1,
                        if Suc j < length sts then rd_end a j else - 1)) [0..<length sts] \<and>
       (\<forall>(st, i, out, e)\<in>set (stage_runs cs). fi \<ge> 0 \<longrightarrow> fo \<ge> 0 \<longrightarrow>
          mset (closes (stage_child fi fo st i out e)) = mset (filter (\<lambda>fd. fd \<ge> 0) [i, out, e]) + mset (opens (stage_child fi fo st i out e))) \<and>
       (let t1 = add_job (fork_answer a (length sts - 1)) (fork_answer a 0) (hd (args (hd sts))) t
        in t' = (if background (last sts) then t1 else settle_job a (fork_answer a (length sts - 1)) t1))"
proof -
  let ?start = "\<lparr>prev_fd = - 1, pipeline_pids = [], calls = []\<rparr> :: launch"
  let ?l = "launch_stages a 0 sts ?start"
  obtain cs where c: "calls ?l = cs" "mset (closes cs) = mset (opens cs)"
    "opens cs = concat (map (\<lambda>j. [rd_end a j, wr_end a j]) [0..<length sts - 1])"
    "stage_runs cs = plumbing a 0 (- 1) sts" "pipeline_pids ?l = map (fork_answer a) [0..<length sts]"
    using launch_stages_ok [OF assms(1), of a 0 ?start] assms(2,3) by auto
  have run: "stage_runs cs = map (\<lambda>j. (sts ! j, if j = 0 then - 1 else rd_end a (j - 1),
                        if Suc j < length sts then wr_end a j else - 1,
                        if Suc j < length sts then rd_end a j else - 1)) [0..<length sts]"
    unfolding c(4) using assms(1) by (intro nth_equalityI) (auto simp: plumbing_nth)
  have ends: "last (pipeline_pids ?l) = fork_answer a (length sts - 1)" "hd (pipeline_pids ?l) = fork_answer a 0" "pipeline_pids ?l \<noteq> []"
    using assms(1) by (simp_all add: c(5) last_map hd_map)
  have child: "mset (closes (stage_child fi fo st i out e)) = mset (filter (\<lambda>fd. fd \<ge> 0) [i, out, e]) + mset (opens (stage_child fi fo st i out e))"
    if "fi \<ge> 0" "fo \<ge> 0" for st i out e by (rule stage_child_closes [OF that])
  show ?thesis using c run ends child
    by (simp add: run_pipeline_def Let_def del: map_map)
qed

definition sample_answers :: answers where
  "sample_answers = \<lparr>pipe_answer = (\<lambda>i. Some (3 + 2 * int i, 4 + 2 * int i)), fork_answer = (\<lambda>i. 7 + int i), still_alive = (\<lambda>p. False)\<rparr>"

theorem pipeline_plumbing_witness:
  "stage_runs (fst (run_pipeline sample_answers sample_stages sample_jobs)) =
     [(hd sample_stages, - 1, 4, 3), (last sample_stages, 3, - 1, - 1)] \<and>
   mset (closes (fst (run_pipeline sample_answers sample_stages sample_jobs))) = {#3, 4#}"
  using pipeline_plumbing [of sample_stages sample_answers sample_jobs 0 0]
  by (simp add: sample_answers_def sample_stages_def pipes_work_def rd_end_def wr_end_def case_prod_beta Let_def upt_rec)

end
