(* ===== verification/Spec2Isabelle.thy ===== *)
theory Spec2Isabelle
  imports LibcStdio KPrint Tables Boot LibcHeap Shell
begin

text \<open>
  A model of a 32-bit x86 teaching kernel: the parts under \<^verbatim>\<open>src/kernel/src\<close>.
\<close>

end
